(* ===== verification/Prelude.thy ===== *)
theory Prelude
  imports Main "HOL-Library.Word"
begin

unbundle bit_operations_syntax

text \<open>
  Shared vocabulary of the development: the type of results of code that can throw, the
  monadic check that models the \<^verbatim>\<open>VELOX_CHECK\<close> family of macros, the collections of
  rewrite rules the component theories fill, and generic facts on lists and words.
\<close>

section \<open>Results and checks\<close>

type_synonym u64 = "64 word"

named_theorems result_simps \<open>rewriting of results of operations that may throw\<close>
named_theorems set_abs \<open>abstraction of bit representations to sets\<close>

text \<open>A check that throws the error \<open>e\<close> when its condition is false.\<close>

definition check :: "bool \<Rightarrow> 'e \<Rightarrow> ('e + 'a) \<Rightarrow> ('e + 'a)" where
  "check c e r = (if c then r else Inl e)"

definition bind_res :: "('e + 'a) \<Rightarrow> ('a \<Rightarrow> 'e + 'b) \<Rightarrow> 'e + 'b" where
  "bind_res r f = (case r of Inl e \<Rightarrow> Inl e | Inr x \<Rightarrow> f x)"

lemma check_Inr_iff [result_simps, simp]: "check c e r = Inr x \<longleftrightarrow> c \<and> r = Inr x"
  by (simp add: check_def)

lemma check_True [result_simps, simp]: "check True e r = r"
  by (simp add: check_def)

lemma check_False [result_simps, simp]: "check False e r = Inl e"
  by (simp add: check_def)

lemma bind_res_Inl [result_simps, simp]: "bind_res (Inl e) f = Inl e"
  by (simp add: bind_res_def)

lemma bind_res_Inr [result_simps, simp]: "bind_res (Inr x) f = f x"
  by (simp add: bind_res_def)

lemma bind_res_Inr_iff [result_simps]:
  "bind_res r f = Inr y \<longleftrightarrow> (\<exists>x. r = Inr x \<and> f x = Inr y)"
  by (cases r) auto

end
