(* ===== verification/Id_Set.thy ===== *)
theory Id_Set
  imports Prelude
begin

text \<open>
  The contract both id sets of the optimizer promise their clients: \<^verbatim>\<open>BitSet\<close> (a growing
  vector of words) and \<^verbatim>\<open>RelationSet\<close> (one word) represent finite sets of ids through an
  abstraction \<open>\<alpha>\<close>, and each operation is the set operation of its name. The lemmas here hold
  for any provider of the contract; the two classes interpret the locale in their theories.
\<close>

locale id_set =
  fixes \<alpha> :: "'s \<Rightarrow> nat set"
    and ok :: "nat \<Rightarrow> bool"
    and emp :: 's
    and add :: "'s \<Rightarrow> nat \<Rightarrow> 's"
    and erase :: "'s \<Rightarrow> nat \<Rightarrow> 's"
    and contains :: "'s \<Rightarrow> nat \<Rightarrow> bool"
    and isEmpty :: "'s \<Rightarrow> bool"
    and isSubset :: "'s \<Rightarrow> 's \<Rightarrow> bool"
    and hasIntersection :: "'s \<Rightarrow> 's \<Rightarrow> bool"
    and unionSet :: "'s \<Rightarrow> 's \<Rightarrow> 's"
    and intersect :: "'s \<Rightarrow> 's \<Rightarrow> 's"
    and except :: "'s \<Rightarrow> 's \<Rightarrow> 's"
    and size :: "'s \<Rightarrow> nat"
    and eq :: "'s \<Rightarrow> 's \<Rightarrow> bool"
  assumes emp: "\<alpha> emp = {}"
    and finite_\<alpha>: "finite (\<alpha> s)"
    and add: "ok i \<Longrightarrow> \<alpha> (add s i) = insert i (\<alpha> s)"
    and erase: "\<alpha> (erase s i) = \<alpha> s - {i}"
    and contains: "contains s i \<longleftrightarrow> i \<in> \<alpha> s"
    and isEmpty: "isEmpty s \<longleftrightarrow> \<alpha> s = {}"
    and isSubset: "isSubset s t \<longleftrightarrow> \<alpha> s \<subseteq> \<alpha> t"
    and hasIntersection: "hasIntersection s t \<longleftrightarrow> \<alpha> s \<inter> \<alpha> t \<noteq> {}"
    and unionSet: "\<alpha> (unionSet s t) = \<alpha> s \<union> \<alpha> t"
    and intersect: "\<alpha> (intersect s t) = \<alpha> s \<inter> \<alpha> t"
    and except: "\<alpha> (except s t) = \<alpha> s - \<alpha> t"
    and size: "size s = card (\<alpha> s)"
    and eq: "eq s t \<longleftrightarrow> \<alpha> s = \<alpha> t"
begin

lemmas specs = emp add erase contains isEmpty isSubset hasIntersection unionSet intersect
  except size eq

lemma eq_iff_mutual_subset: "eq s t \<longleftrightarrow> isSubset s t \<and> isSubset t s"
  by (auto simp: specs)

lemma size_partition: "size s = size (intersect s t) + size (except s t)"
  by (simp add: specs card_Int_Diff [OF finite_\<alpha>])

lemma except_union_restores: "isSubset t s \<Longrightarrow> eq (unionSet (except s t) t) s"
  by (auto simp: specs)

lemma except_disjoint: "\<not> hasIntersection (except s t) t"
  by (auto simp: specs)

lemma size_0_iff: "size s = 0 \<longleftrightarrow> isEmpty s"
  by (simp add: specs finite_\<alpha>)

lemma size_unionSet_disjoint:
  "\<not> hasIntersection s t \<Longrightarrow> size (unionSet s t) = size s + size t"
  by (simp add: specs card_Un_disjoint finite_\<alpha>)

lemma fold_add: "\<forall>i\<in>set is. ok i \<Longrightarrow> \<alpha> (fold (\<lambda>i s. add s i) is s) = \<alpha> s \<union> set is"
  by (induction "is" arbitrary: s) (auto simp: specs)

lemma fold_unionSet: "\<alpha> (fold (\<lambda>t s. unionSet s t) ts s) = \<alpha> s \<union> (\<Union>t\<in>set ts. \<alpha> t)"
  by (induction ts arbitrary: s) (auto simp: specs)

lemma grow_strict:
  "hasIntersection t s \<Longrightarrow> \<not> isSubset t s \<Longrightarrow> size s < size (unionSet s t)"
  by (auto simp: specs finite_\<alpha> intro!: psubset_card_mono)

end

end
