(* ===== verification/Relation_Set.thy ===== *)
theory Relation_Set
  imports Id_Set
begin

unbundle bit_operations_syntax

text \<open>
  The class \<^verbatim>\<open>RelationSet\<close> of \<^verbatim>\<open>axiom/optimizer/v2/RelationSet.h\<close>: a set of relation ids
  below 64 in one 64-bit word, with which the join enumeration names subsets of a join
  cluster. Ids are natural numbers; the class asks its callers for ids below
  \<open>kMaxRelations\<close> (a debug check), and the lemmas carry that as a hypothesis. The abstraction
  \<open>ids\<close> maps a word to the set of its bit positions; every operation is shown to be the set
  operation it is named after.
\<close>

section \<open>Bit functions of the C++ standard library\<close>

text \<open>\<^verbatim>\<open>std::countr_zero\<close> and \<^verbatim>\<open>std::popcount\<close> at width 64.\<close>

definition countr_zero :: "u64 \<Rightarrow> nat" where
  "countr_zero w = (case find (bit w) [0..<64] of None \<Rightarrow> 64 | Some i \<Rightarrow> i)"

definition popcount :: "u64 \<Rightarrow> nat" where
  "popcount w = length (filter (bit w) [0..<64])"

section \<open>The class\<close>

datatype relation_set = RelationSet (bits: u64)

definition kMaxRelations :: nat where
  "kMaxRelations = 64"

definition mask_of :: "nat \<Rightarrow> u64" where
  "mask_of i = push_bit i 1"

definition rs_empty_set :: relation_set where
  "rs_empty_set = RelationSet 0"

definition rs_contains :: "relation_set \<Rightarrow> nat \<Rightarrow> bool" where
  "rs_contains s i \<longleftrightarrow> bits s AND mask_of i \<noteq> 0"

definition rs_add :: "relation_set \<Rightarrow> nat \<Rightarrow> relation_set" where
  "rs_add s i = RelationSet (bits s OR mask_of i)"

definition rs_erase :: "relation_set \<Rightarrow> nat \<Rightarrow> relation_set" where
  "rs_erase s i = RelationSet (bits s AND NOT (mask_of i))"

definition singleton :: "nat \<Rightarrow> relation_set" where
  "singleton i = rs_add rs_empty_set i"

definition prefixThrough :: "nat \<Rightarrow> relation_set" where
  "prefixThrough i =
     (if i = kMaxRelations - 1 then RelationSet (NOT 0)
      else RelationSet (push_bit (i + 1) 1 - 1))"

definition rs_empty :: "relation_set \<Rightarrow> bool" where
  "rs_empty s \<longleftrightarrow> bits s = 0"

definition rs_clear :: "relation_set \<Rightarrow> relation_set" where
  "rs_clear s = RelationSet 0"

definition rs_isSubset :: "relation_set \<Rightarrow> relation_set \<Rightarrow> bool" where
  "rs_isSubset s super \<longleftrightarrow> bits s AND NOT (bits super) = 0"

definition rs_hasIntersection :: "relation_set \<Rightarrow> relation_set \<Rightarrow> bool" where
  "rs_hasIntersection s t \<longleftrightarrow> bits s AND bits t \<noteq> 0"

definition rs_intersect :: "relation_set \<Rightarrow> relation_set \<Rightarrow> relation_set" where
  "rs_intersect s t = RelationSet (bits s AND bits t)"

definition rs_unionSet :: "relation_set \<Rightarrow> relation_set \<Rightarrow> relation_set" where
  "rs_unionSet s t = RelationSet (bits s OR bits t)"

definition rs_except :: "relation_set \<Rightarrow> relation_set \<Rightarrow> relation_set" where
  "rs_except s t = RelationSet (bits s AND NOT (bits t))"

definition rs_size :: "relation_set \<Rightarrow> nat" where
  "rs_size s = popcount (bits s)"

definition rs_min :: "relation_set \<Rightarrow> nat" where
  "rs_min s = countr_zero (bits s)"

text \<open>
  The two loops over the set bits. Each turn takes the lowest set bit and clears it with
  \<^verbatim>\<open>remaining &= remaining - 1\<close>. \<open>visit\<close> is the sequence of ids \<^verbatim>\<open>forEach\<close> passes to its
  callback; \<open>rs_forEach\<close> threads the state the callback mutates.
\<close>

lemma clear_lowest_less: "w \<noteq> 0 \<Longrightarrow> unat (w AND (w - 1)) < unat (w :: u64)"
proof -
  assume "w \<noteq> 0"
  then have "unat (w - 1) < unat w"
    by (simp add: measure_unat)
  moreover have "unat (w AND (w - 1)) \<le> unat (w - 1)"
    by (simp add: word_and_le1 flip: word_le_nat_alt)
  ultimately show ?thesis by simp
qed

function visit :: "u64 \<Rightarrow> nat list" where
  "visit remaining =
     (if remaining = 0 then []
      else countr_zero remaining # visit (remaining AND (remaining - 1)))"
  by pat_completeness auto
termination
  by (relation "measure unat") (auto intro: clear_lowest_less)

declare visit.simps [simp del]

lemma visit_0 [simp]: "visit 0 = []"
  by (simp add: visit.simps)

definition rs_forEach :: "(nat \<Rightarrow> 's \<Rightarrow> 's) \<Rightarrow> relation_set \<Rightarrow> 's \<Rightarrow> 's" where
  "rs_forEach f s st = fold f (visit (bits s)) st"

function any_loop :: "(nat \<Rightarrow> bool) \<Rightarrow> u64 \<Rightarrow> bool" where
  "any_loop p remaining =
     (if remaining = 0 then False
      else if p (countr_zero remaining) then True
      else any_loop p (remaining AND (remaining - 1)))"
  by pat_completeness auto
termination
  by (relation "measure (\<lambda>(p, w). unat w)") (auto intro: clear_lowest_less)

declare any_loop.simps [simp del]

lemma any_loop_0 [simp]: "any_loop p 0 = False"
  by (simp add: any_loop.simps)

definition rs_anyOf :: "(nat \<Rightarrow> bool) \<Rightarrow> relation_set \<Rightarrow> bool" where
  "rs_anyOf p s = any_loop p (bits s)"

section \<open>Abstraction to sets of ids\<close>

definition ids :: "relation_set \<Rightarrow> nat set" where
  "ids s = {i. bit (bits s) i}"

lemma bit_u64_less: "bit (w :: u64) i \<Longrightarrow> i < 64"
  using bit_imp_le_length [of w i] by simp

lemma ids_bound: "i \<in> ids s \<Longrightarrow> i < 64"
  by (auto simp: ids_def dest: bit_u64_less)

lemma ids_finite [simp]: "finite (ids s)"
  by (rule finite_subset [of _ "{..<64}"]) (auto dest: ids_bound)

lemma ids_eq_iff: "ids s = ids t \<longleftrightarrow> s = t"
  by (cases s; cases t) (auto simp: ids_def bit_eq_iff set_eq_iff dest: bit_u64_less)

lemma bit_mask_of: "bit (mask_of i) j \<longleftrightarrow> i = j \<and> i < 64"
  by (auto simp: mask_of_def bit_simps)

lemma word_eq_0_iff_bits: "w = 0 \<longleftrightarrow> (\<forall>i. \<not> bit (w :: u64) i)"
  by (auto simp: bit_eq_iff dest: bit_u64_less)

lemma ids_empty_set [set_abs]: "ids rs_empty_set = {}"
  by (simp add: ids_def rs_empty_set_def)

lemma ids_contains [set_abs]: "rs_contains s i \<longleftrightarrow> i \<in> ids s"
  using bit_imp_le_length [of "bits s" i]
  by (auto simp: rs_contains_def ids_def word_eq_0_iff_bits bit_and_iff bit_mask_of)

lemma ids_add [set_abs]: "i < 64 \<Longrightarrow> ids (rs_add s i) = insert i (ids s)"
  by (auto simp: rs_add_def ids_def bit_or_iff bit_mask_of)

lemma ids_erase [set_abs]: "ids (rs_erase s i) = ids s - {i}"
  using bit_imp_le_length
  by (fastforce simp: rs_erase_def ids_def bit_and_iff bit_not_iff bit_mask_of)

lemma ids_singleton [set_abs]: "i < 64 \<Longrightarrow> ids (singleton i) = {i}"
  by (simp add: singleton_def set_abs)

lemma ids_is_empty [set_abs]: "rs_empty s \<longleftrightarrow> ids s = {}"
  by (simp add: rs_empty_def ids_def word_eq_0_iff_bits)

lemma ids_clear [set_abs]: "ids (rs_clear s) = {}"
  by (simp add: rs_clear_def ids_def)

lemma ids_isSubset [set_abs]: "rs_isSubset s t \<longleftrightarrow> ids s \<subseteq> ids t"
  using bit_imp_le_length
  by (fastforce simp: rs_isSubset_def ids_def word_eq_0_iff_bits bit_and_iff bit_not_iff)

lemma ids_hasIntersection [set_abs]: "rs_hasIntersection s t \<longleftrightarrow> ids s \<inter> ids t \<noteq> {}"
  by (auto simp: rs_hasIntersection_def ids_def word_eq_0_iff_bits bit_and_iff)

lemma ids_intersect [set_abs]: "ids (rs_intersect s t) = ids s \<inter> ids t"
  by (auto simp: rs_intersect_def ids_def bit_and_iff)

lemma ids_unionSet [set_abs]: "ids (rs_unionSet s t) = ids s \<union> ids t"
  by (auto simp: rs_unionSet_def ids_def bit_or_iff)

lemma ids_except [set_abs]: "ids (rs_except s t) = ids s - ids t"
  using bit_imp_le_length
  by (fastforce simp: rs_except_def ids_def bit_and_iff bit_not_iff)

lemma ids_prefixThrough [set_abs]: "i < 64 \<Longrightarrow> ids (prefixThrough i) = {..i}"
proof -
  assume i: "i < 64"
  have "(push_bit (i + 1) 1 - 1 :: u64) = mask (Suc i)"
    by (simp add: mask_eq_exp_minus_1)
  with i show ?thesis
    by (auto simp: prefixThrough_def kMaxRelations_def ids_def bit_simps)
qed

section \<open>The lowest set bit\<close>

lemma find_bit_Some:
  "find P [0..<n] = Some i \<longleftrightarrow> i < n \<and> P i \<and> (\<forall>j<i. \<not> P j)"
  by (auto simp: find_Some_iff)

lemma countr_zero_lowest:
  assumes "w \<noteq> 0"
  shows "bit w (countr_zero w)" and "j < countr_zero w \<Longrightarrow> \<not> bit w j"
proof -
  obtain k where k: "bit w k" "k < 64"
    using assms bit_imp_le_length by (fastforce simp: word_eq_0_iff_bits)
  then have "find (bit w) [0..<64] \<noteq> None"
    by (auto simp: find_None_iff)
  then obtain i where i: "find (bit w) [0..<64] = Some i" by blast
  then have "countr_zero w = i" by (simp add: countr_zero_def)
  moreover from i have "bit w i \<and> (\<forall>j<i. \<not> bit w j)" unfolding find_bit_Some by blast
  ultimately have "countr_zero w = i \<and> bit w i \<and> (\<forall>j<i. \<not> bit w j)" by simp
  then show "bit w (countr_zero w)" and "j < countr_zero w \<Longrightarrow> \<not> bit w j" by auto
qed

lemma int_bit_minus_1:
  "(\<And>j. j < n \<Longrightarrow> \<not> bit r j) \<Longrightarrow> bit r n \<Longrightarrow>
   bit (r - 1 :: int) i \<longleftrightarrow> (if i < n then True else if i = n then False else bit r i)"
proof (induction n arbitrary: r i)
  case 0
  then have "odd r" by (simp add: bit_0)
  then show ?case by (cases i) (auto simp: bit_0 bit_Suc elim: oddE)
next
  case (Suc n)
  have even: "even r" using Suc.prems(1) [of 0] by (simp add: bit_0)
  then have div: "(r - 1) div 2 = r div 2 - 1" by presburger
  have IH: "bit (r div 2 - 1) k \<longleftrightarrow>
      (if k < n then True else if k = n then False else bit (r div 2) k)" for k
  proof (rule Suc.IH)
    show "\<not> bit (r div 2) j" if "j < n" for j
      using Suc.prems(1) [of "Suc j"] that by (simp add: bit_Suc)
    show "bit (r div 2) n" using Suc.prems(2) by (simp add: bit_Suc)
  qed
  show ?case
    using even by (cases i) (simp_all add: bit_0 bit_Suc div IH)
qed

lemma bit_clear_lowest:
  assumes "w \<noteq> 0"
  shows "bit (w AND (w - 1)) i \<longleftrightarrow> bit w i \<and> i \<noteq> countr_zero (w :: u64)"
proof -
  let ?n = "countr_zero w"
  have low: "bit (uint w) ?n" "\<And>j. j < ?n \<Longrightarrow> \<not> bit (uint w) j"
    using countr_zero_lowest [OF assms] by (auto simp: bit_uint_iff dest: bit_u64_less)
  have sub: "uint (w - 1) = uint w - 1" using assms by uint_arith
  have "bit (w - 1) i \<longleftrightarrow> i < 64 \<and> bit (uint w - 1) i"
    using sub bit_uint_iff [of "w - 1" i] by (auto dest: bit_imp_le_length)
  then have "bit (w - 1) i \<longleftrightarrow> i < 64 \<and>
      (if i < ?n then True else if i = ?n then False else bit (uint w) i)"
    using int_bit_minus_1 [OF low(2) low(1)] by simp
  then show ?thesis
    using countr_zero_lowest [OF assms] bit_imp_le_length [of w i]
    by (auto simp: bit_and_iff bit_uint_iff)
qed

section \<open>The loops\<close>

lemma set_visit: "set (visit w) = {i. bit w i}"
proof (induction w rule: visit.induct)
  case (1 w)
  show ?case
  proof (cases "w = 0")
    case True
    then show ?thesis by simp
  next
    case False
    then have "set (visit w) = insert (countr_zero w) {i. bit w i \<and> i \<noteq> countr_zero w}"
      using "1" by (simp add: visit.simps [of w] bit_clear_lowest)
    then show ?thesis using countr_zero_lowest(1) [OF False] by auto
  qed
qed

lemma sorted_visit: "sorted_wrt (<) (visit w)"
proof (induction w rule: visit.induct)
  case (1 w)
  show ?case
  proof (cases "w = 0")
    case True
    then show ?thesis by simp
  next
    case False
    have "countr_zero w < i" if "bit w i" "i \<noteq> countr_zero w" for i
      using countr_zero_lowest(2) [OF False] that by (metis linorder_neqE_nat)
    then show ?thesis
      using "1" False by (auto simp: visit.simps [of w] set_visit bit_clear_lowest)
  qed
qed

lemma visit_ids: "visit (bits s) = sorted_list_of_set (ids s)"
proof (rule sorted_distinct_set_unique)
  show "sorted (visit (bits s))" and "distinct (visit (bits s))"
    using sorted_visit [of "bits s"] by (simp_all add: strict_sorted_iff)
  show "set (visit (bits s)) = set (sorted_list_of_set (ids s))"
    by (simp add: set_visit ids_def [of s, symmetric])
qed simp_all

lemma any_loop_iff: "any_loop p w \<longleftrightarrow> (\<exists>i. bit w i \<and> p i)"
proof (induction p w rule: any_loop.induct)
  case (1 p w)
  show ?case
  proof (cases "w = 0")
    case True
    then show ?thesis by simp
  next
    case False
    show ?thesis
    proof (cases "p (countr_zero w)")
      case True
      then show ?thesis
        using False countr_zero_lowest(1) [OF False] by (auto simp: any_loop.simps [of p w])
    next
      case no: False
      then have "any_loop p w \<longleftrightarrow> (\<exists>i. (bit w i \<and> i \<noteq> countr_zero w) \<and> p i)"
        using False "1" by (simp add: any_loop.simps [of p w] bit_clear_lowest)
      then show ?thesis using no by auto
    qed
  qed
qed

lemma ids_anyOf [set_abs]: "rs_anyOf p s \<longleftrightarrow> (\<exists>i\<in>ids s. p i)"
  by (auto simp: rs_anyOf_def any_loop_iff ids_def)

lemma ids_forEach: "rs_forEach f s st = fold f (sorted_list_of_set (ids s)) st"
  by (simp add: rs_forEach_def visit_ids)

lemma ids_size [set_abs]: "rs_size s = card (ids s)"
proof -
  have "set (filter (bit (bits s)) [0..<64]) = ids s"
    by (auto simp: ids_def dest: bit_u64_less)
  moreover have "distinct (filter (bit (bits s)) [0..<64])" by simp
  ultimately show ?thesis
    unfolding rs_size_def popcount_def by (metis distinct_card)
qed

lemma ids_min [set_abs]: "ids s \<noteq> {} \<Longrightarrow> rs_min s = Min (ids s)"
proof -
  assume "ids s \<noteq> {}"
  then have nz: "bits s \<noteq> 0" by (simp add: ids_def word_eq_0_iff_bits)
  have "countr_zero (bits s) \<in> ids s"
    using countr_zero_lowest(1) [OF nz] by (simp add: ids_def)
  moreover have "countr_zero (bits s) \<le> i" if "i \<in> ids s" for i
    using countr_zero_lowest(2) [OF nz, of i] that by (auto simp: ids_def not_less [symmetric])
  ultimately show ?thesis
    unfolding rs_min_def by (intro Min_eqI [symmetric]) auto
qed

lemma rs_eqI: "ids s = ids t \<Longrightarrow> s = t"
  by (simp add: ids_eq_iff)

interpretation rset: id_set ids "\<lambda>i. i < kMaxRelations" rs_empty_set rs_add rs_erase rs_contains
  rs_empty rs_isSubset rs_hasIntersection rs_unionSet rs_intersect rs_except rs_size "(=)"
  by unfold_locales (simp_all add: set_abs kMaxRelations_def ids_eq_iff)

section \<open>Properties\<close>

text \<open>
  C26: A RelationSet is a set of ids below 64: the default set and a cleared set are empty,
  \<open>empty\<close> is emptiness, every operation is the set operation of its name, \<open>prefixThrough i\<close> is \<open>{0..i}\<close> also at the last id where the shift would overflow, \<open>size\<close> and
  \<open>min\<close> are cardinality and minimum, two sets are equal exactly when their words are, and the
  loops of \<open>forEach\<close> and \<open>anyOf\<close> end after visiting each member once in ascending order.
\<close>

theorem relation_set_is_set:
  assumes "i < kMaxRelations"
  shows "(rs_contains s i \<longleftrightarrow> i \<in> ids s) \<and>
    ids (rs_add s i) = insert i (ids s) \<and>
    ids (rs_erase s i) = ids s - {i} \<and>
    ids (singleton i) = {i} \<and>
    ids (prefixThrough i) = {..i} \<and>
    (rs_isSubset s t \<longleftrightarrow> ids s \<subseteq> ids t) \<and>
    (rs_hasIntersection s t \<longleftrightarrow> ids s \<inter> ids t \<noteq> {}) \<and>
    ids (rs_unionSet s t) = ids s \<union> ids t \<and>
    ids (rs_intersect s t) = ids s \<inter> ids t \<and>
    ids (rs_except s t) = ids s - ids t \<and>
    (s = t \<longleftrightarrow> ids s = ids t) \<and>
    rs_size s = card (ids s) \<and>
    (ids s \<noteq> {} \<longrightarrow> rs_min s = Min (ids s)) \<and>
    (rs_empty s \<longleftrightarrow> ids s = {}) \<and>
    ids rs_empty_set = {} \<and>
    ids (rs_clear s) = {} \<and>
    ids s \<subseteq> {..<kMaxRelations} \<and>
    (rs_anyOf p s \<longleftrightarrow> (\<exists>i. i \<in> ids s \<and> p i)) \<and>
    rs_forEach f s st = fold f (sorted_list_of_set (ids s)) st"
  using assms by (auto simp: set_abs kMaxRelations_def ids_eq_iff ids_forEach dest: ids_bound)

text \<open>At \<open>{1, 63}\<close>, with 63 the largest id there is.\<close>

theorem relation_set_is_set_witness:
  "63 < kMaxRelations \<and> ids (prefixThrough 63) = {..63} \<and>
   rs_forEach (\<lambda>i xs. i # xs) (RelationSet 0x8000000000000002) [] = [63, 1]"
proof -
  have lt: "63 < kMaxRelations" by (simp add: kMaxRelations_def)
  have "ids (prefixThrough 63) = {..63}"
    by (rule relation_set_is_set [OF lt, THEN conjunct2, THEN conjunct2, THEN conjunct2,
          THEN conjunct2, THEN conjunct1])
  moreover have "rs_forEach (\<lambda>i xs. i # xs) (RelationSet 0x8000000000000002) [] = [63, 1]"
    by code_simp
  ultimately show ?thesis using lt by (intro conjI)
qed

end
