(* ===== verification/Bit_Set.thy ===== *)
theory Bit_Set
  imports Id_Set
begin

unbundle bit_operations_syntax

text \<open>
  The class \<^verbatim>\<open>BitSet\<close> of \<^verbatim>\<open>axiom/optimizer/BitSet.h\<close> and \<^verbatim>\<open>BitSet.cpp\<close>: a set of object
  ids in a vector of 64-bit words that grows on demand, the base class of the optimizer's
  sets of columns and tables. Its single-bit and range primitives come from Velox
  (\<^verbatim>\<open>velox/common/base/BitUtil.h\<close>), which is not part of the repository: they are the fields
  of the parameter record \<open>velox_bits\<close>, and \<open>velox_bits_ok\<close> states what their documentation
  promises. The word loops of \<^verbatim>\<open>operator==\<close>, \<^verbatim>\<open>unionSet\<close>, \<^verbatim>\<open>intersect\<close> and \<^verbatim>\<open>hash\<close> are the
  class's own and are modelled as written.
\<close>

section \<open>The Velox primitives\<close>

record velox_bits =
  isBitSet :: "u64 list \<Rightarrow> nat \<Rightarrow> bool"
  setBit :: "u64 list \<Rightarrow> nat \<Rightarrow> u64 list"
  clearBit :: "u64 list \<Rightarrow> nat \<Rightarrow> u64 list"
  nwords :: "nat \<Rightarrow> nat"
  rangeIsSubset :: "u64 list \<Rightarrow> u64 list \<Rightarrow> nat \<Rightarrow> nat \<Rightarrow> bool"
  rangeHasIntersection :: "u64 list \<Rightarrow> u64 list \<Rightarrow> nat \<Rightarrow> nat \<Rightarrow> bool"
  countBits :: "u64 list \<Rightarrow> nat \<Rightarrow> nat \<Rightarrow> nat"
  forEachSetBit :: "u64 list \<Rightarrow> nat \<Rightarrow> nat \<Rightarrow> nat list"
  testSetBits :: "u64 list \<Rightarrow> nat \<Rightarrow> nat \<Rightarrow> (nat \<Rightarrow> bool) \<Rightarrow> bool"

text \<open>Bit \<open>i\<close> of a vector of words: bit \<open>i mod 64\<close> of word \<open>i div 64\<close>.\<close>

definition bit_at :: "u64 list \<Rightarrow> nat \<Rightarrow> bool" where
  "bit_at ws i \<longleftrightarrow> i < length ws * 64 \<and> bit (ws ! (i div 64)) (i mod 64)"

definition velox_bits_ok :: "velox_bits \<Rightarrow> bool" where
  "velox_bits_ok lib \<longleftrightarrow>
     (\<forall>ws i. i < length ws * 64 \<longrightarrow> isBitSet lib ws i = bit_at ws i) \<and>
     (\<forall>ws i. i < length ws * 64 \<longrightarrow> length (setBit lib ws i) = length ws \<and>
        (\<forall>j. bit_at (setBit lib ws i) j \<longleftrightarrow> j = i \<or> bit_at ws j)) \<and>
     (\<forall>ws i. i < length ws * 64 \<longrightarrow> length (clearBit lib ws i) = length ws \<and>
        (\<forall>j. bit_at (clearBit lib ws i) j \<longleftrightarrow> j \<noteq> i \<and> bit_at ws j)) \<and>
     (\<forall>n. nwords lib n = (n + 63) div 64) \<and>
     (\<forall>sub sup n. n \<le> length sub * 64 \<and> n \<le> length sup * 64 \<longrightarrow>
        rangeIsSubset lib sub sup 0 n = (\<forall>i<n. bit_at sub i \<longrightarrow> bit_at sup i)) \<and>
     (\<forall>a b n. n \<le> length a * 64 \<and> n \<le> length b * 64 \<longrightarrow>
        rangeHasIntersection lib a b 0 n = (\<exists>i<n. bit_at a i \<and> bit_at b i)) \<and>
     (\<forall>ws n. n \<le> length ws * 64 \<longrightarrow> countBits lib ws 0 n = card {i. i < n \<and> bit_at ws i}) \<and>
     (\<forall>ws n. n \<le> length ws * 64 \<longrightarrow>
        forEachSetBit lib ws 0 n = filter (bit_at ws) [0..<n]) \<and>
     (\<forall>ws n p. n \<le> length ws * 64 \<longrightarrow>
        testSetBits lib ws 0 n p = (\<forall>i<n. bit_at ws i \<longrightarrow> p i))"

section \<open>The class\<close>

datatype bitset = BitSet (words: "u64 list")

definition bs_empty_set :: bitset where
  "bs_empty_set = BitSet []"

definition ensureWords :: "bitset \<Rightarrow> nat \<Rightarrow> bitset" where
  "ensureWords b n =
     (if length (words b) < n then BitSet (words b @ replicate (n - length (words b)) 0) else b)"

definition ensureSize :: "velox_bits \<Rightarrow> bitset \<Rightarrow> nat \<Rightarrow> bitset" where
  "ensureSize lib b i = ensureWords b (nwords lib (i + 1))"

definition bs_contains :: "velox_bits \<Rightarrow> bitset \<Rightarrow> nat \<Rightarrow> bool" where
  "bs_contains lib b i \<longleftrightarrow> i < length (words b) * 64 \<and> isBitSet lib (words b) i"

definition bs_add :: "velox_bits \<Rightarrow> bitset \<Rightarrow> nat \<Rightarrow> bitset" where
  "bs_add lib b i = BitSet (setBit lib (words (ensureSize lib b i)) i)"

definition bs_erase :: "velox_bits \<Rightarrow> bitset \<Rightarrow> nat \<Rightarrow> bitset" where
  "bs_erase lib b i =
     (if i < length (words b) * 64 then BitSet (clearBit lib (words b) i) else b)"

definition bs_empty :: "bitset \<Rightarrow> bool" where
  "bs_empty b \<longleftrightarrow> list_all (\<lambda>w. w = 0) (words b)"

definition bs_clear :: "bitset \<Rightarrow> bitset" where
  "bs_clear b = BitSet (replicate (length (words b)) 0)"

text \<open>The helper \<^verbatim>\<open>isZero(bits, begin, end)\<close>: the words from \<open>begin\<close> to \<open>end\<close> are all zero.\<close>

definition isZero :: "u64 list \<Rightarrow> nat \<Rightarrow> nat \<Rightarrow> bool" where
  "isZero ws lo hi \<longleftrightarrow> list_all (\<lambda>i. ws ! i = 0) [lo..<hi]"

definition bs_eq :: "bitset \<Rightarrow> bitset \<Rightarrow> bool" where
  "bs_eq b other =
     (let l1 = length (words b); l2 = length (words other) in
      if \<not> list_all (\<lambda>i. words b ! i = words other ! i) [0..<min l1 l2] then False
      else if l1 < l2 then isZero (words other) l1 l2
      else if l2 < l1 then isZero (words b) l2 l1
      else True)"

definition bs_isSubset :: "velox_bits \<Rightarrow> bitset \<Rightarrow> bitset \<Rightarrow> bool" where
  "bs_isSubset lib b super =
     (let l1 = length (words b); l2 = length (words super) in
      if \<not> rangeIsSubset lib (words b) (words super) 0 (min l1 l2 * 64) then False
      else if l2 < l1 then isZero (words b) l2 l1
      else True)"

definition bs_hasIntersection :: "velox_bits \<Rightarrow> bitset \<Rightarrow> bitset \<Rightarrow> bool" where
  "bs_hasIntersection lib b other =
     rangeHasIntersection lib (words b) (words other) 0
       (min (length (words b)) (length (words other)) * 64)"

text \<open>
  \<^verbatim>\<open>hash()\<close>, with \<open>crc32U64\<close> the checksum step of \<^verbatim>\<open>velox::simd\<close>; \<^verbatim>\<open>size_t\<close> multiplication
  wraps at 64 bits.
\<close>

definition bs_hash :: "(u64 \<Rightarrow> u64 \<Rightarrow> u64) \<Rightarrow> bitset \<Rightarrow> u64" where
  "bs_hash crc32U64 b =
     (let h = fold (\<lambda>word h. crc32U64 h word) (words b) 123 in h * h)"

definition bs_unionSet :: "bitset \<Rightarrow> bitset \<Rightarrow> bitset" where
  "bs_unionSet b other =
     (let ws = words (ensureWords b (length (words other))) in
      BitSet (fold (\<lambda>i ws. ws[i := ws ! i OR words other ! i]) [0..<length (words other)] ws))"

definition bs_intersect :: "bitset \<Rightarrow> bitset \<Rightarrow> bitset" where
  "bs_intersect b other =
     (let ws = take (min (length (words b)) (length (words other))) (words b) in
      BitSet (fold (\<lambda>i ws. ws[i := ws ! i AND words other ! i]) [0..<length ws] ws))"

definition bs_except :: "velox_bits \<Rightarrow> bitset \<Rightarrow> bitset \<Rightarrow> bitset" where
  "bs_except lib b other =
     fold (\<lambda>i b. if i < length (words b) * 64 then BitSet (clearBit lib (words b) i) else b)
       (forEachSetBit lib (words other) 0 (length (words other) * 64)) b"

definition bs_size :: "velox_bits \<Rightarrow> bitset \<Rightarrow> nat" where
  "bs_size lib b = countBits lib (words b) 0 (length (words b) * 64)"

definition bs_forEach :: "velox_bits \<Rightarrow> (nat \<Rightarrow> 's \<Rightarrow> 's) \<Rightarrow> bitset \<Rightarrow> 's \<Rightarrow> 's" where
  "bs_forEach lib f b st = fold f (forEachSetBit lib (words b) 0 (length (words b) * 64)) st"

definition bs_anyOf :: "velox_bits \<Rightarrow> (nat \<Rightarrow> bool) \<Rightarrow> bitset \<Rightarrow> bool" where
  "bs_anyOf lib p b \<longleftrightarrow>
     \<not> testSetBits lib (words b) 0 (length (words b) * 64) (\<lambda>i. \<not> p i)"

section \<open>Abstraction\<close>

definition members :: "bitset \<Rightarrow> nat set" where
  "members b = {i. bit_at (words b) i}"

lemma bit_at_bound: "bit_at ws i \<Longrightarrow> i < length ws * 64"
  by (simp add: bit_at_def)

lemma members_finite [simp]: "finite (members b)"
  by (rule finite_subset [of _ "{..<length (words b) * 64}"]) (auto simp: members_def bit_at_def)

lemma u64_eq_iff_bits: "a = b \<longleftrightarrow> (\<forall>i<64. bit (a :: u64) i = bit b i)"
  by (auto simp: bit_eq_iff)

lemma bit_at_word: "k < length ws \<Longrightarrow> i < 64 \<Longrightarrow> bit_at ws (k * 64 + i) = bit (ws ! k) i"
  by (auto simp: bit_at_def)

lemma bit_at_ensureWords [simp]: "bit_at (words (ensureWords b n)) i = bit_at (words b) i"
  by (auto simp: bit_at_def ensureWords_def nth_append)

lemma length_ensureWords [simp]:
  "length (words (ensureWords b n)) = max n (length (words b))"
  by (auto simp: ensureWords_def)

lemma word_zero_iff: "k < length ws \<Longrightarrow> ws ! k = 0 \<longleftrightarrow> (\<forall>i<64. \<not> bit_at ws (k * 64 + i))"
  by (simp add: bit_at_word u64_eq_iff_bits [of "ws ! k" 0])

lemma isZero_iff:
  "e \<le> length ws \<Longrightarrow> isZero ws b e \<longleftrightarrow> (\<forall>i. b * 64 \<le> i \<and> i < e * 64 \<longrightarrow> \<not> bit_at ws i)"
proof -
  assume e: "e \<le> length ws"
  have "isZero ws b e \<longleftrightarrow> (\<forall>k. b \<le> k \<and> k < e \<longrightarrow> (\<forall>i<64. \<not> bit_at ws (k * 64 + i)))"
    using e by (auto simp: isZero_def list_all_iff word_zero_iff)
  also have "\<dots> \<longleftrightarrow> (\<forall>i. b * 64 \<le> i \<and> i < e * 64 \<longrightarrow> \<not> bit_at ws i)"
  proof (intro iffI allI impI)
    fix i assume *: "\<forall>k. b \<le> k \<and> k < e \<longrightarrow> (\<forall>i<64. \<not> bit_at ws (k * 64 + i))"
      and i: "b * 64 \<le> i \<and> i < e * 64"
    have "b \<le> i div 64 \<and> i div 64 < e" using i by (auto simp: less_mult_imp_div_less)
    then show "\<not> bit_at ws i" using * [rule_format, of "i div 64" "i mod 64"] by simp
  qed auto
  finally show ?thesis .
qed

lemma words_agree_iff:
  assumes "n \<le> length a" "n \<le> length b"
  shows "list_all (\<lambda>i. a ! i = b ! i) [0..<n] \<longleftrightarrow> (\<forall>i<n * 64. bit_at a i = bit_at b i)"
proof
  assume "list_all (\<lambda>i. a ! i = b ! i) [0..<n]"
  then show "\<forall>i<n * 64. bit_at a i = bit_at b i"
    using assms by (auto simp: list_all_iff bit_at_def less_mult_imp_div_less)
next
  assume *: "\<forall>i<n * 64. bit_at a i = bit_at b i"
  have "a ! k = b ! k" if k: "k < n" for k
  proof -
    have "bit (a ! k) i = bit (b ! k) i" if "i < 64" for i
      using * [rule_format, of "k * 64 + i"] k that assms by (simp add: bit_at_word)
    then show ?thesis by (simp add: u64_eq_iff_bits)
  qed
  then show "list_all (\<lambda>i. a ! i = b ! i) [0..<n]" by (simp add: list_all_iff)
qed

text \<open>A loop that rewrites word \<open>i\<close> from word \<open>i\<close> alone is a pointwise map.\<close>

lemma fold_update_words:
  "n \<le> length ws \<Longrightarrow>
   fold (\<lambda>i ws. ws[i := f i (ws ! i)]) [0..<n] ws =
   map (\<lambda>i. if i < n then f i (ws ! i) else ws ! i) [0..<length ws]"
proof (induction n)
  case 0
  then show ?case by (simp add: map_nth)
next
  case (Suc n)
  then show ?case by (auto intro!: nth_equalityI simp: nth_list_update)
qed

lemma fold_update_all_words:
  "fold (\<lambda>i ws. ws[i := f i (ws ! i)]) [0..<length ws] ws = map (\<lambda>i. f i (ws ! i)) [0..<length ws]"
  by (simp add: fold_update_words cong: map_cong)

section \<open>Every operation is the set operation of its name\<close>

lemma members_empty_set [set_abs]: "members bs_empty_set = {}"
  by (simp add: members_def bs_empty_set_def bit_at_def)

lemma members_is_empty [set_abs]: "bs_empty b \<longleftrightarrow> members b = {}"
proof -
  have "bs_empty b \<longleftrightarrow> isZero (words b) 0 (length (words b))"
    by (auto simp: bs_empty_def isZero_def list_all_iff all_set_conv_all_nth)
  then show ?thesis by (auto simp: isZero_iff members_def dest: bit_at_bound)
qed

lemma members_clear [set_abs]: "members (bs_clear b) = {}"
  by (auto simp: members_def bs_clear_def bit_at_def less_mult_imp_div_less)

text \<open>
  Comparing two bounded sets of bits on the common words and the rest of the longer vector
  compares them everywhere.
\<close>

lemma bounded_eq_iff:
  fixes P Q :: "nat \<Rightarrow> bool"
  assumes "\<And>i. P i \<Longrightarrow> i < m" and "\<And>i. Q i \<Longrightarrow> i < n"
  shows "(\<forall>i. P i = Q i) \<longleftrightarrow> (\<forall>i<min m n. P i = Q i) \<and>
    (\<forall>i. m \<le> i \<and> i < n \<longrightarrow> \<not> Q i) \<and> (\<forall>i. n \<le> i \<and> i < m \<longrightarrow> \<not> P i)"
  using assms by (meson leD linorder_not_less min_less_iff_conj)

lemma bounded_le_iff:
  fixes P Q :: "nat \<Rightarrow> bool"
  assumes "\<And>i. P i \<Longrightarrow> i < m" and "\<And>i. Q i \<Longrightarrow> i < n"
  shows "(\<forall>i. P i \<longrightarrow> Q i) \<longleftrightarrow> (\<forall>i<min m n. P i \<longrightarrow> Q i) \<and> (\<forall>i. n \<le> i \<and> i < m \<longrightarrow> \<not> P i)"
  using assms by (meson leD linorder_not_less min_less_iff_conj)

lemma min_mult_64: "min m n * 64 = min (m * 64) (n * 64 :: nat)"
  by (simp add: min_def)

lemma isZero_vacuous: "e \<le> b \<Longrightarrow> isZero ws b e"
  by (simp add: isZero_def)

lemma members_eq [set_abs]: "bs_eq b c \<longleftrightarrow> members b = members c"
proof -
  let ?l = "min (length (words b)) (length (words c))"
  have agree: "list_all (\<lambda>i. words b ! i = words c ! i) [0..<?l] \<longleftrightarrow>
      (\<forall>i<?l * 64. bit_at (words b) i = bit_at (words c) i)"
    by (rule words_agree_iff) simp_all
  have "bs_eq b c \<longleftrightarrow> (\<forall>i<?l * 64. bit_at (words b) i = bit_at (words c) i) \<and>
      isZero (words c) (length (words b)) (length (words c)) \<and>
      isZero (words b) (length (words c)) (length (words b))"
    unfolding bs_eq_def Let_def agree by (simp add: isZero_vacuous)
  also have "\<dots> \<longleftrightarrow> (\<forall>i. bit_at (words b) i = bit_at (words c) i)"
    by (simp add: bounded_eq_iff [where P = "bit_at (words b)" and Q = "bit_at (words c)",
          OF bit_at_bound bit_at_bound]
        isZero_iff min_mult_64)
  finally show ?thesis by (auto simp: members_def set_eq_iff)
qed

lemma bit_at_map_upt:
  "bit_at (map f [0..<n]) i \<longleftrightarrow> i < n * 64 \<and> bit (f (i div 64)) (i mod 64)"
  by (auto simp: bit_at_def less_mult_imp_div_less)

lemma bit_at_or_words:
  "length vs \<le> length ws \<Longrightarrow>
   bit_at (map (\<lambda>i. if i < length vs then ws ! i OR vs ! i else ws ! i) [0..<length ws]) i \<longleftrightarrow>
   bit_at ws i \<or> bit_at vs i"
  by (auto simp: bit_at_map_upt bit_at_def bit_or_iff less_mult_imp_div_less split: if_splits)

lemma members_unionSet [set_abs]: "members (bs_unionSet b c) = members b \<union> members c"
proof -
  define ws where "ws = words (ensureWords b (length (words c)))"
  have len: "length (words c) \<le> length ws" by (simp add: ws_def)
  then have "words (bs_unionSet b c) =
      map (\<lambda>i. if i < length (words c) then ws ! i OR words c ! i else ws ! i) [0..<length ws]"
    unfolding bs_unionSet_def Let_def ws_def [symmetric]
    by (simp add: fold_update_words [where f = "\<lambda>i w. w OR words c ! i"])
  then have "bit_at (words (bs_unionSet b c)) i \<longleftrightarrow> bit_at ws i \<or> bit_at (words c) i" for i
    using len by (simp only: bit_at_or_words)
  then show ?thesis by (auto simp: members_def ws_def)
qed

lemma members_intersect [set_abs]: "members (bs_intersect b c) = members b \<inter> members c"
proof -
  define n where "n = min (length (words b)) (length (words c))"
  let ?ws = "take n (words b)"
  have n: "length ?ws = n" by (simp add: n_def)
  have w: "words (bs_intersect b c) = map (\<lambda>i. ?ws ! i AND words c ! i) [0..<n]"
    unfolding bs_intersect_def Let_def n_def [symmetric]
    using fold_update_all_words [where f = "\<lambda>i w. w AND words c ! i" and ws = ?ws]
    unfolding n by simp
  have "bit_at (words (bs_intersect b c)) i \<longleftrightarrow> bit_at (words b) i \<and> bit_at (words c) i" for i
  proof (cases "i < n * 64")
    case True
    then have "i div 64 < n" by (simp add: less_mult_imp_div_less)
    moreover have "i < length (words b) * 64 \<and> i < length (words c) * 64"
      using True by (simp add: n_def min_mult_64)
    ultimately show ?thesis using True
      unfolding w bit_at_map_upt by (simp add: bit_at_def bit_and_iff)
  next
    case False
    then show ?thesis unfolding w bit_at_map_upt by (auto simp: bit_at_def n_def min_mult_64)
  qed
  then show ?thesis by (auto simp: members_def)
qed

text \<open>The operations that call Velox, under its contract.\<close>

lemma velox_okD:
  assumes "velox_bits_ok lib"
  shows ok_isBitSet: "i < length ws * 64 \<Longrightarrow> isBitSet lib ws i = bit_at ws i"
    and ok_length_setBit: "i < length ws * 64 \<Longrightarrow> length (setBit lib ws i) = length ws"
    and ok_setBit: "i < length ws * 64 \<Longrightarrow> bit_at (setBit lib ws i) j \<longleftrightarrow> j = i \<or> bit_at ws j"
    and ok_length_clearBit: "i < length ws * 64 \<Longrightarrow> length (clearBit lib ws i) = length ws"
    and ok_clearBit: "i < length ws * 64 \<Longrightarrow> bit_at (clearBit lib ws i) j \<longleftrightarrow> j \<noteq> i \<and> bit_at ws j"
    and ok_nwords: "nwords lib n = (n + 63) div 64"
    and ok_isSubset: "n \<le> length ws * 64 \<Longrightarrow> n \<le> length vs * 64 \<Longrightarrow>
      rangeIsSubset lib ws vs 0 n = (\<forall>i<n. bit_at ws i \<longrightarrow> bit_at vs i)"
    and ok_hasIntersection: "n \<le> length ws * 64 \<Longrightarrow> n \<le> length vs * 64 \<Longrightarrow>
      rangeHasIntersection lib ws vs 0 n = (\<exists>i<n. bit_at ws i \<and> bit_at vs i)"
    and ok_countBits: "n \<le> length ws * 64 \<Longrightarrow> countBits lib ws 0 n = card {i. i < n \<and> bit_at ws i}"
    and ok_forEach: "n \<le> length ws * 64 \<Longrightarrow> forEachSetBit lib ws 0 n = filter (bit_at ws) [0..<n]"
    and ok_testSetBits: "n \<le> length ws * 64 \<Longrightarrow>
      testSetBits lib ws 0 n p = (\<forall>i<n. bit_at ws i \<longrightarrow> p i)"
  using assms unfolding velox_bits_ok_def by simp_all

locale velox_contract =
  fixes lib :: velox_bits
  assumes ok: "velox_bits_ok lib"
begin

lemmas velox = velox_okD [OF ok]

lemma members_contains: "bs_contains lib b i \<longleftrightarrow> i \<in> members b"
  using ok_isBitSet [OF ok] by (auto simp: bs_contains_def members_def dest: bit_at_bound)

lemma members_add: "members (bs_add lib b i) = insert i (members b)"
proof -
  have "i < length (words (ensureSize lib b i)) * 64"
    by (auto simp: ensureSize_def velox max_def)
  then show ?thesis
    by (auto simp: bs_add_def members_def velox ensureSize_def)
qed

lemma members_erase: "members (bs_erase lib b i) = members b - {i}"
  by (auto simp: bs_erase_def members_def velox dest: bit_at_bound)

lemma members_isSubset: "bs_isSubset lib b c \<longleftrightarrow> members b \<subseteq> members c"
proof -
  have "bs_isSubset lib b c \<longleftrightarrow>
      (\<forall>i<min (length (words b)) (length (words c)) * 64.
         bit_at (words b) i \<longrightarrow> bit_at (words c) i) \<and>
      isZero (words b) (length (words c)) (length (words b))"
    unfolding bs_isSubset_def Let_def
    using ok_isSubset [OF ok, of _ "words b" "words c"] by (simp add: isZero_vacuous)
  also have "\<dots> \<longleftrightarrow> (\<forall>i. bit_at (words b) i \<longrightarrow> bit_at (words c) i)"
    by (simp add: bounded_le_iff [where P = "bit_at (words b)" and Q = "bit_at (words c)",
          OF bit_at_bound bit_at_bound]
        isZero_iff min_mult_64)
  finally show ?thesis by (auto simp: members_def)
qed

lemma members_hasIntersection: "bs_hasIntersection lib b c \<longleftrightarrow> members b \<inter> members c \<noteq> {}"
  unfolding bs_hasIntersection_def
  by (auto simp: velox members_def min_def dest: bit_at_bound)

lemma members_size: "bs_size lib b = card (members b)"
proof -
  have "{i. i < length (words b) * 64 \<and> bit_at (words b) i} = members b"
    by (auto simp: members_def dest: bit_at_bound)
  then show ?thesis by (simp add: bs_size_def velox)
qed

lemma visited: "forEachSetBit lib (words b) 0 (length (words b) * 64) = sorted_list_of_set (members b)"
proof -
  have "set (filter (bit_at (words b)) [0..<length (words b) * 64]) = members b"
    by (auto simp: members_def dest: bit_at_bound)
  then show ?thesis
    by (simp add: velox sorted_distinct_set_unique sorted_wrt_filter)
qed

lemma members_forEach: "bs_forEach lib f b st = fold f (sorted_list_of_set (members b)) st"
  by (simp add: bs_forEach_def visited)

lemma members_anyOf: "bs_anyOf lib p b \<longleftrightarrow> (\<exists>i\<in>members b. p i)"
  by (auto simp: bs_anyOf_def velox members_def dest: bit_at_bound)

lemma members_fold_erase:
  "members (fold (\<lambda>i b. if i < length (words b) * 64 then BitSet (clearBit lib (words b) i) else b)
     xs b) = members b - set xs"
proof (induction xs arbitrary: b)
  case (Cons x xs)
  have "members (if x < length (words b) * 64 then BitSet (clearBit lib (words b) x) else b) =
      members b - {x}"
    using members_erase [of b x] by (simp add: bs_erase_def)
  then show ?case using Cons by auto
qed simp

lemma members_except: "members (bs_except lib b c) = members b - members c"
  unfolding bs_except_def visited members_fold_erase by simp

lemmas member_specs = members_contains members_add members_erase members_isSubset
  members_hasIntersection members_size members_forEach members_anyOf members_except

end

sublocale velox_contract \<subseteq> bset: id_set members "\<lambda>_. True" bs_empty_set "bs_add lib" "bs_erase lib"
  "bs_contains lib" bs_empty "bs_isSubset lib" "bs_hasIntersection lib" bs_unionSet bs_intersect
  "bs_except lib" "bs_size lib" bs_eq
  by unfold_locales (simp_all add: set_abs member_specs)

section \<open>A word-level provider of the Velox contract\<close>

text \<open>
  The primitives written out on words, as a provider of the contract on which the hypotheses
  of the properties below are discharged.
\<close>

definition word_bits :: velox_bits where
  "word_bits = \<lparr>
     isBitSet = (\<lambda>ws i. bit (ws ! (i div 64)) (i mod 64)),
     setBit = (\<lambda>ws i. ws[i div 64 := set_bit (i mod 64) (ws ! (i div 64))]),
     clearBit = (\<lambda>ws i. ws[i div 64 := unset_bit (i mod 64) (ws ! (i div 64))]),
     nwords = (\<lambda>n. (n + 63) div 64),
     rangeIsSubset = (\<lambda>a b lo hi. list_all (\<lambda>i. bit_at a i \<longrightarrow> bit_at b i) [lo..<hi]),
     rangeHasIntersection = (\<lambda>a b lo hi. list_ex (\<lambda>i. bit_at a i \<and> bit_at b i) [lo..<hi]),
     countBits = (\<lambda>ws lo hi. length (filter (bit_at ws) [lo..<hi])),
     forEachSetBit = (\<lambda>ws lo hi. filter (bit_at ws) [lo..<hi]),
     testSetBits = (\<lambda>ws lo hi p. list_all p (filter (bit_at ws) [lo..<hi]))\<rparr>"

lemma div_mod_64_eq: "i div 64 = j div 64 \<Longrightarrow> i mod 64 = j mod 64 \<Longrightarrow> i = (j :: nat)"
  by (metis div_mult_mod_eq)

lemma word_bits_setBit:
  "i < length ws * 64 \<Longrightarrow> bit_at (setBit word_bits ws i) j \<longleftrightarrow> j = i \<or> bit_at ws j"
  by (auto simp: word_bits_def bit_at_def nth_list_update bit_set_bit_iff less_mult_imp_div_less
      dest: div_mod_64_eq)

lemma word_bits_clearBit:
  "i < length ws * 64 \<Longrightarrow> bit_at (clearBit word_bits ws i) j \<longleftrightarrow> j \<noteq> i \<and> bit_at ws j"
  by (auto simp: word_bits_def bit_at_def nth_list_update bit_unset_bit_iff less_mult_imp_div_less
      dest: div_mod_64_eq)

lemma word_bits_countBits: "countBits word_bits ws 0 n = card {i. i < n \<and> bit_at ws i}"
proof -
  have "distinct (filter (bit_at ws) [0..<n])" by simp
  moreover have "set (filter (bit_at ws) [0..<n]) = {i. i < n \<and> bit_at ws i}" by auto
  ultimately have "length (filter (bit_at ws) [0..<n]) = card {i. i < n \<and> bit_at ws i}"
    by (metis distinct_card)
  then show ?thesis by (simp add: word_bits_def)
qed

lemma word_bits_ok: "velox_bits_ok word_bits"
  unfolding velox_bits_ok_def
  by (intro conjI allI impI word_bits_setBit word_bits_clearBit word_bits_countBits)
    (auto simp: word_bits_def bit_at_def list_all_iff list_ex_iff)

interpretation wbits: velox_contract word_bits
  by unfold_locales (rule word_bits_ok)

section \<open>Properties\<close>

text \<open>
  C27: A BitSet is a finite set of ids: for any Velox primitives that keep their documented
  contract, \<open>contains\<close>, \<open>add\<close>, \<open>erase\<close>, \<open>isSubset\<close>, \<open>hasIntersection\<close>, \<open>unionSet\<close>, \<open>intersect\<close>,
  \<open>except\<close>, \<open>size\<close>, \<open>empty\<close> and \<open>operator==\<close> are membership, insertion, removal, inclusion,
  non-disjointness, union, intersection, difference, cardinality, emptiness and equality of
  the sets represented, whatever the lengths of the two word vectors. The default set and a
  cleared set are empty, and clearing keeps the words for reuse. \<open>anyOf\<close> tells whether a member
  satisfies the predicate, and \<open>forEach\<close> visits the members once each in ascending order.
\<close>

theorem bitset_is_set:
  assumes "velox_bits_ok lib"
  shows "(bs_contains lib b i \<longleftrightarrow> i \<in> members b) \<and>
    (members (bs_add lib b i) = insert i (members b)) \<and>
    (members (bs_erase lib b i) = members b - {i}) \<and>
    (bs_isSubset lib b c \<longleftrightarrow> members b \<subseteq> members c) \<and>
    (bs_hasIntersection lib b c \<longleftrightarrow> members b \<inter> members c \<noteq> {}) \<and>
    (members (bs_unionSet b c) = members b \<union> members c) \<and>
    (members (bs_intersect b c) = members b \<inter> members c) \<and>
    (members (bs_except lib b c) = members b - members c) \<and>
    (bs_size lib b = card (members b)) \<and>
    (bs_empty b \<longleftrightarrow> members b = {}) \<and>
    (bs_eq b c \<longleftrightarrow> members b = members c) \<and>
    (members bs_empty_set = {}) \<and>
    (members (bs_clear b) = {} \<and> length (words (bs_clear b)) = length (words b)) \<and>
    (bs_anyOf lib p b \<longleftrightarrow> (\<exists>i. i \<in> members b \<and> p i)) \<and>
    (bs_forEach lib f b st = fold f (sorted_list_of_set (members b)) st)"
proof -
  have "velox_contract lib" using assms by unfold_locales
  moreover have "length (words (bs_clear b)) = length (words b)" by (simp add: bs_clear_def)
  ultimately show ?thesis by (simp add: velox_contract.member_specs set_abs Bex_def)
qed

text \<open>At the word-level provider: \<open>{2, 70}\<close> and \<open>{2}\<close> held in vectors of two and one words.\<close>

theorem bitset_is_set_witness:
  "bs_isSubset word_bits (BitSet [4]) (BitSet [4, 64]) \<and>
   members (bs_except word_bits (BitSet [4, 64]) (BitSet [4])) =
     members (BitSet [4, 64]) - members (BitSet [4]) \<and>
   bs_size word_bits (BitSet [4, 64]) = 2"
proof -
  have sub: "bs_isSubset word_bits (BitSet [4]) (BitSet [4, 64])" by code_simp
  have size: "bs_size word_bits (BitSet [4, 64]) = 2" by code_simp
  have "members (bs_except word_bits (BitSet [4, 64]) (BitSet [4])) =
      members (BitSet [4, 64]) - members (BitSet [4])"
    by (rule bitset_is_set [OF word_bits_ok, THEN conjunct2, THEN conjunct2, THEN conjunct2,
          THEN conjunct2, THEN conjunct2, THEN conjunct2, THEN conjunct2, THEN conjunct1])
  with sub size show ?thesis by (intro conjI)
qed

text \<open>
  \<open>hash\<close> is not compatible with \<open>operator==\<close>. The equality ignores trailing zero words;
  the hash mixes every word, zero words included. Whenever the checksum of a zero word
  changes the hash, the empty set with no words and the empty set with one zero word (what
  \<open>add\<close> followed by \<open>erase\<close> leaves) are equal and have different hashes.
\<close>

theorem bitset_hash_not_compatible:
  assumes "crc32U64 123 0 * crc32U64 123 0 \<noteq> (123 * 123 :: u64)"
  shows "bs_eq (BitSet [0]) (BitSet []) \<and>
    bs_hash crc32U64 (BitSet [0]) \<noteq> bs_hash crc32U64 (BitSet [])"
proof
  show "bs_eq (BitSet [0]) (BitSet [])" by (simp add: bs_eq_def isZero_def)
  show "bs_hash crc32U64 (BitSet [0]) \<noteq> bs_hash crc32U64 (BitSet [])"
    using assms by (simp add: bs_hash_def Let_def)
qed

text \<open>At a checksum that multiplies and adds.\<close>

theorem bitset_hash_not_compatible_witness:
  "bs_eq (BitSet [0]) (BitSet []) \<and>
   bs_hash (\<lambda>h w. 31 * h + w) (BitSet [0]) \<noteq> bs_hash (\<lambda>h w. 31 * h + w) (BitSet [])"
  using bitset_hash_not_compatible [of "\<lambda>h w. 31 * h + w"] by simp

end
