(* ===== verification/Range_Domain.thy ===== *)
theory Range_Domain
  imports Complex_Main Prelude
begin

text \<open>
  The classes \<^verbatim>\<open>Range\<close> and \<^verbatim>\<open>Domain\<close> of \<^verbatim>\<open>axiom/optimizer/Domain.h\<close> and the set algebra of
  \<^verbatim>\<open>Domain.cpp\<close>: a domain is a list of ranges plus a flag for NULL, with intersection
  (a two-pointer merge), union (sort and merge), complement and difference. Values are any
  linearly ordered type, standing for the \<^verbatim>\<open>velox::Variant\<close>s of one type kind under
  \<^verbatim>\<open>operator<\<close>.

  The proofs read a bound as a \<^emph>\<open>cut\<close> of the order: a position just before or just after a
  value. Low and high bounds both become cuts, a range is non-empty when its low cut is below
  its high cut, and overlap and adjacency are the non-strict version of the same comparison,
  so the algebra reduces to reasoning about a linear order.
\<close>

section \<open>Bounds and ranges\<close>

record 'v bound =
  bvalue :: 'v
  inclusive :: bool

record 'v range =
  low :: "'v bound option"
  high :: "'v bound option"

definition Bound :: "'v \<Rightarrow> bool \<Rightarrow> 'v bound" where
  "Bound v i = \<lparr>bvalue = v, inclusive = i\<rparr>"

definition Range :: "'v bound option \<Rightarrow> 'v bound option \<Rightarrow> 'v range" where
  "Range l h = \<lparr>low = l, high = h\<rparr>"

definition compareBoundValues :: "'v :: linorder \<Rightarrow> 'v \<Rightarrow> int" where
  "compareBoundValues lhs rhs = (if lhs < rhs then -1 else if rhs < lhs then 1 else 0)"

definition compareLowBounds :: "'v :: linorder bound option \<Rightarrow> 'v bound option \<Rightarrow> int" where
  "compareLowBounds lhs rhs =
     (case lhs of
        None \<Rightarrow> (case rhs of None \<Rightarrow> 0 | Some _ \<Rightarrow> -1)
      | Some l \<Rightarrow>
          (case rhs of
             None \<Rightarrow> 1
           | Some r \<Rightarrow>
               (let c = compareBoundValues (bvalue l) (bvalue r) in
                if c \<noteq> 0 then c
                else if inclusive l = inclusive r then 0
                else if inclusive l then -1 else 1)))"

definition compareHighBounds :: "'v :: linorder bound option \<Rightarrow> 'v bound option \<Rightarrow> int" where
  "compareHighBounds lhs rhs =
     (case lhs of
        None \<Rightarrow> (case rhs of None \<Rightarrow> 0 | Some _ \<Rightarrow> 1)
      | Some l \<Rightarrow>
          (case rhs of
             None \<Rightarrow> -1
           | Some r \<Rightarrow>
               (let c = compareBoundValues (bvalue l) (bvalue r) in
                if c \<noteq> 0 then c
                else if inclusive l = inclusive r then 0
                else if inclusive l then 1 else -1)))"

definition maxLow :: "'v :: linorder bound option \<Rightarrow> 'v bound option \<Rightarrow> 'v bound option" where
  "maxLow lhs rhs = (if compareLowBounds lhs rhs \<ge> 0 then lhs else rhs)"

definition minLow :: "'v :: linorder bound option \<Rightarrow> 'v bound option \<Rightarrow> 'v bound option" where
  "minLow lhs rhs = (if compareLowBounds lhs rhs \<le> 0 then lhs else rhs)"

definition maxHigh :: "'v :: linorder bound option \<Rightarrow> 'v bound option \<Rightarrow> 'v bound option" where
  "maxHigh lhs rhs = (if compareHighBounds lhs rhs \<ge> 0 then lhs else rhs)"

definition minHigh :: "'v :: linorder bound option \<Rightarrow> 'v bound option \<Rightarrow> 'v bound option" where
  "minHigh lhs rhs = (if compareHighBounds lhs rhs \<le> 0 then lhs else rhs)"

definition lowNotAboveHigh :: "'v :: linorder bound option \<Rightarrow> 'v bound option \<Rightarrow> bool" where
  "lowNotAboveHigh l h =
     (case l of
        None \<Rightarrow> True
      | Some lo \<Rightarrow>
          (case h of
             None \<Rightarrow> True
           | Some hi \<Rightarrow>
               (let c = compareBoundValues (bvalue lo) (bvalue hi) in
                if c < 0 then True
                else if c > 0 then False
                else inclusive lo \<and> inclusive hi)))"

definition range_singleValue :: "'v \<Rightarrow> 'v range" where
  "range_singleValue v = Range (Some (Bound v True)) (Some (Bound v True))"

definition range_unbounded :: "'v range" where
  "range_unbounded = Range None None"

definition range_isSingleValue :: "'v range \<Rightarrow> bool" where
  "range_isSingleValue r =
     (case (low r, high r) of
        (Some l, Some h) \<Rightarrow> inclusive l \<and> inclusive h \<and> bvalue l = bvalue h
      | _ \<Rightarrow> False)"

definition range_isEmpty :: "'v :: linorder range \<Rightarrow> bool" where
  "range_isEmpty r \<longleftrightarrow> \<not> lowNotAboveHigh (low r) (high r)"

definition range_intersect :: "'v :: linorder range \<Rightarrow> 'v range \<Rightarrow> 'v range option" where
  "range_intersect r other =
     (let newLow = maxLow (low r) (low other); newHigh = minHigh (high r) (high other) in
      if \<not> lowNotAboveHigh newLow newHigh then None else Some (Range newLow newHigh))"

definition overlapsOrAdjacent :: "'v :: linorder range \<Rightarrow> 'v range \<Rightarrow> bool" where
  "overlapsOrAdjacent r other =
     (case maxLow (low r) (low other) of
        None \<Rightarrow> True
      | Some higherLow \<Rightarrow>
          (case minHigh (high r) (high other) of
             None \<Rightarrow> True
           | Some lowerHigh \<Rightarrow>
               (let c = compareBoundValues (bvalue higherLow) (bvalue lowerHigh) in
                if c < 0 then True
                else if c > 0 then False
                else inclusive higherLow \<or> inclusive lowerHigh)))"

definition range_merge :: "'v :: linorder range \<Rightarrow> 'v range \<Rightarrow> 'v range" where
  "range_merge r other = Range (minLow (low r) (low other)) (maxHigh (high r) (high other))"

section \<open>Domains\<close>

record 'v domain =
  nullsAllowed :: bool
  ranges :: "'v range list"

definition Domain :: "bool \<Rightarrow> 'v range list \<Rightarrow> 'v domain" where
  "Domain n rs = \<lparr>nullsAllowed = n, ranges = rs\<rparr>"

definition dom_all :: "'v domain" where
  "dom_all = Domain True [range_unbounded]"

definition dom_none :: "'v domain" where
  "dom_none = Domain False []"

definition dom_onlyNull :: "'v domain" where
  "dom_onlyNull = Domain True []"

definition dom_notNull :: "'v domain" where
  "dom_notNull = Domain False [range_unbounded]"

definition dom_singleValue :: "'v \<Rightarrow> 'v domain" where
  "dom_singleValue v = Domain False [range_singleValue v]"

definition dom_greaterThan :: "'v \<Rightarrow> 'v domain" where
  "dom_greaterThan v = Domain False [Range (Some (Bound v False)) None]"

definition dom_greaterThanOrEqual :: "'v \<Rightarrow> 'v domain" where
  "dom_greaterThanOrEqual v = Domain False [Range (Some (Bound v True)) None]"

definition dom_lessThan :: "'v \<Rightarrow> 'v domain" where
  "dom_lessThan v = Domain False [Range None (Some (Bound v False))]"

definition dom_lessThanOrEqual :: "'v \<Rightarrow> 'v domain" where
  "dom_lessThanOrEqual v = Domain False [Range None (Some (Bound v True))]"

text \<open>
  \<^verbatim>\<open>normalize\<close>: \<^verbatim>\<open>std::sort\<close> by low bound, then one pass that merges each range into the last
  range of the result when the two overlap or touch. \<open>merge_pass last rs\<close> is that pass, \<open>last\<close>
  being \<^verbatim>\<open>result.back()\<close>. The lemmas about the pass hold for every order that is sorted by
  low bound, so they cover any outcome \<^verbatim>\<open>std::sort\<close> may choose among equal low bounds.
\<close>

fun insert_by_low :: "'v :: linorder range \<Rightarrow> 'v range list \<Rightarrow> 'v range list" where
  "insert_by_low r [] = [r]"
| "insert_by_low r (x # xs) =
     (if compareLowBounds (low x) (low r) < 0 then x # insert_by_low r xs else r # x # xs)"

definition sort_by_low :: "'v :: linorder range list \<Rightarrow> 'v range list" where
  "sort_by_low rs = foldr insert_by_low rs []"

fun merge_pass :: "'v :: linorder range \<Rightarrow> 'v range list \<Rightarrow> 'v range list" where
  "merge_pass bk [] = [bk]"
| "merge_pass bk (r # rs) =
     (if overlapsOrAdjacent bk r then merge_pass (range_merge bk r) rs
      else bk # merge_pass r rs)"

definition dom_normalize :: "'v :: linorder range list \<Rightarrow> 'v range list" where
  "dom_normalize rs = (case sort_by_low rs of [] \<Rightarrow> [] | r # rest \<Rightarrow> merge_pass r rest)"

definition dom_in :: "'v :: linorder list \<Rightarrow> 'v domain" where
  "dom_in vs = Domain False (dom_normalize (map range_singleValue vs))"

text \<open>The two-pointer loop of \<^verbatim>\<open>Domain::intersect\<close>, on the remaining ranges of both sides.\<close>

fun intersect_loop :: "'v :: linorder range list \<Rightarrow> 'v range list \<Rightarrow> 'v range list" where
  "intersect_loop [] rs = []"
| "intersect_loop ls [] = []"
| "intersect_loop (l # ls) (r # rs) =
     (case range_intersect l r of None \<Rightarrow> [] | Some x \<Rightarrow> [x]) @
     (if compareHighBounds (high l) (high r) \<le> 0 then intersect_loop ls (r # rs)
      else intersect_loop (l # ls) rs)"

definition dom_intersect :: "'v :: linorder domain \<Rightarrow> 'v domain \<Rightarrow> 'v domain" where
  "dom_intersect d other =
     Domain (nullsAllowed d \<and> nullsAllowed other) (intersect_loop (ranges d) (ranges other))"

definition dom_unite :: "'v :: linorder domain \<Rightarrow> 'v domain \<Rightarrow> 'v domain" where
  "dom_unite d other =
     Domain (nullsAllowed d \<or> nullsAllowed other) (dom_normalize (ranges d @ ranges other))"

text \<open>The loop of \<^verbatim>\<open>complement\<close>: \<open>lo\<close> is the low bound of the next gap.\<close>

fun complement_loop :: "'v bound option \<Rightarrow> 'v range list \<Rightarrow> 'v range list" where
  "complement_loop lo [] = [Range lo None]"
| "complement_loop lo (r # rs) =
     (case low r of None \<Rightarrow> [] | Some l \<Rightarrow> [Range lo (Some (Bound (bvalue l) (\<not> inclusive l)))]) @
     (case high r of
        None \<Rightarrow> []
      | Some h \<Rightarrow> complement_loop (Some (Bound (bvalue h) (\<not> inclusive h))) rs)"

definition dom_complement :: "'v domain \<Rightarrow> 'v domain" where
  "dom_complement d = Domain (\<not> nullsAllowed d) (complement_loop None (ranges d))"

definition dom_subtract :: "'v :: linorder domain \<Rightarrow> 'v domain \<Rightarrow> 'v domain" where
  "dom_subtract d other = dom_intersect d (dom_complement other)"

definition sameBound :: "'v bound option \<Rightarrow> 'v bound option \<Rightarrow> bool" where
  "sameBound lhs rhs =
     (case (lhs, rhs) of
        (None, None) \<Rightarrow> True
      | (Some l, Some r) \<Rightarrow> inclusive l = inclusive r \<and> bvalue l = bvalue r
      | _ \<Rightarrow> False)"

definition dom_eq :: "'v domain \<Rightarrow> 'v domain \<Rightarrow> bool" where
  "dom_eq d other \<longleftrightarrow>
     nullsAllowed d = nullsAllowed other \<and>
     length (ranges d) = length (ranges other) \<and>
     list_all (\<lambda>(r, s). sameBound (low r) (low s) \<and> sameBound (high r) (high s))
       (zip (ranges d) (ranges other))"

definition dom_isAll :: "'v domain \<Rightarrow> bool" where
  "dom_isAll d \<longleftrightarrow> nullsAllowed d \<and>
     (case ranges d of [r] \<Rightarrow> low r = None \<and> high r = None | _ \<Rightarrow> False)"

definition dom_isNone :: "'v domain \<Rightarrow> bool" where
  "dom_isNone d \<longleftrightarrow> \<not> nullsAllowed d \<and> ranges d = []"

section \<open>Meaning\<close>

text \<open>The values of a range, and of a domain (\<open>None\<close> is the SQL NULL).\<close>

definition in_range :: "'v :: linorder \<Rightarrow> 'v range \<Rightarrow> bool" where
  "in_range v r \<longleftrightarrow>
     (case low r of None \<Rightarrow> True | Some l \<Rightarrow> if inclusive l then bvalue l \<le> v else bvalue l < v) \<and>
     (case high r of None \<Rightarrow> True | Some h \<Rightarrow> if inclusive h then v \<le> bvalue h else v < bvalue h)"

definition in_ranges :: "'v :: linorder \<Rightarrow> 'v range list \<Rightarrow> bool" where
  "in_ranges v rs \<longleftrightarrow> list_ex (in_range v) rs"

definition in_domain :: "'v :: linorder option \<Rightarrow> 'v domain \<Rightarrow> bool" where
  "in_domain x d = (case x of None \<Rightarrow> nullsAllowed d | Some v \<Rightarrow> in_ranges v (ranges d))"

text \<open>
  The representation invariant: every range is non-empty, and each range ends before the next
  begins with room between them (they neither overlap nor touch).
\<close>

definition separated :: "'v :: linorder range \<Rightarrow> 'v range \<Rightarrow> bool" where
  "separated r s =
     (case (high r, low s) of
        (Some h, Some l) \<Rightarrow>
          bvalue h < bvalue l \<or> bvalue h = bvalue l \<and> \<not> inclusive h \<and> \<not> inclusive l
      | _ \<Rightarrow> False)"

definition normal :: "'v :: linorder range list \<Rightarrow> bool" where
  "normal rs \<longleftrightarrow> list_all (\<lambda>r. \<not> range_isEmpty r) rs \<and> sorted_wrt separated rs"

definition dom_ok :: "'v :: linorder domain \<Rightarrow> bool" where
  "dom_ok d \<longleftrightarrow> normal (ranges d)"

section \<open>Cuts\<close>

datatype 'v cut = NegInf | Before 'v | After 'v | PosInf

instantiation cut :: (linorder) linorder
begin

fun less_eq_cut :: "'a cut \<Rightarrow> 'a cut \<Rightarrow> bool" where
  "less_eq_cut NegInf c = True"
| "less_eq_cut c PosInf = True"
| "less_eq_cut c NegInf = False"
| "less_eq_cut PosInf c = False"
| "less_eq_cut (Before v) (Before w) = (v \<le> w)"
| "less_eq_cut (Before v) (After w) = (v \<le> w)"
| "less_eq_cut (After v) (Before w) = (v < w)"
| "less_eq_cut (After v) (After w) = (v \<le> w)"

definition less_cut :: "'a cut \<Rightarrow> 'a cut \<Rightarrow> bool" where
  "less_cut c d \<longleftrightarrow> c \<le> d \<and> \<not> d \<le> (c :: 'a cut)"

instance
proof
  fix x y z :: "'a cut"
  show "x < y \<longleftrightarrow> x \<le> y \<and> \<not> y \<le> x" by (rule less_cut_def)
  show "x \<le> x" by (cases x) auto
  show "x \<le> y \<Longrightarrow> y \<le> z \<Longrightarrow> x \<le> z" by (cases x; cases y; cases z) auto
  show "x \<le> y \<Longrightarrow> y \<le> x \<Longrightarrow> x = y" by (cases x; cases y) auto
  show "x \<le> y \<or> y \<le> x" by (cases x; cases y) auto
qed

end

fun lowCut :: "'v bound option \<Rightarrow> 'v cut" where
  "lowCut None = NegInf"
| "lowCut (Some b) = (if inclusive b then Before (bvalue b) else After (bvalue b))"

fun highCut :: "'v bound option \<Rightarrow> 'v cut" where
  "highCut None = PosInf"
| "highCut (Some b) = (if inclusive b then After (bvalue b) else Before (bvalue b))"

abbreviation lo :: "'v range \<Rightarrow> 'v cut" where
  "lo r \<equiv> lowCut (low r)"

abbreviation hi :: "'v range \<Rightarrow> 'v cut" where
  "hi r \<equiv> highCut (high r)"

named_theorems cuts \<open>operations on bounds and ranges as comparisons of cuts\<close>

lemma range_sel [simp]: "low (Range l h) = l" "high (Range l h) = h"
  by (simp_all add: Range_def)

lemma bound_sel [simp]: "bvalue (Bound v i) = v" "inclusive (Bound v i) = i"
  by (simp_all add: Bound_def)

lemma domain_sel [simp]: "nullsAllowed (Domain n rs) = n" "ranges (Domain n rs) = rs"
  by (simp_all add: Domain_def)

lemma compareLowBounds_cut [cuts]:
  "compareLowBounds a b < 0 \<longleftrightarrow> lowCut a < lowCut b"
  "compareLowBounds a b \<le> 0 \<longleftrightarrow> lowCut a \<le> lowCut b"
  "compareLowBounds a b \<ge> 0 \<longleftrightarrow> lowCut b \<le> lowCut a"
  by (cases a; cases b; auto simp: compareLowBounds_def compareBoundValues_def less_cut_def Let_def)+

lemma compareHighBounds_cut [cuts]:
  "compareHighBounds a b \<le> 0 \<longleftrightarrow> highCut a \<le> highCut b"
  "compareHighBounds a b \<ge> 0 \<longleftrightarrow> highCut b \<le> highCut a"
  by (cases a; cases b; auto simp: compareHighBounds_def compareBoundValues_def less_cut_def Let_def)+

lemma bound_choice_cut [cuts]:
  "lowCut (maxLow a b) = max (lowCut a) (lowCut b)"
  "lowCut (minLow a b) = min (lowCut a) (lowCut b)"
  "highCut (maxHigh a b) = max (highCut a) (highCut b)"
  "highCut (minHigh a b) = min (highCut a) (highCut b)"
  by (auto simp: maxLow_def minLow_def maxHigh_def minHigh_def cuts max_def min_def)

lemma lowNotAboveHigh_cut [cuts]: "lowNotAboveHigh a b \<longleftrightarrow> lowCut a < highCut b"
  by (cases a; cases b) (auto simp: lowNotAboveHigh_def compareBoundValues_def less_cut_def Let_def)

lemma range_isEmpty_cut [cuts]: "range_isEmpty r \<longleftrightarrow> hi r \<le> lo r"
  by (auto simp: range_isEmpty_def cuts)

lemma overlapsOrAdjacent_cut [cuts]:
  "overlapsOrAdjacent r s \<longleftrightarrow> max (lo r) (lo s) \<le> min (hi r) (hi s)"
proof -
  have "overlapsOrAdjacent r s \<longleftrightarrow>
      lowCut (maxLow (low r) (low s)) \<le> highCut (minHigh (high r) (high s))"
    by (cases "maxLow (low r) (low s)"; cases "minHigh (high r) (high s)")
      (auto simp: overlapsOrAdjacent_def compareBoundValues_def Let_def)
  then show ?thesis by (simp only: cuts)
qed

lemma range_merge_cut [cuts]:
  "lo (range_merge r s) = min (lo r) (lo s)" "hi (range_merge r s) = max (hi r) (hi s)"
  by (simp_all add: range_merge_def cuts)

lemma range_intersect_cut:
  "range_intersect r s = None \<longleftrightarrow> min (hi r) (hi s) \<le> max (lo r) (lo s)"
  "range_intersect r s = Some x \<Longrightarrow> lo x = max (lo r) (lo s) \<and> hi x = min (hi r) (hi s)"
  by (auto simp: range_intersect_def bound_choice_cut lowNotAboveHigh_cut Let_def min_def max_def
      split: if_splits)

lemma range_intersect_within:
  assumes "range_intersect r s = Some x"
  shows "lo r \<le> lo x" and "lo s \<le> lo x" and "hi x \<le> hi r" and "hi x \<le> hi s" and "lo x < hi x"
  using range_intersect_cut [of r s] assms by (auto simp: not_le [symmetric])

lemma in_range_cut [cuts]: "in_range v r \<longleftrightarrow> lo r \<le> Before v \<and> After v \<le> hi r"
  by (cases "low r"; cases "high r") (auto simp: in_range_def)

lemma separated_cut [cuts]: "separated r s \<longleftrightarrow> hi r < lo s"
  by (cases "high r"; cases "low s") (auto simp: separated_def less_cut_def)

lemma flip_cut [simp]:
  "highCut (Some (Bound (bvalue b) (\<not> inclusive b))) = lowCut (Some b)"
  "lowCut (Some (Bound (bvalue b) (\<not> inclusive b))) = highCut (Some b)"
  by simp_all

lemma NegInf_le [simp]: "NegInf \<le> c" "NegInf < lowCut (Some b)"
  by (simp_all add: less_cut_def)

lemma lowCut_inject: "lowCut a = lowCut b \<longleftrightarrow> sameBound a b"
  by (cases a; cases b) (auto simp: sameBound_def split: if_splits)

lemma highCut_inject: "highCut a = highCut b \<longleftrightarrow> sameBound a b"
  by (cases a; cases b) (auto simp: sameBound_def split: if_splits)

lemma lowCut_less_PosInf [simp]: "lowCut a < PosInf" "lowCut a \<noteq> PosInf"
  by (cases a; auto simp: less_cut_def)+

lemma highCut_greater_NegInf [simp]: "NegInf < highCut a" "highCut a \<noteq> NegInf"
  by (cases a; auto simp: less_cut_def)+

lemma le_PosInf [simp]: "c \<le> PosInf" "\<not> PosInf \<le> lowCut a"
  by (cases c; simp) (simp add: not_le)

declare lowCut.simps(2) [simp del] highCut.simps(2) [simp del]

text \<open>No cut lies strictly between the two sides of a value.\<close>

lemma Before_less_After: "Before v < (After v :: 'v :: linorder cut)"
  by (simp add: less_cut_def)

lemma cut_before_or_after: "c \<le> Before v \<or> After v \<le> (c :: 'v :: linorder cut)"
  by (cases c) auto

lemma not_le_Before_iff: "\<not> c \<le> Before v \<longleftrightarrow> After v \<le> (c :: 'v :: linorder cut)"
  by (cases c) auto

lemma in_ranges_simps [simp]:
  "in_ranges v [] = False"
  "in_ranges v (r # rs) \<longleftrightarrow> in_range v r \<or> in_ranges v rs"
  "in_ranges v (rs @ ss) \<longleftrightarrow> in_ranges v rs \<or> in_ranges v ss"
  by (simp_all add: in_ranges_def)

lemma in_ranges_iff: "in_ranges v rs \<longleftrightarrow> (\<exists>r\<in>set rs. in_range v r)"
  by (simp add: in_ranges_def list_ex_iff)

lemma normal_simps [simp]:
  "normal []"
  "normal (r # rs) \<longleftrightarrow> lo r < hi r \<and> (\<forall>s\<in>set rs. hi r < lo s) \<and> normal rs"
  by (auto simp: normal_def cuts)

section \<open>Intersection\<close>

lemma in_range_intersect:
  "in_range v r \<and> in_range v s \<longleftrightarrow> (\<exists>x. range_intersect r s = Some x \<and> in_range v x)"
proof (cases "range_intersect r s")
  case None
  then have "min (hi r) (hi s) \<le> max (lo r) (lo s)" by (simp add: range_intersect_cut)
  then have "\<not> (max (lo r) (lo s) \<le> Before v \<and> After v \<le> min (hi r) (hi s))"
    using Before_less_After [of v] by (meson leD order.trans)
  with None show ?thesis by (auto simp: cuts)
next
  case (Some x)
  then show ?thesis using range_intersect_cut(2) [OF Some] by (auto simp: cuts)
qed

lemma above_not_in_ranges:
  "\<forall>s\<in>set rs. h < lo s \<Longrightarrow> After v \<le> h \<Longrightarrow> \<not> in_ranges v rs"
  using Before_less_After [of v] by (auto simp: in_ranges_iff cuts)

lemma in_ranges_intersect_loop:
  "normal ls \<Longrightarrow> normal rs \<Longrightarrow>
   in_ranges v (intersect_loop ls rs) \<longleftrightarrow> in_ranges v ls \<and> in_ranges v rs"
proof (induction ls rs rule: intersect_loop.induct)
  case (3 l ls r rs)
  have here: "in_ranges v (case range_intersect l r of None \<Rightarrow> [] | Some x \<Rightarrow> [x]) \<longleftrightarrow>
      in_range v l \<and> in_range v r"
    by (auto simp: in_range_intersect split: option.splits)
  show ?case
  proof (cases "hi l \<le> hi r")
    case True
    have "\<not> (in_range v l \<and> in_ranges v rs)"
      using above_not_in_ranges [of rs "hi r" v] True "3.prems"(2) by (auto simp: cuts)
    then show ?thesis using True "3.IH"(1) "3.prems" here by (auto simp: cuts)
  next
    case False
    have "\<not> (in_range v r \<and> in_ranges v ls)"
      using above_not_in_ranges [of ls "hi l" v] False "3.prems"(1) by (auto simp: cuts)
    then show ?thesis using False "3.IH"(2) "3.prems" here by (auto simp: cuts)
  qed
qed auto

lemma intersect_loop_above:
  "x \<in> set (intersect_loop ls rs) \<Longrightarrow>
   \<exists>l\<in>set ls. \<exists>r\<in>set rs. range_intersect l r = Some x"
  by (induction ls rs rule: intersect_loop.induct) (auto split: option.splits if_splits)

lemma normal_intersect_loop: "normal ls \<Longrightarrow> normal rs \<Longrightarrow> normal (intersect_loop ls rs)"
proof (induction ls rs rule: intersect_loop.induct)
  case (3 l ls r rs)
  let ?rest = "if compareHighBounds (high l) (high r) \<le> 0 then intersect_loop ls (r # rs)
      else intersect_loop (l # ls) rs"
  have rest: "normal ?rest" using "3" by auto
  have "hi x < lo y" if x: "range_intersect l r = Some x" and y: "y \<in> set ?rest" for x y
  proof (cases "hi l \<le> hi r")
    case True
    then obtain l' r' where "l' \<in> set ls" "range_intersect l' r' = Some y"
      using y intersect_loop_above by (fastforce simp: cuts)
    then show ?thesis
      using "3.prems"(1) range_intersect_within [OF x] range_intersect_within
      by (meson le_less_trans less_le_trans normal_simps(2))
  next
    case False
    then obtain l' r' where "r' \<in> set rs" "range_intersect l' r' = Some y"
      using y intersect_loop_above by (fastforce simp: cuts)
    then show ?thesis
      using "3.prems"(2) range_intersect_within [OF x] range_intersect_within
      by (meson le_less_trans less_le_trans normal_simps(2))
  qed
  moreover have "lo x < hi x" if "range_intersect l r = Some x" for x
    using range_intersect_within(5) [OF that] .
  ultimately show ?case using rest by (auto split: option.splits)
qed auto

section \<open>Union\<close>

abbreviation sorted_low :: "'v :: linorder range list \<Rightarrow> bool" where
  "sorted_low \<equiv> sorted_wrt (\<lambda>r s. lo r \<le> lo s)"

lemma set_insert_by_low: "set (insert_by_low r rs) = insert r (set rs)"
  by (induction rs) auto

lemma sorted_insert_by_low: "sorted_low rs \<Longrightarrow> sorted_low (insert_by_low r rs)"
  by (induction rs) (auto simp: cuts set_insert_by_low not_less)

lemma sort_by_low: "set (sort_by_low rs) = set rs" "sorted_low (sort_by_low rs)"
  by (induction rs) (auto simp: sort_by_low_def set_insert_by_low sorted_insert_by_low)

lemma in_range_merge:
  assumes "overlapsOrAdjacent r s" and "lo r \<le> lo s"
  shows "in_range v (range_merge r s) \<longleftrightarrow> in_range v r \<or> in_range v s"
proof -
  have "lo s \<le> hi r" using assms by (simp add: cuts)
  then have "After v \<le> hi r \<or> lo s \<le> Before v"
    using cut_before_or_after [of "hi r" v] by (auto dest: order_trans)
  with assms(2) show ?thesis by (auto simp: cuts min_def max_def dest: order_trans)
qed

lemma not_overlap_separated:
  "\<not> overlapsOrAdjacent r s \<Longrightarrow> lo r \<le> lo s \<Longrightarrow> lo r < hi r \<Longrightarrow> lo s < hi s \<Longrightarrow> hi r < lo s"
  by (auto simp: cuts max_def min_def not_le split: if_splits)

lemma in_ranges_merge_pass:
  "sorted_low (bk # rs) \<Longrightarrow> in_ranges v (merge_pass bk rs) \<longleftrightarrow> in_ranges v (bk # rs)"
proof (induction bk rs rule: merge_pass.induct)
  case (2 bk r rs)
  show ?case
  proof (cases "overlapsOrAdjacent bk r")
    case True
    have "sorted_low (range_merge bk r # rs)" using "2.prems" by (auto simp: cuts)
    then show ?thesis using "2.IH"(1) True "2.prems" in_range_merge [OF True] by auto
  next
    case False
    then show ?thesis using "2.IH"(2) "2.prems" by auto
  qed
qed simp

lemma merge_pass_lo: "sorted_low (bk # rs) \<Longrightarrow> x \<in> set (merge_pass bk rs) \<Longrightarrow> lo bk \<le> lo x"
proof (induction bk rs rule: merge_pass.induct)
  case (2 bk r rs)
  show ?case
  proof (cases "overlapsOrAdjacent bk r")
    case True
    have "sorted_low (range_merge bk r # rs)" using "2.prems" by (auto simp: cuts)
    then have "lo (range_merge bk r) \<le> lo x" using "2.IH"(1) True "2.prems"(2) by simp
    then show ?thesis using "2.prems"(1) by (simp add: cuts min_absorb1)
  next
    case False
    then show ?thesis using "2.IH"(2) "2.prems" by (auto dest: order_trans)
  qed
qed simp

lemma normal_merge_pass:
  "sorted_low (bk # rs) \<Longrightarrow> \<forall>r\<in>set (bk # rs). lo r < hi r \<Longrightarrow> normal (merge_pass bk rs)"
proof (induction bk rs rule: merge_pass.induct)
  case (2 bk r rs)
  show ?case
  proof (cases "overlapsOrAdjacent bk r")
    case True
    have "sorted_low (range_merge bk r # rs)" using "2.prems" by (auto simp: cuts)
    moreover have "lo (range_merge bk r) < hi (range_merge bk r)"
      using "2.prems"(2) by (auto simp: cuts min_def max_def)
    ultimately show ?thesis using "2.IH"(1) True "2.prems"(2) by simp
  next
    case False
    have "hi bk < lo r" using not_overlap_separated [OF False] "2.prems" by simp
    then have "hi bk < lo x" if "x \<in> set (merge_pass r rs)" for x
      using merge_pass_lo [of r rs x] that "2.prems"(1) by (auto intro: less_le_trans)
    then show ?thesis using "2.IH"(2) False "2.prems" by simp
  qed
qed simp

lemma in_ranges_normalize: "in_ranges v (dom_normalize rs) \<longleftrightarrow> in_ranges v rs"
proof (cases "sort_by_low rs")
  case Nil
  then have "rs = []" using sort_by_low(1) [of rs] by simp
  then show ?thesis using Nil by (simp add: dom_normalize_def)
next
  case (Cons r rest)
  then have "in_ranges v (dom_normalize rs) \<longleftrightarrow> in_ranges v (sort_by_low rs)"
    using in_ranges_merge_pass [of r rest v] sort_by_low(2) [of rs] by (simp add: dom_normalize_def)
  then show ?thesis using sort_by_low(1) [of rs] by (simp add: in_ranges_iff)
qed

lemma normal_normalize: "\<forall>r\<in>set rs. \<not> range_isEmpty r \<Longrightarrow> normal (dom_normalize rs)"
  using sort_by_low [of rs]
  by (auto simp: dom_normalize_def cuts not_le split: list.splits intro!: normal_merge_pass)

section \<open>Complement\<close>

lemma in_ranges_complement_loop:
  assumes "normal rs" and "\<forall>s\<in>set rs. lowCut b \<le> lo s"
  shows "in_ranges v (complement_loop b rs) \<longleftrightarrow> lowCut b \<le> Before v \<and> \<not> in_ranges v rs"
  using assms
proof (induction b rs rule: complement_loop.induct)
  case (1 b)
  then show ?case by (simp add: in_range_cut)
next
  case (2 b r rs)
  have gap: "in_ranges v (case low r of None \<Rightarrow> []
        | Some l \<Rightarrow> [Range b (Some (Bound (bvalue l) (\<not> inclusive l)))]) \<longleftrightarrow>
      lowCut b \<le> Before v \<and> After v \<le> lo r"
    by (cases "low r") (auto simp: in_range_cut)
  have rest: "in_ranges v (case high r of None \<Rightarrow> []
        | Some h \<Rightarrow> complement_loop (Some (Bound (bvalue h) (\<not> inclusive h))) rs) \<longleftrightarrow>
      hi r \<le> Before v \<and> \<not> in_ranges v rs"
  proof (cases "high r")
    case (Some h)
    then have "lowCut (Some (Bound (bvalue h) (\<not> inclusive h))) = hi r" by simp
    then show ?thesis using "2.IH" [OF Some] "2.prems" Some by (auto simp: less_imp_le)
  qed simp
  have low_part: "After v \<le> lo r \<Longrightarrow> \<not> in_ranges v (r # rs)"
    using above_not_in_ranges [of "r # rs" _ v] above_not_in_ranges [of rs "hi r" v]
      "2.prems"(1) Before_less_After [of v]
    by (auto simp: in_range_cut dest: order_trans less_imp_le)
  have "lowCut b \<le> lo r" "lo r < hi r" using "2.prems" by auto
  moreover have "After v \<le> lo r \<or> lo r \<le> Before v" using cut_before_or_after by blast
  moreover have "After v \<le> hi r \<longleftrightarrow> \<not> hi r \<le> Before v" using not_le_Before_iff by blast
  ultimately show ?case
    using low_part unfolding complement_loop.simps in_ranges_simps gap rest
    by (auto simp: in_range_cut dest: order_trans)
qed

lemma complement_loop_above:
  "normal rs \<Longrightarrow> \<forall>s\<in>set rs. lowCut b \<le> lo s \<Longrightarrow> x \<in> set (complement_loop b rs) \<Longrightarrow>
   lowCut b \<le> lo x"
proof (induction b rs rule: complement_loop.induct)
  case (2 b r rs)
  have "lowCut b \<le> hi r" using "2.prems"(1,2) by (auto intro: less_imp_le order_trans)
  then have "lowCut b \<le> lo x"
    if "high r = Some h" "x \<in> set (complement_loop (Some (Bound (bvalue h) (\<not> inclusive h))) rs)" for h
    using "2.IH" [OF that(1) _ _ that(2)] that(1) "2.prems"(1) by (auto simp: less_imp_le dest: order_trans)
  then show ?case using "2.prems"(3) by (cases "high r"; cases "low r") auto
qed simp

lemma normal_complement_loop:
  "normal rs \<Longrightarrow> \<forall>s\<in>set rs. lowCut b < lo s \<or> b = None \<Longrightarrow> normal (complement_loop b rs)"
proof (induction b rs rule: complement_loop.induct)
  case (2 b r rs)
  define rest where "rest = (case high r of None \<Rightarrow> []
    | Some h \<Rightarrow> complement_loop (Some (Bound (bvalue h) (\<not> inclusive h))) rs)"
  have rest: "normal rest"
    using "2.IH" "2.prems"(1) by (cases "high r") (auto simp: rest_def)
  have above: "hi r \<le> lo x" if "x \<in> set rest" for x
  proof (cases "high r")
    case None
    then show ?thesis using that by (simp add: rest_def)
  next
    case (Some h)
    then show ?thesis
      using complement_loop_above [of rs "Some (Bound (bvalue h) (\<not> inclusive h))" x]
        "2.prems"(1) that by (simp add: rest_def less_imp_le)
  qed
  have "normal (complement_loop b (r # rs))" if "low r = Some l" for l
  proof -
    have "lowCut b < lo r" using "2.prems"(2) that by auto
    moreover have "lo r < lo x" if "x \<in> set rest" for x
      using above [OF that] "2.prems"(1) by auto
    ultimately show ?thesis using rest that by (simp add: rest_def [symmetric])
  qed
  then show ?case using rest by (cases "low r") (simp_all add: rest_def [symmetric])
qed simp

section \<open>Domains\<close>

lemma dom_constructors_ok [simp]:
  "dom_ok dom_all" "dom_ok dom_none" "dom_ok dom_onlyNull" "dom_ok dom_notNull"
  "dom_ok (dom_singleValue v)" "dom_ok (dom_greaterThan v)" "dom_ok (dom_greaterThanOrEqual v)"
  "dom_ok (dom_lessThan v)" "dom_ok (dom_lessThanOrEqual v)" "dom_ok (dom_in vs)"
proof -
  have "normal (dom_normalize (map range_singleValue vs))"
    by (rule normal_normalize)
      (auto simp: range_isEmpty_def range_singleValue_def lowNotAboveHigh_def compareBoundValues_def)
  then show "dom_ok (dom_in vs)" by (simp add: dom_ok_def dom_in_def)
qed (simp_all add: dom_ok_def dom_all_def dom_none_def dom_onlyNull_def dom_notNull_def
    dom_singleValue_def dom_greaterThan_def dom_greaterThanOrEqual_def dom_lessThan_def
    dom_lessThanOrEqual_def range_unbounded_def range_singleValue_def highCut.simps lowCut.simps
    Before_less_After less_cut_def)

lemma dom_constructors_in [simp]:
  "in_domain x dom_all"
  "\<not> in_domain x dom_none"
  "in_domain x dom_onlyNull \<longleftrightarrow> x = None"
  "in_domain x dom_notNull \<longleftrightarrow> x \<noteq> None"
  "in_domain x (dom_singleValue v) \<longleftrightarrow> x = Some v"
  "in_domain x (dom_greaterThan v) \<longleftrightarrow> (\<exists>w. x = Some w \<and> v < w)"
  "in_domain x (dom_greaterThanOrEqual v) \<longleftrightarrow> (\<exists>w. x = Some w \<and> v \<le> w)"
  "in_domain x (dom_lessThan v) \<longleftrightarrow> (\<exists>w. x = Some w \<and> w < v)"
  "in_domain x (dom_lessThanOrEqual v) \<longleftrightarrow> (\<exists>w. x = Some w \<and> w \<le> v)"
  "in_domain x (dom_in vs) \<longleftrightarrow> (\<exists>w. x = Some w \<and> w \<in> set vs)"
proof -
  show "in_domain x (dom_in vs) \<longleftrightarrow> (\<exists>w. x = Some w \<and> w \<in> set vs)"
  proof (cases x)
    case (Some w)
    have "in_ranges w (map range_singleValue vs) \<longleftrightarrow> w \<in> set vs"
      by (auto simp: in_ranges_iff in_range_def range_singleValue_def)
    then show ?thesis using Some by (simp add: in_domain_def dom_in_def in_ranges_normalize)
  qed (simp add: in_domain_def dom_in_def)
qed (cases x; auto simp: in_domain_def dom_all_def dom_none_def dom_onlyNull_def dom_notNull_def
    dom_singleValue_def dom_greaterThan_def dom_greaterThanOrEqual_def dom_lessThan_def
    dom_lessThanOrEqual_def range_unbounded_def range_singleValue_def in_range_def)+

lemma in_domain_intersect:
  "dom_ok d \<Longrightarrow> dom_ok e \<Longrightarrow> in_domain x (dom_intersect d e) \<longleftrightarrow> in_domain x d \<and> in_domain x e"
  by (auto simp: in_domain_def dom_intersect_def dom_ok_def in_ranges_intersect_loop split: option.splits)

lemma dom_ok_intersect: "dom_ok d \<Longrightarrow> dom_ok e \<Longrightarrow> dom_ok (dom_intersect d e)"
  by (simp add: dom_ok_def dom_intersect_def normal_intersect_loop)

lemma in_domain_unite: "in_domain x (dom_unite d e) \<longleftrightarrow> in_domain x d \<or> in_domain x e"
  by (auto simp: in_domain_def dom_unite_def in_ranges_normalize split: option.splits)

lemma dom_ok_unite: "dom_ok d \<Longrightarrow> dom_ok e \<Longrightarrow> dom_ok (dom_unite d e)"
  unfolding dom_ok_def dom_unite_def domain_sel
  by (rule normal_normalize) (auto simp: normal_def list_all_iff)

lemma in_domain_complement: "dom_ok d \<Longrightarrow> in_domain x (dom_complement d) \<longleftrightarrow> \<not> in_domain x d"
  by (auto simp: in_domain_def dom_complement_def dom_ok_def in_ranges_complement_loop
      split: option.splits)

lemma dom_ok_complement: "dom_ok d \<Longrightarrow> dom_ok (dom_complement d)"
  by (auto simp: dom_ok_def dom_complement_def intro!: normal_complement_loop)

lemma in_domain_subtract:
  "dom_ok d \<Longrightarrow> dom_ok e \<Longrightarrow> in_domain x (dom_subtract d e) \<longleftrightarrow> in_domain x d \<and> \<not> in_domain x e"
  by (simp add: dom_subtract_def in_domain_intersect dom_ok_complement in_domain_complement)

lemma dom_ok_subtract: "dom_ok d \<Longrightarrow> dom_ok e \<Longrightarrow> dom_ok (dom_subtract d e)"
  by (simp add: dom_subtract_def dom_ok_intersect dom_ok_complement)

lemmas dom_ok_ops = dom_ok_intersect dom_ok_unite dom_ok_complement dom_ok_subtract
lemmas in_domain_ops = in_domain_intersect in_domain_unite in_domain_complement in_domain_subtract

text \<open>The domains a client can build: the factory functions closed under the operations.\<close>

inductive built :: "'v :: linorder domain \<Rightarrow> bool" where
  "built dom_all"
| "built dom_none"
| "built dom_onlyNull"
| "built dom_notNull"
| "built (dom_singleValue v)"
| "built (dom_greaterThan v)"
| "built (dom_greaterThanOrEqual v)"
| "built (dom_lessThan v)"
| "built (dom_lessThanOrEqual v)"
| "built (dom_in vs)"
| "built d \<Longrightarrow> built e \<Longrightarrow> built (dom_intersect d e)"
| "built d \<Longrightarrow> built e \<Longrightarrow> built (dom_unite d e)"
| "built d \<Longrightarrow> built e \<Longrightarrow> built (dom_subtract d e)"

lemma built_ok: "built d \<Longrightarrow> dom_ok d"
  by (induction rule: built.induct) (simp_all add: dom_ok_ops)

section \<open>Equality\<close>

lemma sameBound_low: "sameBound (low r) (low s) \<longleftrightarrow> lo r = lo s"
  by (simp add: lowCut_inject)

lemma sameBound_high: "sameBound (high r) (high s) \<longleftrightarrow> hi r = hi s"
  by (simp add: highCut_inject)

lemma dom_eq_cuts:
  "dom_eq d e \<longleftrightarrow> nullsAllowed d = nullsAllowed e \<and>
     list_all2 (\<lambda>r s. lo r = lo s \<and> hi r = hi s) (ranges d) (ranges e)"
  by (auto simp: dom_eq_def list_all2_iff list_all_iff sameBound_low sameBound_high)

lemma dom_eq_same_values: "dom_eq d e \<Longrightarrow> in_domain x d = in_domain x e"
proof -
  assume eq: "dom_eq d e"
  have "in_ranges v rs = in_ranges v ss"
    if "list_all2 (\<lambda>r s. lo r = lo s \<and> hi r = hi s) rs ss" for v and rs ss :: "'a range list"
    using that by (induction rs ss rule: list_all2_induct) (auto simp: in_range_cut)
  then show ?thesis using eq by (auto simp: dom_eq_cuts in_domain_def split: option.splits)
qed

text \<open>
  Every order has positions between its values: the one before all values, each value, and
  the one just after each value. A range covers a position when no bound excludes it, so
  \<open>(1, 2)\<close> over the integers covers the position just after 1 although it holds no value.
\<close>

datatype 'v position = BeforeAll | At 'v | JustAfter 'v

fun covers :: "'v :: linorder position \<Rightarrow> 'v range \<Rightarrow> bool" where
  "covers BeforeAll r \<longleftrightarrow> low r = None"
| "covers (At v) r \<longleftrightarrow> in_range v r"
| "covers (JustAfter v) r \<longleftrightarrow>
     (case low r of None \<Rightarrow> True | Some l \<Rightarrow> bvalue l \<le> v) \<and>
     (case high r of None \<Rightarrow> True | Some h \<Rightarrow> v < bvalue h)"

definition covered :: "'v :: linorder position \<Rightarrow> 'v domain \<Rightarrow> bool" where
  "covered p d \<longleftrightarrow> (\<exists>r\<in>set (ranges d). covers p r)"

text \<open>As cuts: a range covers the positions whose left cut is between its ends.\<close>

fun left_cut :: "'v position \<Rightarrow> 'v cut" where
  "left_cut BeforeAll = NegInf"
| "left_cut (At v) = Before v"
| "left_cut (JustAfter v) = After v"

definition cut_in :: "'v :: linorder cut \<Rightarrow> 'v range list \<Rightarrow> bool" where
  "cut_in k rs \<longleftrightarrow> (\<exists>r\<in>set rs. lo r \<le> k \<and> k < hi r)"

lemma less_cuts:
  "Before v < After w \<longleftrightarrow> v \<le> w" "Before v < Before w \<longleftrightarrow> v < w"
  "After v < Before w \<longleftrightarrow> v < w" "After v < After w \<longleftrightarrow> v < w"
  "Before v < PosInf" "After v < PosInf"
  unfolding less_cut_def less_eq_cut.simps by auto

lemma lo_least: "lo r \<le> NegInf \<longleftrightarrow> low r = None"
  by (cases "low r") (auto simp: lowCut.simps)

lemma covers_cut: "covers p r \<longleftrightarrow> lo r \<le> left_cut p \<and> left_cut p < hi r"
proof (cases p)
  case BeforeAll
  then show ?thesis by (simp add: lo_least)
next
  case (At v)
  have "After v \<le> hi r \<longleftrightarrow> Before v < hi r"
    by (cases "high r") (auto simp: highCut.simps less_cuts)
  then show ?thesis by (simp add: At in_range_cut)
next
  case (JustAfter v)
  have "lo r \<le> After v \<longleftrightarrow> (case low r of None \<Rightarrow> True | Some l \<Rightarrow> bvalue l \<le> v)"
    by (cases "low r") (auto simp: lowCut.simps)
  moreover have "After v < hi r \<longleftrightarrow> (case high r of None \<Rightarrow> True | Some h \<Rightarrow> v < bvalue h)"
    by (cases "high r") (auto simp: highCut.simps less_cuts)
  ultimately show ?thesis by (simp add: JustAfter)
qed

lemma covered_cut: "covered p d \<longleftrightarrow> cut_in (left_cut p) (ranges d)"
  by (simp add: covered_def cut_in_def covers_cut)

lemma cut_positions: "(\<forall>k. P (cut_in k rs) (cut_in k ss)) \<longleftrightarrow>
    P False False \<and> (\<forall>p. P (cut_in (left_cut p) rs) (cut_in (left_cut p) ss))"
proof -
  have top: "\<not> cut_in PosInf xs" for xs :: "'a range list"
    by (auto simp: cut_in_def not_less)
  show ?thesis
  proof (intro iffI conjI allI)
    fix k assume P: "P False False \<and> (\<forall>p. P (cut_in (left_cut p) rs) (cut_in (left_cut p) ss))"
    show "P (cut_in k rs) (cut_in k ss)"
    proof (cases k)
      case NegInf
      then show ?thesis using conjunct2 [OF P, rule_format, of BeforeAll] by simp
    next
      case (Before v)
      then show ?thesis using conjunct2 [OF P, rule_format, of "At v"] by simp
    next
      case (After v)
      then show ?thesis using conjunct2 [OF P, rule_format, of "JustAfter v"] by simp
    qed (use P top in simp)
  next
    assume "\<forall>k. P (cut_in k rs) (cut_in k ss)"
    from spec [OF this, of PosInf] show "P False False" by (simp add: top)
  qed blast
qed

lemma cut_in_tail:
  assumes "normal (r # rs)"
  shows "cut_in k rs \<longleftrightarrow> cut_in k (r # rs) \<and> \<not> (lo r \<le> k \<and> k < hi r)"
proof -
  have "\<not> k < hi r" if "x \<in> set rs" "lo x \<le> k" for x
  proof -
    have "hi r < lo x" using assms that(1) by simp
    then show ?thesis using that(2) by (metis less_le_trans less_asym)
  qed
  then show ?thesis unfolding cut_in_def by auto
qed

lemma normal_unique:
  assumes "normal rs" and "normal ss" and "\<And>k. cut_in k rs = cut_in k ss"
  shows "list_all2 (\<lambda>r s. lo r = lo s \<and> hi r = hi s) rs ss"
  using assms
proof (induction rs arbitrary: ss)
  case Nil
  then show ?case by (cases ss) (auto simp: cut_in_def)
next
  case (Cons r rs)
  show ?case
  proof (cases ss)
    case Nil
    then show ?thesis using Cons.prems(3) [of "lo r"] Cons.prems(1) by (auto simp: cut_in_def)
  next
    case (Cons s ss')
    note n = \<open>normal (r # rs)\<close> \<open>normal ss\<close> [unfolded Cons]
    note same = Cons.prems(3) [unfolded Cons]
    have later: "hi r < lo x" if "x \<in> set rs" for x using n(1) that by simp
    have later': "hi s < lo x" if "x \<in> set ss'" for x using n(2) that by simp
    have e: "lo r < hi r" "lo s < hi s" using n by simp_all
    have "cut_in (lo r) (s # ss')" "cut_in (lo s) (r # rs)"
      using same [of "lo r"] same [of "lo s"] e by (auto simp: cut_in_def)
    moreover have "lo s \<le> lo x" if "x \<in> set (s # ss')" for x
      using later' [of x] e that by (auto dest: less_trans intro: less_imp_le)
    moreover have "lo r \<le> lo x" if "x \<in> set (r # rs)" for x
      using later [of x] e that by (auto dest: less_trans intro: less_imp_le)
    ultimately have "lo s \<le> lo r" "lo r \<le> lo s"
      unfolding cut_in_def by (metis order_trans)+
    then have lo: "lo r = lo s" by (rule antisym [rotated])
    have "\<not> cut_in (hi r) (r # rs)" "\<not> cut_in (hi s) (s # ss')"
      using later later' by (auto simp: cut_in_def not_le)
    then have "\<not> hi r < hi s" "\<not> hi s < hi r"
      using same e lo unfolding cut_in_def by (metis list.set_intros(1) less_imp_le)+
    then have hi: "hi r = hi s" by simp
    have "cut_in k rs = cut_in k ss'" for k
      using cut_in_tail [OF n(1)] cut_in_tail [OF n(2)] same lo hi by simp
    then show ?thesis using Cons.IH [of ss'] n lo hi Cons by simp
  qed
qed

section \<open>Properties\<close>

text \<open>
  C15: The domain algebra is exact and keeps its representation invariant. For any two domains
  built through the public interface, a value (or NULL) is in the intersection exactly when it
  is in both, in the union exactly when it is in one of them, and in the difference exactly
  when it is in the first and not in the second; and each result is again a sorted list of
  non-empty ranges with a gap between neighbours.
\<close>

theorem domain_algebra_exact:
  assumes "built d" and "built e"
  shows "(in_domain x (dom_intersect d e) \<longleftrightarrow> in_domain x d \<and> in_domain x e) \<and>
    (in_domain x (dom_unite d e) \<longleftrightarrow> in_domain x d \<or> in_domain x e) \<and>
    (in_domain x (dom_subtract d e) \<longleftrightarrow> in_domain x d \<and> \<not> in_domain x e) \<and>
    dom_ok (dom_intersect d e) \<and> dom_ok (dom_unite d e) \<and> dom_ok (dom_subtract d e)"
  using built_ok [OF assms(1)] built_ok [OF assms(2)] by (simp add: in_domain_ops dom_ok_ops)

text \<open>At \<open>x < 10\<close> and \<open>x IN (3, 12)\<close> over the integers.\<close>

theorem domain_algebra_exact_witness:
  "dom_ok (dom_subtract (dom_lessThan 10) (dom_in [12, 3 :: int])) \<and>
   ranges (dom_subtract (dom_lessThan 10) (dom_in [12, 3 :: int])) =
     [Range None (Some (Bound 3 False)), Range (Some (Bound 3 False)) (Some (Bound 10 False))]"
proof -
  have "built (dom_lessThan (10 :: int))" and "built (dom_in [12, 3 :: int])"
    by (rule built.intros)+
  then have "dom_ok (dom_subtract (dom_lessThan 10) (dom_in [12, 3 :: int]))"
    by (blast dest: domain_algebra_exact)
  moreover have "ranges (dom_subtract (dom_lessThan 10) (dom_in [12, 3 :: int])) =
      [Range None (Some (Bound 3 False)), Range (Some (Bound 3 False)) (Some (Bound 10 False))]"
    by code_simp
  ultimately show ?thesis by (rule conjI)
qed

text \<open>
  C28: What \<open>operator==\<close>, \<open>isAll\<close> and \<open>isNone\<close> decide, for any order of values. Two built domains are
  equal exactly when they treat NULL alike and cover the same positions, a domain is all exactly
  when it has NULL and covers every position, and none exactly when it has no NULL and covers no
  position. So a positive answer always means that the values agree, that every value is held, or
  that none is. A negative answer can also come from a position between two neighbouring values.
\<close>

theorem domain_equality_exact:
  fixes d e :: "'v :: linorder domain"
  assumes "built d" and "built e"
  shows "(dom_eq d e \<longleftrightarrow> nullsAllowed d = nullsAllowed e \<and> (\<forall>p. covered p d = covered p e)) \<and>
    (dom_isAll d \<longleftrightarrow> nullsAllowed d \<and> (\<forall>p. covered p d)) \<and>
    (dom_isNone d \<longleftrightarrow> \<not> nullsAllowed d \<and> (\<forall>p. \<not> covered p d)) \<and>
    (dom_eq d e \<longrightarrow> (\<forall>x. in_domain x d = in_domain x e)) \<and>
    (dom_isAll d \<longrightarrow> (\<forall>x. in_domain x d)) \<and> (dom_isNone d \<longrightarrow> (\<forall>x. \<not> in_domain x d))"
proof -
  have eq: "dom_eq a b \<longleftrightarrow> nullsAllowed a = nullsAllowed b \<and> (\<forall>p. covered p a = covered p b)"
    if "dom_ok a" "dom_ok b" for a b :: "'v domain"
  proof
    assume same: "nullsAllowed a = nullsAllowed b \<and> (\<forall>p. covered p a = covered p b)"
    have "\<forall>k. cut_in k (ranges a) = cut_in k (ranges b)"
      unfolding cut_positions [of "(=)"] using same by (simp add: covered_cut)
    then show "dom_eq a b"
      using normal_unique [of "ranges a" "ranges b"] that same by (simp add: dom_eq_cuts dom_ok_def)
  next
    assume "dom_eq a b"
    moreover have "cut_in k rs = cut_in k ss"
      if "list_all2 (\<lambda>r s. lo r = lo s \<and> hi r = hi s) rs ss" for k and rs ss :: "'v range list"
      using that by (induction rs ss rule: list_all2_induct) (auto simp: cut_in_def)
    ultimately show "nullsAllowed a = nullsAllowed b \<and> (\<forall>p. covered p a = covered p b)"
      by (simp add: dom_eq_cuts covered_cut)
  qed
  have cut_None: "(NegInf = lo r \<longleftrightarrow> low r = None)" "(PosInf = hi r \<longleftrightarrow> high r = None)"
    for r :: "'v range"
    by (cases "low r"; cases "high r"; simp add: lowCut.simps highCut.simps)+
  have a: "dom_eq dom_all d \<longleftrightarrow> dom_isAll d"
    by (auto simp: dom_eq_cuts dom_isAll_def dom_all_def range_unbounded_def list_all2_Cons1
        cut_None split: list.splits)
  have n: "dom_eq dom_none d \<longleftrightarrow> dom_isNone d"
    by (auto simp: dom_eq_cuts dom_isNone_def dom_none_def)
  have all: "covered p (dom_all :: 'v domain)" "\<not> covered p (dom_none :: 'v domain)" for p
    by (cases p; simp add: covered_def dom_all_def dom_none_def range_unbounded_def in_range_def)+
  have ok: "dom_ok d" "dom_ok e" "dom_ok (dom_all :: 'v domain)" "dom_ok (dom_none :: 'v domain)"
    using assms built_ok built.intros(1,2) by blast+
  have nulls: "nullsAllowed (dom_all :: 'v domain)" "\<not> nullsAllowed (dom_none :: 'v domain)"
    and vals: "in_domain x (dom_all :: 'v domain)" "\<not> in_domain x (dom_none :: 'v domain)" for x
    by (simp_all add: dom_all_def dom_none_def dom_constructors_in [unfolded dom_all_def dom_none_def])
  have "dom_isAll d \<longleftrightarrow> nullsAllowed d \<and> (\<forall>p. covered p d)"
    "dom_isNone d \<longleftrightarrow> \<not> nullsAllowed d \<and> (\<forall>p. \<not> covered p d)"
    using eq [OF ok(3,1)] eq [OF ok(4,1)] all nulls unfolding a n by simp_all
  moreover have "in_domain x d" if "dom_isAll d" for x
    using dom_eq_same_values [of dom_all d x] vals that unfolding a by simp
  moreover have "\<not> in_domain x d" if "dom_isNone d" for x
    using dom_eq_same_values [of dom_none d x] vals that unfolding n by simp
  ultimately show ?thesis using eq [OF ok(1,2)] dom_eq_same_values [of d e] by blast
qed

text \<open>At \<open>x > 1 OR x = 1\<close> and \<open>x >= 1\<close> over the integers.\<close>

theorem domain_equality_exact_witness:
  "dom_eq (dom_unite (dom_greaterThan 1) (dom_singleValue 1)) (dom_greaterThanOrEqual (1 :: int)) \<and>
   covered (JustAfter 3) (dom_unite (dom_greaterThan 1) (dom_singleValue (1 :: int)))"
proof -
  let ?d = "dom_unite (dom_greaterThan 1) (dom_singleValue (1 :: int))"
  have b: "built ?d" "built (dom_greaterThanOrEqual (1 :: int))" by (intro built.intros)+
  have eq: "dom_eq ?d (dom_greaterThanOrEqual 1)" by code_simp
  have "covered (JustAfter 3) (dom_greaterThanOrEqual (1 :: int))"
    by (simp add: covered_def dom_greaterThanOrEqual_def)
  then show ?thesis using domain_equality_exact [OF b] eq by blast
qed

text \<open>
  Equality, \<open>isNone\<close> and \<open>isAll\<close> answer true only when the values agree (they are sound over
  every order), but over the integers they are not complete: \<open>x > 1 AND x < 3\<close> and \<open>x = 2\<close> hold
  the same values and compare different, and \<open>x > 1 AND x < 2\<close> holds no value and is not
  reported as none.
\<close>

theorem domain_equality_integers:
  "(dom_eq d e \<longrightarrow> (\<forall>x. in_domain x d = in_domain x (e :: int domain))) \<and>
   (\<forall>x. in_domain x (dom_intersect (dom_greaterThan 1) (dom_lessThan 3)) =
        in_domain x (dom_singleValue (2 :: int))) \<and>
   \<not> dom_eq (dom_intersect (dom_greaterThan 1) (dom_lessThan 3)) (dom_singleValue (2 :: int)) \<and>
   (\<forall>x. \<not> in_domain x (dom_intersect (dom_greaterThan 1) (dom_lessThan (2 :: int)))) \<and>
   \<not> dom_isNone (dom_intersect (dom_greaterThan 1) (dom_lessThan (2 :: int)))"
proof (intro conjI)
  show "\<not> dom_eq (dom_intersect (dom_greaterThan 1) (dom_lessThan 3)) (dom_singleValue (2 :: int))"
    by code_simp
  show "\<not> dom_isNone (dom_intersect (dom_greaterThan 1) (dom_lessThan (2 :: int)))"
    by code_simp
qed (auto simp: dom_eq_same_values in_domain_intersect)

text \<open>The first conjunct at two equal domains.\<close>

theorem domain_equality_integers_witness:
  "dom_eq (dom_in [2]) (dom_singleValue (2 :: int)) \<and>
   (\<forall>x. in_domain x (dom_in [2]) = in_domain x (dom_singleValue (2 :: int)))"
proof -
  have "dom_eq (dom_in [2]) (dom_singleValue (2 :: int))" by code_simp
  then show ?thesis
    using domain_equality_integers [of "dom_in [2]" "dom_singleValue 2", THEN conjunct1] by blast
qed

end
