(* ===== verification/Function_Registry.thy ===== *)
theory Function_Registry
  imports Prelude
begin

text \<open>
  The registry of function semantics the optimizer plans with
  (\<^verbatim>\<open>optimizer/FunctionRegistry.h\<close>, \<^verbatim>\<open>FunctionRegistry.cpp\<close>) and the table of function names
  a query context copies from it (\<^verbatim>\<open>QueryGraphContext::populateFunctionNames\<close>). A dialect
  fills the registry by a sequence of \<^verbatim>\<open>register*\<close> calls, so the theory models each call, a
  datatype of all calls and the registries a sequence of calls can reach. The slots for a
  single function name form a family of write-once registers, which the locale \<open>write_once\<close>
  states once.

  Velox types, variants and the callbacks held by the registry are type parameters. Function
  metadata (\<open>'m\<close>) is opaque. A name is its text: names are interned, so comparing pointers in
  the code is comparing texts.
\<close>

section \<open>Sets of function properties\<close>

datatype function_set = FunctionSet (set_bits: u64)

definition kAggregate :: u64 where "kAggregate = 1"
definition kNonDeterministic :: u64 where "kNonDeterministic = push_bit 1 1"
definition kOrderSensitiveAggregate :: u64 where "kOrderSensitiveAggregate = push_bit 2 1"
definition kIgnoreDuplicatesAggregate :: u64 where "kIgnoreDuplicatesAggregate = push_bit 3 1"
definition kNonDefaultNullBehavior :: u64 where "kNonDefaultNullBehavior = push_bit 4 1"
definition kWindow :: u64 where "kWindow = push_bit 5 1"
definition kInference :: u64 where "kInference = push_bit 6 1"

definition fs_contains :: "function_set \<Rightarrow> u64 \<Rightarrow> bool" where
  "fs_contains s item \<longleftrightarrow> 0 \<noteq> (set_bits s AND item)"

definition fs_or :: "function_set \<Rightarrow> function_set \<Rightarrow> function_set" where
  "fs_or s t = FunctionSet (set_bits s OR set_bits t)"

definition fs_or_bits :: "function_set \<Rightarrow> u64 \<Rightarrow> function_set" where
  "fs_or_bits s b = FunctionSet (set_bits s OR b)"

section \<open>The registry\<close>

datatype special_form =
  KAnd | KOr | KCast | KTryCast | KTry | KDereference | KCoalesce | KIf | KSwitch | KStar | KIn
  | KExists | KNullIf | KInArray | KRowConstructor

record stats_aggregates =
  sa_min :: string
  sa_max :: string
  sa_countIf :: string
  sa_approxDistinct :: string
  sa_sumDataSize :: string

record ('t, 'v, 'm) function_registry =
  fr_metadata :: "string \<rightharpoonup> 'm"
  fr_equality :: string
  fr_negation :: string
  fr_elementAt :: "string option"
  fr_subscript :: "string option"
  fr_cardinality :: "string option"
  fr_internalPrefix :: "string option"
  fr_lessThan :: "string option"
  fr_lessThanOrEqual :: "string option"
  fr_greaterThan :: "string option"
  fr_greaterThanOrEqual :: "string option"
  fr_isNull :: "string option"
  fr_distinctFrom :: "string option"
  fr_between :: "string option"
  fr_like :: "string option"
  fr_random :: "string option"
  fr_arbitrary :: "string option"
  fr_count :: "string option"
  fr_boolOr :: "string option"
  fr_statsAggregates :: "stats_aggregates option"
  fr_rowNumber :: "string option"
  fr_rank :: "string option"
  fr_denseRank :: "string option"
  fr_reversibleFunctions :: "string \<rightharpoonup> string"
  fr_specialForms :: "special_form \<rightharpoonup> string"
  fr_aggregateEmptyResultResolvers :: "string \<rightharpoonup> (string \<Rightarrow> 't list \<Rightarrow> 'v)"

definition new_registry :: "('t, 'v, 'm) function_registry" where
  "new_registry =
     \<lparr>fr_metadata = Map.empty, fr_equality = ''eq'', fr_negation = ''not'',
      fr_elementAt = None, fr_subscript = None, fr_cardinality = None,
      fr_internalPrefix = None, fr_lessThan = None, fr_lessThanOrEqual = None,
      fr_greaterThan = None, fr_greaterThanOrEqual = None, fr_isNull = None,
      fr_distinctFrom = None, fr_between = None, fr_like = None,
      fr_random = None, fr_arbitrary = None, fr_count = None,
      fr_boolOr = None,
      fr_statsAggregates = None, fr_rowNumber = None, fr_rank = None, fr_denseRank = None,
      fr_reversibleFunctions = Map.empty, fr_specialForms = Map.empty,
      fr_aggregateEmptyResultResolvers = Map.empty\<rparr>"

text \<open>The exceptions of \<^verbatim>\<open>VELOX_USER_CHECK\<close> and \<^verbatim>\<open>VELOX_CHECK\<close> in the registry.\<close>

datatype registry_error =
  EmptyName | DuplicateName string | UnknownSpecialForm special_form | FunctionNotFound string

section \<open>Registration\<close>

definition fr_metadata_of :: "('t, 'v, 'm) function_registry \<Rightarrow> string \<Rightarrow> 'm option" where
  "fr_metadata_of r name = fr_metadata r name"

text \<open>
  \<^verbatim>\<open>map.emplace(key, value)\<close> keeps the entry that is already there and reports whether it inserted.
\<close>

definition emplace :: "('k \<rightharpoonup> 'x) \<Rightarrow> 'k \<Rightarrow> 'x \<Rightarrow> bool \<times> ('k \<rightharpoonup> 'x)" where
  "emplace m k x = (case m k of None \<Rightarrow> (True, m(k \<mapsto> x)) | Some _ \<Rightarrow> (False, m))"

definition registerFunction ::
  "string \<Rightarrow> 'm \<Rightarrow> ('t, 'v, 'm) function_registry \<Rightarrow>
   registry_error + bool \<times> ('t, 'v, 'm) function_registry" where
  "registerFunction name metadata r =
     check (name \<noteq> []) EmptyName
       (let (inserted, m) = emplace (fr_metadata r) name metadata
        in Inr (inserted, r\<lparr>fr_metadata := m\<rparr>))"

definition registerEquality ::
  "string \<Rightarrow> ('t, 'v, 'm) function_registry \<Rightarrow>
   registry_error + ('t, 'v, 'm) function_registry" where
  "registerEquality name r = check (name \<noteq> []) EmptyName (Inr (r\<lparr>fr_equality := name\<rparr>))"

definition registerNegation ::
  "string \<Rightarrow> ('t, 'v, 'm) function_registry \<Rightarrow>
   registry_error + ('t, 'v, 'm) function_registry" where
  "registerNegation name r = check (name \<noteq> []) EmptyName (Inr (r\<lparr>fr_negation := name\<rparr>))"

definition registerElementAt ::
  "string \<Rightarrow> ('t, 'v, 'm) function_registry \<Rightarrow>
   registry_error + bool \<times> ('t, 'v, 'm) function_registry" where
  "registerElementAt name r =
     check (name \<noteq> []) EmptyName
       (if fr_elementAt r \<noteq> None \<and> the (fr_elementAt r) \<noteq> name then Inr (False, r)
        else Inr (True, r\<lparr>fr_elementAt := Some name\<rparr>))"

definition registerSubscript ::
  "string \<Rightarrow> ('t, 'v, 'm) function_registry \<Rightarrow>
   registry_error + bool \<times> ('t, 'v, 'm) function_registry" where
  "registerSubscript name r =
     check (name \<noteq> []) EmptyName
       (if fr_subscript r \<noteq> None \<and> the (fr_subscript r) \<noteq> name then Inr (False, r)
        else Inr (True, r\<lparr>fr_subscript := Some name\<rparr>))"

definition registerCardinality ::
  "string \<Rightarrow> ('t, 'v, 'm) function_registry \<Rightarrow>
   registry_error + bool \<times> ('t, 'v, 'm) function_registry" where
  "registerCardinality name r =
     check (name \<noteq> []) EmptyName
       (if fr_cardinality r \<noteq> None \<and> the (fr_cardinality r) \<noteq> name then Inr (False, r)
        else Inr (True, r\<lparr>fr_cardinality := Some name\<rparr>))"

definition registerArbitrary ::
  "string \<Rightarrow> ('t, 'v, 'm) function_registry \<Rightarrow>
   registry_error + bool \<times> ('t, 'v, 'm) function_registry" where
  "registerArbitrary name r =
     check (name \<noteq> []) EmptyName
       (if fr_arbitrary r \<noteq> None \<and> the (fr_arbitrary r) \<noteq> name then Inr (False, r)
        else Inr (True, r\<lparr>fr_arbitrary := Some name\<rparr>))"

definition registerCount ::
  "string \<Rightarrow> ('t, 'v, 'm) function_registry \<Rightarrow>
   registry_error + bool \<times> ('t, 'v, 'm) function_registry" where
  "registerCount name r =
     check (name \<noteq> []) EmptyName
       (if fr_count r \<noteq> None \<and> the (fr_count r) \<noteq> name then Inr (False, r)
        else Inr (True, r\<lparr>fr_count := Some name\<rparr>))"

definition registerBoolOr ::
  "string \<Rightarrow> ('t, 'v, 'm) function_registry \<Rightarrow>
   registry_error + bool \<times> ('t, 'v, 'm) function_registry" where
  "registerBoolOr name r =
     check (name \<noteq> []) EmptyName
       (if fr_boolOr r \<noteq> None \<and> the (fr_boolOr r) \<noteq> name then Inr (False, r)
        else Inr (True, r\<lparr>fr_boolOr := Some name\<rparr>))"

definition registerStatsAggregates ::
  "stats_aggregates \<Rightarrow> ('t, 'v, 'm) function_registry \<Rightarrow>
   registry_error + bool \<times> ('t, 'v, 'm) function_registry" where
  "registerStatsAggregates aggregates r =
     check (sa_min aggregates \<noteq> []) EmptyName
     (check (sa_max aggregates \<noteq> []) EmptyName
     (check (sa_countIf aggregates \<noteq> []) EmptyName
     (check (sa_approxDistinct aggregates \<noteq> []) EmptyName
     (check (sa_sumDataSize aggregates \<noteq> []) EmptyName
       (case fr_statsAggregates r of
          Some old \<Rightarrow>
            Inr (sa_min old = sa_min aggregates \<and> sa_max old = sa_max aggregates \<and>
                 sa_countIf old = sa_countIf aggregates \<and>
                 sa_approxDistinct old = sa_approxDistinct aggregates \<and>
                 sa_sumDataSize old = sa_sumDataSize aggregates, r)
        | None \<Rightarrow> Inr (True, r\<lparr>fr_statsAggregates := Some aggregates\<rparr>))))))"

definition registerInternalPrefix ::
  "string \<Rightarrow> ('t, 'v, 'm) function_registry \<Rightarrow>
   registry_error + bool \<times> ('t, 'v, 'm) function_registry" where
  "registerInternalPrefix name r =
     (if fr_internalPrefix r \<noteq> None \<and> the (fr_internalPrefix r) \<noteq> name then Inr (False, r)
        else Inr (True, r\<lparr>fr_internalPrefix := Some name\<rparr>))"

definition registerLessThan ::
  "string \<Rightarrow> ('t, 'v, 'm) function_registry \<Rightarrow>
   registry_error + bool \<times> ('t, 'v, 'm) function_registry" where
  "registerLessThan name r =
     check (name \<noteq> []) EmptyName
       (if fr_lessThan r \<noteq> None \<and> the (fr_lessThan r) \<noteq> name then Inr (False, r)
        else Inr (True, r\<lparr>fr_lessThan := Some name\<rparr>))"

definition registerLessThanOrEqual ::
  "string \<Rightarrow> ('t, 'v, 'm) function_registry \<Rightarrow>
   registry_error + bool \<times> ('t, 'v, 'm) function_registry" where
  "registerLessThanOrEqual name r =
     check (name \<noteq> []) EmptyName
       (if fr_lessThanOrEqual r \<noteq> None \<and> the (fr_lessThanOrEqual r) \<noteq> name then Inr (False, r)
        else Inr (True, r\<lparr>fr_lessThanOrEqual := Some name\<rparr>))"

definition registerGreaterThan ::
  "string \<Rightarrow> ('t, 'v, 'm) function_registry \<Rightarrow>
   registry_error + bool \<times> ('t, 'v, 'm) function_registry" where
  "registerGreaterThan name r =
     check (name \<noteq> []) EmptyName
       (if fr_greaterThan r \<noteq> None \<and> the (fr_greaterThan r) \<noteq> name then Inr (False, r)
        else Inr (True, r\<lparr>fr_greaterThan := Some name\<rparr>))"

definition registerGreaterThanOrEqual ::
  "string \<Rightarrow> ('t, 'v, 'm) function_registry \<Rightarrow>
   registry_error + bool \<times> ('t, 'v, 'm) function_registry" where
  "registerGreaterThanOrEqual name r =
     check (name \<noteq> []) EmptyName
       (if fr_greaterThanOrEqual r \<noteq> None \<and> the (fr_greaterThanOrEqual r) \<noteq> name then Inr (False, r)
        else Inr (True, r\<lparr>fr_greaterThanOrEqual := Some name\<rparr>))"

definition registerIsNull ::
  "string \<Rightarrow> ('t, 'v, 'm) function_registry \<Rightarrow>
   registry_error + bool \<times> ('t, 'v, 'm) function_registry" where
  "registerIsNull name r =
     check (name \<noteq> []) EmptyName
       (if fr_isNull r \<noteq> None \<and> the (fr_isNull r) \<noteq> name then Inr (False, r)
        else Inr (True, r\<lparr>fr_isNull := Some name\<rparr>))"

definition registerDistinctFrom ::
  "string \<Rightarrow> ('t, 'v, 'm) function_registry \<Rightarrow>
   registry_error + bool \<times> ('t, 'v, 'm) function_registry" where
  "registerDistinctFrom name r =
     check (name \<noteq> []) EmptyName
       (if fr_distinctFrom r \<noteq> None \<and> the (fr_distinctFrom r) \<noteq> name then Inr (False, r)
        else Inr (True, r\<lparr>fr_distinctFrom := Some name\<rparr>))"

definition registerBetween ::
  "string \<Rightarrow> ('t, 'v, 'm) function_registry \<Rightarrow>
   registry_error + bool \<times> ('t, 'v, 'm) function_registry" where
  "registerBetween name r =
     check (name \<noteq> []) EmptyName
       (if fr_between r \<noteq> None \<and> the (fr_between r) \<noteq> name then Inr (False, r)
        else Inr (True, r\<lparr>fr_between := Some name\<rparr>))"

definition registerLike ::
  "string \<Rightarrow> ('t, 'v, 'm) function_registry \<Rightarrow>
   registry_error + bool \<times> ('t, 'v, 'm) function_registry" where
  "registerLike name r =
     check (name \<noteq> []) EmptyName
       (if fr_like r \<noteq> None \<and> the (fr_like r) \<noteq> name then Inr (False, r)
        else Inr (True, r\<lparr>fr_like := Some name\<rparr>))"

definition registerRandom ::
  "string \<Rightarrow> ('t, 'v, 'm) function_registry \<Rightarrow>
   registry_error + bool \<times> ('t, 'v, 'm) function_registry" where
  "registerRandom name r =
     check (name \<noteq> []) EmptyName
       (if fr_random r \<noteq> None \<and> the (fr_random r) \<noteq> name then Inr (False, r)
        else Inr (True, r\<lparr>fr_random := Some name\<rparr>))"

definition registerRowNumber ::
  "string \<Rightarrow> ('t, 'v, 'm) function_registry \<Rightarrow>
   registry_error + bool \<times> ('t, 'v, 'm) function_registry" where
  "registerRowNumber name r =
     check (name \<noteq> []) EmptyName
       (if fr_rowNumber r \<noteq> None \<and> the (fr_rowNumber r) \<noteq> name then Inr (False, r)
        else Inr (True, r\<lparr>fr_rowNumber := Some name\<rparr>))"

definition registerRank ::
  "string \<Rightarrow> ('t, 'v, 'm) function_registry \<Rightarrow>
   registry_error + bool \<times> ('t, 'v, 'm) function_registry" where
  "registerRank name r =
     check (name \<noteq> []) EmptyName
       (if fr_rank r \<noteq> None \<and> the (fr_rank r) \<noteq> name then Inr (False, r)
        else Inr (True, r\<lparr>fr_rank := Some name\<rparr>))"

definition registerDenseRank ::
  "string \<Rightarrow> ('t, 'v, 'm) function_registry \<Rightarrow>
   registry_error + bool \<times> ('t, 'v, 'm) function_registry" where
  "registerDenseRank name r =
     check (name \<noteq> []) EmptyName
       (if fr_denseRank r \<noteq> None \<and> the (fr_denseRank r) \<noteq> name then Inr (False, r)
        else Inr (True, r\<lparr>fr_denseRank := Some name\<rparr>))"

definition registerSpecialForm ::
  "special_form \<Rightarrow> string \<Rightarrow> ('t, 'v, 'm) function_registry \<Rightarrow>
   registry_error + bool \<times> ('t, 'v, 'm) function_registry" where
  "registerSpecialForm specialForm name r =
     check (name \<noteq> []) EmptyName
       (let (inserted, m) = emplace (fr_specialForms r) specialForm name
        in Inr (inserted, r\<lparr>fr_specialForms := m\<rparr>))"

definition registerReversiblePair ::
  "string \<Rightarrow> string \<Rightarrow> ('t, 'v, 'm) function_registry \<Rightarrow>
   registry_error + bool \<times> ('t, 'v, 'm) function_registry" where
  "registerReversiblePair name reverseName r =
     check (name \<noteq> []) EmptyName
     (check (reverseName \<noteq> []) EmptyName
       (let (inserted, m) = emplace (fr_reversibleFunctions r) name reverseName
        in Inr (inserted, r\<lparr>fr_reversibleFunctions := m\<rparr>)))"

definition registerReversibleFunction ::
  "string \<Rightarrow> ('t, 'v, 'm) function_registry \<Rightarrow>
   registry_error + bool \<times> ('t, 'v, 'm) function_registry" where
  "registerReversibleFunction name r =
     check (name \<noteq> []) EmptyName
       (let (inserted, m) = emplace (fr_reversibleFunctions r) name name
        in Inr (inserted, r\<lparr>fr_reversibleFunctions := m\<rparr>))"

text \<open>
  The first loop of \<open>registerAggregateEmptyResultResolver\<close>: it throws on an empty name and on a
  name seen before in the same call, and gives up at the first name that has a resolver.
\<close>

fun resolver_names_free ::
  "(string \<rightharpoonup> 'x) \<Rightarrow> string set \<Rightarrow> string list \<Rightarrow> registry_error + bool" where
  "resolver_names_free m seen [] = Inr True"
| "resolver_names_free m seen (name # names) =
     check (name \<noteq> []) EmptyName
     (check (name \<notin> seen) (DuplicateName name)
       (if m name \<noteq> None then Inr False
        else resolver_names_free m (insert name seen) names))"

definition registerAggregateEmptyResultResolver ::
  "string list \<Rightarrow> (string \<Rightarrow> 't list \<Rightarrow> 'v) \<Rightarrow> ('t, 'v, 'm) function_registry \<Rightarrow>
   registry_error + bool \<times> ('t, 'v, 'm) function_registry" where
  "registerAggregateEmptyResultResolver names resolver r =
     bind_res (resolver_names_free (fr_aggregateEmptyResultResolvers r) {} names)
       (\<lambda>free. if \<not> free then Inr (False, r)
          else Inr (True, r\<lparr>fr_aggregateEmptyResultResolvers :=
            fold (\<lambda>name m. snd (emplace m name resolver)) names
              (fr_aggregateEmptyResultResolvers r)\<rparr>))"

section \<open>Queries\<close>

text \<open>
  The result of an aggregate over no rows. \<open>zero\<close> is the BIGINT variant 0 and \<open>null\<close> the null
  variant.
\<close>

definition aggregateResultForEmptyInput ::
  "'v \<Rightarrow> 'v \<Rightarrow> ('t, 'v, 'm) function_registry \<Rightarrow> string \<Rightarrow> 't list \<Rightarrow> 'v" where
  "aggregateResultForEmptyInput zero null r name argTypes =
     (if fr_count r \<noteq> None \<and> the (fr_count r) = name then zero
      else case fr_aggregateEmptyResultResolvers r name of
        Some resolver \<Rightarrow> resolver name argTypes
      | None \<Rightarrow> null)"

definition specialForm ::
  "('t, 'v, 'm) function_registry \<Rightarrow> special_form \<Rightarrow> registry_error + string" where
  "specialForm r f =
     (case fr_specialForms r f of None \<Rightarrow> Inl (UnknownSpecialForm f) | Some name \<Rightarrow> Inr name)"

text \<open>
  \<open>functionBits\<close> asks three Velox registries, which are its parameters: the remote inference
  functions (determinism and null behaviour of each), and the determinism and null behaviour of
  the local ones.
\<close>

definition functionBits ::
  "(string \<Rightarrow> (bool \<times> bool) option) \<Rightarrow> (string \<Rightarrow> bool option) \<Rightarrow> (string \<Rightarrow> bool option) \<Rightarrow>
   ('t, 'v, 'm) function_registry \<Rightarrow> string \<Rightarrow> bool \<Rightarrow> registry_error + function_set" where
  "functionBits findInference isDeterministic isDefaultNullBehavior r name special =
     (let bits = FunctionSet 0 in
      if special then Inr (fs_or_bits bits kNonDefaultNullBehavior)
      else case findInference name of
        Some (deterministic, defaultNull) \<Rightarrow>
          (let bits = fs_or_bits bits kInference;
               bits = (if \<not> deterministic then fs_or_bits bits kNonDeterministic else bits);
               bits = (if \<not> defaultNull then fs_or_bits bits kNonDefaultNullBehavior else bits)
           in Inr bits)
      | None \<Rightarrow>
          (case isDeterministic name of
             None \<Rightarrow> check (fr_metadata_of r name \<noteq> None) (FunctionNotFound name) (Inr bits)
           | Some deterministic \<Rightarrow>
               (let bits = (if \<not> deterministic then fs_or_bits bits kNonDeterministic else bits) in
                case isDefaultNullBehavior name of
                  None \<Rightarrow> Inl (FunctionNotFound name)
                | Some defaultNull \<Rightarrow>
                    Inr (if \<not> defaultNull then fs_or_bits bits kNonDefaultNullBehavior
                         else bits))))"

section \<open>The function names of a query\<close>

text \<open>A null \<^verbatim>\<open>Name\<close> is \<^const>\<open>None\<close>.\<close>

record function_names =
  fn_equality :: "string option"
  fn_negation :: "string option"
  fn_elementAt :: "string option"
  fn_subscript :: "string option"
  fn_cardinality :: "string option"
  fn_lt :: "string option"
  fn_lte :: "string option"
  fn_gt :: "string option"
  fn_gte :: "string option"
  fn_isNull :: "string option"
  fn_distinctFrom :: "string option"
  fn_between :: "string option"
  fn_like :: "string option"
  fn_random :: "string option"
  fn_arbitrary :: "string option"
  fn_count :: "string option"
  fn_rowNumber :: "string option"
  fn_rank :: "string option"
  fn_denseRank :: "string option"

record internal_function_names =
  in_bigintAdd :: "string option"
  in_arrayAppend :: "string option"
  in_arrayPrepend :: "string option"

definition fn_isRanking :: "function_names \<Rightarrow> string option \<Rightarrow> bool" where
  "fn_isRanking F name \<longleftrightarrow> name = fn_rowNumber F \<or> name = fn_rank F \<or> name = fn_denseRank F"

definition populateFunctionNames ::
  "('t, 'v, 'm) function_registry \<Rightarrow> function_names \<times> internal_function_names" where
  "populateFunctionNames r =
     (\<lparr>fn_equality = Some (fr_equality r), fn_negation = Some (fr_negation r),
       fn_elementAt = fr_elementAt r, fn_subscript = fr_subscript r,
       fn_cardinality = fr_cardinality r, fn_lt = fr_lessThan r,
       fn_lte = fr_lessThanOrEqual r, fn_gt = fr_greaterThan r,
       fn_gte = fr_greaterThanOrEqual r, fn_isNull = fr_isNull r,
       fn_distinctFrom = fr_distinctFrom r, fn_between = fr_between r,
       fn_like = fr_like r, fn_random = fr_random r,
       fn_arbitrary = fr_arbitrary r, fn_count = fr_count r,
       fn_rowNumber = fr_rowNumber r, fn_rank = fr_rank r,
       fn_denseRank = fr_denseRank r\<rparr>,
      (case fr_internalPrefix r of
         Some prefix \<Rightarrow>
           \<lparr>in_bigintAdd = Some (prefix @ ''bigint_add''),
            in_arrayAppend = Some (prefix @ ''array_append''),
            in_arrayPrepend = Some (prefix @ ''array_prepend'')\<rparr>
       | None \<Rightarrow> \<lparr>in_bigintAdd = None, in_arrayAppend = None, in_arrayPrepend = None\<rparr>))"

section \<open>Sequences of registrations\<close>

text \<open>The slots that hold one function name each.\<close>

datatype slot =
  SlotElementAt | SlotSubscript | SlotCardinality | SlotArbitrary | SlotCount
  | SlotBoolOr | SlotInternalPrefix | SlotLessThan | SlotLessThanOrEqual | SlotGreaterThan
  | SlotGreaterThanOrEqual | SlotIsNull | SlotDistinctFrom | SlotBetween | SlotLike
  | SlotRandom | SlotRowNumber | SlotRank | SlotDenseRank

fun slot_name :: "('t, 'v, 'm) function_registry \<Rightarrow> slot \<rightharpoonup> string" where
  "slot_name r SlotElementAt = fr_elementAt r"
| "slot_name r SlotSubscript = fr_subscript r"
| "slot_name r SlotCardinality = fr_cardinality r"
| "slot_name r SlotArbitrary = fr_arbitrary r"
| "slot_name r SlotCount = fr_count r"
| "slot_name r SlotBoolOr = fr_boolOr r"
| "slot_name r SlotInternalPrefix = fr_internalPrefix r"
| "slot_name r SlotLessThan = fr_lessThan r"
| "slot_name r SlotLessThanOrEqual = fr_lessThanOrEqual r"
| "slot_name r SlotGreaterThan = fr_greaterThan r"
| "slot_name r SlotGreaterThanOrEqual = fr_greaterThanOrEqual r"
| "slot_name r SlotIsNull = fr_isNull r"
| "slot_name r SlotDistinctFrom = fr_distinctFrom r"
| "slot_name r SlotBetween = fr_between r"
| "slot_name r SlotLike = fr_like r"
| "slot_name r SlotRandom = fr_random r"
| "slot_name r SlotRowNumber = fr_rowNumber r"
| "slot_name r SlotRank = fr_rank r"
| "slot_name r SlotDenseRank = fr_denseRank r"

fun registerSlot ::
  "slot \<Rightarrow> string \<Rightarrow> ('t, 'v, 'm) function_registry \<Rightarrow>
   registry_error + bool \<times> ('t, 'v, 'm) function_registry" where
  "registerSlot SlotElementAt name r = registerElementAt name r"
| "registerSlot SlotSubscript name r = registerSubscript name r"
| "registerSlot SlotCardinality name r = registerCardinality name r"
| "registerSlot SlotArbitrary name r = registerArbitrary name r"
| "registerSlot SlotCount name r = registerCount name r"
| "registerSlot SlotBoolOr name r = registerBoolOr name r"
| "registerSlot SlotInternalPrefix name r = registerInternalPrefix name r"
| "registerSlot SlotLessThan name r = registerLessThan name r"
| "registerSlot SlotLessThanOrEqual name r = registerLessThanOrEqual name r"
| "registerSlot SlotGreaterThan name r = registerGreaterThan name r"
| "registerSlot SlotGreaterThanOrEqual name r = registerGreaterThanOrEqual name r"
| "registerSlot SlotIsNull name r = registerIsNull name r"
| "registerSlot SlotDistinctFrom name r = registerDistinctFrom name r"
| "registerSlot SlotBetween name r = registerBetween name r"
| "registerSlot SlotLike name r = registerLike name r"
| "registerSlot SlotRandom name r = registerRandom name r"
| "registerSlot SlotRowNumber name r = registerRowNumber name r"
| "registerSlot SlotRank name r = registerRank name r"
| "registerSlot SlotDenseRank name r = registerDenseRank name r"

text \<open>One call of the registration interface.\<close>

datatype ('t, 'v, 'm) reg_call =
  RegFunction string 'm
  | RegEquality string
  | RegNegation string
  | RegSlot slot string
  | RegStatsAggregates stats_aggregates
  | RegSpecialForm special_form string
  | RegReversiblePair string string
  | RegReversibleFunction string
  | RegResolver "string list" "string \<Rightarrow> 't list \<Rightarrow> 'v"

text \<open>The registry after a call: a call that throws has changed nothing.\<close>

definition after :: "'r \<Rightarrow> registry_error + 'b \<times> 'r \<Rightarrow> 'r" where
  "after r res = (case res of Inl _ \<Rightarrow> r | Inr (_, r') \<Rightarrow> r')"

fun apply_call ::
  "('t, 'v, 'm) reg_call \<Rightarrow> ('t, 'v, 'm) function_registry \<Rightarrow> ('t, 'v, 'm) function_registry" where
  "apply_call (RegFunction n m) r = after r (registerFunction n m r)"
| "apply_call (RegEquality n) r = (case registerEquality n r of Inl _ \<Rightarrow> r | Inr r' \<Rightarrow> r')"
| "apply_call (RegNegation n) r = (case registerNegation n r of Inl _ \<Rightarrow> r | Inr r' \<Rightarrow> r')"
| "apply_call (RegSlot s n) r = after r (registerSlot s n r)"
| "apply_call (RegStatsAggregates a) r = after r (registerStatsAggregates a r)"
| "apply_call (RegSpecialForm f n) r = after r (registerSpecialForm f n r)"
| "apply_call (RegReversiblePair n n') r = after r (registerReversiblePair n n' r)"
| "apply_call (RegReversibleFunction n) r = after r (registerReversibleFunction n r)"
| "apply_call (RegResolver ns f) r = after r (registerAggregateEmptyResultResolver ns f r)"

definition run_calls ::
  "('t, 'v, 'm) reg_call list \<Rightarrow> ('t, 'v, 'm) function_registry \<Rightarrow> ('t, 'v, 'm) function_registry" where
  "run_calls cs r = fold apply_call cs r"

section \<open>First registration wins\<close>

text \<open>
  A family of registers updated by a sequence of calls, where each call offers a list of
  bindings and a register that is set keeps its value. The registers then hold, after any
  sequence, the first binding offered for them.
\<close>

locale first_wins =
  fixes getter :: "'r \<Rightarrow> 'k \<rightharpoonup> 'x"
    and step :: "'c \<Rightarrow> 'r \<Rightarrow> 'r"
    and writes :: "'c \<Rightarrow> ('k \<times> 'x) list"
  assumes step_get: "getter (step c r) = map_of (writes c) ++ getter r"
begin

lemma run_get: "getter (fold step cs r) = map_of (concat (map writes cs)) ++ getter r"
  by (induction cs arbitrary: r) (simp_all add: step_get)

lemma run_mono: "getter r \<subseteq>\<^sub>m getter (fold step cs r)"
  by (simp add: run_get)

lemma run_empty:
  "getter r = Map.empty \<Longrightarrow> getter (fold step cs r) = map_of (concat (map writes cs))"
  by (simp add: run_get)

end

fun slot_writes :: "('t, 'v, 'm) reg_call \<Rightarrow> (slot \<times> string) list" where
  "slot_writes (RegSlot s n) = (if n \<noteq> [] \<or> s = SlotInternalPrefix then [(s, n)] else [])"
| "slot_writes _ = []"

fun form_writes :: "('t, 'v, 'm) reg_call \<Rightarrow> (special_form \<times> string) list" where
  "form_writes (RegSpecialForm f n) = (if n \<noteq> [] then [(f, n)] else [])"
| "form_writes _ = []"

fun reversible_writes :: "('t, 'v, 'm) reg_call \<Rightarrow> (string \<times> string) list" where
  "reversible_writes (RegReversiblePair n n') = (if n \<noteq> [] \<and> n' \<noteq> [] then [(n, n')] else [])"
| "reversible_writes (RegReversibleFunction n) = (if n \<noteq> [] then [(n, n)] else [])"
| "reversible_writes _ = []"

fun metadata_writes :: "('t, 'v, 'm) reg_call \<Rightarrow> (string \<times> 'm) list" where
  "metadata_writes (RegFunction n m) = (if n \<noteq> [] then [(n, m)] else [])"
| "metadata_writes _ = []"

fun stats_writes :: "('t, 'v, 'm) reg_call \<Rightarrow> (unit \<times> stats_aggregates) list" where
  "stats_writes (RegStatsAggregates a) =
     (if [] \<in> {sa_min a, sa_max a, sa_countIf a, sa_approxDistinct a, sa_sumDataSize a} then [] else [((), a)])"
| "stats_writes _ = []"

text \<open>The two names a later call replaces.\<close>

fun equality_writes :: "('t, 'v, 'm) reg_call \<Rightarrow> string list" where
  "equality_writes (RegEquality n) = (if n \<noteq> [] then [n] else [])"
| "equality_writes _ = []"

fun negation_writes :: "('t, 'v, 'm) reg_call \<Rightarrow> string list" where
  "negation_writes (RegNegation n) = (if n \<noteq> [] then [n] else [])"
| "negation_writes _ = []"

text \<open>A table of resolvers takes the names of a call all together or not at all.\<close>

fun offer_resolver :: "('t, 'v, 'm) reg_call \<Rightarrow> (string \<rightharpoonup> (string \<Rightarrow> 't list \<Rightarrow> 'v)) \<Rightarrow>
    (string \<rightharpoonup> (string \<Rightarrow> 't list \<Rightarrow> 'v))" where
  "offer_resolver (RegResolver ns f) table =
     (if distinct ns \<and> [] \<notin> set ns \<and> set ns \<inter> dom table = {}
      then (\<lambda>n. if n \<in> set ns then Some f else table n) else table)"
| "offer_resolver _ table = table"

lemma snd_emplace: "snd (emplace m k x) = [k \<mapsto> x] ++ m"
  by (rule ext) (auto simp: emplace_def map_add_def split: option.splits)

lemma fst_emplace: "fst (emplace m k x) \<longleftrightarrow> m k = None"
  by (auto simp: emplace_def split: option.splits)

lemma after_simps [simp]: "after r (Inl e) = r" "after r (Inr (b, r')) = r'"
  by (simp_all add: after_def)

lemma after_check: "after r (check c e res) = (if c then after r res else r)"
  by (simp add: check_def)

lemma after_if: "after r (if c then x else y) = (if c then after r x else after r y)"
  by simp

lemmas register_slot_defs =
  registerElementAt_def registerSubscript_def registerCardinality_def registerArbitrary_def
  registerCount_def registerBoolOr_def registerInternalPrefix_def registerLessThan_def
  registerLessThanOrEqual_def registerGreaterThan_def registerGreaterThanOrEqual_def
  registerIsNull_def registerDistinctFrom_def registerBetween_def registerLike_def
  registerRandom_def registerRowNumber_def registerRank_def registerDenseRank_def

lemmas register_map_defs =
  registerFunction_def registerSpecialForm_def registerReversiblePair_def
  registerReversibleFunction_def

text \<open>All slot registrations have one shape: a write-once update of the slot.\<close>

fun slot_set :: "slot \<Rightarrow> string \<Rightarrow> ('t, 'v, 'm) function_registry \<Rightarrow> ('t, 'v, 'm) function_registry" where
  "slot_set SlotElementAt n r = r\<lparr>fr_elementAt := Some n\<rparr>"
| "slot_set SlotSubscript n r = r\<lparr>fr_subscript := Some n\<rparr>"
| "slot_set SlotCardinality n r = r\<lparr>fr_cardinality := Some n\<rparr>"
| "slot_set SlotArbitrary n r = r\<lparr>fr_arbitrary := Some n\<rparr>"
| "slot_set SlotCount n r = r\<lparr>fr_count := Some n\<rparr>"
| "slot_set SlotBoolOr n r = r\<lparr>fr_boolOr := Some n\<rparr>"
| "slot_set SlotInternalPrefix n r = r\<lparr>fr_internalPrefix := Some n\<rparr>"
| "slot_set SlotLessThan n r = r\<lparr>fr_lessThan := Some n\<rparr>"
| "slot_set SlotLessThanOrEqual n r = r\<lparr>fr_lessThanOrEqual := Some n\<rparr>"
| "slot_set SlotGreaterThan n r = r\<lparr>fr_greaterThan := Some n\<rparr>"
| "slot_set SlotGreaterThanOrEqual n r = r\<lparr>fr_greaterThanOrEqual := Some n\<rparr>"
| "slot_set SlotIsNull n r = r\<lparr>fr_isNull := Some n\<rparr>"
| "slot_set SlotDistinctFrom n r = r\<lparr>fr_distinctFrom := Some n\<rparr>"
| "slot_set SlotBetween n r = r\<lparr>fr_between := Some n\<rparr>"
| "slot_set SlotLike n r = r\<lparr>fr_like := Some n\<rparr>"
| "slot_set SlotRandom n r = r\<lparr>fr_random := Some n\<rparr>"
| "slot_set SlotRowNumber n r = r\<lparr>fr_rowNumber := Some n\<rparr>"
| "slot_set SlotRank n r = r\<lparr>fr_rank := Some n\<rparr>"
| "slot_set SlotDenseRank n r = r\<lparr>fr_denseRank := Some n\<rparr>"

lemma slot_name_slot_set: "slot_name (slot_set s n r) = (slot_name r)(s \<mapsto> n)"
proof
  show "slot_name (slot_set s n r) s' = ((slot_name r)(s \<mapsto> n)) s'" for s'
    by (cases s; cases s'; simp)
qed

lemma registerSlot_generic:
  "registerSlot s n r =
     (if n = [] \<and> s \<noteq> SlotInternalPrefix then Inl EmptyName
      else if slot_name r s \<noteq> None \<and> slot_name r s \<noteq> Some n then Inr (False, r)
      else Inr (True, slot_set s n r))"
  by (cases "slot_name r s"; cases s) (auto simp: register_slot_defs check_def)

lemma slot_set_others [simp]:
  "fr_specialForms (slot_set s n r) = fr_specialForms r"
  "fr_reversibleFunctions (slot_set s n r) = fr_reversibleFunctions r"
  "fr_metadata (slot_set s n r) = fr_metadata r"
  "fr_aggregateEmptyResultResolvers (slot_set s n r) = fr_aggregateEmptyResultResolvers r"
  "fr_statsAggregates (slot_set s n r) = fr_statsAggregates r"
  by (cases s; simp)+

text \<open>The other registrations leave the slots alone.\<close>

lemma slot_name_others [simp]:
  "slot_name (r\<lparr>fr_specialForms := a\<rparr>) = slot_name r"
  "slot_name (r\<lparr>fr_reversibleFunctions := b\<rparr>) = slot_name r"
  "slot_name (r\<lparr>fr_metadata := c\<rparr>) = slot_name r"
  "slot_name (r\<lparr>fr_aggregateEmptyResultResolvers := d\<rparr>) = slot_name r"
  "slot_name (r\<lparr>fr_statsAggregates := e\<rparr>) = slot_name r"
  "slot_name (r\<lparr>fr_equality := f\<rparr>) = slot_name r"
  "slot_name (r\<lparr>fr_negation := f\<rparr>) = slot_name r"
proof -
  have *: "slot_name r1 = slot_name r2" if "\<And>s. slot_name r1 s = slot_name r2 s"
    for r1 r2 :: "('a, 'b, 'c) function_registry"
    using that by auto
  show
    "slot_name (r\<lparr>fr_specialForms := a\<rparr>) = slot_name r"
    "slot_name (r\<lparr>fr_reversibleFunctions := b\<rparr>) = slot_name r"
    "slot_name (r\<lparr>fr_metadata := c\<rparr>) = slot_name r"
    "slot_name (r\<lparr>fr_aggregateEmptyResultResolvers := d\<rparr>) = slot_name r"
    "slot_name (r\<lparr>fr_statsAggregates := e\<rparr>) = slot_name r"
    "slot_name (r\<lparr>fr_equality := f\<rparr>) = slot_name r"
    "slot_name (r\<lparr>fr_negation := f\<rparr>) = slot_name r"
    by (rule *; case_tac s; simp)+
qed

lemma after_registerResolver:
  "after r (registerAggregateEmptyResultResolver ns f r) =
     r\<lparr>fr_aggregateEmptyResultResolvers :=
       fr_aggregateEmptyResultResolvers (after r (registerAggregateEmptyResultResolver ns f r))\<rparr>"
  by (cases "resolver_names_free (fr_aggregateEmptyResultResolvers r) {} ns")
    (simp_all add: registerAggregateEmptyResultResolver_def)

lemma after_registerStats:
  "after r (registerStatsAggregates a r) =
     r\<lparr>fr_statsAggregates := fr_statsAggregates (after r (registerStatsAggregates a r))\<rparr>"
  by (cases "fr_statsAggregates r") (simp_all add: registerStatsAggregates_def after_check)

lemma after_others [simp]:
  "slot_name (after r (registerAggregateEmptyResultResolver ns f r)) = slot_name r"
  "fr_specialForms (after r (registerAggregateEmptyResultResolver ns f r)) = fr_specialForms r"
  "fr_reversibleFunctions (after r (registerAggregateEmptyResultResolver ns f r)) =
     fr_reversibleFunctions r"
  "fr_metadata (after r (registerAggregateEmptyResultResolver ns f r)) = fr_metadata r"
  "slot_name (after r (registerStatsAggregates a r)) = slot_name r"
  "fr_specialForms (after r (registerStatsAggregates a r)) = fr_specialForms r"
  "fr_reversibleFunctions (after r (registerStatsAggregates a r)) = fr_reversibleFunctions r"
  "fr_metadata (after r (registerStatsAggregates a r)) = fr_metadata r"
  by (subst after_registerResolver after_registerStats, simp)+

lemma map_add_keeps: "m k = Some y \<Longrightarrow> [k \<mapsto> x] ++ m = m"
  by (rule ext) (simp add: map_add_def split: option.splits)

lemma map_add_sets: "m k = None \<Longrightarrow> [k \<mapsto> x] ++ m = m(k \<mapsto> x)"
  by (rule ext) (simp add: map_add_def split: option.splits)

lemmas call_simps =
  registerSlot_generic slot_name_slot_set register_map_defs registerEquality_def
  registerNegation_def after_check snd_emplace Let_def split_beta

interpretation slots: first_wins slot_name apply_call slot_writes
proof
  fix c :: "('a, 'b, 'c) reg_call" and r
  show "slot_name (apply_call c r) = map_of (slot_writes c) ++ slot_name r"
  proof (cases c)
    case (RegSlot s n)
    then show ?thesis
      by (cases "slot_name r s")
        (auto simp: registerSlot_generic slot_name_slot_set map_add_keeps map_add_sets)
  qed (simp_all add: call_simps check_def split: if_splits)
qed

interpretation forms: first_wins fr_specialForms apply_call form_writes
proof
  fix c :: "('a, 'b, 'c) reg_call" and r
  show "fr_specialForms (apply_call c r) = map_of (form_writes c) ++ fr_specialForms r"
    by (cases c) (simp_all add: call_simps check_def)
qed

interpretation reversible: first_wins fr_reversibleFunctions apply_call reversible_writes
proof
  fix c :: "('a, 'b, 'c) reg_call" and r
  show "fr_reversibleFunctions (apply_call c r) =
      map_of (reversible_writes c) ++ fr_reversibleFunctions r"
    by (cases c) (simp_all add: call_simps check_def)
qed

interpretation metas: first_wins fr_metadata apply_call metadata_writes
proof
  fix c :: "('a, 'b, 'c) reg_call" and r
  show "fr_metadata (apply_call c r) = map_of (metadata_writes c) ++ fr_metadata r"
    by (cases c) (simp_all add: call_simps check_def)
qed

interpretation stats: first_wins "\<lambda>r (_ :: unit). fr_statsAggregates r" apply_call stats_writes
proof
  fix c :: "('a, 'b, 'c) reg_call" and r
  show "(\<lambda>_ :: unit. fr_statsAggregates (apply_call c r)) = map_of (stats_writes c) ++ (\<lambda>_. fr_statsAggregates r)"
  proof (cases c)
    case (RegStatsAggregates a)
    then show ?thesis
      by (cases "fr_statsAggregates r")
        (auto simp: registerStatsAggregates_def after_check fun_eq_iff map_add_def split: if_splits)
  next
    case (RegResolver ns f)
    then show ?thesis by (simp only: apply_call.simps, subst after_registerResolver, simp add: fun_eq_iff)
  qed (auto simp: call_simps check_def fun_eq_iff)
qed

section \<open>Resolvers of aggregates over no rows\<close>

lemma resolver_names_free_True:
  "resolver_names_free m seen ns = Inr True \<longleftrightarrow>
     distinct ns \<and> set ns \<inter> seen = {} \<and> [] \<notin> set ns \<and> (\<forall>n\<in>set ns. m n = None)"
  by (induction ns arbitrary: seen) auto

lemma fold_emplace:
  "fold (\<lambda>n m. snd (emplace m n f)) ns m k =
     (if k \<in> set ns \<and> m k = None then Some f else m k)"
proof (induction ns arbitrary: m)
  case (Cons a ns)
  have "snd (emplace m a f) k = (if k = a \<and> m a = None then Some f else m k)"
    by (auto simp: snd_emplace map_add_def split: option.splits)
  then show ?case by (auto simp: Cons.IH)
qed simp

lemma registerResolver_result:
  "registerAggregateEmptyResultResolver ns f r = Inr (True, r') \<longleftrightarrow>
     resolver_names_free (fr_aggregateEmptyResultResolvers r) {} ns = Inr True \<and>
     r' = r\<lparr>fr_aggregateEmptyResultResolvers :=
       (\<lambda>k. if k \<in> set ns then Some f else fr_aggregateEmptyResultResolvers r k)\<rparr>"
proof (cases "resolver_names_free (fr_aggregateEmptyResultResolvers r) {} ns = Inr True")
  case True
  then have "\<forall>n\<in>set ns. fr_aggregateEmptyResultResolvers r n = None"
    by (simp add: resolver_names_free_True)
  then have "fold (\<lambda>n m. snd (emplace m n f)) ns (fr_aggregateEmptyResultResolvers r) =
      (\<lambda>k. if k \<in> set ns then Some f else fr_aggregateEmptyResultResolvers r k)"
    by (intro ext) (auto simp: fold_emplace)
  then show ?thesis using True by (auto simp: registerAggregateEmptyResultResolver_def)
next
  case False
  then show ?thesis
    by (auto simp: registerAggregateEmptyResultResolver_def bind_res_def split: sum.splits if_splits)
qed

lemma resolvers_call:
  "fr_aggregateEmptyResultResolvers (apply_call c r) = offer_resolver c (fr_aggregateEmptyResultResolvers r)"
proof (cases c)
  case (RegResolver ns f)
  let ?ok = "distinct ns \<and> [] \<notin> set ns \<and> set ns \<inter> dom (fr_aggregateEmptyResultResolvers r) = {}"
  have ok: "?ok \<longleftrightarrow> resolver_names_free (fr_aggregateEmptyResultResolvers r) {} ns = Inr True"
    unfolding resolver_names_free_True by (auto simp: dom_def)
  show ?thesis
  proof (cases ?ok)
    case True
    have "registerAggregateEmptyResultResolver ns f r = Inr (True, r\<lparr>fr_aggregateEmptyResultResolvers :=
        (\<lambda>k. if k \<in> set ns then Some f else fr_aggregateEmptyResultResolvers r k)\<rparr>)"
      unfolding registerResolver_result using ok True by blast
    then show ?thesis using True RegResolver by simp
  next
    case False
    have "after r (registerAggregateEmptyResultResolver ns f r) = r"
      using False unfolding ok
      by (cases "resolver_names_free (fr_aggregateEmptyResultResolvers r) {} ns")
        (auto simp: registerAggregateEmptyResultResolver_def)
    then show ?thesis using False by (auto simp: RegResolver)
  qed
next
  case (RegStatsAggregates a)
  then show ?thesis by (simp only: apply_call.simps, subst after_registerStats, simp)
qed (auto simp: call_simps check_def)

lemma resolvers_run:
  "fr_aggregateEmptyResultResolvers (fold apply_call cs r) =
     fold offer_resolver cs (fr_aggregateEmptyResultResolvers r)"
  by (induction cs arbitrary: r) (simp_all add: resolvers_call)

lemma last_names_call:
  "fr_equality (apply_call c r) = last (fr_equality r # equality_writes c)"
  "fr_negation (apply_call c r) = last (fr_negation r # negation_writes c)"
proof -
  have slot: "fr_equality (slot_set s n r) = fr_equality r" "fr_negation (slot_set s n r) = fr_negation r" for s n
    by (cases s; simp)+
  show "fr_equality (apply_call c r) = last (fr_equality r # equality_writes c)"
    "fr_negation (apply_call c r) = last (fr_negation r # negation_writes c)"
    by (cases c; simp only: apply_call.simps, (subst after_registerStats after_registerResolver)?,
        simp add: call_simps check_def slot)+
qed

lemma last_names_run:
  "fr_equality (fold apply_call cs r) = last (fr_equality r # concat (map equality_writes cs))"
  "fr_negation (fold apply_call cs r) = last (fr_negation r # concat (map negation_writes cs))"
  by (induction cs arbitrary: r) (simp_all add: last_names_call last_append)

lemma resolvers_mono_call:
  "fr_aggregateEmptyResultResolvers r \<subseteq>\<^sub>m fr_aggregateEmptyResultResolvers (apply_call c r)"
proof (cases c)
  case (RegResolver ns f)
  then show ?thesis
    by (auto simp: registerAggregateEmptyResultResolver_def bind_res_def map_le_def fold_emplace
        split: sum.splits)
next
  case (RegStatsAggregates a)
  then show ?thesis by (simp only: apply_call.simps, subst after_registerStats, simp)
qed (auto simp: call_simps check_def)

lemma stats_mono_call:
  "fr_statsAggregates r = Some a \<Longrightarrow> fr_statsAggregates (apply_call c r) = Some a"
proof (cases c)
  case (RegResolver ns f)
  then show "fr_statsAggregates r = Some a \<Longrightarrow> ?thesis"
    by (simp only: apply_call.simps, subst after_registerResolver, simp)
next
  case (RegStatsAggregates b)
  then show "fr_statsAggregates r = Some a \<Longrightarrow> ?thesis"
    by (simp add: registerStatsAggregates_def after_check)
qed (auto simp: call_simps check_def)

lemma resolvers_mono:
  "fr_aggregateEmptyResultResolvers r \<subseteq>\<^sub>m fr_aggregateEmptyResultResolvers (fold apply_call cs r)"
  by (induction cs arbitrary: r) (auto intro: map_le_trans resolvers_mono_call)

lemma stats_mono:
  "fr_statsAggregates r = Some a \<Longrightarrow> fr_statsAggregates (fold apply_call cs r) = Some a"
  by (induction cs arbitrary: r) (auto intro: stats_mono_call)

lemma new_registry_empty:
  "slot_name new_registry = Map.empty" "fr_specialForms new_registry = Map.empty"
  "fr_reversibleFunctions new_registry = Map.empty" "fr_metadata new_registry = Map.empty"
proof -
  have "slot_name new_registry s = None" for s by (cases s) (simp_all add: new_registry_def)
  then show "slot_name new_registry = Map.empty" by auto
qed (simp_all add: new_registry_def)

section \<open>Properties\<close>

text \<open>
  C29: What a dialect ends up with. After any sequence of calls on a new registry, each function
  slot holds the first name offered for it (not empty, but for the internal prefix), the special
  forms, the reversible functions and the function metadata hold the first entry offered for each
  key, and the statistics aggregates are the first complete ones offered. Equality and negation
  hold the last non-empty name offered, or their defaults. The resolvers of empty results are
  those of the calls whose names are distinct, non-empty and all free when the call is made, which
  take all their names. Calls that throw change nothing.
\<close>

theorem registry_first_wins:
  "slot_name (run_calls cs new_registry) = map_of (concat (map slot_writes cs)) \<and>
   fr_specialForms (run_calls cs new_registry) = map_of (concat (map form_writes cs)) \<and>
   fr_reversibleFunctions (run_calls cs new_registry) =
     map_of (concat (map reversible_writes cs)) \<and>
   fr_metadata (run_calls cs new_registry) = map_of (concat (map metadata_writes cs)) \<and>
   fr_statsAggregates (run_calls cs new_registry) = map_of (concat (map stats_writes cs)) () \<and>
   fr_equality (run_calls cs new_registry) = last (''eq'' # concat (map equality_writes cs)) \<and>
   fr_negation (run_calls cs new_registry) = last (''not'' # concat (map negation_writes cs)) \<and>
   fr_aggregateEmptyResultResolvers (run_calls cs new_registry) = fold offer_resolver cs Map.empty"
proof -
  have "fr_statsAggregates (fold apply_call cs new_registry) = map_of (concat (map stats_writes cs)) ()"
    using stats.run_empty [of new_registry cs] by (simp add: new_registry_def fun_eq_iff)
  then show ?thesis
    unfolding run_calls_def last_names_run resolvers_run
    by (simp add: slots.run_empty forms.run_empty reversible.run_empty metas.run_empty
        new_registry_empty, simp add: new_registry_def)
qed

text \<open>
  Nothing registered is ever lost or replaced. From any registry and over any sequence of
  calls, every filled slot, special form, reversible function, function metadata, resolver and
  the statistics aggregates keep the value they have (equality and negation are the two names a
  later call may replace).
\<close>

theorem registry_monotone:
  "slot_name r \<subseteq>\<^sub>m slot_name (run_calls cs r) \<and>
   fr_specialForms r \<subseteq>\<^sub>m fr_specialForms (run_calls cs r) \<and>
   fr_reversibleFunctions r \<subseteq>\<^sub>m fr_reversibleFunctions (run_calls cs r) \<and>
   fr_metadata r \<subseteq>\<^sub>m fr_metadata (run_calls cs r) \<and>
   fr_aggregateEmptyResultResolvers r \<subseteq>\<^sub>m fr_aggregateEmptyResultResolvers (run_calls cs r) \<and>
   set_option (fr_statsAggregates r) \<subseteq> set_option (fr_statsAggregates (run_calls cs r))"
  unfolding run_calls_def
  using stats_mono [of r _ cs]
  by (auto simp: slots.run_mono forms.run_mono reversible.run_mono metas.run_mono resolvers_mono
      elim!: option.set_cases)

text \<open>
  A slot registration throws exactly on an empty name (the internal prefix may be empty),
  reports true exactly when the slot holds the given name afterwards, which is when it was free
  or held that name already, and changes no other slot; when it reports false it has changed
  nothing.
\<close>

theorem register_slot_result:
  "case registerSlot s n r of
     Inl e \<Rightarrow> e = EmptyName \<and> n = [] \<and> s \<noteq> SlotInternalPrefix
   | Inr (ok, r') \<Rightarrow>
       \<not> (n = [] \<and> s \<noteq> SlotInternalPrefix) \<and>
       ok = (slot_name r' s = Some n) \<and> ok = (slot_name r s \<in> {None, Some n}) \<and>
       slot_name r' = (if ok then (slot_name r)(s \<mapsto> n) else slot_name r) \<and> (r' = r \<or> ok)"
  by (cases "slot_name r s") (auto simp: registerSlot_generic slot_name_slot_set)

text \<open>
  C30: Registering a resolver for several aggregates is atomic. The call reports true exactly when
  the names are distinct, non-empty and all without a resolver; then each of them (other than
  the registered count) answers through the new resolver and every other name answers as
  before. In all other cases the registry is unchanged.
\<close>

theorem register_resolver_atomic:
  "(if distinct ns \<and> [] \<notin> set ns \<and> (\<forall>n. n \<in> set ns \<longrightarrow> fr_aggregateEmptyResultResolvers r n = None)
    then \<exists>r'. registerAggregateEmptyResultResolver ns f r = Inr (True, r') \<and>
      (\<forall>n ts. aggregateResultForEmptyInput zero null r' n ts =
         (if n \<in> set ns \<and> fr_count r \<noteq> Some n then f n ts
          else aggregateResultForEmptyInput zero null r n ts))
    else (\<exists>e. registerAggregateEmptyResultResolver ns f r = Inl e) \<or>
      registerAggregateEmptyResultResolver ns f r = Inr (False, r))"
proof (cases "resolver_names_free (fr_aggregateEmptyResultResolvers r) {} ns = Inr True")
  case True
  then show ?thesis
    by (cases "fr_count r")
      (auto simp: registerResolver_result resolver_names_free_True aggregateResultForEmptyInput_def)
next
  case False
  then have "(\<exists>e. registerAggregateEmptyResultResolver ns f r = Inl e) \<or>
      registerAggregateEmptyResultResolver ns f r = Inr (False, r)"
    by (cases "resolver_names_free (fr_aggregateEmptyResultResolvers r) {} ns")
      (auto simp: registerAggregateEmptyResultResolver_def)
  then show ?thesis using False by (auto simp: resolver_names_free_True)
qed

text \<open>A resolver for two new names, in a registry that has none.\<close>

theorem register_resolver_atomic_witness:
  "\<exists>r'. registerAggregateEmptyResultResolver [''count_if'', ''approx_distinct'']
      (\<lambda>_ _. 0 :: int) (new_registry :: (nat, int, unit) function_registry) = Inr (True, r')"
proof -
  have "distinct [''count_if'', ''approx_distinct''] \<and> [] \<notin> set [''count_if'', ''approx_distinct''] \<and>
    (\<forall>n. n \<in> set [''count_if'', ''approx_distinct''] \<longrightarrow> fr_aggregateEmptyResultResolvers
      (new_registry :: (nat, int, unit) function_registry) n = None)"
    by (simp add: new_registry_def)
  then show ?thesis
    using register_resolver_atomic [unfolded if_bool_eq_conj, THEN conjunct1, of "[''count_if'', ''approx_distinct'']"
        "new_registry :: (nat, int, unit) function_registry" "\<lambda>_ _. 0 :: int" 0 0]
    by blast
qed

text \<open>A set made of the three bits.\<close>

definition three_bits :: "bool \<Rightarrow> bool \<Rightarrow> bool \<Rightarrow> function_set" where
  "three_bits a b c = FunctionSet ((if a then push_bit 6 1 else 0) OR (if b then push_bit 1 1 else 0) OR
     (if c then push_bit 4 1 else 0))"

lemma single_bit: "bit (if a then push_bit k (1 :: u64) else 0) i \<longleftrightarrow> a \<and> i = k \<and> k < 64"
proof -
  have "bit (push_bit k (1 :: u64)) i \<longleftrightarrow> i = k \<and> k < 64"
    unfolding bit_push_bit_iff bit_1_iff by auto
  then show ?thesis by (simp del: push_bit_of_1)
qed

lemma three_bits_bit: "bit (set_bits (three_bits a b c)) i \<longleftrightarrow> a \<and> i = 6 \<or> b \<and> i = 1 \<or> c \<and> i = 4"
  unfolding three_bits_def function_set.sel bit_or_iff single_bit by auto

lemma three_bits_contains:
  "fs_contains (three_bits a b c) kInference = a"
  "fs_contains (three_bits a b c) kNonDeterministic = b"
  "fs_contains (three_bits a b c) kNonDefaultNullBehavior = c"
  by (cases a; cases b; cases c;
      simp add: three_bits_def fs_contains_def kInference_def kNonDeterministic_def kNonDefaultNullBehavior_def)+

lemma functionBits_three:
  "functionBits inference det dnb r name special =
     (if special then Inr (three_bits False False True)
      else case inference name of
        Some (d, n) \<Rightarrow> Inr (three_bits True (\<not> d) (\<not> n))
      | None \<Rightarrow>
          (case det name of
             None \<Rightarrow> if fr_metadata r name \<noteq> None then Inr (three_bits False False False) else Inl (FunctionNotFound name)
           | Some d \<Rightarrow>
               (case dnb name of None \<Rightarrow> Inl (FunctionNotFound name)
                | Some n \<Rightarrow> Inr (three_bits False (\<not> d) (\<not> n)))))"
  by (simp add: functionBits_def three_bits_def fs_or_bits_def fr_metadata_of_def Let_def
      kInference_def kNonDeterministic_def kNonDefaultNullBehavior_def check_def split: option.split)

text \<open>
  C23: The bits computed for a call are exact. When \<open>functionBits\<close> returns, the set contains the
  inference bit exactly for remote functions that are not special forms, the non-determinism bit
  exactly when the registry that knows the function says so, the null-behaviour bit for every
  special form and for every function whose null behaviour is not the default, and no other bit
  of the word (the bits at 6, 1 and 4 are these three). It throws exactly for a local
  function without determinism and without metadata, or with determinism and without null behaviour.
\<close>

theorem function_bits_exact:
  "case functionBits inference det dnb r name special of
     Inl e \<Rightarrow> e = FunctionNotFound name \<and> \<not> special \<and> inference name = None \<and>
       (det name = None \<and> fr_metadata r name = None \<or> det name \<noteq> None \<and> dnb name = None)
   | Inr bits \<Rightarrow>
       (special \<or> (\<exists>i. inference name = Some i) \<or> det name = None \<and> fr_metadata r name \<noteq> None \<or>
         det name \<noteq> None \<and> dnb name \<noteq> None) \<and>
       fs_contains bits kInference = (\<not> special \<and> inference name \<noteq> None) \<and>
       fs_contains bits kNonDeterministic =
         (\<not> special \<and> (case inference name of Some (d, _) \<Rightarrow> \<not> d | None \<Rightarrow> det name = Some False)) \<and>
       fs_contains bits kNonDefaultNullBehavior =
         (special \<or> (case inference name of Some (_, n) \<Rightarrow> \<not> n
            | None \<Rightarrow> det name \<noteq> None \<and> dnb name = Some False)) \<and>
       {i. bit (set_bits bits) i} =
         (if fs_contains bits kInference then {6} else {}) \<union>
         (if fs_contains bits kNonDeterministic then {1} else {}) \<union>
         (if fs_contains bits kNonDefaultNullBehavior then {4} else {})"
proof -
  have bits: "{i. bit (set_bits (three_bits a b c)) i} =
      (if a then {6} else {}) \<union> (if b then {1} else {}) \<union> (if c then {4} else {})" for a b c
    by (auto simp: three_bits_bit)
  show ?thesis
    unfolding functionBits_three by (auto simp: bits three_bits_contains split: option.split prod.split)
qed

end
