(* ===== verification/Expr_Domain.thy ===== *)
theory Expr_Domain
  imports Range_Domain Function_Registry "HOL-Library.List_Lexorder" "HOL-Library.Char_ord"
begin

text \<open>
  The translation of filter expressions to domains: the second half of
  \<^verbatim>\<open>optimizer/Domain.cpp\<close> (\<open>integralTypeDomain\<close> to \<open>exprToDomain\<close>), with
  \<open>Call::constantInList\<close> and \<open>integerValue\<close>, which it calls. Expressions are the classes of
  \<^verbatim>\<open>optimizer/QueryGraph.h\<close>. The translation is judged against a three-valued evaluation of
  SQL predicates defined in this theory without reference to domains.

  Velox types and variants are parameters: the record \<open>velox\<close> holds the member functions the
  code calls and \<open>velox_ok\<close> states what it relies on. The functions the optimizer does not
  interpret are a parameter of the evaluation.
\<close>

section \<open>Velox types and variants\<close>

datatype type_kind = TINYINT | SMALLINT | INTEGER | BIGINT | VARCHAR | OtherKind

record ('t, 'v) velox =
  ty_isDate :: "'t \<Rightarrow> bool"
  ty_isIntervalDayTime :: "'t \<Rightarrow> bool"
  ty_isIntervalYearMonth :: "'t \<Rightarrow> bool"
  ty_isDecimal :: "'t \<Rightarrow> bool"
  ty_isTime :: "'t \<Rightarrow> bool"
  ty_kind :: "'t \<Rightarrow> type_kind"
  ty_cppSizeInBytes :: "'t \<Rightarrow> nat"
  ty_isArray :: "'t \<Rightarrow> bool"
  ty_childAt0 :: "'t \<Rightarrow> 't"
  ty_equivalent :: "'t \<Rightarrow> 't \<Rightarrow> bool"
  va_isNull :: "'v \<Rightarrow> bool"
  va_kind :: "'v \<Rightarrow> type_kind"
  va_int :: "'v \<Rightarrow> int"
  va_bigint :: "int \<Rightarrow> 'v"
  va_text :: "'v \<Rightarrow> string"
  va_varchar :: "string \<Rightarrow> 'v"
  va_array :: "'v \<Rightarrow> 'v list"

section \<open>Expressions\<close>

record 't column =
  col_id :: nat
  col_type :: 't

text \<open>Expressions of classes other than these three are \<open>OtherExpr\<close>, with their columns.\<close>

datatype ('t, 'v) expr =
  ColumnExpr "'t column"
  | LiteralExpr 't 'v
  | CallExpr string 't "('t, 'v) expr list"
  | OtherExpr 't "'t column list"

fun expr_type :: "('t, 'v) expr \<Rightarrow> 't" where
  "expr_type (ColumnExpr c) = col_type c"
| "expr_type (LiteralExpr t v) = t"
| "expr_type (CallExpr n t args) = t"
| "expr_type (OtherExpr t cs) = t"

fun expr_columns :: "('t, 'v) expr \<Rightarrow> 't column set" where
  "expr_columns (ColumnExpr c) = {c}"
| "expr_columns (LiteralExpr t v) = {}"
| "expr_columns (CallExpr n t args) = (\<Union>a\<in>set args. expr_columns a)"
| "expr_columns (OtherExpr t cs) = set cs"

fun isLiteral :: "('t, 'v) expr \<Rightarrow> bool" where
  "isLiteral (LiteralExpr t v) = True"
| "isLiteral _ = False"

definition kAnd :: string where "kAnd = ''__and''"
definition kOr :: string where "kOr = ''__or''"
definition kCast :: string where "kCast = ''__cast''"
definition kTryCast :: string where "kTryCast = ''__try_cast''"
definition kIn :: string where "kIn = ''__in''"

definition constantInList :: "('t, 'v) velox \<Rightarrow> string \<Rightarrow> ('t, 'v) expr list \<Rightarrow> 'v list option" where
  "constantInList V name args =
     (case args of
        [a, LiteralExpr t v] \<Rightarrow>
          if name \<noteq> kIn then None
          else if \<not> ty_isArray V t \<or> va_isNull V v \<or> \<not> ty_equivalent V (ty_childAt0 V t) (expr_type a)
          then None
          else Some (va_array V v)
      | _ \<Rightarrow> None)"

section \<open>Integral types and literals\<close>

definition kind_bounds :: "type_kind \<Rightarrow> (int \<times> int) option" where
  "kind_bounds k =
     (case k of
        TINYINT \<Rightarrow> Some (- (2 ^ 7), 2 ^ 7 - 1)
      | SMALLINT \<Rightarrow> Some (- (2 ^ 15), 2 ^ 15 - 1)
      | INTEGER \<Rightarrow> Some (- (2 ^ 31), 2 ^ 31 - 1)
      | BIGINT \<Rightarrow> Some (- (2 ^ 63), 2 ^ 63 - 1)
      | _ \<Rightarrow> None)"

definition integralTypeDomain :: "('t, 'v :: linorder) velox \<Rightarrow> 't \<Rightarrow> 'v domain option" where
  "integralTypeDomain V t =
     (if ty_isDate V t \<or> ty_isIntervalDayTime V t \<or> ty_isIntervalYearMonth V t \<or>
         ty_isDecimal V t \<or> ty_isTime V t then None
      else case kind_bounds (ty_kind V t) of
        None \<Rightarrow> None
      | Some (minimum, maximum) \<Rightarrow>
          Some (dom_intersect (dom_greaterThanOrEqual (va_bigint V minimum))
            (dom_lessThanOrEqual (va_bigint V maximum))))"

datatype predicate_result = KTrue | KFalse

definition opposite :: "predicate_result \<Rightarrow> predicate_result" where
  "opposite result = (if result = KTrue then KFalse else KTrue)"

fun domainColumn :: "('t, 'v :: linorder) velox \<Rightarrow> ('t, 'v) expr \<Rightarrow> 't column option" where
  "domainColumn V (ColumnExpr c) = Some c"
| "domainColumn V (CallExpr name t [a]) =
     (if name \<noteq> kCast \<and> name \<noteq> kTryCast then None
      else case domainColumn V a of
        None \<Rightarrow> None
      | Some column \<Rightarrow>
          if integralTypeDomain V (col_type column) = None \<or> integralTypeDomain V t = None \<or>
             ty_cppSizeInBytes V (col_type column) > ty_cppSizeInBytes V t
          then None
          else Some column)"
| "domainColumn V _ = None"

definition nonNullDomain :: "('t, 'v :: linorder) velox \<Rightarrow> 't column \<Rightarrow> 'v domain" where
  "nonNullDomain V column =
     (case integralTypeDomain V (col_type column) of Some d \<Rightarrow> d | None \<Rightarrow> dom_notNull)"

text \<open>\<open>integerValue\<close> after its check that the variant is not null; it throws on other kinds.\<close>

definition integerValue :: "('t, 'v) velox \<Rightarrow> 'v \<Rightarrow> int option" where
  "integerValue V v =
     (if va_isNull V v then None
      else if va_kind V v \<in> {TINYINT, SMALLINT, INTEGER, BIGINT} then Some (va_int V v)
      else None)"

definition normalizeLiteral ::
  "('t, 'v :: linorder) velox \<Rightarrow> 't column \<Rightarrow> 'v \<Rightarrow> 'v option" where
  "normalizeLiteral V column literal =
     (if va_isNull V literal \<or> integralTypeDomain V (col_type column) = None then Some literal
      else if va_kind V literal \<in> {TINYINT, SMALLINT, INTEGER, BIGINT}
      then map_option (va_bigint V) (integerValue V literal)
      else None)"

section \<open>Comparisons\<close>

definition comparisonDomain ::
  "('t, 'v :: linorder) velox \<Rightarrow> function_names \<Rightarrow> 't column \<Rightarrow> string option \<Rightarrow> 'v \<Rightarrow>
   predicate_result \<Rightarrow> 'v domain option" where
  "comparisonDomain V F column functionName literal result =
     (if functionName = fn_distinctFrom F then
        case normalizeLiteral V column literal of
          None \<Rightarrow> None
        | Some v \<Rightarrow>
            (let nonNullValues = nonNullDomain V column;
                 equalValues = (if va_isNull V v then dom_onlyNull
                   else dom_intersect (dom_singleValue v) nonNullValues);
                 allValues = dom_unite nonNullValues dom_onlyNull
             in Some (if result = KTrue then dom_subtract allValues equalValues else equalValues))
      else
        (let makeTrueValues =
           (if functionName = fn_equality F then Some dom_singleValue
            else if functionName = fn_lt F then Some dom_lessThan
            else if functionName = fn_lte F then Some dom_lessThanOrEqual
            else if functionName = fn_gt F then Some dom_greaterThan
            else if functionName = fn_gte F then Some dom_greaterThanOrEqual
            else None)
         in case makeTrueValues of
           None \<Rightarrow> None
         | Some mk \<Rightarrow>
             (case normalizeLiteral V column literal of
                None \<Rightarrow> None
              | Some v \<Rightarrow>
                  if va_isNull V v then Some dom_none
                  else
                    (let validValues = nonNullDomain V column;
                         trueValues = dom_intersect (mk v) validValues
                     in Some (if result = KTrue then trueValues
                              else dom_subtract validValues trueValues)))))"

section \<open>LIKE patterns\<close>

text \<open>The loop works at the end of the string; the argument is the string reversed.\<close>

fun bump_last :: "string \<Rightarrow> string option" where
  "bump_last [] = None"
| "bump_last (c # cs) =
     (if of_char c \<noteq> (255 :: nat) then Some (char_of (of_char c + (1 :: nat)) # cs)
      else bump_last cs)"

definition prefixUpperBound :: "string \<Rightarrow> string option" where
  "prefixUpperBound prefix = map_option rev (bump_last (rev prefix))"

definition is_wildcard :: "char \<Rightarrow> bool" where
  "is_wildcard c \<longleftrightarrow> c = CHR ''%'' \<or> c = CHR ''_''"

definition likePatternToDomain :: "('t, 'v :: linorder) velox \<Rightarrow> 'v \<Rightarrow> 'v domain option" where
  "likePatternToDomain V pattern =
     (if va_isNull V pattern \<or> va_kind V pattern \<noteq> VARCHAR then None
      else
        (let text = va_text V pattern;
             prefix = takeWhile (\<lambda>c. \<not> is_wildcard c) text
         in if length prefix = length text then Some (dom_singleValue pattern)
            else if prefix = [] then None
            else
              (let domain = dom_greaterThanOrEqual (va_varchar V prefix)
               in Some (case prefixUpperBound prefix of
                    Some upper \<Rightarrow> dom_intersect domain (dom_lessThan (va_varchar V upper))
                  | None \<Rightarrow> domain))))"

section \<open>Predicates\<close>

text \<open>The loop over the elements of an IN list: the non-null values and whether one was null.\<close>

fun in_list_loop ::
  "('t, 'v :: linorder) velox \<Rightarrow> 't column \<Rightarrow> 'v list \<Rightarrow> 'v list \<Rightarrow> bool \<Rightarrow> ('v list \<times> bool) option" where
  "in_list_loop V column [] vals hasNull = Some (vals, hasNull)"
| "in_list_loop V column (element # elements) vals hasNull =
     (case normalizeLiteral V column element of
        None \<Rightarrow> None
      | Some v \<Rightarrow>
          if va_isNull V v then in_list_loop V column elements vals True
          else in_list_loop V column elements (vals @ [v]) hasNull)"

definition reversed_name :: "function_names \<Rightarrow> string \<Rightarrow> string option" where
  "reversed_name F name =
     (if Some name = fn_lt F then fn_gt F
      else if Some name = fn_lte F then fn_gte F
      else if Some name = fn_gt F then fn_lt F
      else if Some name = fn_gte F then fn_lte F
      else Some name)"

text \<open>The branches of \<open>exprToDomain\<close> after negation, conjunction and disjunction.\<close>

definition leafToDomain ::
  "('t, 'v :: linorder) velox \<Rightarrow> function_names \<Rightarrow> string \<Rightarrow> ('t, 'v) expr list \<Rightarrow> 't column \<Rightarrow>
   predicate_result \<Rightarrow> 'v domain option" where
  "leafToDomain V F name args column result =
     (if Some name = fn_isNull F \<and> length args = 1 \<and> domainColumn V (hd args) = Some column then
        Some (if result = KTrue then dom_onlyNull else nonNullDomain V column)
      else if constantInList V name args \<noteq> None \<and> domainColumn V (hd args) = Some column then
        (case in_list_loop V column (the (constantInList V name args)) [] False of
           None \<Rightarrow> None
         | Some (vals, hasNull) \<Rightarrow>
             (let trueValues = dom_intersect (dom_in vals) (nonNullDomain V column)
              in Some (if result = KTrue then trueValues
                       else if hasNull then dom_none
                       else dom_subtract (nonNullDomain V column) trueValues)))
      else
        (case args of
           [a, LiteralExpr _ v1, LiteralExpr _ v2] \<Rightarrow>
             if Some name = fn_between F \<and> domainColumn V a = Some column then
               (case (comparisonDomain V F column (fn_gte F) v1 result,
                      comparisonDomain V F column (fn_lte F) v2 result) of
                  (Some lower, Some upper) \<Rightarrow>
                    Some (if result = KTrue then dom_intersect lower upper
                          else dom_unite lower upper)
                | _ \<Rightarrow> None)
             else None
         | [a, b] \<Rightarrow>
             (case b of
                LiteralExpr _ v \<Rightarrow>
                  if domainColumn V a = Some column then
                    (if Some name = fn_like F \<and> result = KTrue then likePatternToDomain V v
                     else comparisonDomain V F column (Some name) v result)
                  else None
              | _ \<Rightarrow>
                  (case a of
                     LiteralExpr _ v \<Rightarrow>
                       if domainColumn V b = Some column
                       then comparisonDomain V F column (reversed_name F name) v result
                       else None
                   | _ \<Rightarrow> None))
         | _ \<Rightarrow> None))"

fun exprToDomainFor ::
  "('t, 'v :: linorder) velox \<Rightarrow> function_names \<Rightarrow> ('t, 'v) expr \<Rightarrow> 't column \<Rightarrow> predicate_result \<Rightarrow>
   'v domain option"
and junctionToDomain ::
  "('t, 'v :: linorder) velox \<Rightarrow> function_names \<Rightarrow> bool \<Rightarrow> 'v domain \<Rightarrow> ('t, 'v) expr list \<Rightarrow>
   't column \<Rightarrow> predicate_result \<Rightarrow> 'v domain option" where
  "exprToDomainFor V F (CallExpr name t args) column result =
     (if Some name = fn_negation F \<and> length args = 1 then
        (case args of a # _ \<Rightarrow> exprToDomainFor V F a column (opposite result) | [] \<Rightarrow> None)
      else if name = kAnd \<or> name = kOr then
        (case args of
           [] \<Rightarrow> None
         | a # rest \<Rightarrow>
             (case exprToDomainFor V F a column result of
                None \<Rightarrow> None
              | Some d \<Rightarrow>
                  junctionToDomain V F ((name = kAnd) = (result = KTrue)) d rest column result))
      else leafToDomain V F name args column result)"
| "exprToDomainFor V F (ColumnExpr c) column result = None"
| "exprToDomainFor V F (LiteralExpr t v) column result = None"
| "exprToDomainFor V F (OtherExpr t cs) column result = None"
| "junctionToDomain V F intersect d [] column result = Some d"
| "junctionToDomain V F intersect d (a # rest) column result =
     (case exprToDomainFor V F a column result of
        None \<Rightarrow> None
      | Some e \<Rightarrow>
          junctionToDomain V F intersect (if intersect then dom_intersect d e else dom_unite d e)
            rest column result)"

definition exprToDomain ::
  "('t, 'v :: linorder) velox \<Rightarrow> function_names \<Rightarrow> ('t, 'v) expr \<Rightarrow> 'v domain option" where
  "exprToDomain V F e =
     (if card (expr_columns e) \<noteq> 1 then None
      else exprToDomainFor V F e (the_elem (expr_columns e)) KTrue)"

section \<open>Evaluation of predicates\<close>

text \<open>
  The engine: functions the optimizer does not interpret, LIKE matching on texts, and whether
  BETWEEN returns NULL as soon as one bound is NULL (a plain function) or is the conjunction of
  its two comparisons (the SQL definition).
\<close>

record ('t, 'v) engine =
  en_call :: "string \<Rightarrow> 't \<Rightarrow> 'v option list \<Rightarrow> 'v option"
  en_pred :: "string \<Rightarrow> 't \<Rightarrow> 'v option list \<Rightarrow> bool option"
  en_like :: "string \<Rightarrow> string \<Rightarrow> bool"
  en_strictBetween :: bool

text \<open>The integral types, and the bounds of the values of one.\<close>

definition integral :: "('t, 'v) velox \<Rightarrow> 't \<Rightarrow> bool" where
  "integral V t \<longleftrightarrow>
     \<not> (ty_isDate V t \<or> ty_isIntervalDayTime V t \<or> ty_isIntervalYearMonth V t \<or>
        ty_isDecimal V t \<or> ty_isTime V t) \<and> kind_bounds (ty_kind V t) \<noteq> None"

definition fits :: "('t, 'v) velox \<Rightarrow> 't \<Rightarrow> int \<Rightarrow> bool" where
  "fits V t i \<longleftrightarrow>
     (case kind_bounds (ty_kind V t) of None \<Rightarrow> False | Some (a, b) \<Rightarrow> a \<le> i \<and> i \<le> b)"

text \<open>The value a variant of a type stands for: integers of every width are one value.\<close>

definition canon :: "('t, 'v) velox \<Rightarrow> 't \<Rightarrow> 'v \<Rightarrow> 'v option" where
  "canon V t v =
     (if va_isNull V v then None
      else Some (if integral V t then va_bigint V (va_int V v) else v))"

fun eval :: "('t, 'v) velox \<Rightarrow> ('t, 'v) engine \<Rightarrow> ('t column \<Rightarrow> 'v option) \<Rightarrow> ('t, 'v) expr \<Rightarrow> 'v option" where
  "eval V E row (ColumnExpr c) = row c"
| "eval V E row (LiteralExpr t v) = canon V t v"
| "eval V E row (CallExpr n t args) = en_call E n t (map (eval V E row) args)"
| "eval V E row (OtherExpr t cs) = en_call E [] t (map row cs)"

text \<open>Three-valued logic; NULL is \<^const>\<open>None\<close>.\<close>

definition and3 :: "bool option list \<Rightarrow> bool option" where
  "and3 xs =
     (if Some False \<in> set xs then Some False else if None \<in> set xs then None else Some True)"

definition or3 :: "bool option list \<Rightarrow> bool option" where
  "or3 xs =
     (if Some True \<in> set xs then Some True else if None \<in> set xs then None else Some False)"

definition lift3 :: "('v \<Rightarrow> 'v \<Rightarrow> bool) \<Rightarrow> 'v option \<Rightarrow> 'v option \<Rightarrow> bool option" where
  "lift3 p x y = (case (x, y) of (Some u, Some v) \<Rightarrow> Some (p u v) | _ \<Rightarrow> None)"

definition in3 :: "'v option \<Rightarrow> 'v option list \<Rightarrow> bool option" where
  "in3 x ys =
     (if x = None then None else if x \<in> set ys then Some True
      else if None \<in> set ys then None else Some False)"

definition compare3 ::
  "function_names \<Rightarrow> string option \<Rightarrow> 'v :: linorder option \<Rightarrow> 'v option \<Rightarrow> bool option option" where
  "compare3 F name x y =
     (if name = fn_distinctFrom F then Some (Some (x \<noteq> y))
      else if name = fn_equality F then Some (lift3 (=) x y)
      else if name = fn_lt F then Some (lift3 (<) x y)
      else if name = fn_lte F then Some (lift3 (\<le>) x y)
      else if name = fn_gt F then Some (lift3 (>) x y)
      else if name = fn_gte F then Some (lift3 (\<ge>) x y)
      else None)"

definition between3 :: "bool \<Rightarrow> 'v :: linorder option \<Rightarrow> 'v option \<Rightarrow> 'v option \<Rightarrow> bool option" where
  "between3 strict x a b =
     (if strict \<and> (x = None \<or> a = None \<or> b = None) then None
      else and3 [lift3 (\<ge>) x a, lift3 (\<le>) x b])"

text \<open>
  The truth value of a predicate on a row. The names of functions are those of the query
  context.
\<close>

fun truth ::
  "('t, 'v :: linorder) velox \<Rightarrow> function_names \<Rightarrow> ('t, 'v) engine \<Rightarrow> ('t column \<Rightarrow> 'v option) \<Rightarrow>
   ('t, 'v) expr \<Rightarrow> bool option" where
  "truth V F E row (CallExpr name t args) =
     (let vs = map (eval V E row) args in
      if Some name = fn_negation F \<and> length args = 1 then
        map_option Not (hd (map (truth V F E row) args))
      else if name = kAnd then and3 (map (truth V F E row) args)
      else if name = kOr then or3 (map (truth V F E row) args)
      else if Some name = fn_isNull F \<and> length args = 1 then Some (hd vs = None)
      else if Some name = fn_between F \<and> length args = 3 then
        between3 (en_strictBetween E) (vs ! 0) (vs ! 1) (vs ! 2)
      else if constantInList V name args \<noteq> None then
        in3 (hd vs) (map (canon V (ty_childAt0 V (expr_type (args ! 1))))
          (the (constantInList V name args)))
      else if Some name = fn_like F \<and> length args = 2 then
        lift3 (\<lambda>u v. en_like E (va_text V u) (va_text V v)) (vs ! 0) (vs ! 1)
      else if length args = 2 \<and> compare3 F (Some name) (vs ! 0) (vs ! 1) \<noteq> None then
        the (compare3 F (Some name) (vs ! 0) (vs ! 1))
      else en_pred E name t vs)"
| "truth V F E row e = en_pred E [] (expr_type e) [eval V E row e]"

section \<open>What the translation relies on\<close>

text \<open>
  Velox: integers of the BIGINT range order as BIGINT variants do, texts order byte-wise as
  VARCHAR variants do, the sizes of the integral types, and equivalence of types respects
  being integral. An array variant has a kind of its own.
\<close>

definition velox_ok :: "('t, 'v :: linorder) velox \<Rightarrow> bool" where
  "velox_ok V \<longleftrightarrow>
     (\<forall>i j. - (2 ^ 63) \<le> i \<and> j \<le> 2 ^ 63 - 1 \<and> i < j \<longrightarrow> va_bigint V i < va_bigint V j) \<and>
     (\<forall>i. \<not> va_isNull V (va_bigint V i)) \<and>
     (\<forall>v. \<not> va_isNull V v \<and> va_kind V v = VARCHAR \<longrightarrow> va_varchar V (va_text V v) = v) \<and>
     (\<forall>s t. s < t \<longrightarrow> va_varchar V s < va_varchar V t) \<and>
     (\<forall>t. integral V t \<longrightarrow>
        kind_bounds (ty_kind V t) =
          Some (- (2 ^ (8 * ty_cppSizeInBytes V t - 1)), 2 ^ (8 * ty_cppSizeInBytes V t - 1) - 1)) \<and>
     (\<forall>t. integral V t \<longrightarrow> ty_cppSizeInBytes V t \<in> {1, 2, 4, 8}) \<and>
     (\<forall>t u. ty_equivalent V t u \<longrightarrow> integral V t = integral V u) \<and>
     (\<forall>t. ty_isArray V t \<longrightarrow> ty_kind V t = OtherKind)"

text \<open>
  The engine: a cast between integral types keeps a value that fits and NULL; LIKE with a
  pattern requires the text before the first wildcard as a prefix, and with no wildcard it is
  equality.
\<close>

definition engine_ok :: "('t, 'v) velox \<Rightarrow> ('t, 'v) engine \<Rightarrow> bool" where
  "engine_ok V E \<longleftrightarrow>
     (\<forall>n t i. (n = kCast \<or> n = kTryCast) \<and> integral V t \<and> fits V t i \<longrightarrow>
        en_call E n t [Some (va_bigint V i)] = Some (va_bigint V i)) \<and>
     (\<forall>n t. (n = kCast \<or> n = kTryCast) \<and> integral V t \<longrightarrow> en_call E n t [None] = None) \<and>
     (\<forall>s p. en_like E s p \<longrightarrow>
        take (length (takeWhile (\<lambda>c. \<not> is_wildcard c) p)) s = takeWhile (\<lambda>c. \<not> is_wildcard c) p) \<and>
     (\<forall>s p. en_like E s p \<and> (\<forall>c\<in>set p. \<not> is_wildcard c) \<longrightarrow> s = p)"

text \<open>The dialect registers distinct comparison functions, and the four orderings together.\<close>

definition names_ok :: "function_names \<Rightarrow> bool" where
  "names_ok F \<longleftrightarrow>
     distinct [fn_distinctFrom F, fn_equality F, fn_lt F, fn_lte F, fn_gt F, fn_gte F] \<and>
     fn_lt F \<noteq> None \<and> fn_lte F \<noteq> None \<and> fn_gt F \<noteq> None \<and> fn_gte F \<noteq> None \<and>
     (\<forall>n\<in>{fn_distinctFrom F, fn_equality F, fn_lt F, fn_lte F, fn_gt F, fn_gte F}.
        n \<noteq> Some kIn \<and> (n \<noteq> None \<longrightarrow> n \<noteq> fn_like F))"

text \<open>The value of the column is one of its type.\<close>

definition row_ok :: "('t, 'v) velox \<Rightarrow> ('t column \<Rightarrow> 'v option) \<Rightarrow> 't column \<Rightarrow> bool" where
  "row_ok V row c \<longleftrightarrow>
     (case row c of
        None \<Rightarrow> True
      | Some v \<Rightarrow>
          if integral V (col_type c) then \<exists>i. fits V (col_type c) i \<and> v = va_bigint V i
          else \<not> va_isNull V v \<and> va_kind V v = ty_kind V (col_type c))"

text \<open>
  Literals are values of their type, and a literal that is an operand of a predicate on the
  column is integral exactly when the column is; LIKE applies to VARCHAR columns.
\<close>

fun operand_typed :: "('t, 'v) velox \<Rightarrow> 't column \<Rightarrow> ('t, 'v) expr \<Rightarrow> bool" where
  "operand_typed V c (LiteralExpr t v) \<longleftrightarrow>
     va_isNull V v \<or>
     va_kind V v = ty_kind V t \<and>
     (if ty_isArray V t
      then list_all (\<lambda>e. va_isNull V e \<or> va_kind V e = ty_kind V (ty_childAt0 V t)) (va_array V v)
      else integral V t = integral V (col_type c))"
| "operand_typed V c _ \<longleftrightarrow> True"

fun typed :: "('t, 'v) velox \<Rightarrow> function_names \<Rightarrow> 't column \<Rightarrow> ('t, 'v) expr \<Rightarrow> bool" where
  "typed V F c (CallExpr name t args) \<longleftrightarrow>
     list_all (operand_typed V c) args \<and> list_all (typed V F c) args \<and>
     (Some name = fn_like F \<longrightarrow> ty_kind V (col_type c) = VARCHAR)"
| "typed V F c _ \<longleftrightarrow> True"

text \<open>Predicates whose translation is exact: no LIKE, and no NULL bound of a BETWEEN.\<close>

fun exact :: "('t, 'v) velox \<Rightarrow> function_names \<Rightarrow> ('t, 'v) expr \<Rightarrow> bool" where
  "exact V F (CallExpr name t args) \<longleftrightarrow>
     Some name \<noteq> fn_like F \<and> list_all (exact V F) args \<and>
     (Some name = fn_between F \<longrightarrow>
        list_all (\<lambda>a. case a of LiteralExpr _ v \<Rightarrow> \<not> va_isNull V v | _ \<Rightarrow> True) args)"
| "exact V F _ \<longleftrightarrow> True"

section \<open>Three-valued logic\<close>

lemma bool_option_cases: "x = Some True \<or> x = Some False \<or> x = None"
  by (cases x) auto

lemma and3_True: "and3 xs = Some True \<longleftrightarrow> (\<forall>x\<in>set xs. x = Some True)"
  by (auto simp: and3_def) (metis bool_option_cases)+

lemma and3_False: "and3 xs = Some False \<longleftrightarrow> Some False \<in> set xs"
  by (simp add: and3_def)

lemma or3_True: "or3 xs = Some True \<longleftrightarrow> Some True \<in> set xs"
  by (simp add: or3_def)

lemma or3_False: "or3 xs = Some False \<longleftrightarrow> (\<forall>x\<in>set xs. x = Some False)"
  by (auto simp: or3_def) (metis bool_option_cases)+

lemmas junction3 = and3_True and3_False or3_True or3_False

lemma lift3_iff: "lift3 p x y = Some b \<longleftrightarrow> (\<exists>u v. x = Some u \<and> y = Some v \<and> b = p u v)"
  by (auto simp: lift3_def split: option.splits)

section \<open>Integral types\<close>

lemma integralTypeDomain_None: "integralTypeDomain V t = None \<longleftrightarrow> \<not> integral V t"
  by (auto simp: integralTypeDomain_def integral_def split: option.splits)

lemma fits_bigint_range: "fits V t i \<Longrightarrow> - (2 ^ 63) \<le> i \<and> i \<le> 2 ^ 63 - 1"
  by (auto simp: fits_def kind_bounds_def split: type_kind.splits)

lemma velox_bigint_le:
  assumes "velox_ok V" and "- (2 ^ 63) \<le> i" and "j \<le> 2 ^ 63 - 1" and "i \<le> j"
  shows "va_bigint V i \<le> va_bigint V j"
  using assms unfolding velox_ok_def by (cases "i = j") (auto simp: order.strict_implies_order)

lemma integralTypeDomain_Some:
  assumes "integralTypeDomain V t = Some d"
  obtains a b where "kind_bounds (ty_kind V t) = Some (a, b)"
    and "d = dom_intersect (dom_greaterThanOrEqual (va_bigint V a)) (dom_lessThanOrEqual (va_bigint V b))"
  using assms by (auto simp: integralTypeDomain_def split: if_splits option.splits)

lemma nonNullDomain_ok [simp]: "dom_ok (nonNullDomain V c)"
  by (auto simp: nonNullDomain_def dom_ok_ops elim!: integralTypeDomain_Some split: option.splits)

lemma nonNullDomain_row:
  assumes "velox_ok V" and "row_ok V row c"
  shows "in_domain (row c) (nonNullDomain V c) \<longleftrightarrow> row c \<noteq> None"
proof (cases "integralTypeDomain V (col_type c)")
  case None
  then show ?thesis by (simp add: nonNullDomain_def)
next
  case (Some d)
  then obtain a b where k: "kind_bounds (ty_kind V (col_type c)) = Some (a, b)"
    and d: "d = dom_intersect (dom_greaterThanOrEqual (va_bigint V a))
      (dom_lessThanOrEqual (va_bigint V b))"
    by (rule integralTypeDomain_Some)
  have int: "integral V (col_type c)" using Some integralTypeDomain_None [of V "col_type c"] by simp
  have b: "- (2 ^ 63) \<le> a" "b \<le> 2 ^ 63 - 1"
    using k by (auto simp: kind_bounds_def split: type_kind.splits)
  have "va_bigint V a \<le> va_bigint V i \<and> va_bigint V i \<le> va_bigint V b" if "fits V (col_type c) i" for i
    using that fits_bigint_range [OF that] b k
    by (auto simp: fits_def intro!: velox_bigint_le [OF assms(1)])
  then show ?thesis
    using assms(2) Some int
    by (auto simp: row_ok_def nonNullDomain_def d in_domain_ops split: option.splits)
qed

lemma nonNullDomain_None [simp]: "\<not> in_domain None (nonNullDomain V c)"
  by (auto simp: nonNullDomain_def in_domain_ops elim!: integralTypeDomain_Some split: option.splits)

lemma fits_wider:
  assumes "velox_ok V" and "integral V t" and "integral V u"
    and "ty_cppSizeInBytes V t \<le> ty_cppSizeInBytes V u" and "fits V t i"
  shows "fits V u i"
proof -
  let ?b = "\<lambda>t. 2 ^ (8 * ty_cppSizeInBytes V t - 1) :: int"
  have k: "kind_bounds (ty_kind V t) = Some (- ?b t, ?b t - 1)"
    "kind_bounds (ty_kind V u) = Some (- ?b u, ?b u - 1)"
    using assms(1-3) unfolding velox_ok_def by blast+
  have "?b t \<le> ?b u" using assms(4) by (intro power_increasing) auto
  moreover have "- ?b t \<le> i" "i \<le> ?b t - 1" using assms(5) k(1) by (simp_all add: fits_def)
  ultimately have "- ?b u \<le> i" "i \<le> ?b u - 1" by linarith+
  then show ?thesis using k(2) by (simp add: fits_def)
qed

lemma domainColumn_eval:
  assumes "velox_ok V" and "engine_ok V E" and "row_ok V row c"
    and "domainColumn V e = Some c"
  shows "eval V E row e = row c"
  using assms
proof (induction V e rule: domainColumn.induct)
  case (2 V name t a)
  note ok = 2(2-4)
  from 2(5) have inner: "domainColumn V a = Some c" and int: "integral V (col_type c)" "integral V t"
    and size: "ty_cppSizeInBytes V (col_type c) \<le> ty_cppSizeInBytes V t"
    and cast: "name = kCast \<or> name = kTryCast"
    by (auto simp: integralTypeDomain_None split: if_splits option.splits)
  have "eval V E row a = row c" using 2(1) [OF _ ok inner] cast by blast
  moreover have "en_call E name t [row c] = row c"
  proof (cases "row c")
    case None
    then show ?thesis using ok cast int unfolding engine_ok_def by simp
  next
    case (Some v)
    then obtain i where fit: "fits V (col_type c) i" and v: "v = va_bigint V i"
      using int ok by (auto simp: row_ok_def)
    have "fits V t i" by (rule fits_wider [OF ok(1) int size fit])
    then show ?thesis using ok Some v cast int unfolding engine_ok_def by simp
  qed
  ultimately show ?case by simp
qed simp_all


section \<open>Literals and comparisons\<close>

lemma velox_bigint_not_null [simp]: "velox_ok V \<Longrightarrow> \<not> va_isNull V (va_bigint V i)"
  by (simp add: velox_ok_def)

lemma normalizeLiteral_canon:
  assumes "velox_ok V" and "operand_typed V c (LiteralExpr t v)" and "normalizeLiteral V c v = Some w"
  shows "canon V t v = (if va_isNull V w then None else Some w)"
proof (cases "va_isNull V v \<or> ty_isArray V t")
  case True
  moreover have "\<not> integral V t" if "ty_isArray V t"
    using that assms(1) by (auto simp: velox_ok_def integral_def kind_bounds_def)
  moreover have "ty_kind V t = OtherKind" if "ty_isArray V t"
    using that assms(1) by (auto simp: velox_ok_def)
  ultimately show ?thesis
    using assms by (auto simp: canon_def normalizeLiteral_def split: if_splits)
next
  case False
  then show ?thesis
    using assms by (auto simp: canon_def normalizeLiteral_def integralTypeDomain_None
        integerValue_def split: if_splits)
qed

text \<open>Each comparison function has a predicate and a constructor of domains that agree.\<close>

lemma comparison_maker:
  assumes "n \<noteq> fn_distinctFrom F" and "comparisonDomain V F c n v r = Some d"
  obtains p mk where "\<And>x y :: 'v :: linorder option. compare3 F n x y = Some (lift3 p x y)"
    and "\<And>w. dom_ok (mk w)" and "\<And>x w. in_domain x (mk w) \<longleftrightarrow> (\<exists>u. x = Some u \<and> p u w)"
    and "Some d = (case normalizeLiteral V c v of None \<Rightarrow> None | Some w \<Rightarrow>
       if va_isNull V w then Some dom_none
       else Some (if r = KTrue then dom_intersect (mk w) (nonNullDomain V c)
         else dom_subtract (nonNullDomain V c) (dom_intersect (mk w) (nonNullDomain V c))))"
proof -
  note result = assms(2) [unfolded comparisonDomain_def if_not_P [OF assms(1)] Let_def, symmetric]
  consider "n = fn_equality F" | "n \<noteq> fn_equality F" "n = fn_lt F"
    | "n \<noteq> fn_equality F" "n \<noteq> fn_lt F" "n = fn_lte F"
    | "n \<noteq> fn_equality F" "n \<noteq> fn_lt F" "n \<noteq> fn_lte F" "n = fn_gt F"
    | "n \<noteq> fn_equality F" "n \<noteq> fn_lt F" "n \<noteq> fn_lte F" "n \<noteq> fn_gt F" "n = fn_gte F"
    | "n \<noteq> fn_equality F" "n \<noteq> fn_lt F" "n \<noteq> fn_lte F" "n \<noteq> fn_gt F" "n \<noteq> fn_gte F"
    by blast
  then show thesis
  proof cases
    case 1
    with assms(1) result show thesis
      by (intro that [of "(=)" dom_singleValue]) (simp_all add: compare3_def)
  next
    case 2
    with assms(1) result show thesis
      by (intro that [of "(<)" dom_lessThan]) (simp_all add: compare3_def)
  next
    case 3
    with assms(1) result show thesis
      by (intro that [of "(\<le>)" dom_lessThanOrEqual]) (simp_all add: compare3_def)
  next
    case 4
    with assms(1) result show thesis
      by (intro that [of "(>)" dom_greaterThan]) (simp_all add: compare3_def)
  next
    case 5
    with assms(1) result show thesis
      by (intro that [of "(\<ge>)" dom_greaterThanOrEqual]) (simp_all add: compare3_def)
  next
    case 6
    with result show thesis by simp
  qed
qed

lemma comparisonDomain_exact:
  assumes V: "velox_ok V" and row: "row_ok V row c" and typed: "operand_typed V c (LiteralExpr t v)"
    and d: "comparisonDomain V F c n v r = Some d"
  shows "dom_ok d \<and>
    (in_domain (row c) d \<longleftrightarrow> compare3 F n (row c) (canon V t v) = Some (Some (r = KTrue)))"
proof (cases "n = fn_distinctFrom F")
  case True
  with d obtain w where w: "normalizeLiteral V c v = Some w"
    by (auto simp: comparisonDomain_def split: option.splits)
  have lit: "canon V t v = (if va_isNull V w then None else Some w)"
    by (rule normalizeLiteral_canon [OF V typed w])
  have "d = (if r = KTrue then dom_subtract (dom_unite (nonNullDomain V c) dom_onlyNull)
        (if va_isNull V w then dom_onlyNull else dom_intersect (dom_singleValue w) (nonNullDomain V c))
      else if va_isNull V w then dom_onlyNull else dom_intersect (dom_singleValue w) (nonNullDomain V c))"
    using d True w by (simp add: comparisonDomain_def Let_def)
  moreover have "compare3 F n (row c) (canon V t v) = Some (Some (row c \<noteq> canon V t v))"
    using True by (simp add: compare3_def)
  ultimately show ?thesis
    using nonNullDomain_row [OF V row] lit by (cases "row c") (simp_all add: dom_ok_ops in_domain_ops)
next
  case False
  from comparison_maker [OF False d] obtain p mk where
    cmp: "\<And>x y. compare3 F n x y = Some (lift3 p x y)" and ok: "\<And>w. dom_ok (mk w)"
    and mk: "\<And>x w. in_domain x (mk w) \<longleftrightarrow> (\<exists>u. x = Some u \<and> p u w)"
    and res: "Some d = (case normalizeLiteral V c v of None \<Rightarrow> None | Some w \<Rightarrow>
       if va_isNull V w then Some dom_none
       else Some (if r = KTrue then dom_intersect (mk w) (nonNullDomain V c)
         else dom_subtract (nonNullDomain V c) (dom_intersect (mk w) (nonNullDomain V c))))"
    by blast
  from res obtain w where w: "normalizeLiteral V c v = Some w" by (auto split: option.splits)
  have lit: "canon V t v = (if va_isNull V w then None else Some w)"
    by (rule normalizeLiteral_canon [OF V typed w])
  show ?thesis
    using res w lit nonNullDomain_row [OF V row]
    by (cases "va_isNull V w"; cases "row c")
      (simp_all add: cmp ok mk lift3_def dom_ok_ops in_domain_ops)
qed

lemma distinct_six:
  "distinct [a, b, c, d, e, f] \<Longrightarrow>
   c \<noteq> a \<and> d \<noteq> a \<and> e \<noteq> a \<and> f \<noteq> a \<and> c \<noteq> b \<and> d \<noteq> b \<and> e \<noteq> b \<and> f \<noteq> b \<and> d \<noteq> c \<and>
   e \<noteq> c \<and> f \<noteq> c \<and> e \<noteq> d \<and> f \<noteq> d \<and> f \<noteq> e"
  by auto

lemma names_distinct:
  assumes "names_ok F"
  shows "fn_lt F \<noteq> fn_distinctFrom F" "fn_lte F \<noteq> fn_distinctFrom F" "fn_gt F \<noteq> fn_distinctFrom F"
    "fn_gte F \<noteq> fn_distinctFrom F" "fn_lt F \<noteq> fn_equality F" "fn_lte F \<noteq> fn_equality F"
    "fn_gt F \<noteq> fn_equality F" "fn_gte F \<noteq> fn_equality F" "fn_lte F \<noteq> fn_lt F" "fn_gt F \<noteq> fn_lt F"
    "fn_gte F \<noteq> fn_lt F" "fn_gt F \<noteq> fn_lte F" "fn_gte F \<noteq> fn_lte F" "fn_gte F \<noteq> fn_gt F"
  using assms [unfolded names_ok_def, THEN conjunct1, THEN distinct_six] by blast+

lemma compare3_orderings:
  assumes "names_ok F"
  shows "compare3 F (fn_lt F) x y = Some (lift3 (<) x y)"
    and "compare3 F (fn_lte F) x y = Some (lift3 (\<le>) x y)"
    and "compare3 F (fn_gt F) x y = Some (lift3 (>) x y)"
    and "compare3 F (fn_gte F) x y = Some (lift3 (\<ge>) x y)"
  by (simp_all add: names_distinct [OF assms] compare3_def)

lemma lift3_flip: "lift3 p y x = lift3 (\<lambda>u v. p v u) x y"
  by (simp add: lift3_def split: option.splits)

lemma compare3_reversed:
  assumes "names_ok F"
  shows "compare3 F (reversed_name F name) x y = compare3 F (Some name) y x"
proof -
  consider "Some name = fn_lt F" | "Some name = fn_lte F" | "Some name = fn_gt F" | "Some name = fn_gte F"
    | "Some name \<notin> {fn_lt F, fn_lte F, fn_gt F, fn_gte F}" by blast
  then show ?thesis
  proof cases
    case 5
    then have "reversed_name F name = Some name" by (simp add: reversed_name_def)
    moreover have "lift3 (=) y x = lift3 (=) x y" by (auto simp: lift3_def split: option.splits)
    ultimately show ?thesis using 5 by (auto simp: compare3_def)
  qed (simp_all add: reversed_name_def names_distinct [OF assms] compare3_orderings [OF assms]
      lift3_flip [of _ y x])
qed

lemma in_list_loop_result:
  assumes "velox_ok V" and "integral V t = integral V (col_type c)"
    and "list_all (\<lambda>e. va_isNull V e \<or> va_kind V e = ty_kind V t) es"
    and "in_list_loop V c es vals hasNull = Some (vals', hasNull')"
  shows "set vals' = set vals \<union> {w. Some w \<in> canon V t ` set es} \<and>
    (hasNull' \<longleftrightarrow> hasNull \<or> None \<in> canon V t ` set es)"
  using assms(3,4)
proof (induction es arbitrary: vals hasNull)
  case (Cons e es)
  obtain w where w: "normalizeLiteral V c e = Some w"
    using Cons.prems(2) by (auto split: option.splits)
  have "canon V t e = (if va_isNull V w then None else Some w)"
    using w assms(1,2) Cons.prems(1)
    by (auto simp: canon_def normalizeLiteral_def integralTypeDomain_None integerValue_def
        split: if_splits)
  then show ?case
    using Cons.prems Cons.IH w by (auto split: if_splits)
qed simp_all

section \<open>LIKE prefixes\<close>

lemma prefix_le: "p \<le> p @ (s :: string)"
  by (induction p) auto

lemma prefix_less: "a < b \<Longrightarrow> q @ a # s < q @ b # (s' :: string)"
  by (induction q) auto

lemma bump_last_Some:
  "bump_last p = Some u \<Longrightarrow> \<exists>xs c q. p = xs @ c # q \<and> of_char c < (255 :: nat) \<and>
     u = char_of (of_char c + (1 :: nat)) # q"
proof (induction p)
  case (Cons a p)
  show ?case
  proof (cases "of_char a = (255 :: nat)")
    case True
    with Cons obtain xs c q where "p = xs @ c # q" "of_char c < (255 :: nat)"
      "u = char_of (of_char c + (1 :: nat)) # q" by auto
    then show ?thesis by (intro exI [of _ "a # xs"]) auto
  next
    case False
    then have "of_char a < (255 :: nat)" using nat_of_char_less_256 [of a] by linarith
    with False Cons.prems show ?thesis by (intro exI [of _ "[]"]) auto
  qed
qed simp

lemma prefixUpperBound_less:
  assumes "prefixUpperBound p = Some u"
  shows "p @ s < u"
proof -
  from assms obtain w where w: "bump_last (rev p) = Some w" "u = rev w"
    by (auto simp: prefixUpperBound_def)
  from bump_last_Some [OF w(1)] obtain xs c q where q: "rev p = xs @ c # q"
    "of_char c < (255 :: nat)" "w = char_of (of_char c + (1 :: nat)) # q" by blast
  then have p: "p = rev q @ c # rev xs"
    by (metis append.assoc append_Cons append_Nil rev.simps(2) rev_append rev_rev_ident)
  have "c < char_of (of_char c + (1 :: nat))"
    using q(2) by (simp add: less_char_def)
  then show ?thesis by (simp add: p w(2) q(3) prefix_less)
qed

lemma takeWhile_full: "length (takeWhile p xs) = length xs \<Longrightarrow> takeWhile p xs = xs"
  by (induction xs) (auto split: if_splits)

lemma likePattern_sound:
  assumes V: "velox_ok V" and E: "engine_ok V E" and row: "row_ok V row c"
    and c: "ty_kind V (col_type c) = VARCHAR" and typed: "operand_typed V c (LiteralExpr t v)"
    and d: "likePatternToDomain V v = Some d"
  shows "dom_ok d"
    and "lift3 (\<lambda>u v. en_like E (va_text V u) (va_text V v)) (row c) (canon V t v) = Some True \<Longrightarrow>
      in_domain (row c) d"
proof -
  let ?p = "takeWhile (\<lambda>c. \<not> is_wildcard c) (va_text V v)"
  have v: "\<not> va_isNull V v" "va_kind V v = VARCHAR"
    using d by (auto simp: likePatternToDomain_def split: if_splits)
  show "dom_ok d"
    using d by (auto simp: likePatternToDomain_def Let_def dom_ok_ops split: if_splits option.splits)
  assume like: "lift3 (\<lambda>u v. en_like E (va_text V u) (va_text V v)) (row c) (canon V t v) = Some True"
  have nint: "\<not> integral V (col_type c)" using c by (simp add: integral_def kind_bounds_def)
  have "\<not> integral V t" using typed v nint V
    by (auto simp: velox_ok_def integral_def kind_bounds_def split: if_splits)
  then have canon: "canon V t v = Some v" using v by (simp add: canon_def)
  from like canon obtain u where u: "row c = Some u" and match: "en_like E (va_text V u) (va_text V v)"
    by (auto simp: lift3_iff)
  have vu: "va_varchar V (va_text V u) = u" and vv: "va_varchar V (va_text V v) = v"
    using V row nint u c v unfolding velox_ok_def row_ok_def by auto
  have pre: "va_text V u = ?p @ drop (length ?p) (va_text V u)"
    using E match unfolding engine_ok_def by (metis append_take_drop_id)
  have strict: "va_varchar V s < va_varchar V s'" if "s < s'" for s s'
    using V that by (simp add: velox_ok_def)
  then have mono: "va_varchar V s \<le> va_varchar V s'" if "s \<le> s'" for s s'
    using that by (cases "s = s'") (auto simp: order.strict_iff_order)
  show "in_domain (row c) d"
  proof (cases "length ?p = length (va_text V v)")
    case True
    then have "?p = va_text V v" by (rule takeWhile_full)
    then have "\<forall>c\<in>set (va_text V v). \<not> is_wildcard c" by (metis set_takeWhileD)
    then have "va_text V u = va_text V v" using E match unfolding engine_ok_def by blast
    then have "u = v" by (metis vu vv)
    then show ?thesis using d True u v by (auto simp: likePatternToDomain_def)
  next
    case False
    have "va_varchar V ?p \<le> va_varchar V (va_text V u)" by (subst pre) (rule mono [OF prefix_le])
    moreover have "va_varchar V (va_text V u) < va_varchar V w" if "prefixUpperBound ?p = Some w" for w
      by (subst pre) (rule strict [OF prefixUpperBound_less [OF that]])
    ultimately show ?thesis
      using d False u v by (auto simp: likePatternToDomain_def Let_def in_domain_ops vu
          split: if_splits option.splits)
  qed
qed

section \<open>The branches\<close>

text \<open>What is shown of a translation: \<open>b\<close> is the truth value and \<open>ex\<close> whether it is exact.\<close>

definition translates ::
  "('t column \<Rightarrow> 'v :: linorder option) \<Rightarrow> 't column \<Rightarrow> predicate_result \<Rightarrow> bool \<Rightarrow> bool option \<Rightarrow>
   'v domain \<Rightarrow> bool" where
  "translates row c r ex b d \<longleftrightarrow>
     dom_ok d \<and> (b = Some (r = KTrue) \<longrightarrow> in_domain (row c) d) \<and>
     (ex \<longrightarrow> in_domain (row c) d \<longrightarrow> b = Some (r = KTrue))"

lemma translates_weaken: "translates row c r ex b d \<Longrightarrow> (ex' \<Longrightarrow> ex) \<Longrightarrow> translates row c r ex' b d"
  by (simp add: translates_def)

lemma domainColumn_type:
  "domainColumn V e = Some c \<Longrightarrow> integral V (expr_type e) = integral V (col_type c)"
  by (induction V e rule: domainColumn.induct)
    (auto simp: integralTypeDomain_None split: if_splits option.splits)

lemma domainColumn_literal [simp]: "domainColumn V (LiteralExpr t v) = None"
  by simp

lemma constantInList_Some:
  "constantInList V name args = Some es \<longleftrightarrow>
     (\<exists>a t v. args = [a, LiteralExpr t v] \<and> name = kIn \<and> ty_isArray V t \<and> \<not> va_isNull V v \<and>
        ty_equivalent V (ty_childAt0 V t) (expr_type a) \<and> es = va_array V v)"
  by (auto simp: constantInList_def split: list.splits expr.splits)

lemma constantInList_length: "length args \<noteq> 2 \<Longrightarrow> constantInList V name args = None"
  by (auto simp: constantInList_def split: list.splits expr.splits)

lemma in_branch:
  assumes V: "velox_ok V" and row: "row_ok V row c" and col: "domainColumn V a = Some c"
    and typed: "operand_typed V c (LiteralExpr t v)"
    and l: "constantInList V name [a, LiteralExpr t v] = Some es"
    and loop: "in_list_loop V c es [] False = Some (vals, hasNull)"
  shows "translates row c r True (in3 (row c) (map (canon V (ty_childAt0 V t)) es))
    (if r = KTrue then dom_intersect (dom_in vals) (nonNullDomain V c)
     else if hasNull then dom_none
     else dom_subtract (nonNullDomain V c) (dom_intersect (dom_in vals) (nonNullDomain V c)))"
proof -
  have es: "es = va_array V v" "ty_isArray V t" "\<not> va_isNull V v"
    "ty_equivalent V (ty_childAt0 V t) (expr_type a)"
    using l by (auto simp: constantInList_Some)
  have "integral V (ty_childAt0 V t) = integral V (col_type c)"
    using V es(4) domainColumn_type [OF col] by (auto simp: velox_ok_def)
  moreover have "list_all (\<lambda>e. va_isNull V e \<or> va_kind V e = ty_kind V (ty_childAt0 V t)) es"
    using typed es by auto
  ultimately have "set vals = {w. Some w \<in> canon V (ty_childAt0 V t) ` set es}"
    "hasNull \<longleftrightarrow> None \<in> canon V (ty_childAt0 V t) ` set es"
    using in_list_loop_result [OF V _ _ loop] by auto
  then show ?thesis
    using nonNullDomain_row [OF V row]
    by (cases "row c") (auto simp: translates_def in3_def dom_ok_ops in_domain_ops)
qed

lemma between3_True:
  "between3 strict x a b = Some True \<longleftrightarrow> lift3 (\<ge>) x a = Some True \<and> lift3 (\<le>) x b = Some True"
  by (cases x; cases a; cases b) (auto simp: between3_def and3_True lift3_def)

lemma between3_False:
  "(between3 strict x a b = Some False \<longrightarrow>
      lift3 (\<ge>) x a = Some False \<or> lift3 (\<le>) x b = Some False) \<and>
   (a \<noteq> None \<and> b \<noteq> None \<longrightarrow> lift3 (\<ge>) x a = Some False \<or> lift3 (\<le>) x b = Some False \<longrightarrow>
      between3 strict x a b = Some False)"
  by (cases x; cases a; cases b) (auto simp: between3_def and3_False lift3_def)

lemma between_branch:
  assumes V: "velox_ok V" and N: "names_ok F" and row: "row_ok V row c"
    and typed: "operand_typed V c (LiteralExpr t1 v1)" "operand_typed V c (LiteralExpr t2 v2)"
    and lower: "comparisonDomain V F c (fn_gte F) v1 r = Some lower"
    and upper: "comparisonDomain V F c (fn_lte F) v2 r = Some upper"
  shows "translates row c r (\<not> va_isNull V v1 \<and> \<not> va_isNull V v2)
    (between3 strict (row c) (canon V t1 v1) (canon V t2 v2))
    (if r = KTrue then dom_intersect lower upper else dom_unite lower upper)"
proof -
  note l = comparisonDomain_exact [OF V row typed(1) lower, unfolded compare3_orderings [OF N]]
  note u = comparisonDomain_exact [OF V row typed(2) upper, unfolded compare3_orderings [OF N]]
  have null: "canon V t1 v1 = None \<longleftrightarrow> va_isNull V v1" "canon V t2 v2 = None \<longleftrightarrow> va_isNull V v2"
    by (simp_all add: canon_def)
  show ?thesis
  proof (cases r)
    case KTrue
    then show ?thesis using l u by (simp add: translates_def between3_True dom_ok_ops in_domain_ops)
  next
    case KFalse
    then show ?thesis
      using l u between3_False [of strict "row c" "canon V t1 v1" "canon V t2 v2"] null
      by (simp add: translates_def dom_ok_ops in_domain_ops)
  qed
qed

lemma comparisonDomain_name:
  "comparisonDomain V F c n v r = Some d \<Longrightarrow> compare3 F n x y \<noteq> None"
  by (auto simp: comparisonDomain_def compare3_def Let_def split: if_splits)

lemma compare3_name:
  assumes "names_ok F" and "compare3 F (Some name) x y \<noteq> None"
  shows "name \<noteq> kIn" and "Some name \<noteq> fn_like F"
proof -
  have "Some name \<in> {fn_distinctFrom F, fn_equality F, fn_lt F, fn_lte F, fn_gt F, fn_gte F}"
    using assms(2) by (auto simp: compare3_def split: if_splits)
  moreover have "\<forall>n\<in>{fn_distinctFrom F, fn_equality F, fn_lt F, fn_lte F, fn_gt F, fn_gte F}.
      n \<noteq> Some kIn \<and> (n \<noteq> None \<longrightarrow> n \<noteq> fn_like F)"
    using assms(1) unfolding names_ok_def by blast
  ultimately show "name \<noteq> kIn" "Some name \<noteq> fn_like F" by blast+
qed

lemma leafToDomain_cases:
  assumes "leafToDomain V F name args c r = Some d"
  obtains
    (isnull) a where "args = [a]" "Some name = fn_isNull F" "domainColumn V a = Some c"
      "d = (if r = KTrue then dom_onlyNull else nonNullDomain V c)"
  | (inlist) a t v es vals hasNull where "args = [a, LiteralExpr t v]"
      "constantInList V name [a, LiteralExpr t v] = Some es" "domainColumn V a = Some c"
      "in_list_loop V c es [] False = Some (vals, hasNull)"
      "d = (if r = KTrue then dom_intersect (dom_in vals) (nonNullDomain V c)
        else if hasNull then dom_none
        else dom_subtract (nonNullDomain V c) (dom_intersect (dom_in vals) (nonNullDomain V c)))"
  | (between) a t1 v1 t2 v2 lower upper where "args = [a, LiteralExpr t1 v1, LiteralExpr t2 v2]"
      "Some name = fn_between F" "domainColumn V a = Some c"
      "comparisonDomain V F c (fn_gte F) v1 r = Some lower"
      "comparisonDomain V F c (fn_lte F) v2 r = Some upper"
      "d = (if r = KTrue then dom_intersect lower upper else dom_unite lower upper)"
  | (like) a t v where "args = [a, LiteralExpr t v]" "constantInList V name args = None"
      "domainColumn V a = Some c" "Some name = fn_like F" "r = KTrue"
      "likePatternToDomain V v = Some d"
  | (literal_right) a t v where "args = [a, LiteralExpr t v]" "domainColumn V a = Some c"
      "comparisonDomain V F c (Some name) v r = Some d"
  | (literal_left) b t v where "args = [LiteralExpr t v, b]" "domainColumn V b = Some c"
      "comparisonDomain V F c (reversed_name F name) v r = Some d"
proof -
  consider "Some name = fn_isNull F \<and> length args = 1 \<and> domainColumn V (hd args) = Some c"
    | "\<not> (Some name = fn_isNull F \<and> length args = 1 \<and> domainColumn V (hd args) = Some c)"
      "constantInList V name args \<noteq> None \<and> domainColumn V (hd args) = Some c"
    | "\<not> (Some name = fn_isNull F \<and> length args = 1 \<and> domainColumn V (hd args) = Some c)"
      "\<not> (constantInList V name args \<noteq> None \<and> domainColumn V (hd args) = Some c)"
    by blast
  then show thesis
  proof cases
    case 1
    then obtain a where "args = [a]" by (auto simp: length_Suc_conv)
    with 1 assms show thesis by (intro isnull [of a]) (auto simp: leafToDomain_def)
  next
    case 2
    then obtain es a t v where l: "constantInList V name args = Some es"
      "args = [a, LiteralExpr t v]" by (auto simp: constantInList_Some)
    with 2 assms show thesis
      by (auto simp: leafToDomain_def Let_def split: option.splits prod.splits intro!: inlist)
  next
    case 3
    show thesis
    proof (cases "length args = 2")
      case True
      then obtain a b where args: "args = [a, b]" by (auto simp: numeral_2_eq_2 length_Suc_conv)
      show thesis
      proof (cases b)
        case (LiteralExpr t v)
        then show thesis using 3 assms args like literal_right
          by (auto simp: leafToDomain_def split: if_splits)
      qed (use 3 assms args literal_left in
        \<open>auto simp: leafToDomain_def split: if_splits expr.splits\<close>)
    next
      case False
      then show thesis using 3 assms between
        by (auto simp: leafToDomain_def split: if_splits list.splits expr.splits option.splits)
    qed
  qed
qed

lemma leaf_translates:
  assumes V: "velox_ok V" and E: "engine_ok V E" and N: "names_ok F" and row: "row_ok V row c"
    and typed: "typed V F c (CallExpr name ct args)"
    and not_junction: "\<not> (Some name = fn_negation F \<and> length args = 1)" "name \<noteq> kAnd" "name \<noteq> kOr"
    and d: "leafToDomain V F name args c r = Some d"
  shows "translates row c r (exact V F (CallExpr name ct args))
    (truth V F E row (CallExpr name ct args)) d"
proof -
  note col = domainColumn_eval [OF V E row]
  from d show ?thesis
  proof (cases rule: leafToDomain_cases)
    case (isnull a)
    then have "truth V F E row (CallExpr name ct args) = Some (row c = None)"
      using not_junction col [of a] by simp
    then show ?thesis using isnull(4) nonNullDomain_row [OF V row] by (simp add: translates_def)
  next
    case (inlist a t v es vals hasNull)
    have "truth V F E row (CallExpr name ct args) =
        in3 (row c) (map (canon V (ty_childAt0 V t)) es)"
      using not_junction inlist(1-3) col [of a] by simp
    moreover have "operand_typed V c (LiteralExpr t v)"
      using typed inlist(1) by (simp only: typed.simps list.pred_inject)
    ultimately show ?thesis
      using in_branch [OF V row inlist(3) _ inlist(2,4), of r] unfolding translates_def inlist(5)
      by simp
  next
    case (between a t1 v1 t2 v2 lower upper)
    have tr: "truth V F E row (CallExpr name ct args) =
        between3 (en_strictBetween E) (row c) (canon V t1 v1) (canon V t2 v2)"
      using not_junction between(1-3) col [of a] by simp
    have op: "operand_typed V c (LiteralExpr t1 v1)" "operand_typed V c (LiteralExpr t2 v2)"
      using typed between(1) by (simp_all only: typed.simps list.pred_inject)
    have "exact V F (CallExpr name ct args) \<Longrightarrow> \<not> va_isNull V v1 \<and> \<not> va_isNull V v2"
      using between(1,2) by simp
    then show ?thesis
      unfolding between(6) tr
      by (rule translates_weaken [OF between_branch [OF V N row op between(4,5)]])
  next
    case (like a t v)
    have tr: "truth V F E row (CallExpr name ct args) =
        lift3 (\<lambda>u v. en_like E (va_text V u) (va_text V v)) (row c) (canon V t v)"
      using not_junction like col [of a] by simp
    have op: "ty_kind V (col_type c) = VARCHAR" "operand_typed V c (LiteralExpr t v)"
      using typed like(1,4) by (simp_all only: typed.simps list.pred_inject)
    have "\<not> exact V F (CallExpr name ct args)" using like(4) by simp
    then show ?thesis
      unfolding translates_def tr like(5) refl [THEN eqTrueI]
      using likePattern_sound [OF V E row op like(6)] by blast
  next
    case (literal_right a t v)
    note cmp = comparisonDomain_name [OF literal_right(3)]
    obtain k where k: "compare3 F (Some name) (row c) (canon V t v) = Some k" using cmp by blast
    have tr: "truth V F E row (CallExpr name ct args) = the (compare3 F (Some name) (row c) (canon V t v))"
      using not_junction literal_right(1,2) col [of a] k compare3_name [OF N cmp]
      by (simp add: constantInList_def Let_def)
    have op: "operand_typed V c (LiteralExpr t v)"
      using typed literal_right(1) by (simp only: typed.simps list.pred_inject)
    show ?thesis
      using comparisonDomain_exact [OF V row op literal_right(3)] k
      unfolding translates_def tr by simp
  next
    case (literal_left b t v)
    note cmp = comparisonDomain_name [OF literal_left(3), unfolded compare3_reversed [OF N]]
    obtain k where k: "compare3 F (Some name) (canon V t v) (row c) = Some k" using cmp by blast
    have tr: "truth V F E row (CallExpr name ct args) = the (compare3 F (Some name) (canon V t v) (row c))"
      using not_junction literal_left(1,2) col [of b] k compare3_name [OF N cmp]
      by (simp add: constantInList_def Let_def split: expr.splits)
    have op: "operand_typed V c (LiteralExpr t v)"
      using typed literal_left(1) by (simp only: typed.simps list.pred_inject)
    show ?thesis
      using comparisonDomain_exact [OF V row op literal_left(3)] k
      unfolding translates_def tr compare3_reversed [OF N] by simp
  qed
qed

section \<open>Boolean structure\<close>

text \<open>What the loop over the arguments of a conjunction or disjunction computes.\<close>

definition junction_holds :: "bool \<Rightarrow> bool \<Rightarrow> ('e \<Rightarrow> bool) \<Rightarrow> 'e list \<Rightarrow> bool" where
  "junction_holds intersect b p args \<longleftrightarrow>
     (if intersect then b \<and> (\<forall>a\<in>set args. p a) else b \<or> (\<exists>a\<in>set args. p a))"

definition junction_translates ::
  "('t, 'v :: linorder) velox \<Rightarrow> function_names \<Rightarrow> ('t, 'v) engine \<Rightarrow> ('t column \<Rightarrow> 'v option) \<Rightarrow>
   't column \<Rightarrow> predicate_result \<Rightarrow> bool \<Rightarrow> 'v domain \<Rightarrow> ('t, 'v) expr list \<Rightarrow> 'v domain \<Rightarrow> bool" where
  "junction_translates V F E row c r intersect d args d' \<longleftrightarrow>
     (let holds = junction_holds intersect (in_domain (row c) d)
        (\<lambda>a. truth V F E row a = Some (r = KTrue)) args
      in dom_ok d' \<and> (holds \<longrightarrow> in_domain (row c) d') \<and>
        (list_all (exact V F) args \<longrightarrow> in_domain (row c) d' \<longrightarrow> holds))"

lemma junction3_holds:
  "(if isAnd then and3 (map f (a # rest)) else or3 (map f (a # rest))) = Some b \<longleftrightarrow>
   junction_holds (isAnd = b) (f a = Some b) (\<lambda>x. f x = Some b) rest"
  by (cases isAnd; cases b) (auto simp: junction3 junction_holds_def image_iff, metis+)

lemma junction_holds_mono:
  "junction_holds i b p xs \<Longrightarrow> (b \<Longrightarrow> b') \<Longrightarrow> junction_holds i b' p xs"
  by (auto simp: junction_holds_def)

lemma junction_holds_Cons:
  "junction_holds i b p (a # xs) = junction_holds i (if i then b \<and> p a else b \<or> p a) p xs"
  by (auto simp: junction_holds_def)

lemma junction_truth:
  assumes "name = kAnd \<or> name = kOr" and "\<not> (Some name = fn_negation F \<and> length args = 1)"
    and "args = a # rest"
  shows "truth V F E row (CallExpr name t args) = Some (r = KTrue) \<longleftrightarrow>
    junction_holds ((name = kAnd) = (r = KTrue)) (truth V F E row a = Some (r = KTrue))
      (\<lambda>a. truth V F E row a = Some (r = KTrue)) rest"
proof -
  have kor: "kOr \<noteq> kAnd" by (simp add: kOr_def kAnd_def)
  have "truth V F E row (CallExpr name t args) =
      (if name = kAnd then and3 (map (truth V F E row) args) else or3 (map (truth V F E row) args))"
    using assms(1,2) kor by auto
  then show ?thesis unfolding assms(3) by (simp only: junction3_holds)
qed

lemma junction_result:
  assumes "junction_translates V F E row c r ((name = kAnd) = (r = KTrue)) d rest d'"
    and "translates row c r (exact V F a) (truth V F E row a) d"
    and "name = kAnd \<or> name = kOr" and "args = a # rest"
    and "\<not> (Some name = fn_negation F \<and> length args = 1)"
  shows "translates row c r (exact V F (CallExpr name t args)) (truth V F E row (CallExpr name t args)) d'"
proof -
  have "exact V F (CallExpr name t args) \<longrightarrow> exact V F a \<and> list_all (exact V F) rest"
    using assms(4) by simp
  then show ?thesis
    using assms(1,2)
    unfolding translates_def junction_translates_def Let_def junction_truth [OF assms(3,5,4)]
    by (blast intro: junction_holds_mono)
qed

lemma junction_step:
  assumes "junction_translates V F E row c r i (if i then dom_intersect d e else dom_unite d e) rest d'"
    and "translates row c r (exact V F a) (truth V F E row a) e" and "dom_ok d"
  shows "junction_translates V F E row c r i d (a # rest) d'"
proof -
  have e: "dom_ok e" using assms(2) by (simp add: translates_def)
  let ?p = "\<lambda>a. truth V F E row a = Some (r = KTrue)"
  have "in_domain (row c) (if i then dom_intersect d e else dom_unite d e) =
      (if i then in_domain (row c) d \<and> in_domain (row c) e
       else in_domain (row c) d \<or> in_domain (row c) e)"
    using e assms(3) by (simp add: in_domain_ops)
  note rest = assms(1) [unfolded junction_translates_def Let_def this]
  have pe: "?p a \<longrightarrow> in_domain (row c) e" "exact V F a \<longrightarrow> in_domain (row c) e \<longrightarrow> ?p a"
    using assms(2) by (simp_all add: translates_def)
  let ?b1 = "if i then in_domain (row c) d \<and> in_domain (row c) e
    else in_domain (row c) d \<or> in_domain (row c) e"
  let ?b2 = "if i then in_domain (row c) d \<and> ?p a else in_domain (row c) d \<or> ?p a"
  have "junction_holds i ?b2 ?p rest \<Longrightarrow> junction_holds i ?b1 ?p rest"
    by (erule junction_holds_mono) (use pe(1) in \<open>auto split: if_splits\<close>)
  moreover have "exact V F a \<Longrightarrow> junction_holds i ?b1 ?p rest \<Longrightarrow> junction_holds i ?b2 ?p rest"
    by (erule junction_holds_mono) (use pe(2) in \<open>auto split: if_splits\<close>)
  ultimately show ?thesis
    unfolding junction_translates_def Let_def junction_holds_Cons
    using rest by (simp only: list.pred_inject) blast
qed

lemma opposite_KTrue: "(opposite r = KTrue) \<longleftrightarrow> r \<noteq> KTrue"
  by (simp add: opposite_def)

lemma translates_negation:
  assumes "translates row c (opposite r) ex b d"
  shows "translates row c r ex (map_option Not b) d"
  using assms by (cases b) (auto simp: translates_def opposite_KTrue)

lemma exprToDomainFor_translates:
  "velox_ok V \<Longrightarrow> engine_ok V E \<Longrightarrow> names_ok F \<Longrightarrow> row_ok V row c \<Longrightarrow> typed V F c e \<Longrightarrow>
     exprToDomainFor V F e c r = Some d \<Longrightarrow>
     translates row c r (exact V F e) (truth V F E row e) d"
  "velox_ok V \<Longrightarrow> engine_ok V E \<Longrightarrow> names_ok F \<Longrightarrow> row_ok V row c \<Longrightarrow> list_all (typed V F c) args \<Longrightarrow>
     dom_ok d0 \<Longrightarrow> junctionToDomain V F i d0 args c r = Some d \<Longrightarrow>
     junction_translates V F E row c r i d0 args d"
proof (induction V F e c r and V F i d0 args c r arbitrary: d and d
    rule: exprToDomainFor_junctionToDomain.induct)
  case (1 V F name t args c r)
  note ok = 1(4-7)
  have sub: "list_all (typed V F c) args" using 1(8) by simp
  consider (neg) "Some name = fn_negation F \<and> length args = 1"
    | (junction) "\<not> (Some name = fn_negation F \<and> length args = 1)" "name = kAnd \<or> name = kOr"
    | (leaf) "\<not> (Some name = fn_negation F \<and> length args = 1)" "\<not> (name = kAnd \<or> name = kOr)"
    by blast
  then show ?case
  proof cases
    case neg
    then obtain a where a: "args = [a]" by (auto simp: length_Suc_conv)
    have "translates row c (opposite r) (exact V F a) (truth V F E row a) d"
      using 1(1) [OF neg a ok] sub 1(9) neg a by simp
    moreover have "truth V F E row (CallExpr name t args) = map_option Not (truth V F E row a)"
      "exact V F (CallExpr name t args) \<Longrightarrow> exact V F a"
      using neg a by simp_all
    ultimately show ?thesis by (simp only:) (erule translates_weaken [OF translates_negation])
  next
    case junction
    then obtain a rest e where a: "args = a # rest" and e: "exprToDomainFor V F a c r = Some e"
      and j: "junctionToDomain V F ((name = kAnd) = (r = KTrue)) e rest c r = Some d"
      using 1(9) by (auto split: list.splits option.splits)
    have ta: "translates row c r (exact V F a) (truth V F E row a) e"
      using 1(2) [OF junction a ok] sub e a by simp
    then have "dom_ok e" by (simp add: translates_def)
    then have "junction_translates V F E row c r ((name = kAnd) = (r = KTrue)) e rest d"
      using 1(3) [OF junction a e ok] sub j a by simp
    then show ?thesis using junction_result [OF _ ta junction(2) a junction(1)] by simp
  next
    case leaf
    then have "leafToDomain V F name args c r = Some d" using 1(9) by auto
    then show ?thesis using leaf_translates [OF ok 1(8)] leaf by simp
  qed
next
  case (6 V F i d0 a rest c r)
  note ok = 6(3-6)
  from 6(9) obtain e where e: "exprToDomainFor V F a c r = Some e"
    and j: "junctionToDomain V F i (if i then dom_intersect d0 e else dom_unite d0 e) rest c r = Some d"
    by (auto split: option.splits)
  have ta: "translates row c r (exact V F a) (truth V F E row a) e"
    using 6(1) [OF ok] 6(7) e by simp
  then have "dom_ok (if i then dom_intersect d0 e else dom_unite d0 e)"
    using 6(8) by (simp add: translates_def dom_ok_ops)
  then have "junction_translates V F E row c r i (if i then dom_intersect d0 e else dom_unite d0 e) rest d"
    using 6(2) [OF e ok] 6(7) j by simp
  then show ?case using junction_step [OF _ ta 6(8)] by simp
qed (simp_all add: junction_translates_def junction_holds_def)

section \<open>The range of a prefix\<close>

lemma bump_last_snoc:
  "bump_last (xs @ [c]) =
     (case bump_last xs of
        Some u \<Rightarrow> Some (u @ [c])
      | None \<Rightarrow> if of_char c \<noteq> (255 :: nat) then Some [char_of (of_char c + (1 :: nat))] else None)"
  by (induction xs) auto

lemma prefixUpperBound_Cons:
  "prefixUpperBound (c # p) =
     (case prefixUpperBound p of
        Some u \<Rightarrow> Some (c # u)
      | None \<Rightarrow> if of_char c \<noteq> (255 :: nat) then Some [char_of (of_char c + (1 :: nat))] else None)"
  by (simp add: prefixUpperBound_def bump_last_snoc split: option.splits)

lemma less_next_char:
  assumes "of_char c \<noteq> (255 :: nat)"
  shows "d < char_of (of_char c + (1 :: nat)) \<longleftrightarrow> d \<le> c"
proof -
  have "of_char c < (255 :: nat)" using assms nat_of_char_less_256 [of c] by linarith
  then show ?thesis by (auto simp: less_char_def less_eq_char_def)
qed

lemma char_255_max: "of_char c = (255 :: nat) \<Longrightarrow> \<not> c < d"
  using nat_of_char_less_256 [of d] unfolding less_char_def by linarith

section \<open>A sample Velox\<close>

text \<open>
  Variants as lists of integers, ordered lexicographically: \<open>[]\<close> is null, \<open>[0, i]\<close> the integer
  \<open>i\<close>, \<open>1 # bytes\<close> a text and \<open>2 # is\<close> an array of integers. It shows that the assumptions on
  Velox can hold and lets the translation be run on inputs.
\<close>

definition sample_velox :: "(type_kind, int list) velox" where
  "sample_velox =
     \<lparr>ty_isDate = (\<lambda>_. False), ty_isIntervalDayTime = (\<lambda>_. False),
      ty_isIntervalYearMonth = (\<lambda>_. False), ty_isDecimal = (\<lambda>_. False), ty_isTime = (\<lambda>_. False),
      ty_kind = (\<lambda>t. t),
      ty_cppSizeInBytes = (\<lambda>t. case t of TINYINT \<Rightarrow> 1 | SMALLINT \<Rightarrow> 2 | INTEGER \<Rightarrow> 4 | BIGINT \<Rightarrow> 8 | _ \<Rightarrow> 16),
      ty_isArray = (\<lambda>t. t = OtherKind), ty_childAt0 = (\<lambda>_. BIGINT), ty_equivalent = (=),
      va_isNull = (\<lambda>v. v = []),
      va_kind = (\<lambda>v. if v = [] then OtherKind else if hd v = 0 then BIGINT
        else if hd v = 1 \<and> list_all (\<lambda>i. 0 \<le> i \<and> i < 256) (tl v) then VARCHAR else OtherKind),
      va_int = (\<lambda>v. v ! 1), va_bigint = (\<lambda>i. [0, i]),
      va_text = (\<lambda>v. map (\<lambda>i. char_of (nat i)) (tl v)),
      va_varchar = (\<lambda>s. 1 # map of_char s),
      va_array = (\<lambda>v. map (\<lambda>i. [0, i]) (tl v))\<rparr>"

text \<open>LIKE on bytes.\<close>

fun like_match :: "string \<Rightarrow> string \<Rightarrow> bool" where
  "like_match s [] \<longleftrightarrow> s = []"
| "like_match [] (p # ps) \<longleftrightarrow> p = CHR ''%'' \<and> like_match [] ps"
| "like_match (c # s) (p # ps) \<longleftrightarrow>
     (if p = CHR ''%'' then like_match (c # s) ps \<or> like_match s (p # ps)
      else if p = CHR ''_'' then like_match s ps
      else c = p \<and> like_match s ps)"

definition sample_engine :: "(type_kind, int list) engine" where
  "sample_engine =
     \<lparr>en_call = (\<lambda>_ _ vs. case vs of [v] \<Rightarrow> v | _ \<Rightarrow> None), en_pred = (\<lambda>_ _ _. None),
      en_like = like_match, en_strictBetween = True\<rparr>"

lemma like_match_prefix:
  "like_match s p \<Longrightarrow>
   take (length (takeWhile (\<lambda>c. \<not> is_wildcard c) p)) s = takeWhile (\<lambda>c. \<not> is_wildcard c) p"
  by (induction s p rule: like_match.induct) (auto simp: is_wildcard_def split: if_splits)

lemma like_match_exact: "like_match s p \<Longrightarrow> (\<forall>c\<in>set p. \<not> is_wildcard c) \<Longrightarrow> s = p"
  by (induction s p rule: like_match.induct) (auto simp: is_wildcard_def split: if_splits)

lemma sample_kind_bounds:
  "integral sample_velox t \<longleftrightarrow> t \<in> {TINYINT, SMALLINT, INTEGER, BIGINT}"
  by (cases t) (simp_all add: integral_def sample_velox_def kind_bounds_def)

lemma less_char_int: "c < d \<longleftrightarrow> (of_char c :: int) < of_char d"
proof -
  have "int (of_char c) < int (of_char d) \<longleftrightarrow> of_char c < (of_char d :: nat)" by (rule of_nat_less_iff)
  then show ?thesis by (simp only: less_char_def of_nat_of_char)
qed

lemma int_byte: "0 \<le> i \<Longrightarrow> i < 256 \<Longrightarrow> (of_char (char_of (nat i)) :: int) = i"
proof -
  assume i: "0 \<le> i" "i < 256"
  have "(of_char (char_of (nat i)) :: int) = int (of_char (char_of (nat i)))"
    by (simp only: of_nat_of_char)
  also have "\<dots> = i" using i by simp
  finally show ?thesis .
qed

lemma sample_varchar_less: "s < t \<Longrightarrow> map of_char s < (map of_char t :: int list)"
proof (induction s arbitrary: t)
  case Nil
  then show ?case by (cases t) auto
next
  case (Cons c s)
  then obtain d t' where "t = d # t'" by (cases t) auto
  then show ?case using Cons by (auto simp: less_char_int)
qed

lemma sample_velox_ok: "velox_ok sample_velox"
proof -
  have "va_varchar sample_velox (va_text sample_velox v) = v"
    if "\<not> va_isNull sample_velox v" "va_kind sample_velox v = VARCHAR" for v
  proof -
    from that have v: "v = 1 # tl v" and b: "list_all (\<lambda>i. 0 \<le> i \<and> i < 256) (tl v)"
      by (auto simp: sample_velox_def split: if_splits) (metis list.collapse)
    have "map (\<lambda>i. of_char (char_of (nat i) :: char)) (tl v) = tl v"
      using b by (intro map_idI) (simp add: list_all_iff int_byte)
    then show ?thesis using v by (simp add: sample_velox_def comp_def)
  qed
  then show ?thesis
    unfolding velox_ok_def sample_kind_bounds
    by (auto simp: sample_velox_def kind_bounds_def sample_varchar_less sample_kind_bounds
        split: type_kind.splits)
qed

lemma sample_engine_ok: "engine_ok sample_velox sample_engine"
  unfolding engine_ok_def
  by (auto simp: sample_engine_def like_match_prefix dest: like_match_exact)

definition sample_names :: function_names where
  "sample_names = fst (populateFunctionNames
     (run_calls
       [RegSlot SlotLessThan ''lt'', RegSlot SlotLessThanOrEqual ''lte'',
        RegSlot SlotGreaterThan ''gt'', RegSlot SlotGreaterThanOrEqual ''gte'',
        RegSlot SlotIsNull ''is_null'', RegSlot SlotDistinctFrom ''distinct_from'',
        RegSlot SlotBetween ''between'', RegSlot SlotLike ''like'']
       (new_registry :: (unit, unit, unit) function_registry)))"

lemma sample_names_simps:
  "fn_distinctFrom sample_names = Some ''distinct_from''" "fn_equality sample_names = Some ''eq''"
  "fn_negation sample_names = Some ''not''" "fn_lt sample_names = Some ''lt''"
  "fn_lte sample_names = Some ''lte''" "fn_gt sample_names = Some ''gt''"
  "fn_gte sample_names = Some ''gte''" "fn_isNull sample_names = Some ''is_null''"
  "fn_between sample_names = Some ''between''" "fn_like sample_names = Some ''like''"
  by (simp_all add: sample_names_def populateFunctionNames_def run_calls_def register_slot_defs
      new_registry_def)

lemma sample_names_ok: "names_ok sample_names"
  by (simp add: names_ok_def sample_names_simps kIn_def)

text \<open>\<open>CAST(x AS BIGINT) BETWEEN 3 AND 7 AND NOT 5 = x\<close> over a TINYINT column.\<close>

definition sample_column :: "type_kind column" where
  "sample_column = \<lparr>col_id = 4, col_type = TINYINT\<rparr>"

definition sample_filter :: "(type_kind, int list) expr" where
  "sample_filter =
     CallExpr ''__and'' OtherKind
       [CallExpr ''between'' OtherKind
          [CallExpr ''__cast'' BIGINT [ColumnExpr sample_column],
           LiteralExpr BIGINT [0, 3], LiteralExpr BIGINT [0, 7]],
        CallExpr ''not'' OtherKind
          [CallExpr ''eq'' OtherKind [LiteralExpr BIGINT [0, 5], ColumnExpr sample_column]]]"

lemma sample_filter_ok:
  "expr_columns sample_filter = {sample_column}"
  "typed sample_velox sample_names sample_column sample_filter"
  "exact sample_velox sample_names sample_filter"
  by (simp_all add: sample_filter_def sample_names_simps sample_column_def sample_velox_def
      integral_def kind_bounds_def)

section \<open>Properties\<close>

text \<open>
  C3: The domain computed for a filter is sound, and exact for filters without LIKE and without
  a NULL bound of a BETWEEN. Whenever the translation of a filter over one column returns a
  domain, every row on which the filter evaluates to TRUE has its column value (or NULL) in the
  domain; for the exact filters, conversely, every row whose value is in the domain makes the
  filter TRUE. The domain satisfies the representation invariant. Casts between integral types,
  literals of other integer widths, NULL literals, IN lists with NULLs, negation, conjunction
  and disjunction at any depth are covered.
\<close>

theorem expr_to_domain_sound:
  assumes "velox_ok V" and "engine_ok V E" and "names_ok F"
    and "expr_columns e = {c}" and "typed V F c e" and "row_ok V row c"
    and "exprToDomain V F e = Some d"
  shows "dom_ok d \<and>
    (truth V F E row e = Some True \<longrightarrow> in_domain (row c) d) \<and>
    (exact V F e \<longrightarrow> in_domain (row c) d \<longrightarrow> truth V F E row e = Some True)"
proof -
  have "exprToDomainFor V F e c KTrue = Some d"
    using assms(4,7) by (simp add: exprToDomain_def)
  then have "translates row c KTrue (exact V F e) (truth V F E row e) d"
    by (rule exprToDomainFor_translates(1) [OF assms(1-3,6,5)])
  then show ?thesis by (simp add: translates_def)
qed

text \<open>The sample filter at the value 6, which it accepts.\<close>

theorem expr_to_domain_sound_witness:
  "\<exists>d. exprToDomain sample_velox sample_names sample_filter = Some d \<and> dom_ok d \<and>
     in_domain (Some [0, 6]) d"
proof -
  let ?row = "\<lambda>_ :: type_kind column. Some [0, 6 :: int]"
  have "exprToDomain sample_velox sample_names sample_filter \<noteq> None"
    by code_simp
  then obtain d where d: "exprToDomain sample_velox sample_names sample_filter = Some d" by blast
  have "truth sample_velox sample_names sample_engine ?row sample_filter = Some True"
    by code_simp
  moreover have "row_ok sample_velox ?row sample_column"
    by (simp add: row_ok_def sample_column_def sample_velox_def integral_def kind_bounds_def fits_def)
  ultimately show ?thesis
    using expr_to_domain_sound [OF sample_velox_ok sample_engine_ok sample_names_ok
        sample_filter_ok(1,2) _ d, of ?row] d by blast
qed

text \<open>
  The byte range a LIKE prefix is mapped to holds exactly the texts that start with the
  prefix: at or above the prefix and, when \<open>prefixUpperBound\<close> returns a bound, below it; when it
  returns none (all bytes are 0xFF) no bound is needed.
\<close>

theorem prefix_range_exact:
  "(p \<le> s \<and> (case prefixUpperBound p of None \<Rightarrow> True | Some u \<Rightarrow> s < u)) = (\<exists>rest. s = p @ rest)"
proof (induction p arbitrary: s)
  case Nil
  then show ?case by (simp add: prefixUpperBound_def)
next
  case (Cons c p)
  show ?case
  proof (cases s)
    case (Cons d s')
    note IH = \<open>\<And>s. (p \<le> s \<and> (case prefixUpperBound p of None \<Rightarrow> True | Some u \<Rightarrow> s < u)) =
      (\<exists>rest. s = p @ rest)\<close> [of s']
    show ?thesis
      using IH less_next_char [of c d] char_255_max [of c d]
      by (auto simp: Cons prefixUpperBound_Cons split: option.splits if_splits)
  qed auto
qed

definition lt_only_names :: function_names where
  "lt_only_names = fst (populateFunctionNames
     (run_calls [RegSlot SlotLessThan ''lt'']
       (new_registry :: (unit, unit, unit) function_registry)))"

definition not_5_less_x :: "(type_kind, int list) expr" where
  "not_5_less_x = CallExpr ''not'' OtherKind
     [CallExpr ''lt'' OtherKind [LiteralExpr TINYINT [0, 5], ColumnExpr sample_column]]"

text \<open>
  The translation compares function names without checking that they are registered. In a
  dialect that registers \<open>lt\<close> but neither \<open>gt\<close> nor \<open>distinct_from\<close>, the two missing names are
  the same null name: the filter \<open>NOT (5 < x)\<close> reverses \<open>lt\<close> to the missing \<open>gt\<close>, is then taken
  for \<open>NOT (x IS DISTINCT FROM 5)\<close>, and its domain misses the value 3 on which it is TRUE.
\<close>

theorem unregistered_name_unsound:
  "truth sample_velox lt_only_names sample_engine (\<lambda>_. Some [0, 3]) not_5_less_x = Some True \<and>
   (\<exists>d. exprToDomain sample_velox lt_only_names not_5_less_x = Some d \<and>
      \<not> in_domain (Some [0, 3]) d)"
proof
  show "truth sample_velox lt_only_names sample_engine (\<lambda>_. Some [0, 3]) not_5_less_x = Some True"
    by code_simp
  have "(case exprToDomain sample_velox lt_only_names not_5_less_x of
      None \<Rightarrow> False | Some d \<Rightarrow> \<not> in_domain (Some [0, 3]) d)"
    by code_simp
  then show "\<exists>d. exprToDomain sample_velox lt_only_names not_5_less_x = Some d \<and>
      \<not> in_domain (Some [0, 3]) d"
    by (auto split: option.splits)
qed

end
