(* ===== verification/Name_Mappings.thy ===== *)
theory Name_Mappings
  imports Prelude
begin

text \<open>
  The scope of column names of a logical plan (\<^verbatim>\<open>logical_plan/NameMappings.h\<close> and
  \<^verbatim>\<open>NameMappings.cpp\<close>): a map from possibly qualified names to column ids, its inverse, the names
  found ambiguous, the hidden columns and the user-specified output names.

  The hash map of names is an association list with distinct keys, and iterating over it is
  iterating over the list. The theorems speak of lookups and of sets, so they hold for every
  order of iteration. The inverse index is a map to lists, as in the code.
\<close>

section \<open>State\<close>

record qname =
  q_alias :: "string option"
  q_name :: string

definition QualifiedName :: "string option \<Rightarrow> string \<Rightarrow> qname" where
  "QualifiedName a n = \<lparr>q_alias = a, q_name = n\<rparr>"

definition qname_toString :: "qname \<Rightarrow> string" where
  "qname_toString q = (case q_alias q of Some a \<Rightarrow> a @ ''.'' @ q_name q | None \<Rightarrow> q_name q)"

record name_mappings =
  mappings :: "(qname \<times> string) list"
  reverseIndex :: "string \<rightharpoonup> qname list"
  ambiguousNames :: "qname set"
  hiddenIds :: "string set"
  userNames :: "string \<rightharpoonup> string"

definition nm_empty :: name_mappings where
  "nm_empty = \<lparr>mappings = [], reverseIndex = Map.empty, ambiguousNames = {}, hiddenIds = {},
     userNames = Map.empty\<rparr>"

datatype name_error =
  DuplicateQualifiedName qname | DuplicateUserName string | TooManyNames | NamesDisagree

section \<open>Operations\<close>

definition index_push :: "string \<Rightarrow> qname \<Rightarrow> (string \<rightharpoonup> qname list) \<Rightarrow> (string \<rightharpoonup> qname list)" where
  "index_push cid q r = r(cid \<mapsto> (case r cid of None \<Rightarrow> [] | Some qs \<Rightarrow> qs) @ [q])"

definition nm_insert :: "qname \<Rightarrow> string \<Rightarrow> name_mappings \<Rightarrow> bool \<times> name_mappings" where
  "nm_insert name cid m =
     (if name \<in> ambiguousNames m then (False, m)
      else if map_of (mappings m) name \<noteq> None then (False, m)
      else (True, m\<lparr>mappings := mappings m @ [(name, cid)],
                    reverseIndex := index_push cid name (reverseIndex m)\<rparr>))"

definition nm_add :: "qname \<Rightarrow> string \<Rightarrow> name_mappings \<Rightarrow> name_error + name_mappings" where
  "nm_add name cid m =
     check (map_of (mappings m) name = None) (DuplicateQualifiedName name)
       (Inr (snd (nm_insert name cid m)))"

definition nm_add_unqualified :: "string \<Rightarrow> string \<Rightarrow> name_mappings \<Rightarrow> name_error + name_mappings" where
  "nm_add_unqualified name cid m = nm_add (QualifiedName None name) cid m"

text \<open>Removal of a name from the inverse index.\<close>

definition index_erase :: "string \<Rightarrow> qname \<Rightarrow> (string \<rightharpoonup> qname list) \<Rightarrow> (string \<rightharpoonup> qname list)" where
  "index_erase cid q r =
     (case r cid of
        None \<Rightarrow> r
      | Some qs \<Rightarrow>
          (let qs' = filter (\<lambda>x. x \<noteq> q) qs
           in if qs' = [] then r(cid := None) else r(cid \<mapsto> qs')))"

definition nm_markAmbiguous :: "qname \<Rightarrow> name_mappings \<Rightarrow> name_mappings" where
  "nm_markAmbiguous name m =
     (let m = m\<lparr>ambiguousNames := insert name (ambiguousNames m)\<rparr> in
      case map_of (mappings m) name of
        None \<Rightarrow> m
      | Some cid \<Rightarrow> m\<lparr>reverseIndex := index_erase cid name (reverseIndex m),
                     mappings := filter (\<lambda>e. fst e \<noteq> name) (mappings m)\<rparr>)"

definition nm_markHidden :: "string \<Rightarrow> name_mappings \<Rightarrow> name_mappings" where
  "nm_markHidden cid m = m\<lparr>hiddenIds := insert cid (hiddenIds m)\<rparr>"

definition nm_isHidden :: "string \<Rightarrow> name_mappings \<Rightarrow> bool" where
  "nm_isHidden cid m \<longleftrightarrow> cid \<in> hiddenIds m"

definition nm_addUserName :: "string \<Rightarrow> string \<Rightarrow> name_mappings \<Rightarrow> name_error + name_mappings" where
  "nm_addUserName cid name m =
     check (userNames m cid = None) (DuplicateUserName cid)
       (Inr (m\<lparr>userNames := (userNames m)(cid \<mapsto> name)\<rparr>))"

definition nm_userName :: "string \<Rightarrow> name_mappings \<Rightarrow> string option" where
  "nm_userName cid m = userNames m cid"

definition nm_copyUserName :: "string \<Rightarrow> name_mappings \<Rightarrow> name_mappings \<Rightarrow> name_error + name_mappings" where
  "nm_copyUserName cid source m =
     (case nm_userName cid source of Some name \<Rightarrow> nm_addUserName cid name m | None \<Rightarrow> Inr m)"

definition nm_lookup :: "string \<Rightarrow> name_mappings \<Rightarrow> string option" where
  "nm_lookup name m = map_of (mappings m) (QualifiedName None name)"

definition nm_lookup_alias :: "string \<Rightarrow> string \<Rightarrow> name_mappings \<Rightarrow> string option" where
  "nm_lookup_alias alias name m = map_of (mappings m) (QualifiedName (Some alias) name)"

definition nm_reverseLookup :: "string \<Rightarrow> name_mappings \<Rightarrow> name_error + qname list" where
  "nm_reverseLookup cid m =
     (case reverseIndex m cid of
        None \<Rightarrow> Inr []
      | Some names \<Rightarrow>
          check (length names \<le> 2) TooManyNames
            (if length names = 2
             then check (q_name (names ! 0) = q_name (names ! 1)) NamesDisagree
               (check ((q_alias (names ! 0) \<noteq> None) \<noteq> (q_alias (names ! 1) \<noteq> None)) NamesDisagree
                 (Inr names))
             else Inr names))"

definition nm_rebuildReverseIndex :: "name_mappings \<Rightarrow> name_mappings" where
  "nm_rebuildReverseIndex m =
     m\<lparr>reverseIndex := fold (\<lambda>(name, cid). index_push cid name) (mappings m) Map.empty\<rparr>"

definition nm_clearAliases :: "name_mappings \<Rightarrow> name_mappings" where
  "nm_clearAliases m =
     nm_rebuildReverseIndex (m\<lparr>mappings := filter (\<lambda>e. q_alias (fst e) = None) (mappings m)\<rparr>)"

definition nm_setAlias :: "string \<Rightarrow> name_mappings \<Rightarrow> name_mappings" where
  "nm_setAlias alias m =
     (let kept = filter (\<lambda>e. q_alias (fst e) = None) (mappings m);
          names = map (\<lambda>(q, cid). (q_name q, cid)) kept;
          m = m\<lparr>mappings := kept\<rparr>
      in nm_rebuildReverseIndex
        (fold (\<lambda>(name, cid) m. snd (nm_insert (QualifiedName (Some alias) name) cid m)) names m))"

definition try_emplace :: "('k \<rightharpoonup> 'x) \<Rightarrow> 'k \<Rightarrow> 'x \<Rightarrow> ('k \<rightharpoonup> 'x)" where
  "try_emplace u k x = (case u k of None \<Rightarrow> u(k \<mapsto> x) | Some _ \<Rightarrow> u)"

definition preserveOtherUserName ::
  "name_mappings \<Rightarrow> string \<Rightarrow> string \<Rightarrow> (string \<rightharpoonup> string) \<Rightarrow> (string \<rightharpoonup> string)" where
  "preserveOtherUserName other cid fallback u =
     (case nm_userName cid other of
        Some name \<Rightarrow> try_emplace u cid name
      | None \<Rightarrow> try_emplace u cid fallback)"

text \<open>The body of the loop of \<open>merge\<close>; \<open>left\<close> holds the base names qualified on the left.\<close>

definition merge_entry ::
  "name_mappings \<Rightarrow> string set \<Rightarrow> qname \<times> string \<Rightarrow> name_mappings \<Rightarrow> name_mappings" where
  "merge_entry other left e m =
     (case e of (name, cid) \<Rightarrow>
        (case map_of (mappings m) name of
           Some existing \<Rightarrow>
             (let u = try_emplace (userNames m) existing (q_name name);
                  u = preserveOtherUserName other cid (q_name name) u
              in nm_markAmbiguous name (m\<lparr>userNames := u\<rparr>))
         | None \<Rightarrow>
             if q_alias name = None \<and> q_name name \<in> left
             then m\<lparr>userNames := preserveOtherUserName other cid (q_name name) (userNames m)\<rparr>
             else snd (nm_insert name cid m)))"

definition nm_merge :: "name_mappings \<Rightarrow> name_mappings \<Rightarrow> name_mappings" where
  "nm_merge m other =
     (let left = q_name ` fst ` set (filter (\<lambda>e. q_alias (fst e) \<noteq> None) (mappings m));
          m = fold (merge_entry other left) (mappings other) m;
          m = m\<lparr>hiddenIds := hiddenIds m \<union> hiddenIds other\<rparr>
      in m\<lparr>userNames := userNames other ++ userNames m\<rparr>)"

definition nm_enableUnqualifiedAccess :: "name_mappings \<Rightarrow> name_error + name_mappings" where
  "nm_enableUnqualifiedAccess m =
     (let counts = (\<lambda>n. length (filter (\<lambda>e. q_name (fst e) = n) (mappings m)));
          toAdd = map (\<lambda>(q, cid). (q_name q, cid))
            (filter (\<lambda>e. counts (q_name (fst e)) = 1 \<and> q_alias (fst e) \<noteq> None) (mappings m))
      in fold (\<lambda>(name, cid) r. bind_res r (nm_add_unqualified name cid)) toAdd (Inr m))"

definition nm_uniqueNames :: "name_mappings \<Rightarrow> (string \<rightharpoonup> string)" where
  "nm_uniqueNames m =
     fold (\<lambda>(q, cid) names. if q_alias q = None then try_emplace names cid (q_name q) else names)
       (mappings m) Map.empty"

definition nm_idsWithAlias :: "string \<Rightarrow> name_mappings \<Rightarrow> string set" where
  "nm_idsWithAlias alias m = snd ` set (filter (\<lambda>e. q_alias (fst e) = Some alias) (mappings m))"

definition nm_reset :: "name_mappings \<Rightarrow> name_mappings" where
  "nm_reset m = m\<lparr>mappings := [], reverseIndex := Map.empty, userNames := Map.empty,
     ambiguousNames := {}\<rparr>"

section \<open>Invariant\<close>

text \<open>The names the inverse index holds for an id.\<close>

definition names_of :: "(string \<rightharpoonup> qname list) \<Rightarrow> string \<Rightarrow> qname list" where
  "names_of r cid = (case r cid of None \<Rightarrow> [] | Some qs \<Rightarrow> qs)"

definition index_ok :: "(qname \<times> string) list \<Rightarrow> (string \<rightharpoonup> qname list) \<Rightarrow> bool" where
  "index_ok ms r \<longleftrightarrow>
     (\<forall>cid. r cid \<noteq> Some [] \<and> distinct (names_of r cid) \<and>
        set (names_of r cid) = {q. map_of ms q = Some cid})"

definition nm_inv :: "name_mappings \<Rightarrow> bool" where
  "nm_inv m \<longleftrightarrow>
     distinct (map fst (mappings m)) \<and> index_ok (mappings m) (reverseIndex m) \<and>
     (\<forall>q\<in>ambiguousNames m. map_of (mappings m) q = None)"

text \<open>The scopes a client can build.\<close>

inductive scope :: "name_mappings \<Rightarrow> bool" where
  scope_empty: "scope nm_empty"
| scope_add: "scope m \<Longrightarrow> nm_add q cid m = Inr m' \<Longrightarrow> scope m'"
| scope_markAmbiguous: "scope m \<Longrightarrow> scope (nm_markAmbiguous q m)"
| scope_markHidden: "scope m \<Longrightarrow> scope (nm_markHidden cid m)"
| scope_addUserName: "scope m \<Longrightarrow> nm_addUserName cid n m = Inr m' \<Longrightarrow> scope m'"
| scope_copyUserName: "scope m \<Longrightarrow> scope s \<Longrightarrow> nm_copyUserName cid s m = Inr m' \<Longrightarrow> scope m'"
| scope_setAlias: "scope m \<Longrightarrow> scope (nm_setAlias a m)"
| scope_clearAliases: "scope m \<Longrightarrow> scope (nm_clearAliases m)"
| scope_merge: "scope m \<Longrightarrow> scope other \<Longrightarrow> scope (nm_merge m other)"
| scope_enable: "scope m \<Longrightarrow> nm_enableUnqualifiedAccess m = Inr m' \<Longrightarrow> scope m'"
| scope_reset: "scope m \<Longrightarrow> scope (nm_reset m)"

lemma QualifiedName_sel [simp]:
  "q_alias (QualifiedName a n) = a" "q_name (QualifiedName a n) = n"
  "QualifiedName a n = QualifiedName b k \<longleftrightarrow> a = b \<and> n = k"
  by (simp_all add: QualifiedName_def)

lemma QualifiedName_eta [simp]: "QualifiedName (q_alias q) (q_name q) = q"
  by (simp add: QualifiedName_def)

lemma map_of_filter_key: "map_of (filter (\<lambda>e. P (fst e)) ms) q = (if P q then map_of ms q else None)"
  by (induction ms) auto

lemmas map_of_filters = map_of_filter_key [of "\<lambda>k. q_alias k = None"]
  map_of_filter_key [of "\<lambda>k. k \<noteq> n" for n] map_of_filter_key [of "\<lambda>k. \<not> q_alias k = None"]

lemma map_of_snoc: "map_of ms q = None \<Longrightarrow> map_of (ms @ [(q, i)]) = (map_of ms)(q \<mapsto> i)"
  by (rule ext) (simp add: map_add_def split: option.splits)

lemma distinct_fst_filter: "distinct (map fst ms) \<Longrightarrow> distinct (map fst (filter P ms))"
  by (simp add: distinct_map inj_on_def)

lemma names_of_push:
  "names_of (index_push i q r) j = (if j = i then names_of r i @ [q] else names_of r j)"
  "index_push i q r j \<noteq> Some [] \<longleftrightarrow> j = i \<or> r j \<noteq> Some []"
  by (auto simp: names_of_def index_push_def)

lemma names_of_erase:
  "names_of (index_erase i q r) j = (if j = i then filter (\<lambda>x. x \<noteq> q) (names_of r i) else names_of r j)"
  "r j \<noteq> Some [] \<Longrightarrow> index_erase i q r j \<noteq> Some []"
  by (auto simp: names_of_def index_erase_def Let_def split: option.splits)

lemma index_ok_push:
  assumes "index_ok ms r" and "map_of ms q = None"
  shows "index_ok (ms @ [(q, i)]) (index_push i q r)"
  unfolding index_ok_def
proof (intro allI conjI)
  fix j
  note m = map_of_snoc [OF assms(2), of i]
  have old: "r j \<noteq> Some []" "distinct (names_of r j)" "set (names_of r j) = {q. map_of ms q = Some j}"
    using assms(1) by (auto simp: index_ok_def)
  show "index_push i q r j \<noteq> Some []" using old by (simp add: names_of_push)
  show "distinct (names_of (index_push i q r) j)"
    using old assms(2) by (auto simp: names_of_push)
  show "set (names_of (index_push i q r) j) = {x. map_of (ms @ [(q, i)]) x = Some j}"
    unfolding m using old assms(2) by (auto simp: names_of_push)
qed

lemma index_ok_erase:
  assumes "index_ok ms r" and "map_of ms q = Some i"
  shows "index_ok (filter (\<lambda>e. fst e \<noteq> q) ms) (index_erase i q r)"
  using assms by (auto simp: index_ok_def names_of_erase map_of_filters)

lemma index_ok_rebuild_aux:
  "distinct (map fst (ms0 @ ms)) \<Longrightarrow> index_ok ms0 r \<Longrightarrow>
   index_ok (ms0 @ ms) (fold (\<lambda>(name, i). index_push i name) ms r)"
proof (induction ms arbitrary: ms0 r)
  case (Cons e ms)
  obtain q i where e: "e = (q, i)" by (cases e)
  have "map_of ms0 q = None" using Cons.prems(1) e by (auto simp: map_of_eq_None_iff)
  then have "index_ok (ms0 @ [(q, i)]) (index_push i q r)" by (rule index_ok_push [OF Cons.prems(2)])
  then show ?case using Cons.IH [of "ms0 @ [(q, i)]"] Cons.prems(1) e by simp
qed simp

lemma index_ok_rebuild:
  "distinct (map fst ms) \<Longrightarrow> index_ok ms (fold (\<lambda>(name, i). index_push i name) ms Map.empty)"
  using index_ok_rebuild_aux [of "[]" ms Map.empty] by (simp add: index_ok_def names_of_def)

section \<open>Operations keep the invariant\<close>

lemma nm_inv_insert: "nm_inv m \<Longrightarrow> nm_inv (snd (nm_insert q i m))"
  by (auto simp: nm_inv_def nm_insert_def index_ok_push map_of_snoc map_of_eq_None_iff)

lemma nm_inv_add: "nm_inv m \<Longrightarrow> nm_add q i m = Inr m' \<Longrightarrow> nm_inv m'"
  by (auto simp: nm_add_def nm_inv_insert)

lemma nm_inv_markAmbiguous: "nm_inv m \<Longrightarrow> nm_inv (nm_markAmbiguous q m)"
  by (auto simp: nm_inv_def nm_markAmbiguous_def Let_def index_ok_erase map_of_filters
      distinct_fst_filter split: option.splits)

lemma nm_inv_rebuild:
  "distinct (map fst (mappings m)) \<Longrightarrow> (\<forall>q\<in>ambiguousNames m. map_of (mappings m) q = None) \<Longrightarrow>
   nm_inv (nm_rebuildReverseIndex m)"
  by (simp add: nm_inv_def nm_rebuildReverseIndex_def index_ok_rebuild)

lemma nm_inv_clearAliases: "nm_inv m \<Longrightarrow> nm_inv (nm_clearAliases m)"
  unfolding nm_clearAliases_def
  by (rule nm_inv_rebuild) (auto simp: nm_inv_def distinct_fst_filter map_of_filters)

text \<open>Inserting keeps the part of the invariant that does not concern the inverse index.\<close>

definition keys_ok :: "name_mappings \<Rightarrow> bool" where
  "keys_ok m \<longleftrightarrow> distinct (map fst (mappings m)) \<and> (\<forall>q\<in>ambiguousNames m. map_of (mappings m) q = None)"

lemma keys_ok_insert: "keys_ok m \<Longrightarrow> keys_ok (snd (nm_insert q i m))"
  by (auto simp: keys_ok_def nm_insert_def map_of_snoc map_of_eq_None_iff)

lemma keys_ok_inserts:
  "keys_ok m \<Longrightarrow> keys_ok (fold (\<lambda>(n, i) m. snd (nm_insert (f n) i m)) es m)"
  by (induction es arbitrary: m) (auto simp: keys_ok_insert)

lemma nm_inv_setAlias: "nm_inv m \<Longrightarrow> nm_inv (nm_setAlias a m)"
proof -
  assume inv: "nm_inv m"
  let ?kept = "filter (\<lambda>e. q_alias (fst e) = None) (mappings m)"
  have "keys_ok (m\<lparr>mappings := ?kept\<rparr>)"
    using inv by (auto simp: nm_inv_def keys_ok_def distinct_fst_filter map_of_filters)
  from keys_ok_inserts [OF this, of "QualifiedName (Some a)"] show ?thesis
    unfolding nm_setAlias_def Let_def by (intro nm_inv_rebuild) (auto simp: keys_ok_def)
qed

lemma nm_inv_userNames [simp]: "nm_inv (m\<lparr>userNames := u\<rparr>) = nm_inv m"
  by (simp add: nm_inv_def)

lemma nm_inv_hiddenIds [simp]: "nm_inv (m\<lparr>hiddenIds := h\<rparr>) = nm_inv m"
  by (simp add: nm_inv_def)

lemma nm_inv_merge_entry: "nm_inv m \<Longrightarrow> nm_inv (merge_entry other left e m)"
  by (auto simp: merge_entry_def Let_def nm_inv_insert nm_inv_markAmbiguous split: prod.splits option.splits)

lemma nm_inv_merge: "nm_inv m \<Longrightarrow> nm_inv (nm_merge m other)"
proof -
  assume "nm_inv m"
  then have "nm_inv (fold (merge_entry other left) es m)" for left es
    by (induction es arbitrary: m) (simp_all add: nm_inv_merge_entry)
  then show ?thesis by (simp add: nm_merge_def Let_def)
qed

lemma fold_bind_error: "fold (\<lambda>(n, i) r. bind_res r (f n i)) es (Inl e) = Inl e"
  by (induction es) auto

lemma nm_inv_adds:
  "nm_inv m \<Longrightarrow> fold (\<lambda>(n, i) r. bind_res r (nm_add_unqualified n i)) es (Inr m) = Inr m' \<Longrightarrow> nm_inv m'"
proof (induction es arbitrary: m)
  case (Cons e es)
  show ?case
  proof (cases "nm_add_unqualified (fst e) (snd e) m")
    case (Inl err)
    then show ?thesis using Cons.prems(2) by (simp add: split_beta fold_bind_error [unfolded split_beta])
  next
    case (Inr m1)
    then have "nm_inv m1" using nm_inv_add [OF Cons.prems(1)] by (simp add: nm_add_unqualified_def)
    then show ?thesis using Cons.IH Cons.prems(2) Inr by (simp add: split_beta)
  qed
qed simp

lemma nm_inv_enable: "nm_inv m \<Longrightarrow> nm_enableUnqualifiedAccess m = Inr m' \<Longrightarrow> nm_inv m'"
  unfolding nm_enableUnqualifiedAccess_def Let_def by (rule nm_inv_adds)

lemma nm_inv_empty: "nm_inv nm_empty"
  by (simp add: nm_inv_def nm_empty_def index_ok_def names_of_def)

lemma nm_inv_reset: "nm_inv (nm_reset m)"
  by (simp add: nm_inv_def nm_reset_def index_ok_def names_of_def)

lemma nm_inv_markHidden: "nm_inv m \<Longrightarrow> nm_inv (nm_markHidden i m)"
  by (simp add: nm_markHidden_def)

lemma nm_inv_addUserName: "nm_inv m \<Longrightarrow> nm_addUserName i n m = Inr m' \<Longrightarrow> nm_inv m'"
  by (auto simp: nm_addUserName_def)

lemma nm_inv_copyUserName: "nm_inv m \<Longrightarrow> nm_copyUserName i s m = Inr m' \<Longrightarrow> nm_inv m'"
  by (cases "nm_userName i s") (auto simp: nm_copyUserName_def dest: nm_inv_addUserName)

lemma scope_inv: "scope m \<Longrightarrow> nm_inv m"
  by (induction rule: scope.induct)
    (blast intro: nm_inv_empty nm_inv_add nm_inv_markAmbiguous nm_inv_markHidden
      nm_inv_addUserName nm_inv_copyUserName nm_inv_setAlias nm_inv_clearAliases nm_inv_merge
      nm_inv_enable nm_inv_reset)+

section \<open>Lookups after the operations\<close>

abbreviation resolve :: "name_mappings \<Rightarrow> qname \<Rightarrow> string option" where
  "resolve m \<equiv> map_of (mappings m)"

lemma resolve_insert:
  "resolve (snd (nm_insert q i m)) k =
     (if k = q \<and> resolve m q = None \<and> q \<notin> ambiguousNames m then Some i else resolve m k)"
  "ambiguousNames (snd (nm_insert q i m)) = ambiguousNames m"
  "userNames (snd (nm_insert q i m)) = userNames m"
  by (auto simp: nm_insert_def map_of_snoc simp del: map_of_append)

lemma resolve_markAmbiguous:
  "resolve (nm_markAmbiguous q m) k = (if k = q then None else resolve m k)"
  "ambiguousNames (nm_markAmbiguous q m) = insert q (ambiguousNames m)"
  "userNames (nm_markAmbiguous q m) = userNames m"
  by (auto simp: nm_markAmbiguous_def Let_def map_of_filters split: option.splits)

lemma resolve_clearAliases:
  "resolve (nm_clearAliases m) q = (if q_alias q = None then resolve m q else None)"
  by (simp add: nm_clearAliases_def nm_rebuildReverseIndex_def map_of_filters)

lemma resolve_inserts:
  "distinct (map fst es) \<Longrightarrow>
   resolve (fold (\<lambda>(n, i) m. snd (nm_insert (QualifiedName (Some a) n) i m)) es m) q =
     (if resolve m q = None \<and> q_alias q = Some a \<and> q \<notin> ambiguousNames m
      then map_of es (q_name q) else resolve m q)"
proof (induction es arbitrary: m)
  case (Cons e es)
  obtain n i where e: "e = (n, i)" by (cases e)
  have n: "map_of es n = None" using Cons.prems by (auto simp: map_of_eq_None_iff e)
  show ?case
  proof (cases "q = QualifiedName (Some a) n")
    case True
    then show ?thesis using Cons n by (simp add: e resolve_insert)
  next
    case False
    then have "q_alias q = Some a \<longrightarrow> q_name q \<noteq> n" by (metis QualifiedName_eta)
    then show ?thesis using Cons False by (simp add: e resolve_insert)
  qed
qed simp

lemma map_of_base_names:
  "list_all (\<lambda>e. q_alias (fst e) = None) es \<Longrightarrow>
   map_of (map (\<lambda>(q, i). (q_name q, i)) es) n = map_of es (QualifiedName None n)"
proof (induction es)
  case (Cons e es)
  have "fst e = QualifiedName None n \<longleftrightarrow> q_name (fst e) = n"
    using Cons.prems by (simp, metis QualifiedName_eta QualifiedName_sel(2))
  then show ?case using Cons by (cases e) auto
qed simp

lemma distinct_base_names:
  "list_all (\<lambda>e. q_alias (fst e) = None) (es :: (qname \<times> string) list) \<Longrightarrow> distinct (map fst es) \<Longrightarrow>
   distinct (map fst (map (\<lambda>(q, i). (q_name q, i)) es))"
proof -
  assume un: "list_all (\<lambda>e. q_alias (fst e) = None) es" and d: "distinct (map fst es)"
  have "q = QualifiedName None (q_name q)" if "q \<in> set (map fst es)" for q
  proof -
    have "q_alias q = None" using that un by (auto simp: list_all_iff)
    then show ?thesis by (metis QualifiedName_eta)
  qed
  then have "inj_on q_name (set (map fst es))" by (metis inj_onI)
  with d have "distinct (map q_name (map fst es))" by (subst distinct_map) (rule conjI)
  moreover have "map fst (map (\<lambda>(q, i). (q_name q, i)) es) = map q_name (map fst es)" by auto
  ultimately show ?thesis by (simp only:)
qed

lemma resolve_setAlias:
  assumes "nm_inv m"
  shows "resolve (nm_setAlias a m) q =
    (if q_alias q = None then resolve m q
     else if q_alias q = Some a \<and> q \<notin> ambiguousNames m then resolve m (QualifiedName None (q_name q))
     else None)"
proof -
  let ?kept = "filter (\<lambda>e. q_alias (fst e) = None) (mappings m)"
  have un: "list_all (\<lambda>e. q_alias (fst e) = None) ?kept" by (simp add: list_all_iff)
  have "distinct (map fst ?kept)" using assms by (simp add: nm_inv_def distinct_fst_filter)
  from distinct_base_names [OF un this] show ?thesis
    by (simp add: nm_setAlias_def Let_def nm_rebuildReverseIndex_def resolve_inserts
        map_of_base_names [OF un] map_of_filters)
qed

lemma resolve_merge_entry:
  "resolve (merge_entry other left (n, i) m) q =
     (if q \<noteq> n then resolve m q
      else if resolve m n \<noteq> None \<or> q_alias n = None \<and> q_name n \<in> left \<or> n \<in> ambiguousNames m
      then None else Some i)"
  "q \<noteq> n \<Longrightarrow> q \<in> ambiguousNames (merge_entry other left (n, i) m) \<longleftrightarrow> q \<in> ambiguousNames m"
  by (auto simp: merge_entry_def Let_def resolve_insert resolve_markAmbiguous split: option.splits)

lemma resolve_merge_fold:
  "distinct (map fst es) \<Longrightarrow>
   resolve (fold (merge_entry other left) es m) q =
     (case map_of es q of
        None \<Rightarrow> resolve m q
      | Some i \<Rightarrow>
          if resolve m q \<noteq> None \<or> q_alias q = None \<and> q_name q \<in> left \<or> q \<in> ambiguousNames m
          then None else Some i)"
proof (induction es arbitrary: m)
  case (Cons e es)
  obtain n i where e: "e = (n, i)" by (cases e)
  have n: "map_of es n = None" using Cons.prems by (auto simp: map_of_eq_None_iff e)
  show ?case
    using Cons n by (cases "q = n") (simp_all add: e resolve_merge_entry split: option.split)
qed simp

lemma try_emplace_mono: "u \<subseteq>\<^sub>m try_emplace u k x"
  by (auto simp: map_le_def try_emplace_def split: option.splits)

lemma try_emplace_dom [simp]: "\<exists>y. try_emplace u k x k = Some y"
  by (auto simp: try_emplace_def split: option.splits)

lemma preserve_mono: "u \<subseteq>\<^sub>m preserveOtherUserName other i f u"
  by (simp add: preserveOtherUserName_def try_emplace_mono split: option.splits)

lemma preserve_dom: "preserveOtherUserName other i f u i \<noteq> None"
  by (simp add: preserveOtherUserName_def split: option.splits)

lemma userNames_merge_entry:
  "userNames m \<subseteq>\<^sub>m userNames (merge_entry other left e m)"
  using map_le_trans [OF try_emplace_mono preserve_mono]
  by (auto simp: merge_entry_def Let_def resolve_insert resolve_markAmbiguous preserve_mono
      split: prod.splits option.splits)

lemma userNames_merge_fold: "userNames m \<subseteq>\<^sub>m userNames (fold (merge_entry other left) es m)"
  by (induction es arbitrary: m) (auto intro: map_le_trans userNames_merge_entry)

text \<open>A column that loses a name in the merge has an output name.\<close>

lemma userNames_merge_collision:
  assumes "resolve m n = Some j"
  shows "userNames (merge_entry other left (n, i) m) i \<noteq> None"
    and "userNames (merge_entry other left (n, i) m) j \<noteq> None"
proof -
  let ?u = "try_emplace (userNames m) j (q_name n)"
  have "userNames (merge_entry other left (n, i) m) = preserveOtherUserName other i (q_name n) ?u"
    using assms by (simp add: merge_entry_def Let_def resolve_markAmbiguous)
  moreover have "preserveOtherUserName other i (q_name n) ?u j \<noteq> None"
    using preserve_mono [of ?u other i "q_name n"] try_emplace_dom [of "userNames m" j "q_name n"]
    unfolding map_le_def dom_def by (metis (mono_tags, lifting) mem_Collect_eq option.distinct(1))
  ultimately show "userNames (merge_entry other left (n, i) m) i \<noteq> None"
    "userNames (merge_entry other left (n, i) m) j \<noteq> None"
    by (simp_all only: preserve_dom not_False_eq_True)
qed

lemma merge_collision_fold:
  "distinct (map fst es) \<Longrightarrow> map_of es n = Some i \<Longrightarrow> resolve m n = Some j \<Longrightarrow>
   userNames (fold (merge_entry other left) es m) i \<noteq> None \<and>
   userNames (fold (merge_entry other left) es m) j \<noteq> None"
proof (induction es arbitrary: m)
  case (Cons e es)
  obtain k l where e: "e = (k, l)" by (cases e)
  show ?case
  proof (cases "k = n")
    case True
    then have l: "l = i" using Cons.prems e by simp
    let ?m = "merge_entry other left (n, i) m"
    have "userNames ?m \<subseteq>\<^sub>m userNames (fold (merge_entry other left) es ?m)" by (rule userNames_merge_fold)
    then show ?thesis
      using userNames_merge_collision [OF Cons.prems(3)] True l e by (auto simp: map_le_def dom_def)
  next
    case False
    then show ?thesis using Cons e by (simp add: resolve_merge_entry)
  qed
qed simp

text \<open>The output names the loop of a merge adds, exactly.\<close>

definition drops :: "string set \<Rightarrow> name_mappings \<Rightarrow> qname \<Rightarrow> bool" where
  "drops left m q \<longleftrightarrow> resolve m q \<noteq> None \<or> q_alias q = None \<and> q_name q \<in> left"

definition new_name :: "name_mappings \<Rightarrow> string set \<Rightarrow> (qname \<times> string) list \<Rightarrow> name_mappings \<Rightarrow> string \<Rightarrow> string \<Rightarrow> bool" where
  "new_name other left es m k x \<longleftrightarrow>
     (\<exists>(q, i)\<in>set es. resolve m q = Some k \<and> x = q_name q \<or>
        drops left m q \<and> i = k \<and>
          x = (case userNames other k of Some y \<Rightarrow> y | None \<Rightarrow> q_name q))"

lemma try_emplace_eq: "try_emplace u k x j = (if j = k \<and> u k = None then Some x else u j)"
  by (auto simp: try_emplace_def split: option.splits)

lemma preserve_eq:
  "preserveOtherUserName other i f u j =
     (if j = i \<and> u i = None then Some (case userNames other i of Some y \<Rightarrow> y | None \<Rightarrow> f) else u j)"
  by (auto simp: preserveOtherUserName_def nm_userName_def try_emplace_eq split: option.splits)

lemma merge_entry_userNames:
  "userNames (merge_entry other left (q, i) m) k =
     (case userNames m k of
        Some x \<Rightarrow> Some x
      | None \<Rightarrow>
          if resolve m q = Some k then Some (q_name q)
          else if drops left m q \<and> i = k then Some (case userNames other k of Some y \<Rightarrow> y | None \<Rightarrow> q_name q)
          else None)"
  by (auto simp: merge_entry_def drops_def Let_def resolve_insert resolve_markAmbiguous preserve_eq try_emplace_eq
      split: option.splits)

lemma new_name_Cons:
  assumes "distinct (map fst ((q, i) # es))"
  shows "new_name other left ((q, i) # es) m k x \<longleftrightarrow>
    (resolve m q = Some k \<and> x = q_name q \<or>
      drops left m q \<and> i = k \<and> x = (case userNames other k of Some y \<Rightarrow> y | None \<Rightarrow> q_name q)) \<or>
    new_name other left es (merge_entry other left (q, i) m) k x"
proof -
  have "resolve (merge_entry other left (q, i) m) r = resolve m r" if "(r, j) \<in> set es" for r j
  proof -
    have "r \<noteq> q" using that assms by force
    then show ?thesis by (simp add: resolve_merge_entry(1))
  qed
  then have "new_name other left es (merge_entry other left (q, i) m) k x \<longleftrightarrow> new_name other left es m k x"
    unfolding new_name_def drops_def by (intro bex_cong refl) auto
  then show ?thesis by (simp add: new_name_def)
qed

lemma merge_fold_userNames:
  "distinct (map fst es) \<Longrightarrow>
   (case userNames m k of
      Some x \<Rightarrow> userNames (fold (merge_entry other left) es m) k = Some x
    | None \<Rightarrow>
        if \<exists>x. new_name other left es m k x
        then \<exists>x. userNames (fold (merge_entry other left) es m) k = Some x \<and> new_name other left es m k x
        else userNames (fold (merge_entry other left) es m) k = None)"
proof (induction es arbitrary: m)
  case (Cons e es)
  obtain q i where e: "e = (q, i)" by (cases e)
  let ?m = "merge_entry other left (q, i) m"
  have IH: "case userNames ?m k of
      Some x \<Rightarrow> userNames (fold (merge_entry other left) es ?m) k = Some x
    | None \<Rightarrow>
        if \<exists>x. new_name other left es ?m k x
        then \<exists>x. userNames (fold (merge_entry other left) es ?m) k = Some x \<and> new_name other left es ?m k x
        else userNames (fold (merge_entry other left) es ?m) k = None"
    using Cons by (simp add: e)
  show ?case
    unfolding e new_name_Cons [OF Cons.prems [unfolded e]] fold_Cons comp_apply
    using IH unfolding merge_entry_userNames by (auto split: option.splits if_splits)
qed (auto simp: new_name_def split: option.split)

section \<open>Unqualified access\<close>

lemma map_of_base_first:
  "map_of (map (\<lambda>(q, i). (q_name q, i)) es) n =
     (case filter (\<lambda>e. q_name (fst e) = n) es of [] \<Rightarrow> None | e # _ \<Rightarrow> Some (snd e))"
  by (induction es) auto

lemma distinct_by_count:
  "(\<And>n. length (filter (\<lambda>x. g x = n) xs) \<le> 1) \<Longrightarrow> distinct (map g xs)"
proof (induction xs)
  case (Cons x xs)
  have "length (filter (\<lambda>y. g y = g x) xs) \<le> 0" using Cons.prems [of "g x"] by simp
  then have "g x \<notin> g ` set xs" by (auto simp: filter_empty_conv)
  moreover have "length (filter (\<lambda>y. g y = n) xs) \<le> 1" for n
    using Cons.prems [of n] by (simp split: if_splits)
  ultimately show ?case using Cons.IH by simp
qed simp

lemma resolve_adds:
  "distinct (map fst es) \<Longrightarrow> \<forall>n\<in>fst ` set es. resolve m (QualifiedName None n) = None \<Longrightarrow>
   \<exists>m'. fold (\<lambda>(n, i) r. bind_res r (nm_add_unqualified n i)) es (Inr m) = Inr m' \<and>
     (\<forall>q. resolve m' q = (if resolve m q = None \<and> q_alias q = None \<and> q \<notin> ambiguousNames m
        then map_of es (q_name q) else resolve m q))"
proof (induction es arbitrary: m)
  case (Cons e es)
  obtain n i where e: "e = (n, i)" by (cases e)
  let ?m = "snd (nm_insert (QualifiedName None n) i m)"
  have n: "resolve m (QualifiedName None n) = None" "map_of es n = None"
    using Cons.prems by (auto simp: e map_of_eq_None_iff)
  have add: "nm_add_unqualified n i m = Inr ?m"
    using n(1) by (simp add: nm_add_unqualified_def nm_add_def)
  have "\<forall>k\<in>fst ` set es. resolve ?m (QualifiedName None k) = None"
    using Cons.prems by (auto simp: e resolve_insert)
  with Cons.IH [of ?m] Cons.prems obtain m' where
    m': "fold (\<lambda>(n, i) r. bind_res r (nm_add_unqualified n i)) es (Inr ?m) = Inr m'"
    "\<And>q. resolve m' q = (if resolve ?m q = None \<and> q_alias q = None \<and> q \<notin> ambiguousNames ?m
        then map_of es (q_name q) else resolve ?m q)"
    by (auto simp: e)
  have "resolve m' q = (if resolve m q = None \<and> q_alias q = None \<and> q \<notin> ambiguousNames m
      then map_of (e # es) (q_name q) else resolve m q)" for q
  proof (cases "q = QualifiedName None n")
    case True
    then show ?thesis using n by (simp add: m'(2) resolve_insert e)
  next
    case False
    then have "q_alias q = None \<longrightarrow> q_name q \<noteq> n" by (metis QualifiedName_eta)
    then show ?thesis using False by (simp add: m'(2) resolve_insert e)
  qed
  then show ?case using m'(1) add by (simp add: e)
qed simp

text \<open>The single entry with a base name, when there is one.\<close>

definition single_entry :: "string \<Rightarrow> name_mappings \<Rightarrow> (qname \<times> string) option" where
  "single_entry n m =
     (case filter (\<lambda>e. q_name (fst e) = n) (mappings m) of [e] \<Rightarrow> Some e | _ \<Rightarrow> None)"

lemma single_entry_iff:
  "single_entry n m = Some e \<longleftrightarrow> filter (\<lambda>e. q_name (fst e) = n) (mappings m) = [e]"
  by (auto simp: single_entry_def split: list.splits)

lemma single_entry_mem:
  assumes "single_entry n m = Some e"
  shows "e' \<in> set (mappings m) \<and> q_name (fst e') = n \<longleftrightarrow> e' = e"
proof -
  have "e' \<in> set (filter (\<lambda>e. q_name (fst e) = n) (mappings m)) \<longleftrightarrow> e' = e"
    using assms by (simp only: single_entry_iff) simp
  then show ?thesis by simp
qed

lemma resolve_enable:
  assumes "nm_inv m"
  shows "\<exists>m'. nm_enableUnqualifiedAccess m = Inr m' \<and>
    (\<forall>q. resolve m' q = (if resolve m q = None \<and> q_alias q = None \<and> q \<notin> ambiguousNames m
       then map_option snd (single_entry (q_name q) m) else resolve m q))"
proof -
  let ?ms = "mappings m"
  let ?P = "\<lambda>e. length (filter (\<lambda>x. q_name (fst x) = q_name (fst e)) ?ms) = 1 \<and> q_alias (fst e) \<noteq> None"
  let ?es = "map (\<lambda>(q, i). (q_name q, i)) (filter ?P ?ms)"
  have part: "filter (\<lambda>e. q_name (fst e) = n) (filter ?P ?ms) =
      (case single_entry n m of None \<Rightarrow> [] | Some e \<Rightarrow> if q_alias (fst e) \<noteq> None then [e] else [])" for n
  proof -
    let ?F = "filter (\<lambda>e. q_name (fst e) = n) ?ms"
    have "filter (\<lambda>e. q_name (fst e) = n) (filter ?P ?ms) =
        (if length ?F = 1 then filter (\<lambda>e. q_alias (fst e) \<noteq> None) ?F else [])"
      by (auto simp: conj_commute filter_empty_conv intro!: filter_cong)
    then show ?thesis
      by (cases ?F; cases "tl ?F") (auto simp: single_entry_def)
  qed
  have single: "q_alias (fst e) = None \<Longrightarrow> resolve m (QualifiedName None n) \<noteq> None"
    if "single_entry n m = Some e" for n e
  proof -
    assume "q_alias (fst e) = None"
    moreover have e: "e \<in> set ?ms" "q_name (fst e) = n"
      using single_entry_mem [OF that] by blast+
    ultimately have "fst e = QualifiedName None n" by (metis QualifiedName_eta)
    with e(1) show ?thesis by (metis imageI map_of_eq_None_iff)
  qed
  have "filter (\<lambda>x. fst x = n) ?es = map (\<lambda>(q, i). (q_name q, i))
      (filter (\<lambda>e. q_name (fst e) = n) (filter ?P ?ms))" for n
    by (simp add: filter_map comp_def split_beta)
  then have "length (filter (\<lambda>x. fst x = n) ?es) \<le> 1" for n
    by (simp only: part length_map) (simp split: option.split)
  then have dis: "distinct (map fst ?es)" by (rule distinct_by_count)
  have map_es: "map_of ?es n = (case single_entry n m of None \<Rightarrow> None
      | Some e \<Rightarrow> if q_alias (fst e) \<noteq> None then Some (snd e) else None)" for n
    unfolding map_of_base_first part by (simp split: option.split)
  have "\<forall>n\<in>fst ` set ?es. resolve m (QualifiedName None n) = None"
  proof
    fix n
    assume "n \<in> fst ` set ?es"
    then have "map_of ?es n \<noteq> None" by (simp only: map_of_eq_None_iff) simp
    then obtain e where e: "single_entry n m = Some e" "q_alias (fst e) \<noteq> None"
      unfolding map_es by (auto split: option.splits if_splits)
    show "resolve m (QualifiedName None n) = None"
    proof (rule ccontr)
      assume "resolve m (QualifiedName None n) \<noteq> None"
      then obtain i where "(QualifiedName None n, i) \<in> set ?ms" by (auto dest: map_of_SomeD)
      then show False using single_entry_mem [OF e(1), of "(QualifiedName None n, i)"] e(2) by auto
    qed
  qed
  from resolve_adds [OF dis this] obtain m' where
    res: "fold (\<lambda>(n, i) r. bind_res r (nm_add_unqualified n i)) ?es (Inr m) = Inr m' \<and>
      (\<forall>q. resolve m' q = (if resolve m q = None \<and> q_alias q = None \<and> q \<notin> ambiguousNames m
        then map_of ?es (q_name q) else resolve m q))"
    by (rule exE)
  note m' = res [THEN conjunct1] res [THEN conjunct2, rule_format]
  have "map_of ?es (q_name q) = map_option snd (single_entry (q_name q) m)"
    if "resolve m q = None" "q_alias q = None" for q
  proof (cases "single_entry (q_name q) m")
    case None
    then show ?thesis by (simp only: map_es) simp
  next
    case (Some e)
    have "q = QualifiedName None (q_name q)" using that(2) by (metis QualifiedName_eta)
    then have "q_alias (fst e) \<noteq> None" using single [OF Some] that(1) by metis
    then show ?thesis using Some by (simp only: map_es) simp
  qed
  then show ?thesis
    using m' unfolding nm_enableUnqualifiedAccess_def Let_def by (intro exI [of _ m']) simp
qed

section \<open>Properties\<close>

text \<open>
  C25: In every scope built through the interface the forward map and the inverse index agree: a
  name resolves to an id exactly when the index lists it for that id, the index holds no empty
  and no repeated entry, and a name marked ambiguous resolves to nothing.
\<close>

theorem name_index_in_sync:
  assumes "scope m"
  shows "(resolve m q = Some cid \<longleftrightarrow> q \<in> set (names_of (reverseIndex m) cid)) \<and>
    distinct (names_of (reverseIndex m) cid) \<and> reverseIndex m cid \<noteq> Some [] \<and>
    (q \<in> ambiguousNames m \<longrightarrow> resolve m q = None)"
proof -
  have inv: "index_ok (mappings m) (reverseIndex m)" "\<forall>q\<in>ambiguousNames m. resolve m q = None"
    using scope_inv [OF assms] by (simp_all add: nm_inv_def)
  then have "set (names_of (reverseIndex m) cid) = {q. resolve m q = Some cid}"
    "distinct (names_of (reverseIndex m) cid)" "reverseIndex m cid \<noteq> Some []"
    by (simp_all add: index_ok_def)
  with inv(2) show ?thesis by simp
qed

text \<open>Two tables that share a column name, each with its alias, joined.\<close>

definition table_scope :: "string \<Rightarrow> string \<Rightarrow> string \<Rightarrow> name_mappings" where
  "table_scope a n cid =
     nm_setAlias a (snd (nm_insert (QualifiedName None n) cid nm_empty))"

lemma scope_table: "scope (table_scope a n cid)"
proof -
  have "nm_add (QualifiedName None n) cid nm_empty =
      Inr (snd (nm_insert (QualifiedName None n) cid nm_empty))"
    by (simp add: nm_add_def nm_empty_def)
  then have "scope (snd (nm_insert (QualifiedName None n) cid nm_empty))"
    by (rule scope_add [OF scope_empty])
  then show ?thesis unfolding table_scope_def by (rule scope_setAlias)
qed

theorem name_index_in_sync_witness:
  "QualifiedName (Some ''a'') ''x'' \<in> set (names_of (reverseIndex
     (nm_merge (table_scope ''a'' ''x'' ''1'') (table_scope ''b'' ''x'' ''2''))) ''1'')"
proof -
  have "scope (nm_merge (table_scope ''a'' ''x'' ''1'') (table_scope ''b'' ''x'' ''2''))"
    by (intro scope_merge scope_table)
  moreover have "resolve (nm_merge (table_scope ''a'' ''x'' ''1'') (table_scope ''b'' ''x'' ''2''))
      (QualifiedName (Some ''a'') ''x'') = Some ''1''"
    by code_simp
  ultimately show ?thesis using name_index_in_sync by blast
qed

text \<open>
  What a merge drops: the names of the right side that the left side resolves too, and its
  unqualified names that some alias of the left side qualifies. The base names a column loses.
\<close>

definition dropped_names :: "name_mappings \<Rightarrow> name_mappings \<Rightarrow> qname set" where
  "dropped_names m other =
     {q. resolve other q \<noteq> None \<and>
         (resolve m q \<noteq> None \<or> q_alias q = None \<and> (\<exists>a. resolve m (QualifiedName (Some a) (q_name q)) \<noteq> None))}"

definition lost_names :: "name_mappings \<Rightarrow> name_mappings \<Rightarrow> string \<Rightarrow> string set" where
  "lost_names m other i =
     q_name ` {q \<in> dropped_names m other. resolve m q = Some i \<or> resolve other q = Some i}"

definition known_ids :: "name_mappings \<Rightarrow> string set" where
  "known_ids m = {i. \<exists>q. resolve m q = Some i} \<union> dom (userNames m)"

lemma left_bases:
  "n \<in> q_name ` fst ` set (filter (\<lambda>e. q_alias (fst e) \<noteq> None) (mappings m)) \<longleftrightarrow>
     (\<exists>a. resolve m (QualifiedName (Some a) n) \<noteq> None)"
proof
  assume "n \<in> q_name ` fst ` set (filter (\<lambda>e. q_alias (fst e) \<noteq> None) (mappings m))"
  then obtain e where e: "e \<in> set (mappings m)" "q_alias (fst e) \<noteq> None" "n = q_name (fst e)"
    unfolding set_filter by blast
  from e(2) obtain a where "q_alias (fst e) = Some a" by blast
  with e(3) have "QualifiedName (Some a) n = fst e" by (metis QualifiedName_eta)
  moreover have "resolve m (fst e) \<noteq> None" using e(1) by (simp add: map_of_eq_None_iff)
  ultimately show "\<exists>a. resolve m (QualifiedName (Some a) n) \<noteq> None" by metis
next
  assume "\<exists>a. resolve m (QualifiedName (Some a) n) \<noteq> None"
  then obtain a where "QualifiedName (Some a) n \<in> fst ` set (mappings m)"
    by (metis map_of_eq_None_iff)
  then show "n \<in> q_name ` fst ` set (filter (\<lambda>e. q_alias (fst e) \<noteq> None) (mappings m))"
    by (force simp: image_iff)
qed

lemma new_name_merge:
  assumes "scope other" "known_ids m \<inter> known_ids other = {}"
  shows "new_name other (q_name ` fst ` set (filter (\<lambda>e. q_alias (fst e) \<noteq> None) (mappings m))) (mappings other) m i x \<longleftrightarrow>
    (if i \<in> dom (userNames other) then lost_names m other i \<noteq> {} \<and> userNames other i = Some x
     else x \<in> lost_names m other i)"
proof -
  have dis: "distinct (map fst (mappings other))" using scope_inv [OF assms(1)] by (simp add: nm_inv_def)
  have mem: "(q, j) \<in> set (mappings other) \<longleftrightarrow> resolve other q = Some j" for q j
    using dis by simp
  have apart: "resolve m q \<noteq> Some i" if "userNames other i \<noteq> None" for q
    using assms(2) that unfolding known_ids_def by blast
  have l: "lost_names m other i =
      {q_name q | q j. resolve other q = Some j \<and> (resolve m q = Some i \<or>
        (resolve m q \<noteq> None \<or> q_alias q = None \<and> (\<exists>a. resolve m (QualifiedName (Some a) (q_name q)) \<noteq> None)) \<and> j = i)}"
    unfolding lost_names_def dropped_names_def by (auto simp: image_iff)
  show ?thesis
    unfolding new_name_def drops_def left_bases l
    using apart mem by (cases "userNames other i") (fastforce simp: dom_def)+
qed

lemma merge_userNames:
  assumes "scope other" "known_ids m \<inter> known_ids other = {}"
  shows "case (userNames m ++ userNames other) i of
      Some n \<Rightarrow> nm_userName i (nm_merge m other) = Some n
    | None \<Rightarrow> if lost_names m other i = {} then nm_userName i (nm_merge m other) = None
        else \<exists>n\<in>lost_names m other i. nm_userName i (nm_merge m other) = Some n"
proof -
  let ?left = "q_name ` fst ` set (filter (\<lambda>e. q_alias (fst e) \<noteq> None) (mappings m))"
  let ?u = "userNames (fold (merge_entry other ?left) (mappings other) m)"
  have dis: "distinct (map fst (mappings other))" using scope_inv [OF assms(1)] by (simp add: nm_inv_def)
  have u: "nm_userName i (nm_merge m other) = (userNames other ++ ?u) i"
    by (simp add: nm_merge_def Let_def nm_userName_def)
  have apart: "userNames m i = None \<or> userNames other i = None"
    using assms(2) unfolding known_ids_def by blast
  show ?thesis
    using merge_fold_userNames [OF dis, where m=m and k=i and other=other and left="?left"] apart
    unfolding u new_name_merge [OF assms]
    by (cases "userNames m i"; cases "userNames other i") (auto simp: map_add_def dom_def split: if_splits option.splits)
qed

text \<open>
  C22: Merging two scopes (a join). A name that both sides resolve is dropped and marked
  ambiguous; an unqualified name of the right side is dropped when the left side has a qualified
  name with the same base; a name of the right side that the left side marked ambiguous stays
  unresolved; every other name keeps its column. The left side's unqualified names are not checked
  against the right side's qualified ones, so an unqualified name can stay although the header of
  the class says that non-unique names lose it. No output name of the left side changes. When the
  ids of the sides are apart, which the code requires, the output names are exactly these: a column
  keeps the output name its side gives it; another has one if a name of it was dropped, and it is
  the base name of a dropped name.
\<close>

theorem merge_resolution:
  assumes "scope m" and "scope other"
  shows "resolve (nm_merge m other) q =
      (case resolve other q of
         None \<Rightarrow> resolve m q
       | Some i \<Rightarrow>
           if resolve m q \<noteq> None \<or> q \<in> ambiguousNames m \<or>
              q_alias q = None \<and> (\<exists>a. resolve m (QualifiedName (Some a) (q_name q)) \<noteq> None)
           then None else Some i) \<and>
    userNames m \<subseteq>\<^sub>m userNames (nm_merge m other) \<and>
    (resolve m q = Some i \<and> resolve other q = Some j \<longrightarrow>
       nm_userName i (nm_merge m other) \<noteq> None \<and> nm_userName j (nm_merge m other) \<noteq> None) \<and>
    (known_ids m \<inter> known_ids other = {} \<longrightarrow>
       (case (userNames m ++ userNames other) k of
          Some n \<Rightarrow> nm_userName k (nm_merge m other) = Some n
        | None \<Rightarrow> if lost_names m other k = {} then nm_userName k (nm_merge m other) = None
            else \<exists>n\<in>lost_names m other k. nm_userName k (nm_merge m other) = Some n))"
proof -
  let ?left = "q_name ` fst ` set (filter (\<lambda>e. q_alias (fst e) \<noteq> None) (mappings m))"
  let ?m = "fold (merge_entry other ?left) (mappings other) m"
  have dis: "distinct (map fst (mappings other))" using scope_inv [OF assms(2)] by (simp add: nm_inv_def)
  have names: "mappings (nm_merge m other) = mappings ?m"
    "userNames (nm_merge m other) = userNames other ++ userNames ?m"
    by (simp_all add: nm_merge_def Let_def)
  have keep: "userNames m \<subseteq>\<^sub>m userNames (nm_merge m other)"
    by (rule map_le_trans [OF userNames_merge_fold [of m other ?left "mappings other"]]) (simp add: names(2))
  have both: "nm_userName i (nm_merge m other) \<noteq> None \<and> nm_userName j (nm_merge m other) \<noteq> None"
    if "resolve m q = Some i" "resolve other q = Some j"
    using merge_collision_fold [OF dis that(2,1), of other ?left]
    by (auto simp: nm_userName_def names map_add_def split: option.splits)
  have res: "resolve (nm_merge m other) q =
      (case resolve other q of
         None \<Rightarrow> resolve m q
       | Some i \<Rightarrow>
           if resolve m q \<noteq> None \<or> q \<in> ambiguousNames m \<or>
              q_alias q = None \<and> (\<exists>a. resolve m (QualifiedName (Some a) (q_name q)) \<noteq> None)
           then None else Some i)"
    unfolding names(1) resolve_merge_fold [OF dis] left_bases by (cases "resolve other q") auto
  show ?thesis
    by (intro conjI impI res keep merge_userNames [OF assms(2)]) (use both in auto)
qed

text \<open>
  The join of two tables that share a column name: only the qualified names remain, and both
  columns are output under the name they share.
\<close>

theorem merge_resolution_witness:
  "resolve (nm_merge (table_scope ''a'' ''x'' ''1'') (table_scope ''b'' ''x'' ''2''))
     (QualifiedName None ''x'') = None \<and>
   nm_userName ''2'' (nm_merge (table_scope ''a'' ''x'' ''1'') (table_scope ''b'' ''x'' ''2'')) = Some ''x''"
proof -
  let ?a = "table_scope ''a'' ''x'' ''1''" and ?b = "table_scope ''b'' ''x'' ''2''"
  have r: "resolve ?a (QualifiedName None ''x'') = Some ''1''" "resolve ?b (QualifiedName None ''x'') = Some ''2''"
    "mappings ?a = [(QualifiedName None ''x'', ''1''), (QualifiedName (Some ''a'') ''x'', ''1'')]"
    "mappings ?b = [(QualifiedName None ''x'', ''2''), (QualifiedName (Some ''b'') ''x'', ''2'')]"
    by code_simp+
  have u: "userNames ?a = Map.empty" "userNames ?b = Map.empty"
    by (simp_all add: table_scope_def nm_setAlias_def nm_rebuildReverseIndex_def Let_def nm_insert_def nm_empty_def)
  have apart: "known_ids ?a \<inter> known_ids ?b = {}"
    by (auto simp: known_ids_def u r(3,4) split: if_splits)
  have "QualifiedName None ''x'' \<in> dropped_names ?a ?b" by (simp add: dropped_names_def r)
  then have "lost_names ?a ?b ''2'' \<noteq> {}" using r(2) unfolding lost_names_def by blast
  moreover have "n = ''x''" if "n \<in> lost_names ?a ?b ''2''" for n
    using that by (auto simp: lost_names_def dropped_names_def r(3,4) split: if_splits)
  ultimately show ?thesis
    using merge_resolution [OF scope_table scope_table, of "''a''" "''x''" "''1''" "''b''" "''x''"
        "''2''" "QualifiedName None ''x''" "''1''" "''2''" "''2''"] r(1,2) u apart by auto
qed

text \<open>
  C31: Setting an alias keeps every unqualified name, makes each of them reachable under the new
  alias unless that qualified name is marked ambiguous, and drops every other qualified name.
  Clearing aliases keeps exactly the unqualified names.
\<close>

theorem alias_resolution:
  assumes "scope m"
  shows "nm_lookup n (nm_setAlias a m) = nm_lookup n m \<and>
    nm_lookup_alias b n (nm_setAlias a m) =
      (if b = a \<and> QualifiedName (Some a) n \<notin> ambiguousNames m then nm_lookup n m else None) \<and>
    nm_lookup n (nm_clearAliases m) = nm_lookup n m \<and> nm_lookup_alias b n (nm_clearAliases m) = None"
  using scope_inv [OF assms]
  by (auto simp: nm_lookup_def nm_lookup_alias_def resolve_setAlias resolve_clearAliases)

theorem alias_resolution_witness:
  "nm_lookup_alias ''t'' ''x'' (nm_setAlias ''t'' (table_scope ''a'' ''x'' ''1'')) = Some ''1''"
proof -
  have "nm_lookup ''x'' (table_scope ''a'' ''x'' ''1'') = Some ''1''"
    "QualifiedName (Some ''t'') ''x'' \<notin> ambiguousNames (table_scope ''a'' ''x'' ''1'')"
    by code_simp+
  then show ?thesis
    using alias_resolution [OF scope_table [of "''a''" "''x''" "''1''"], of "''x''" "''t''" "''t''"] by simp
qed

text \<open>
  The merge is not symmetric in what it makes ambiguous. With a table \<open>c\<close> on the left and the
  join of \<open>a\<close> and \<open>b\<close> on the right, all with a column \<open>x\<close>, the unqualified \<open>x\<close> still resolves, to
  the column of \<open>c\<close>, although three columns have that name; with the sides exchanged it does not
  resolve.
\<close>

theorem merge_right_ambiguity:
  "let c = table_scope ''c'' ''x'' ''3'';
       ab = nm_merge (table_scope ''a'' ''x'' ''1'') (table_scope ''b'' ''x'' ''2'')
   in nm_lookup ''x'' (nm_merge c ab) = Some ''3'' \<and>
      nm_lookup_alias ''a'' ''x'' (nm_merge c ab) = Some ''1'' \<and>
      nm_lookup_alias ''b'' ''x'' (nm_merge c ab) = Some ''2'' \<and>
      nm_lookup ''x'' (nm_merge ab c) = None"
  by code_simp

text \<open>
  Enabling unqualified access never fails in a scope. It keeps every name that resolves, and
  additionally resolves an unqualified name when exactly one entry has that base name and the
  name is not marked ambiguous.
\<close>

theorem enable_resolution:
  assumes "scope m"
  shows "\<exists>m'. nm_enableUnqualifiedAccess m = Inr m' \<and> scope m' \<and>
    (\<forall>n. nm_lookup n m' =
       (if nm_lookup n m = None \<and> QualifiedName None n \<notin> ambiguousNames m
        then map_option snd (single_entry n m) else nm_lookup n m)) \<and>
    (\<forall>a n. nm_lookup_alias a n m' = nm_lookup_alias a n m)"
proof -
  obtain m' where m': "nm_enableUnqualifiedAccess m = Inr m'"
    "\<And>q. resolve m' q = (if resolve m q = None \<and> q_alias q = None \<and> q \<notin> ambiguousNames m
       then map_option snd (single_entry (q_name q) m) else resolve m q)"
    using resolve_enable [OF scope_inv [OF assms]] by blast
  have "scope m'" by (rule scope_enable [OF assms m'(1)])
  with m' show ?thesis by (intro exI [of _ m']) (simp add: nm_lookup_def nm_lookup_alias_def)
qed

text \<open>A scope left with the qualified names of a join.\<close>

theorem enable_resolution_witness:
  "\<exists>m'. nm_enableUnqualifiedAccess
      (nm_merge (table_scope ''a'' ''x'' ''1'') (table_scope ''b'' ''y'' ''2'')) = Inr m' \<and>
    nm_lookup ''y'' m' = Some ''2''"
proof -
  have "scope (nm_merge (table_scope ''a'' ''x'' ''1'') (table_scope ''b'' ''y'' ''2''))"
    by (intro scope_merge scope_table)
  moreover have "nm_lookup ''y'' (nm_merge (table_scope ''a'' ''x'' ''1'') (table_scope ''b'' ''y'' ''2'')) =
      Some ''2''"
    by code_simp
  ultimately show ?thesis
    using enable_resolution [of "nm_merge (table_scope ''a'' ''x'' ''1'') (table_scope ''b'' ''y'' ''2'')"]
    by (metis option.distinct(1))
qed

text \<open>
  Resetting a scope forgets every name, alias mark and output name, but not which ids were
  hidden: an id hidden before is hidden after.
\<close>

theorem reset_keeps_hidden:
  "resolve (nm_reset m) q = None \<and> reverseIndex (nm_reset m) = Map.empty \<and>
   ambiguousNames (nm_reset m) = {} \<and> nm_userName i (nm_reset m) = None \<and>
   nm_isHidden i (nm_reset (nm_markHidden i m))"
  by (simp add: nm_reset_def nm_userName_def nm_isHidden_def nm_markHidden_def)

end
