(* ===== verification/Name_Allocator.thy ===== *)
theory Name_Allocator
  imports Decimal
begin

text \<open>
  The two allocators of fresh names: \<^verbatim>\<open>logical_plan/NameAllocator\<close>, which names the columns of a
  logical plan, and \<open>QueryGraphContext::newName\<close> with its reserved names, which names the
  objects of the optimizer. Both probe candidates with increasing numbers until one is unused,
  in a loop without a bound; that the loop ends is proved here from the injectivity of the
  candidates and the finiteness of the names in use.

  The counters are natural numbers; the theorems bound how far a call moves them. The sets of
  names are lists without repetition.
\<close>

section \<open>Probing\<close>

definition candidate :: "string \<Rightarrow> string \<Rightarrow> nat \<Rightarrow> string" where
  "candidate prefix sep k = prefix @ sep @ show_nat k"

lemma candidate_inject: "candidate p s i = candidate p s j \<longleftrightarrow> i = j"
  by (simp add: candidate_def show_nat_inject)

lemma candidates_finite: "finite {j. k \<le> j \<and> candidate p s j \<in> set names}"
proof -
  have "finite (candidate p s -` set names)"
    by (rule finite_vimageI) (simp_all add: inj_def candidate_inject)
  then show ?thesis by (rule finite_subset [rotated]) auto
qed

text \<open>The number of the first unused candidate from \<open>k\<close> on.\<close>

function probe :: "string \<Rightarrow> string \<Rightarrow> string list \<Rightarrow> nat \<Rightarrow> nat" where
  "probe prefix sep names k =
     (if candidate prefix sep k \<in> set names then probe prefix sep names (Suc k) else k)"
  by pat_completeness auto
termination
proof (relation "measure (\<lambda>(p, s, names, k). card {j. k \<le> j \<and> candidate p s j \<in> set names})")
  fix p s names k
  assume used: "candidate p s k \<in> set names"
  have "{j. Suc k \<le> j \<and> candidate p s j \<in> set names} \<subset> {j. k \<le> j \<and> candidate p s j \<in> set names}"
  proof
    show "{j. Suc k \<le> j \<and> candidate p s j \<in> set names} \<noteq> {j. k \<le> j \<and> candidate p s j \<in> set names}"
      using used by (metis (mono_tags, lifting) Suc_n_not_le_n le_refl mem_Collect_eq)
  qed auto
  then show "((p, s, names, Suc k), p, s, names, k)
      \<in> measure (\<lambda>(p, s, names, k). card {j. k \<le> j \<and> candidate p s j \<in> set names})"
    by (simp add: psubset_card_mono candidates_finite)
qed simp

declare probe.simps [simp del]

lemma probe_unused: "candidate p s (probe p s names k) \<notin> set names"
  by (induction p s names k rule: probe.induct) (subst probe.simps, simp)

lemma probe_range:
  "k \<le> probe p s names k \<and> (\<forall>j. k \<le> j \<and> j < probe p s names k \<longrightarrow> candidate p s j \<in> set names)"
proof (induction p s names k rule: probe.induct)
  case (1 p s names k)
  show ?case
  proof (cases "candidate p s k \<in> set names")
    case True
    then have "probe p s names k = probe p s names (Suc k)" by (subst probe.simps) simp
    then show ?thesis using 1 [OF True] True by (metis Suc_leD Suc_leI le_neq_implies_less)
  next
    case False
    then have "probe p s names k = k" by (subst probe.simps) simp
    then show ?thesis by auto
  qed
qed

text \<open>A call moves the counter past at most as many numbers as there are names in use.\<close>

lemma probe_bound: "probe p s names k \<le> k + card (set names)"
proof -
  have "candidate p s ` {k..<probe p s names k} \<subseteq> set names" using probe_range by auto
  then have "card (candidate p s ` {k..<probe p s names k}) \<le> card (set names)"
    by (intro card_mono) auto
  moreover have "card (candidate p s ` {k..<probe p s names k}) = probe p s names k - k"
    by (subst card_image) (auto simp: inj_on_def candidate_inject)
  ultimately show ?thesis by linarith
qed

section \<open>Names of a logical plan\<close>

record name_allocator =
  na_names :: "string list"
  na_nextId :: nat

definition na_empty :: name_allocator where
  "na_empty = \<lparr>na_names = [], na_nextId = 0\<rparr>"

datatype allocator_error = EmptyHint

text \<open>Removal of a trailing \<open>_<digits>\<close>; a name that is only such a suffix becomes \<open>expr\<close>.\<close>

definition strip_suffix :: "string \<Rightarrow> string" where
  "strip_suffix hint =
     (let suffix = rev (takeWhile (\<lambda>c. c \<noteq> CHR ''_'') (rev hint));
          prefix = (if length suffix < length hint \<and> suffix \<noteq> [] \<and> list_all isdigit suffix
            then take (length hint - length suffix - 1) hint else hint)
      in if prefix = [] then ''expr'' else prefix)"

definition na_newName :: "string \<Rightarrow> name_allocator \<Rightarrow> allocator_error + string \<times> name_allocator" where
  "na_newName hint a =
     check (hint \<noteq> []) EmptyHint
       (let prefix = strip_suffix hint in
        if prefix \<notin> set (na_names a) then Inr (prefix, a\<lparr>na_names := prefix # na_names a\<rparr>)
        else
          (let k = probe prefix ''_'' (na_names a) (na_nextId a);
               name = candidate prefix ''_'' k
           in Inr (name, a\<lparr>na_names := name # na_names a, na_nextId := Suc k\<rparr>)))"

definition na_reset :: "name_allocator \<Rightarrow> name_allocator" where
  "na_reset a = a\<lparr>na_names := [], na_nextId := 0\<rparr>"

fun na_run :: "string list \<Rightarrow> name_allocator \<Rightarrow> allocator_error + string list \<times> name_allocator" where
  "na_run [] a = Inr ([], a)"
| "na_run (h # hs) a =
     bind_res (na_newName h a) (\<lambda>(n, a'). bind_res (na_run hs a') (\<lambda>(ns, a''). Inr (n # ns, a'')))"

section \<open>Names of the optimizer\<close>

record name_context =
  nc_reserved :: "string list"
  nc_counter :: nat

definition reserveNames :: "string list \<Rightarrow> name_context \<Rightarrow> name_context" where
  "reserveNames names c = c\<lparr>nc_reserved := fold List.insert names (nc_reserved c)\<rparr>"

definition qgc_newName :: "string \<Rightarrow> name_context \<Rightarrow> string \<times> name_context" where
  "qgc_newName prefix c =
     (let k = probe prefix [] (nc_reserved c) (Suc (nc_counter c));
          name = candidate prefix [] k
      in (name, c\<lparr>nc_reserved := name # nc_reserved c, nc_counter := k\<rparr>))"

section \<open>Properties\<close>

lemma strip_suffix_nonempty: "strip_suffix hint \<noteq> []"
  by (simp add: strip_suffix_def Let_def)

lemma na_newName_result:
  "hint \<noteq> [] \<Longrightarrow> \<exists>name a'. na_newName hint a = Inr (name, a') \<and> name \<notin> set (na_names a) \<and>
     name \<noteq> [] \<and> na_names a' = name # na_names a \<and> na_nextId a \<le> na_nextId a' \<and>
     na_nextId a' \<le> Suc (na_nextId a + card (set (na_names a)))"
  using probe_unused [of "strip_suffix hint" "''_''" "na_names a" "na_nextId a"]
    probe_range [of "na_nextId a" "strip_suffix hint" "''_''" "na_names a"]
    probe_bound [of "strip_suffix hint" "''_''" "na_names a" "na_nextId a"]
    strip_suffix_nonempty [of hint]
  by (auto simp: na_newName_def Let_def candidate_def [of "strip_suffix hint" "''_''"])

text \<open>
  C32: A plan name allocator always returns. For a non-empty hint the name is new and not empty, it
  is recorded, and the counter moves past at most as many numbers as there are names; an empty
  hint is the only error. Over any list of hints all names handed out are distinct from each
  other and from those in use before.
\<close>

theorem plan_names_fresh:
  assumes "[] \<notin> set hints"
  shows "\<exists>names a'. na_run hints a = Inr (names, a') \<and> distinct names \<and> [] \<notin> set names \<and>
    length names = length hints \<and> set names \<inter> set (na_names a) = {} \<and>
    set (na_names a') = set names \<union> set (na_names a) \<and>
    na_nextId a' \<le> na_nextId a + length hints * Suc (card (set (na_names a)) + length hints)"
  using assms
proof (induction hints arbitrary: a)
  case (Cons h hs)
  then obtain n a1 where n: "na_newName h a = Inr (n, a1)" "n \<notin> set (na_names a)" "n \<noteq> []"
    "na_names a1 = n # na_names a" "na_nextId a1 \<le> Suc (na_nextId a + card (set (na_names a)))"
    using na_newName_result [of h a] by auto
  from Cons obtain ns a' where ns: "na_run hs a1 = Inr (ns, a')" "distinct ns" "[] \<notin> set ns"
    "length ns = length hs" "set ns \<inter> set (na_names a1) = {}"
    "set (na_names a') = set ns \<union> set (na_names a1)"
    "na_nextId a' \<le> na_nextId a1 + length hs * Suc (card (set (na_names a1)) + length hs)"
    by (metis list.set_intros(2))
  have "card (set (na_names a1)) = Suc (card (set (na_names a)))" using n(2,4) by simp
  then have "na_nextId a' \<le> na_nextId a + length (h # hs) * Suc (card (set (na_names a)) + length (h # hs))"
    using n(5) ns(7) by simp
  then show ?case using n ns by (intro exI [of _ "n # ns"] exI [of _ a']) auto
qed simp

text \<open>From an empty allocator, with hints that repeat and hints that look like allocated names.\<close>

theorem plan_names_fresh_witness:
  "\<exists>names a'. na_run [''a'', ''a'', ''a_0'', ''_5''] na_empty = Inr (names, a') \<and> distinct names"
proof -
  have "[] \<notin> set [''a'', ''a'', ''a_0'', ''_5'']" by simp
  from plan_names_fresh [OF this, of na_empty] show ?thesis by blast
qed

text \<open>
  A hint that ends in a numeric suffix is never returned as it is, even when it is unused: on a
  new allocator the hint \<open>a_0\<close> yields \<open>a\<close>, the hint \<open>_5\<close> yields \<open>expr\<close>, and the documented sequence
  of hints yields the documented names.
\<close>

theorem plan_name_suffix:
  "map_sum (\<lambda>e. e) fst (na_newName ''a_0'' na_empty) = Inr ''a'' \<and>
   map_sum (\<lambda>e. e) fst (na_newName ''_5'' na_empty) = Inr ''expr'' \<and>
   map_sum (\<lambda>e. e) fst (na_run [''a'', ''a'', ''a'', ''a_0''] na_empty) =
     Inr [''a'', ''a_0'', ''a_1'', ''a_2'']"
  by code_simp

text \<open>
  An optimizer name is new: it is neither reserved nor handed out before, it is recorded as
  reserved, no reserved name is lost, and the counter advances by at least one and at most one
  more than the number of reserved names.
\<close>

theorem optimizer_names_fresh:
  "fst (qgc_newName prefix c) \<notin> set (nc_reserved c) \<and>
   set (nc_reserved (snd (qgc_newName prefix c))) =
     insert (fst (qgc_newName prefix c)) (set (nc_reserved c)) \<and>
   nc_counter c < nc_counter (snd (qgc_newName prefix c)) \<and>
   nc_counter (snd (qgc_newName prefix c)) \<le> Suc (nc_counter c + card (set (nc_reserved c))) \<and>
   set (nc_reserved (reserveNames ns c)) = set ns \<union> set (nc_reserved c)"
proof -
  have "set (fold List.insert ns xs) = set ns \<union> set xs" for ns xs :: "string list"
    by (induction ns arbitrary: xs) auto
  then show ?thesis
    using probe_unused [of prefix "[]" "nc_reserved c" "Suc (nc_counter c)"]
      probe_range [of "Suc (nc_counter c)" prefix "[]" "nc_reserved c"]
      probe_bound [of prefix "[]" "nc_reserved c" "Suc (nc_counter c)"]
    by (simp add: qgc_newName_def Let_def reserveNames_def)
qed

end
