(* ===== verification/Join_Hypergraph.thy ===== *)
theory Join_Hypergraph
  imports Complex_Main Relation_Set
begin

text \<open>
  The join hypergraph of a cluster (\<^verbatim>\<open>optimizer/v2/JoinEdge.h\<close>, \<^verbatim>\<open>Relation.h\<close>,
  \<^verbatim>\<open>JoinHypergraph.h\<close> and \<^verbatim>\<open>JoinHypergraph.cpp\<close>): relations, hyperedges and filter conjuncts,
  the operations that build the graph, connectivity and the consistency check. Sets of
  relations are the 64-bit words of \<open>Relation_Set\<close>. The classification of edges and the check
  that a plan enforces them are in \<open>Join_Enforcement\<close>, the columns of a subplan in \<open>Join_Cover\<close>.

  A column is an object with an id, a name and the equivalence class it belongs to; two columns
  are the same object when they are equal. A set of columns is a list without repetition in the
  order of the ids, which is the order \<^verbatim>\<open>PlanObjectSet::forEach\<close> visits it in. Of the IR node
  behind a relation the graph only looks at whether it is an Unnest, at the columns of the
  input of an Unnest, and at the expressions it expands.
\<close>

section \<open>Columns and keys\<close>

record jcolumn =
  jc_id :: nat
  jc_name :: string
  jc_equivalence :: "nat option"

text \<open>A key expression is a column, or another expression with an identity and its columns.\<close>

datatype kexpr = ColumnKey jcolumn | ExprKey nat "jcolumn list"

fun asColumn :: "kexpr \<Rightarrow> jcolumn option" where
  "asColumn (ColumnKey c) = Some c"
| "asColumn (ExprKey _ _) = None"

fun key_columns :: "kexpr \<Rightarrow> jcolumn list" where
  "key_columns (ColumnKey c) = [c]"
| "key_columns (ExprKey _ cs) = cs"

definition pos_add :: "jcolumn \<Rightarrow> jcolumn list \<Rightarrow> jcolumn list" where
  "pos_add c cs = (if c \<in> set cs then cs else insort_key jc_id c cs)"

definition pos_union :: "jcolumn list \<Rightarrow> jcolumn list \<Rightarrow> jcolumn list" where
  "pos_union cs ds = fold pos_add ds cs"

definition pos_unionColumns :: "jcolumn list \<Rightarrow> kexpr list \<Rightarrow> jcolumn list" where
  "pos_unionColumns cs es = fold (\<lambda>e cs. pos_union cs (key_columns e)) es cs"

section \<open>Edges\<close>

datatype join_type =
  KInner | KLeft | KRight | KFull | KLeftSemiFilter | KLeftSemiProject | KRightSemiFilter
  | KRightSemiProject | KAnti | KRightAnti | KCountingLeftSemiFilter | KCountingAnti

record join_edge =
  leftEndpoints :: relation_set
  rightEndpoints :: relation_set
  leftEligibility :: relation_set
  rightEligibility :: relation_set
  leftKeys :: "kexpr list"
  rightKeys :: "kexpr list"
  edge_filter :: "kexpr list"
  joinType :: join_type
  nullAware :: bool
  nullAsValue :: bool
  markColumn :: "jcolumn option"
  outputColumns :: "jcolumn list"
  sourceColumns :: "jcolumn list"
  isUnnest :: bool

datatype graph_error =
  EmptySide | OverlappingSides | EndpointsNotEligible | KeyCountMismatch | OutputCountMismatch
  | NoKeys | FilterOnInnerEdge | NullFlagsOnInnerEdge
  | TooManyRelations | NullNode | NotAnUnnest | UnknownRelation | UnnestBeforeInput | NullConjunct
  | NotConnected | NoUnnestEdge nat | NotAnInnerEdge | EdgeNotApplied nat | EqualityNotEnforced

definition JoinEdge ::
  "relation_set \<Rightarrow> relation_set \<Rightarrow> relation_set \<Rightarrow> relation_set \<Rightarrow> kexpr list \<Rightarrow> kexpr list \<Rightarrow>
   kexpr list \<Rightarrow> join_type \<Rightarrow> bool \<Rightarrow> bool \<Rightarrow> jcolumn option \<Rightarrow> jcolumn list \<Rightarrow> jcolumn list \<Rightarrow>
   graph_error + join_edge" where
  "JoinEdge le re leg reg lk rk fl jt na nv mark outs srcs =
     check (\<not> rs_empty le) EmptySide
     (check (\<not> rs_empty re) EmptySide
     (check (\<not> rs_hasIntersection le re) OverlappingSides
     (check (\<not> rs_empty leg) EmptySide
     (check (\<not> rs_empty reg) EmptySide
     (check (\<not> rs_hasIntersection leg reg) OverlappingSides
     (check (rs_isSubset le leg) EndpointsNotEligible
     (check (rs_isSubset re reg) EndpointsNotEligible
     (check (length lk = length rk) KeyCountMismatch
     (check (length outs = length srcs) OutputCountMismatch
     (check (lk \<noteq> []) NoKeys
     (check (fl = [] \<or> jt \<noteq> KInner) FilterOnInnerEdge
     (check (\<not> na \<and> \<not> nv \<or> jt \<noteq> KInner) NullFlagsOnInnerEdge
       (Inr \<lparr>leftEndpoints = le, rightEndpoints = re, leftEligibility = leg, rightEligibility = reg,
         leftKeys = lk, rightKeys = rk, edge_filter = fl, joinType = jt, nullAware = na,
         nullAsValue = nv, markColumn = mark, outputColumns = outs, sourceColumns = srcs,
         isUnnest = False\<rparr>)))))))))))))"

definition unnest_edge :: "relation_set \<Rightarrow> relation_set \<Rightarrow> graph_error + join_edge" where
  "unnest_edge l r =
     check (\<not> rs_empty l) EmptySide
     (check (\<not> rs_empty r) EmptySide
     (check (\<not> rs_hasIntersection l r) OverlappingSides
       (Inr \<lparr>leftEndpoints = l, rightEndpoints = r, leftEligibility = l, rightEligibility = r,
         leftKeys = [], rightKeys = [], edge_filter = [], joinType = KInner, nullAware = False,
         nullAsValue = False, markColumn = None, outputColumns = [], sourceColumns = [],
         isUnnest = True\<rparr>)))"

definition totalEligibility :: "join_edge \<Rightarrow> relation_set" where
  "totalEligibility e = RelationSet (bits (leftEligibility e) OR bits (rightEligibility e))"

definition provesKeyEquality :: "join_type \<Rightarrow> bool" where
  "provesKeyEquality jt \<longleftrightarrow> jt = KInner \<or> jt = KCountingLeftSemiFilter"

section \<open>The graph\<close>

datatype node =
  is_UnnestNode: UnnestNode (inputColumns: "jcolumn list") (unnestExpressions: "kexpr list")
  | OtherNode nat

record relation =
  rel_id :: nat
  rel_node :: node
  rel_cardinality :: "rat option"
  rel_columns :: "jcolumn list"

definition Relation :: "nat \<Rightarrow> node option \<Rightarrow> rat option \<Rightarrow> jcolumn list \<Rightarrow> graph_error + relation" where
  "Relation i node cardinality columns =
     check (i < kMaxRelations) TooManyRelations
       (case node of
          None \<Rightarrow> Inl NullNode
        | Some n \<Rightarrow> Inr \<lparr>rel_id = i, rel_node = n, rel_cardinality = cardinality, rel_columns = columns\<rparr>)"

record filter_conjunct =
  fc_expr :: "kexpr option"
  fc_relations :: relation_set

record hypergraph =
  relations :: "relation list"
  edges :: "join_edge list"
  filterConjuncts :: "filter_conjunct list"
  relationIds :: relation_set
  unnestRelationIds :: relation_set
  expandedRelationIds :: relation_set
  targetColumns :: "jcolumn list"
  coverOutputColumnsCache :: "relation_set \<rightharpoonup> jcolumn list"

definition empty_graph :: hypergraph where
  "empty_graph = \<lparr>relations = [], edges = [], filterConjuncts = [], relationIds = rs_empty_set,
     unnestRelationIds = rs_empty_set, expandedRelationIds = rs_empty_set, targetColumns = [],
     coverOutputColumnsCache = Map.empty\<rparr>"

definition invalidateCoverCaches :: "hypergraph \<Rightarrow> hypergraph" where
  "invalidateCoverCaches h = h\<lparr>coverOutputColumnsCache := Map.empty\<rparr>"

definition addRelation ::
  "node option \<Rightarrow> rat option \<Rightarrow> jcolumn list \<Rightarrow> hypergraph \<Rightarrow> graph_error + nat \<times> hypergraph" where
  "addRelation node cardinality columns h =
     check (length (relations h) < kMaxRelations) TooManyRelations
       (let i = length (relations h) in
        bind_res (Relation i node cardinality columns)
          (\<lambda>r. Inr (i, invalidateCoverCaches
             (h\<lparr>relations := relations h @ [r], relationIds := rs_add (relationIds h) i\<rparr>))))"

definition setTargetColumns :: "jcolumn list \<Rightarrow> hypergraph \<Rightarrow> hypergraph" where
  "setTargetColumns cs h = invalidateCoverCaches (h\<lparr>targetColumns := cs\<rparr>)"

definition addUnnestRelation ::
  "node option \<Rightarrow> rat option \<Rightarrow> jcolumn list \<Rightarrow> hypergraph \<Rightarrow> graph_error + nat \<times> hypergraph" where
  "addUnnestRelation node cardinality columns h =
     (case node of
        None \<Rightarrow> Inl NullNode
      | Some (OtherNode _) \<Rightarrow> Inl NotAnUnnest
      | Some (UnnestNode _ _) \<Rightarrow>
          bind_res (addRelation node cardinality columns h)
            (\<lambda>(i, h). Inr (i, h\<lparr>unnestRelationIds := rs_add (unnestRelationIds h) i\<rparr>)))"

definition addFilterConjunct :: "filter_conjunct \<Rightarrow> hypergraph \<Rightarrow> graph_error + hypergraph" where
  "addFilterConjunct c h =
     check (fc_expr c \<noteq> None) NullConjunct
     (check (rs_isSubset (fc_relations c) (relationIds h)) UnknownRelation
       (Inr (invalidateCoverCaches (h\<lparr>filterConjuncts := filterConjuncts h @ [c]\<rparr>))))"

definition addEdge :: "join_edge \<Rightarrow> hypergraph \<Rightarrow> graph_error + hypergraph" where
  "addEdge e h =
     check (rs_isSubset (totalEligibility e) (relationIds h)) UnknownRelation
       (bind_res
         (if isUnnest e
          then check (rs_min (leftEndpoints e) < rs_min (rightEndpoints e)) UnnestBeforeInput
            (Inr (h\<lparr>expandedRelationIds := rs_unionSet (expandedRelationIds h) (rightEndpoints e)\<rparr>))
          else Inr h)
         (\<lambda>h. Inr (invalidateCoverCaches (h\<lparr>edges := edges h @ [e]\<rparr>))))"

section \<open>Connectivity\<close>

definition component_step ::
  "relation_set \<Rightarrow> join_edge \<Rightarrow> relation_set \<times> bool \<Rightarrow> relation_set \<times> bool" where
  "component_step bound e s =
     (case s of (reached, changed) \<Rightarrow>
        let tes = totalEligibility e in
        if \<not> rs_isSubset tes bound then (reached, changed)
        else if rs_hasIntersection tes reached \<and> \<not> rs_isSubset tes reached
        then (rs_unionSet reached tes, True)
        else (reached, changed))"

lemma component_step_grows:
  "ids (fst s) \<subseteq> ids (fst (component_step bound e s)) \<and>
   (snd (component_step bound e s) \<longrightarrow> snd s \<or> ids (fst s) \<subset> ids (fst (component_step bound e s)))"
  by (auto simp: component_step_def Let_def set_abs split: prod.splits)

lemma component_pass_grows:
  "ids (fst s) \<subseteq> ids (fst (fold (component_step bound) es s)) \<and>
   (snd (fold (component_step bound) es s) \<longrightarrow>
      snd s \<or> ids (fst s) \<subset> ids (fst (fold (component_step bound) es s)))"
proof (induction es arbitrary: s)
  case (Cons e es)
  show ?case
    using Cons [of "component_step bound e s"] component_step_grows [of s bound e] by (simp, blast)
qed simp

function component_loop :: "join_edge list \<Rightarrow> relation_set \<Rightarrow> relation_set \<Rightarrow> relation_set" where
  "component_loop es bound reached =
     (let s = fold (component_step bound) es (reached, False)
      in if snd s then component_loop es bound (fst s) else fst s)"
  by pat_completeness auto
termination
proof (relation "measure (\<lambda>(es, bound, reached). 64 - rs_size reached)")
  fix es bound reached s
  assume s: "s = fold (component_step bound) es (reached, False)" and "snd s"
  then have "ids reached \<subset> ids (fst s)" using component_pass_grows [of "(reached, False)"] by auto
  then have "card (ids reached) < card (ids (fst s))"
    by (rule psubset_card_mono [OF rset.finite_\<alpha>])
  moreover have "card (ids (fst s)) \<le> 64"
    using card_mono [of "{..<64}" "ids (fst s)"] by (auto simp: ids_def dest: bit_u64_less)
  ultimately show "((es, bound, fst s), es, bound, reached) \<in> measure (\<lambda>(es, bound, reached). 64 - rs_size reached)"
    by (simp add: set_abs)
qed simp

declare component_loop.simps [simp del]

definition connectedComponent :: "hypergraph \<Rightarrow> relation_set \<Rightarrow> relation_set \<Rightarrow> relation_set" where
  "connectedComponent h seed bound = component_loop (edges h) bound seed"

definition unnest_has_edge :: "hypergraph \<Rightarrow> nat \<Rightarrow> bool" where
  "unnest_has_edge h i \<longleftrightarrow>
     inputColumns (rel_node (relations h ! i)) = [] \<or>
     list_ex (\<lambda>e. isUnnest e \<and> rs_contains (rightEndpoints e) i) (edges h)"

definition checkConsistency :: "hypergraph \<Rightarrow> graph_error + unit" where
  "checkConsistency h =
     (if relations h = [] then Inr ()
      else
        check (rs_size (connectedComponent h (singleton 0) (relationIds h)) = length (relations h))
          NotConnected
          (rs_forEach
            (\<lambda>i r. bind_res r (\<lambda>_. check (unnest_has_edge h i) (NoUnnestEdge i) (Inr ())))
            (unnestRelationIds h) (Inr ())))"

section \<open>Well-formed graphs\<close>

definition edge_ok :: "join_edge \<Rightarrow> bool" where
  "edge_ok e \<longleftrightarrow>
     ids (leftEndpoints e) \<noteq> {} \<and> ids (rightEndpoints e) \<noteq> {} \<and>
     ids (leftEndpoints e) \<subseteq> ids (leftEligibility e) \<and>
     ids (rightEndpoints e) \<subseteq> ids (rightEligibility e) \<and>
     ids (leftEligibility e) \<inter> ids (rightEligibility e) = {} \<and>
     length (leftKeys e) = length (rightKeys e) \<and>
     length (outputColumns e) = length (sourceColumns e) \<and>
     (if isUnnest e then leftKeys e = [] \<and> edge_filter e = [] \<and> joinType e = KInner
      else leftKeys e \<noteq> []) \<and>
     (joinType e = KInner \<longrightarrow> edge_filter e = [] \<and> \<not> nullAware e \<and> \<not> nullAsValue e)"

definition edge_in :: "nat set \<Rightarrow> join_edge \<Rightarrow> bool" where
  "edge_in R e \<longleftrightarrow> edge_ok e \<and> ids (totalEligibility e) \<subseteq> R \<and>
     (isUnnest e \<longrightarrow> Min (ids (leftEndpoints e)) < Min (ids (rightEndpoints e)))"

definition conjunct_in :: "nat set \<Rightarrow> filter_conjunct \<Rightarrow> bool" where
  "conjunct_in R c \<longleftrightarrow> fc_expr c \<noteq> None \<and> ids (fc_relations c) \<subseteq> R"

definition graph_ok :: "hypergraph \<Rightarrow> bool" where
  "graph_ok h \<longleftrightarrow>
     length (relations h) \<le> kMaxRelations \<and>
     (\<forall>i<length (relations h). rel_id (relations h ! i) = i) \<and>
     ids (relationIds h) = {..<length (relations h)} \<and>
     ids (unnestRelationIds h) \<subseteq> ids (relationIds h) \<and>
     (\<forall>i\<in>ids (unnestRelationIds h). is_UnnestNode (rel_node (relations h ! i))) \<and>
     ids (expandedRelationIds h) =
       (\<Union>e\<in>{e \<in> set (edges h). isUnnest e}. ids (rightEndpoints e)) \<and>
     (\<forall>e\<in>set (edges h). edge_in (ids (relationIds h)) e) \<and>
     (\<forall>c\<in>set (filterConjuncts h). conjunct_in (ids (relationIds h)) c)"

text \<open>The successful operations of a builder, and the graphs it can construct.\<close>

inductive build_step :: "hypergraph \<Rightarrow> hypergraph \<Rightarrow> bool" where
  build_relation: "addRelation n c cs h = Inr (i, h') \<Longrightarrow> build_step h h'"
| build_unnest: "addUnnestRelation n c cs h = Inr (i, h') \<Longrightarrow> build_step h h'"
| build_edge: "JoinEdge le re leg reg lk rk fl jt na nv mark outs srcs = Inr e \<Longrightarrow>
    addEdge e h = Inr h' \<Longrightarrow> build_step h h'"
| build_unnest_edge: "unnest_edge l r = Inr e \<Longrightarrow> addEdge e h = Inr h' \<Longrightarrow> build_step h h'"
| build_conjunct: "addFilterConjunct c h = Inr h' \<Longrightarrow> build_step h h'"
| build_target: "build_step h (setTargetColumns cs h)"

inductive built_graph :: "hypergraph \<Rightarrow> bool" where
  built_empty: "built_graph empty_graph"
| built_step: "built_graph h \<Longrightarrow> build_step h h' \<Longrightarrow> built_graph h'"

lemma ids_totalEligibility [set_abs]:
  "ids (totalEligibility e) = ids (leftEligibility e) \<union> ids (rightEligibility e)"
  by (simp add: totalEligibility_def ids_def bit_or_iff Collect_disj_eq)

lemma JoinEdge_ok: "JoinEdge le re leg reg lk rk fl jt na nv mark outs srcs = Inr e \<Longrightarrow> edge_ok e"
  by (auto simp: JoinEdge_def edge_ok_def set_abs)

lemma unnest_edge_ok: "unnest_edge l r = Inr e \<Longrightarrow> edge_ok e"
  by (auto simp: unnest_edge_def edge_ok_def set_abs)

lemma edge_in_mono: "edge_in R e \<Longrightarrow> R \<subseteq> S \<Longrightarrow> edge_in S e"
  by (auto simp: edge_in_def)

lemma conjunct_in_mono: "conjunct_in R c \<Longrightarrow> R \<subseteq> S \<Longrightarrow> conjunct_in S c"
  by (auto simp: conjunct_in_def)

lemma addRelation_result:
  assumes "addRelation n c cs h = Inr (i, h')"
  obtains node where "n = Some node" "i = length (relations h)" "i < 64"
    "h' = h\<lparr>relations := relations h @
        [\<lparr>rel_id = i, rel_node = node, rel_cardinality = c, rel_columns = cs\<rparr>],
      relationIds := rs_add (relationIds h) i, coverOutputColumnsCache := Map.empty\<rparr>"
  using assms
  by (auto simp: addRelation_def Relation_def Let_def bind_res_Inr_iff kMaxRelations_def
      invalidateCoverCaches_def split: option.splits)

lemma graph_ok_addRelation:
  assumes "graph_ok h" and "addRelation n c cs h = Inr (i, h')"
  shows "graph_ok h'"
proof -
  from assms(2) obtain node where i: "i = length (relations h)" "i < 64"
    and h': "h' = h\<lparr>relations := relations h @
        [\<lparr>rel_id = i, rel_node = node, rel_cardinality = c, rel_columns = cs\<rparr>],
      relationIds := rs_add (relationIds h) i, coverOutputColumnsCache := Map.empty\<rparr>"
    by (rule addRelation_result)
  have ids: "ids (relationIds h') = insert i (ids (relationIds h))"
    using i(2) by (simp add: h' set_abs)
  have "ids (relationIds h') = {..<length (relations h')}"
    using assms(1) i(1) unfolding ids by (auto simp: h' graph_ok_def)
  moreover have "\<forall>e\<in>set (edges h). edge_in (ids (relationIds h')) e"
    "\<forall>c\<in>set (filterConjuncts h). conjunct_in (ids (relationIds h')) c"
    "ids (unnestRelationIds h) \<subseteq> ids (relationIds h')"
    using assms(1) unfolding graph_ok_def ids
    by (blast intro: edge_in_mono conjunct_in_mono)+
  moreover have "\<forall>j<length (relations h'). rel_id (relations h' ! j) = j"
    using assms(1) by (auto simp: h' graph_ok_def nth_append less_Suc_eq i(1))
  moreover have "\<forall>j\<in>ids (unnestRelationIds h). is_UnnestNode (rel_node (relations h' ! j))"
    using assms(1) by (fastforce simp: h' graph_ok_def nth_append i(1))
  ultimately show ?thesis
    using assms(1) i unfolding graph_ok_def by (simp add: h' kMaxRelations_def)
qed

lemma graph_ok_addUnnest:
  assumes "graph_ok h" and "addUnnestRelation n c cs h = Inr (i, h')"
  shows "graph_ok h'"
proof -
  from assms(2) obtain h1 where h1: "addRelation n c cs h = Inr (i, h1)"
    and h': "h' = h1\<lparr>unnestRelationIds := rs_add (unnestRelationIds h1) i\<rparr>"
    by (auto simp: addUnnestRelation_def bind_res_Inr_iff split: option.splits node.splits)
  have ok: "graph_ok h1" by (rule graph_ok_addRelation [OF assms(1) h1])
  have i: "i < length (relations h1)" "i < 64" using h1 by (auto elim: addRelation_result)
  have "is_UnnestNode (rel_node (relations h1 ! i))"
    using assms(2) h1
    by (auto simp: addUnnestRelation_def elim!: addRelation_result split: option.splits node.splits)
  moreover have "ids (rs_add (unnestRelationIds h1) i) \<subseteq> ids (relationIds h1)"
    using ok i by (auto simp: graph_ok_def set_abs)
  ultimately show ?thesis using ok i unfolding h' graph_ok_def by (auto simp: set_abs)
qed

lemma graph_ok_addEdge:
  assumes "graph_ok h" and "edge_ok e" and "addEdge e h = Inr h'"
  shows "graph_ok h'"
proof -
  have sides: "ids (leftEndpoints e) \<noteq> {}" "ids (rightEndpoints e) \<noteq> {}"
    using assms(2) by (auto simp: edge_ok_def)
  have e: "edge_in (ids (relationIds h)) e"
    using assms(2,3) sides
    by (auto simp: addEdge_def edge_in_def ids_isSubset ids_min bind_res_Inr_iff split: if_splits)
  have h': "h' = h\<lparr>edges := edges h @ [e], coverOutputColumnsCache := Map.empty,
      expandedRelationIds := if isUnnest e then rs_unionSet (expandedRelationIds h) (rightEndpoints e)
        else expandedRelationIds h\<rparr>"
    using assms(3)
    by (auto simp: addEdge_def bind_res_Inr_iff invalidateCoverCaches_def split: if_splits)
  show ?thesis
    using assms(1) e unfolding graph_ok_def by (auto simp: h' ids_unionSet)
qed

lemma graph_ok_addFilterConjunct:
  assumes "graph_ok h" and "addFilterConjunct c h = Inr h'"
  shows "graph_ok h'"
proof -
  have c: "conjunct_in (ids (relationIds h)) c" and
    h': "h' = h\<lparr>filterConjuncts := filterConjuncts h @ [c], coverOutputColumnsCache := Map.empty\<rparr>"
    using assms(2) by (auto simp: addFilterConjunct_def conjunct_in_def invalidateCoverCaches_def ids_isSubset)
  show ?thesis using assms(1) c unfolding graph_ok_def by (auto simp: h')
qed

lemma graph_ok_setTargetColumns: "graph_ok h \<Longrightarrow> graph_ok (setTargetColumns cs h)"
  by (auto simp: graph_ok_def setTargetColumns_def invalidateCoverCaches_def)

lemma graph_ok_empty: "graph_ok empty_graph"
  by (simp add: graph_ok_def empty_graph_def set_abs)

lemma graph_ok_step: "build_step h h' \<Longrightarrow> graph_ok h \<Longrightarrow> graph_ok h'"
  by (induction rule: build_step.induct)
    (blast intro: graph_ok_addRelation graph_ok_addUnnest graph_ok_addEdge JoinEdge_ok
      unnest_edge_ok graph_ok_addFilterConjunct graph_ok_setTargetColumns)+

lemma built_graph_ok: "built_graph h \<Longrightarrow> graph_ok h"
  by (induction rule: built_graph.induct) (auto intro: graph_ok_empty graph_ok_step)

text \<open>Every builder operation empties the memo table.\<close>

lemma addRelation_clears: "addRelation n c cs h = Inr (i, h') \<Longrightarrow> coverOutputColumnsCache h' = Map.empty"
  by (erule addRelation_result) simp

lemma addEdge_clears: "addEdge e h = Inr h' \<Longrightarrow> coverOutputColumnsCache h' = Map.empty"
  by (auto simp: addEdge_def bind_res_Inr_iff invalidateCoverCaches_def)

lemma build_step_clears: "build_step h h' \<Longrightarrow> coverOutputColumnsCache h' = Map.empty"
proof (induction rule: build_step.induct)
  case (build_unnest n c cs h i h')
  then obtain h1 where "addRelation n c cs h = Inr (i, h1)"
    "h' = h1\<lparr>unnestRelationIds := rs_add (unnestRelationIds h1) i\<rparr>"
    by (auto simp: addUnnestRelation_def bind_res_Inr_iff split: option.splits node.splits)
  then show ?case using addRelation_clears by simp
qed (auto simp: addFilterConjunct_def setTargetColumns_def invalidateCoverCaches_def
    dest: addRelation_clears addEdge_clears)

section \<open>Reachability\<close>

text \<open>The relations reachable from a set by hyperedges that stay within \<open>bound\<close>.\<close>

inductive reaches :: "join_edge list \<Rightarrow> nat set \<Rightarrow> nat set \<Rightarrow> nat \<Rightarrow> bool" for es bound S where
  reaches_seed: "i \<in> S \<Longrightarrow> reaches es bound S i"
| reaches_edge: "reaches es bound S i \<Longrightarrow> e \<in> set es \<Longrightarrow> ids (totalEligibility e) \<subseteq> bound \<Longrightarrow>
    i \<in> ids (totalEligibility e) \<Longrightarrow> j \<in> ids (totalEligibility e) \<Longrightarrow> reaches es bound S j"

lemma component_step_sound:
  assumes "e \<in> set es" and "\<forall>i\<in>ids (fst s). reaches es (ids bound) S i"
  shows "\<forall>i\<in>ids (fst (component_step bound e s)). reaches es (ids bound) S i"
proof (cases "rs_isSubset (totalEligibility e) bound \<and> rs_hasIntersection (totalEligibility e) (fst s)")
  case True
  then obtain i where i: "i \<in> ids (totalEligibility e)" "i \<in> ids (fst s)"
    and sub: "ids (totalEligibility e) \<subseteq> ids bound"
    by (auto simp: ids_isSubset ids_hasIntersection)
  have "\<forall>j\<in>ids (totalEligibility e). reaches es (ids bound) S j"
    using reaches_edge [OF _ assms(1) sub i(1)] assms(2) i(2) by blast
  then show ?thesis
    using assms(2) by (auto simp: component_step_def Let_def ids_unionSet split: prod.splits)
qed (use assms(2) in \<open>auto simp: component_step_def Let_def split: prod.splits\<close>)

lemma component_pass_sound:
  "set fs \<subseteq> set es \<Longrightarrow> \<forall>i\<in>ids (fst s). reaches es (ids bound) S i \<Longrightarrow>
   \<forall>i\<in>ids (fst (fold (component_step bound) fs s)). reaches es (ids bound) S i"
proof (induction fs arbitrary: s)
  case (Cons f fs)
  have "\<forall>i\<in>ids (fst (component_step bound f s)). reaches es (ids bound) S i"
    by (rule component_step_sound) (use Cons.prems in auto)
  from Cons.IH [OF _ this] Cons.prems(1) show ?case by simp
qed simp

text \<open>A pass that changes nothing leaves a set closed under the edges.\<close>

lemma component_pass_flag: "snd s \<Longrightarrow> snd (fold (component_step bound) es s)"
  by (induction es arbitrary: s) (auto simp: component_step_def Let_def split: prod.splits)

lemma component_pass_closed:
  "\<not> snd (fold (component_step bound) es (r, False)) \<Longrightarrow>
   fst (fold (component_step bound) es (r, False)) = r \<and>
   (\<forall>e\<in>set es. ids (totalEligibility e) \<subseteq> ids bound \<longrightarrow>
      ids (totalEligibility e) \<inter> ids r \<noteq> {} \<longrightarrow> ids (totalEligibility e) \<subseteq> ids r)"
proof (induction es)
  case (Cons e es)
  have same: "component_step bound e (r, False) = (r, False)"
  proof (rule ccontr)
    assume "component_step bound e (r, False) \<noteq> (r, False)"
    then have "snd (component_step bound e (r, False))"
      by (auto simp: component_step_def Let_def split: if_splits)
    from component_pass_flag [OF this] Cons.prems show False by simp
  qed
  have "ids (totalEligibility e) \<subseteq> ids bound \<longrightarrow> ids (totalEligibility e) \<inter> ids r \<noteq> {} \<longrightarrow>
      ids (totalEligibility e) \<subseteq> ids r"
    using same
    by (auto simp: component_step_def Let_def ids_isSubset ids_hasIntersection split: if_splits)
  then show ?case using Cons same by simp
qed simp

lemma component_loop_reaches:
  assumes "ids seed \<subseteq> ids r" and "\<forall>i\<in>ids r. reaches es (ids bound) (ids seed) i"
  shows "ids (component_loop es bound r) = {i. reaches es (ids bound) (ids seed) i}"
  using assms
proof (induction es bound r rule: component_loop.induct)
  case (1 es bound r)
  let ?s = "fold (component_step bound) es (r, False)"
  have sound: "\<forall>i\<in>ids (fst ?s). reaches es (ids bound) (ids seed) i"
    by (rule component_pass_sound) (use 1 in auto)
  show ?case
  proof (cases "snd ?s")
    case True
    have "ids seed \<subseteq> ids (fst ?s)" using component_pass_grows [of "(r, False)"] 1(2) by fastforce
    then show ?thesis using 1(1) [OF refl True _ sound] True component_loop.simps by simp
  next
    case False
    note closed = component_pass_closed [OF False]
    have "i \<in> ids r" if "reaches es (ids bound) (ids seed) i" for i
      using that
    proof (induction rule: reaches.induct)
      case (reaches_edge i e j)
      then show ?case using closed by blast
    qed (use 1(2) in blast)
    then have "ids r = {i. reaches es (ids bound) (ids seed) i}" using 1(3) by blast
    then show ?thesis using False closed component_loop.simps [of es bound r] by (simp add: Let_def)
  qed
qed

lemma connectedComponent_reaches:
  "ids (connectedComponent h seed bound) = {i. reaches (edges h) (ids bound) (ids seed) i}"
  unfolding connectedComponent_def by (rule component_loop_reaches) (auto intro: reaches_seed)

lemma reaches_within:
  "reaches es bound S i \<Longrightarrow> S \<subseteq> bound \<Longrightarrow> i \<in> bound"
  by (induction rule: reaches.induct) auto

lemma reaches_start: "reaches es bound S i \<Longrightarrow> \<exists>s\<in>S. reaches es bound {s} i"
  by (induction rule: reaches.induct) (blast intro: reaches.intros)+

lemma reaches_compose: "reaches es bound {j} i \<Longrightarrow> reaches es bound S j \<Longrightarrow> reaches es bound S i"
  by (induction rule: reaches.induct) (auto intro: reaches.intros)

lemma reaches_sym: "reaches es bound {i} j \<Longrightarrow> reaches es bound {j} i"
proof (induction rule: reaches.induct)
  case (reaches_edge j e k)
  have "reaches es bound {k} k" by (simp add: reaches_seed)
  then have "reaches es bound {k} j" using reaches_edge(2-5) by (blast intro: reaches.reaches_edge)
  then show ?case using reaches_compose reaches_edge(6) by blast
qed (auto intro: reaches_seed)

section \<open>Consistency\<close>

lemma unnest_checks:
  "fold (\<lambda>i r. bind_res r (\<lambda>_. check (P i) (f i) (Inr ()))) is r = Inr () \<longleftrightarrow>
     r = Inr () \<and> (\<forall>i\<in>set is. P i)"
  by (induction "is" arbitrary: r) (auto simp: bind_res_Inr_iff)

lemma checkConsistency_iff:
  assumes "graph_ok h" and "relations h \<noteq> []"
  shows "checkConsistency h = Inr () \<longleftrightarrow>
    (\<forall>i<length (relations h). reaches (edges h) (ids (relationIds h)) {0} i) \<and>
    (\<forall>i\<in>ids (unnestRelationIds h). unnest_has_edge h i)"
proof -
  let ?n = "length (relations h)" and ?R = "{i. reaches (edges h) (ids (relationIds h)) {0} i}"
  have R: "ids (relationIds h) = {..<?n}" using assms(1) by (simp add: graph_ok_def)
  have "?R \<subseteq> {..<?n}" using reaches_within [of "edges h" "ids (relationIds h)" "{0}"] assms(2) R by auto
  then have "card ?R = ?n \<longleftrightarrow> ?R = {..<?n}" 
    by (metis card_lessThan card_subset_eq finite_lessThan)
  also have "\<dots> \<longleftrightarrow> (\<forall>i<?n. reaches (edges h) (ids (relationIds h)) {0} i)"
    using \<open>?R \<subseteq> {..<?n}\<close> by auto
  finally have card: "card ?R = ?n \<longleftrightarrow> \<dots>" .
  have size: "rs_size (connectedComponent h (singleton 0) (relationIds h)) = card ?R"
    unfolding ids_size connectedComponent_reaches by (simp only: ids_singleton [of 0] zero_less_numeral)
  have "checkConsistency h = Inr () \<longleftrightarrow> card ?R = ?n \<and>
      (\<forall>i\<in>set (sorted_list_of_set (ids (unnestRelationIds h))). unnest_has_edge h i)"
    unfolding checkConsistency_def ids_forEach size unnest_checks if_not_P [OF assms(2)] check_Inr_iff
    by (simp only: simp_thms)
  then show ?thesis by (simp only: card set_sorted_list_of_set ids_finite)
qed

section \<open>Properties\<close>

text \<open>
  C24: The invariants the header of the class states hold of every graph a builder can construct,
  through any sequence of additions of relations, Unnest relations, edges, filter conjuncts and
  target columns that the checks let through. Relation \<open>i\<close> has id \<open>i\<close> and there are at most 64;
  the bit set of relation ids is exactly the ids in use; every edge has two disjoint, nonempty
  sides within the relations, as many left keys as right keys and, unless it is an unnest edge,
  at least one; the expanded relations are exactly the right sides of the unnest edges, and an
  unnest edge leads from a smaller id to a larger one; filter conjuncts mention known relations.
\<close>

theorem hypergraph_invariant: "built_graph h \<Longrightarrow> graph_ok h"
  by (rule built_graph_ok)

text \<open>A graph of two relations joined on one column of each.\<close>

definition two_columns :: "jcolumn \<times> jcolumn" where
  "two_columns =
     (\<lparr>jc_id = 1, jc_name = ''a'', jc_equivalence = Some 0\<rparr>,
      \<lparr>jc_id = 2, jc_name = ''b'', jc_equivalence = Some 0\<rparr>)"

definition two_way_edge :: join_edge where
  "two_way_edge = \<lparr>leftEndpoints = RelationSet 1, rightEndpoints = RelationSet 2,
     leftEligibility = RelationSet 1, rightEligibility = RelationSet 2,
     leftKeys = [ColumnKey (fst two_columns)], rightKeys = [ColumnKey (snd two_columns)],
     edge_filter = [], joinType = KInner, nullAware = False, nullAsValue = False,
     markColumn = None, outputColumns = [], sourceColumns = [], isUnnest = False\<rparr>"

definition two_way_join :: hypergraph where
  "two_way_join = empty_graph\<lparr>relations :=
       [\<lparr>rel_id = 0, rel_node = OtherNode 0, rel_cardinality = None, rel_columns = [fst two_columns]\<rparr>,
        \<lparr>rel_id = 1, rel_node = OtherNode 1, rel_cardinality = None, rel_columns = [snd two_columns]\<rparr>],
     edges := [two_way_edge], relationIds := RelationSet 3\<rparr>"

lemma two_way_edge_sides [simp]:
  "totalEligibility two_way_edge = RelationSet 3" "joinType two_way_edge = KInner"
  "isUnnest two_way_edge = False" "leftKeys two_way_edge = [ColumnKey (fst two_columns)]"
  "rightKeys two_way_edge = [ColumnKey (snd two_columns)]" "outputColumns two_way_edge = []"
  by (simp_all add: totalEligibility_def two_way_edge_def)

lemma two_way_join_sides [simp]: "edges two_way_join = [two_way_edge]" "relationIds two_way_join = RelationSet 3"
  "unnestRelationIds two_way_join = RelationSet 0" "length (relations two_way_join) = 2"
  by (simp_all add: two_way_join_def empty_graph_def rs_empty_set_def)

lemma built_two_way_join: "built_graph two_way_join"
proof -
  let ?r0 = "\<lparr>rel_id = 0, rel_node = OtherNode 0, rel_cardinality = None, rel_columns = [fst two_columns]\<rparr>"
  let ?r1 = "\<lparr>rel_id = 1, rel_node = OtherNode 1, rel_cardinality = None, rel_columns = [snd two_columns]\<rparr>"
  let ?h1 = "empty_graph\<lparr>relations := [?r0], relationIds := RelationSet 1\<rparr>"
  let ?h2 = "empty_graph\<lparr>relations := [?r0, ?r1], relationIds := RelationSet 3\<rparr>"
  have "addRelation (Some (OtherNode 0)) None [fst two_columns] empty_graph = Inr (0, ?h1)"
    by (simp add: addRelation_def Relation_def kMaxRelations_def empty_graph_def Let_def
        invalidateCoverCaches_def rs_add_def rs_empty_set_def mask_of_def)
  then have 1: "built_graph ?h1" by (intro built_step [OF built_empty] build_relation)
  have "addRelation (Some (OtherNode 1)) None [snd two_columns] ?h1 = Inr (1, ?h2)"
    by (simp add: addRelation_def Relation_def kMaxRelations_def empty_graph_def Let_def
        invalidateCoverCaches_def rs_add_def rs_empty_set_def mask_of_def)
  then have 2: "built_graph ?h2" by (intro built_step [OF 1] build_relation)
  have e: "JoinEdge (RelationSet 1) (RelationSet 2) (RelationSet 1) (RelationSet 2)
      [ColumnKey (fst two_columns)] [ColumnKey (snd two_columns)] [] KInner False False None [] [] =
      Inr two_way_edge"
    by (simp add: JoinEdge_def two_way_edge_def rs_empty_def rs_hasIntersection_def rs_isSubset_def)
  have "addEdge two_way_edge ?h2 = Inr two_way_join"
    by (simp add: addEdge_def two_way_join_def invalidateCoverCaches_def empty_graph_def rs_isSubset_def)
  then show ?thesis by (intro built_step [OF 2] build_edge [OF e])
qed

lemma ids_small [simp]: "ids (RelationSet 0) = {}" "ids (RelationSet 1) = {0}"
  "ids (RelationSet 2) = {1}" "ids (RelationSet 3) = {0, 1}"
proof -
  show "ids (RelationSet 0) = {}" and 1: "ids (RelationSet 1) = {0}" and 2: "ids (RelationSet 2) = {1}"
    by (auto simp: ids_def bit_1_iff bit_2_iff)
  have "RelationSet 3 = rs_unionSet (RelationSet 1) (RelationSet 2)" by (simp add: rs_unionSet_def)
  then show "ids (RelationSet 3) = {0, 1}" by (simp only: ids_unionSet 1 2 insert_is_Un [symmetric])
qed

theorem hypergraph_invariant_witness: "graph_ok two_way_join \<and> edges two_way_join \<noteq> []"
  using hypergraph_invariant [OF built_two_way_join] by simp

text \<open>
  C34: The connected component is exactly the set of relations reachable from the seed through
  hyperedges that lie within the bound, on every graph; the loop that computes it ends. Started
  from single relations it is symmetric, so the components partition the relations.
\<close>

theorem connected_component_exact:
  "ids (connectedComponent h seed bound) = {i. reaches (edges h) (ids bound) (ids seed) i} \<and>
   (j \<in> {k. reaches (edges h) (ids bound) {i} k} \<longleftrightarrow> i \<in> {k. reaches (edges h) (ids bound) {j} k})"
  using connectedComponent_reaches reaches_sym by auto

text \<open>
  C35: The consistency check decides what plan enumeration needs. On a graph a builder made that
  has a relation, it passes exactly when every relation is reachable from relation 0 and every
  Unnest relation whose input has columns is the right side of an unnest edge; a graph without
  relations always passes.
\<close>

theorem consistency_decides:
  assumes "built_graph h"
  shows "checkConsistency h = Inr () \<longleftrightarrow> relations h = [] \<or>
    (\<forall>i<length (relations h). reaches (edges h) {..<length (relations h)} {0} i) \<and>
    (\<forall>i\<in>ids (unnestRelationIds h). inputColumns (rel_node (relations h ! i)) = [] \<or>
       (\<exists>e\<in>set (edges h). isUnnest e \<and> i \<in> ids (rightEndpoints e)))"
proof (cases "relations h = []")
  case True
  then show ?thesis by (simp add: checkConsistency_def)
next
  case False
  have ok: "graph_ok h" using assms by (rule built_graph_ok)
  then have "ids (relationIds h) = {..<length (relations h)}" by (simp add: graph_ok_def)
  with checkConsistency_iff [OF ok False] False show ?thesis
    by (simp only: unnest_has_edge_def list_ex_iff ids_contains simp_thms)
qed

theorem consistency_decides_witness: "checkConsistency two_way_join = Inr ()"
proof -
  have "reaches [two_way_edge] {..<2} {0} i" if "i < 2" for i
    by (rule reaches_edge [of _ _ _ 0 two_way_edge]) (use that in \<open>auto intro: reaches_seed\<close>)
  then show ?thesis using consistency_decides [OF built_two_way_join] by simp
qed

end
