(* ===== verification/Equivalence_Closure.thy ===== *)
theory Equivalence_Closure
  imports Prelude
begin

text \<open>
  The transitive closure of equalities the join hypergraph keeps
  (\<open>EquivalenceClosure\<close> in \<^verbatim>\<open>optimizer/v2/JoinHypergraph.cpp\<close>): a union-find forest with path
  compression, where a merge can choose the better of the two representatives. The two loops
  of \<open>find\<close> follow parent pointers and end only when these form a forest, so they are partial
  functions; that they return is proved from the invariant \<open>uf_ok\<close>. The locale
  \<open>representatives\<close> states what clients rely on, and the closure theorem is proved in it.
\<close>

section \<open>The class\<close>

type_synonym 'a parents = "'a \<rightharpoonup> 'a"

definition uf_add :: "'a \<Rightarrow> 'a parents \<Rightarrow> 'a parents" where
  "uf_add x p = (case p x of None \<Rightarrow> p(x \<mapsto> x) | Some _ \<Rightarrow> p)"

text \<open>The first loop of \<open>find\<close>.\<close>

partial_function (option) chase :: "'a parents \<Rightarrow> 'a \<Rightarrow> 'a option" where
  "chase p root =
     (case p root of None \<Rightarrow> None | Some up \<Rightarrow> if up = root then Some root else chase p up)"

text \<open>The second loop, which points every node of the path at the root.\<close>

partial_function (option) compress :: "'a \<Rightarrow> 'a parents \<Rightarrow> 'a \<Rightarrow> 'a parents option" where
  "compress root p x =
     (if x = root then Some p
      else case p x of None \<Rightarrow> None | Some next \<Rightarrow> compress root (p(x \<mapsto> root)) next)"

definition uf_find :: "'a \<Rightarrow> 'a parents \<Rightarrow> ('a \<times> 'a parents) option" where
  "uf_find x p =
     (let p = uf_add x p in
      case chase p x of
        None \<Rightarrow> None
      | Some root \<Rightarrow> (case compress root p x of None \<Rightarrow> None | Some p' \<Rightarrow> Some (root, p')))"

definition uf_merge_better ::
  "('a \<Rightarrow> 'a \<Rightarrow> bool) \<Rightarrow> 'a \<Rightarrow> 'a \<Rightarrow> 'a parents \<Rightarrow> 'a parents option" where
  "uf_merge_better better left right p =
     (case uf_find left p of
        None \<Rightarrow> None
      | Some (left, p) \<Rightarrow>
          (case uf_find right p of
             None \<Rightarrow> None
           | Some (right, p) \<Rightarrow>
               if left = right then Some p
               else if better right left then Some (p(left \<mapsto> right))
               else Some (p(right \<mapsto> left))))"

definition uf_merge :: "'a \<Rightarrow> 'a \<Rightarrow> 'a parents \<Rightarrow> 'a parents option" where
  "uf_merge left right p = uf_merge_better (\<lambda>_ _. False) left right p"

text \<open>The merges of a list of pairs, in order.\<close>

fun merge_all :: "('a \<Rightarrow> 'a \<Rightarrow> 's \<Rightarrow> 's option) \<Rightarrow> ('a \<times> 'a) list \<Rightarrow> 's \<Rightarrow> 's option" where
  "merge_all merge [] s = Some s"
| "merge_all merge ((l, r) # es) s =
     (case merge l r s of None \<Rightarrow> None | Some s' \<Rightarrow> merge_all merge es s')"

section \<open>Forests\<close>

text \<open>\<open>path p x r k\<close>: the parents lead from \<open>x\<close> to the root \<open>r\<close> in \<open>k\<close> steps.\<close>

inductive path :: "'a parents \<Rightarrow> 'a \<Rightarrow> 'a \<Rightarrow> nat \<Rightarrow> bool" for p where
  path_root: "p x = Some x \<Longrightarrow> path p x x 0"
| path_step: "p x = Some y \<Longrightarrow> y \<noteq> x \<Longrightarrow> path p y r k \<Longrightarrow> path p x r (Suc k)"

inductive_cases path_ZeroE: "path p x r 0"
inductive_cases path_SucE: "path p x r (Suc k)"

definition uf_ok :: "'a parents \<Rightarrow> bool" where
  "uf_ok p \<longleftrightarrow> (\<forall>x\<in>dom p. \<exists>r k. path p x r k)"

text \<open>The representative of a value; a value that was never added represents itself.\<close>

definition root :: "'a parents \<Rightarrow> 'a \<Rightarrow> 'a" where
  "root p x = (case chase p x of Some r \<Rightarrow> r | None \<Rightarrow> x)"

lemma path_chase: "path p x r k \<Longrightarrow> chase p x = Some r"
  by (induction rule: path.induct) (simp_all add: chase.simps)

lemma path_unique: "path p x r k \<Longrightarrow> path p x s l \<Longrightarrow> r = s"
  by (metis option.inject path_chase)

lemma path_end: "path p x r k \<Longrightarrow> p r = Some r"
  by (induction rule: path.induct)

lemma path_start: "path p x r k \<Longrightarrow> x \<in> dom p"
  by (induction rule: path.induct) auto

lemma path_root_eq: "path p x r k \<Longrightarrow> root p x = r"
  by (simp add: root_def path_chase)

lemma root_undefined: "p x = None \<Longrightarrow> root p x = x"
  by (simp add: root_def chase.simps)

lemma uf_ok_path: "uf_ok p \<Longrightarrow> x \<in> dom p \<Longrightarrow> \<exists>k. path p x (root p x) k"
  unfolding uf_ok_def by (metis path_root_eq)

lemma uf_ok_root: "uf_ok p \<Longrightarrow> x \<in> dom p \<Longrightarrow> p (root p x) = Some (root p x)"
  using uf_ok_path path_end by fastforce

lemma root_fixed: "p x = Some x \<Longrightarrow> root p x = x"
  by (rule path_root_eq [OF path_root])

text \<open>
  Pointing a node at a root it may have keeps every path a path, of no greater length for the
  nodes above its root, so forests and representatives carry over.
\<close>

lemma path_shortcut:
  assumes v: "path p v r l" and "v \<noteq> r"
  shows "path p x s k \<Longrightarrow> \<exists>k'\<le>k. path (p(v \<mapsto> r)) x s k'"
proof (induction rule: path.induct)
  case (path_root x)
  then have "x \<noteq> v" using v assms(2) path_unique [OF v path.path_root] by metis
  then show ?case using path_root by (auto intro: path.path_root)
next
  case (path_step x y s k)
  show ?case
  proof (cases "x = v")
    case True
    have "s = r" using path_unique [OF v] path.path_step [OF path_step(1-3)] True by metis
    moreover have "path (p(v \<mapsto> r)) r r 0" using path_end [OF v] assms(2) by (simp add: path.path_root)
    ultimately have "path (p(v \<mapsto> r)) x s (Suc 0)" using True assms(2) by (auto intro: path.path_step)
    then show ?thesis by blast
  next
    case False
    from path_step(4) obtain k' where "k' \<le> k" "path (p(v \<mapsto> r)) y s k'" by blast
    then have "path (p(v \<mapsto> r)) x s (Suc k')"
      using False path_step(1,2) by (intro path.path_step [of _ x y]) simp_all
    with \<open>k' \<le> k\<close> show ?thesis by blast
  qed
qed

lemma shortcut_ok:
  assumes "uf_ok p" and "path p v r l" and "v \<noteq> r"
  shows "uf_ok (p(v \<mapsto> r))" and "root (p(v \<mapsto> r)) = root p" and "dom (p(v \<mapsto> r)) = dom p"
proof -
  show dom: "dom (p(v \<mapsto> r)) = dom p" using path_start [OF assms(2)] by auto
  have *: "\<exists>k. path (p(v \<mapsto> r)) x (root p x) k" if "x \<in> dom p" for x
    using uf_ok_path [OF assms(1) that] path_shortcut [OF assms(2,3)] by blast
  then show "uf_ok (p(v \<mapsto> r))" unfolding uf_ok_def dom by blast
  show "root (p(v \<mapsto> r)) = root p"
  proof
    fix x
    show "root (p(v \<mapsto> r)) x = root p x"
    proof (cases "x \<in> dom p")
      case True
      then show ?thesis using * path_root_eq by fastforce
    next
      case False
      then have "p x = None" "(p(v \<mapsto> r)) x = None" using dom by auto
      then show ?thesis by (simp add: root_undefined)
    qed
  qed
qed

lemma compress_ok:
  "uf_ok p \<Longrightarrow> path p x r k \<Longrightarrow>
   \<exists>p'. compress r p x = Some p' \<and> uf_ok p' \<and> root p' = root p \<and> dom p' = dom p"
proof (induction k arbitrary: p x rule: less_induct)
  case (less k)
  show ?case
  proof (cases "x = r")
    case True
    then show ?thesis using less.prems by (simp add: compress.simps)
  next
    case False
    with less.prems(2) obtain y j where y: "p x = Some y" "path p y r j" "k = Suc j"
      by (auto elim: path.cases)
    let ?p = "p(x \<mapsto> r)"
    note ok = shortcut_ok [OF less.prems False]
    obtain j' where j': "j' \<le> j" "path ?p y r j'"
      using path_shortcut [OF less.prems(2) False y(2)] by blast
    then have "j' < k" using y(3) by simp
    from less.IH [OF this ok(1) j'(2)] obtain p' where
      "compress r ?p y = Some p'" "uf_ok p'" "root p' = root ?p" "dom p' = dom ?p"
      by blast
    then show ?thesis using False y(1) ok by (subst compress.simps) simp
  qed
qed

lemma add_ok:
  assumes "uf_ok p"
  shows "uf_ok (uf_add x p)" and "root (uf_add x p) = root p" and "dom (uf_add x p) = insert x (dom p)"
proof -
  have *: "path (p(x \<mapsto> x)) y s k" if "path p y s k" "p x = None" for y s k
    using that
  proof (induction rule: path.induct)
    case (path_root y)
    then show ?case by (intro path.path_root) auto
  next
    case (path_step y z s k)
    then show ?case by (intro path.path_step [of _ y z]) auto
  qed
  show dom: "dom (uf_add x p) = insert x (dom p)"
    by (auto simp: uf_add_def split: option.splits)
  show "uf_ok (uf_add x p)"
  proof (cases "p x")
    case None
    have "path (p(x \<mapsto> x)) x x 0" by (intro path_root) simp
    then have "\<exists>r k. path (p(x \<mapsto> x)) y r k" if "y \<in> insert x (dom p)" for y
      using that * [OF _ None] assms unfolding uf_ok_def by blast
    then show ?thesis using None dom unfolding uf_ok_def by (simp add: uf_add_def)
  qed (use assms in \<open>simp add: uf_add_def\<close>)
  show "root (uf_add x p) = root p"
  proof (cases "p x")
    case None
    have "root (p(x \<mapsto> x)) y = root p y" for y
    proof (cases "y \<in> dom p")
      case True
      then obtain k where "path p y (root p y) k" using uf_ok_path [OF assms] by blast
      then show ?thesis by (rule path_root_eq [OF * [OF _ None]])
    next
      case False
      then show ?thesis by (cases "y = x") (auto simp: root_undefined root_fixed domIff)
    qed
    then show ?thesis using None by (auto simp: uf_add_def)
  qed (simp add: uf_add_def)
qed

theorem find_ok:
  assumes "uf_ok p"
  shows "\<exists>p'. uf_find x p = Some (root p x, p') \<and> uf_ok p' \<and> root p' = root p \<and> dom p' = insert x (dom p)"
proof -
  note a = add_ok [OF assms, of x]
  obtain k where k: "path (uf_add x p) x (root p x) k"
    using uf_ok_path [OF a(1), of x] a(2,3) by auto
  obtain p' where "compress (root p x) (uf_add x p) x = Some p'" "uf_ok p'"
    "root p' = root (uf_add x p)" "dom p' = dom (uf_add x p)"
    using compress_ok [OF a(1) k] by blast
  then show ?thesis using path_chase [OF k] a by (simp add: uf_find_def Let_def)
qed

text \<open>Joining two roots.\<close>

lemma link_ok:
  assumes "uf_ok p" and "p r = Some r" and "p l = Some l" and "l \<noteq> r"
  shows "uf_ok (p(r \<mapsto> l))" and "dom (p(r \<mapsto> l)) = dom p"
    and "root (p(r \<mapsto> l)) x = (if root p x = r then l else root p x)"
proof -
  show dom: "dom (p(r \<mapsto> l)) = dom p" using assms(2) by auto
  have *: "\<exists>k'. path (p(r \<mapsto> l)) y (if s = r then l else s) k'" if "path p y s k" for y s k
    using that
  proof (induction rule: path.induct)
    case (path_root y)
    have "path (p(r \<mapsto> l)) l l 0" using assms(3,4) by (simp add: path.path_root)
    then have "path (p(r \<mapsto> l)) r l (Suc 0)" using assms(4) by (intro path.path_step [of _ r l]) simp_all
    moreover have "path (p(r \<mapsto> l)) y y 0" if "y \<noteq> r" using path_root that by (intro path.path_root) simp
    ultimately show ?case by metis
  next
    case (path_step y z s k)
    have "y \<noteq> r" using path_step(1,2) assms(2) by auto
    then show ?case using path_step by (blast intro: path.path_step [of "p(r \<mapsto> l)" y z] fun_upd_other [THEN trans])
  qed
  have **: "\<exists>k. path (p(r \<mapsto> l)) y (if root p y = r then l else root p y) k" if "y \<in> dom p" for y
    using uf_ok_path [OF assms(1) that] * by blast
  then show "uf_ok (p(r \<mapsto> l))" unfolding uf_ok_def dom by blast
  show "root (p(r \<mapsto> l)) x = (if root p x = r then l else root p x)"
  proof (cases "x \<in> dom p")
    case True
    then show ?thesis using ** path_root_eq by fastforce
  next
    case False
    then have "p x = None" "(p(r \<mapsto> l)) x = None" "x \<noteq> r" using dom assms(2) by auto
    then show ?thesis by (simp add: root_undefined)
  qed
qed

lemma merge_ok:
  assumes "uf_ok p"
  shows "\<exists>p'. uf_merge_better better l r p = Some p' \<and> uf_ok p' \<and> dom p' = dom p \<union> {l, r} \<and>
    (\<forall>x. root p' x = (if root p x = root p l \<or> root p x = root p r
       then if root p l \<noteq> root p r \<and> better (root p r) (root p l) then root p r else root p l
       else root p x))"
proof -
  obtain p1 where p1: "uf_find l p = Some (root p l, p1)" "uf_ok p1" "root p1 = root p"
    "dom p1 = insert l (dom p)" using find_ok [OF assms] by blast
  obtain p2 where p2: "uf_find r p1 = Some (root p r, p2)" "uf_ok p2" "root p2 = root p"
    "dom p2 = insert r (insert l (dom p))" using find_ok [OF p1(2), of r] p1(3,4) by auto
  have roots: "p2 (root p l) = Some (root p l)" "p2 (root p r) = Some (root p r)"
    using uf_ok_root [OF p2(2)] p2(3,4) by auto
  show ?thesis
  proof (cases "root p l = root p r")
    case True
    then show ?thesis using p1 p2 by (auto simp: uf_merge_better_def)
  next
    case False
    note link = link_ok [OF p2(2) roots(2,1) False, unfolded p2(3,4)]
      link_ok [OF p2(2) roots False [symmetric], unfolded p2(3,4)]
    show ?thesis
      using False p1(1) p2(1) link by (cases "better (root p r) (root p l)") (auto simp: uf_merge_better_def)
  qed
qed

lemma merge_root:
  assumes "uf_ok p" and "uf_merge_better better l r p = Some p'"
  shows "root p' x = (if root p x = root p l \<or> root p x = root p r
       then if root p l \<noteq> root p r \<and> better (root p r) (root p l) then root p r else root p l
       else root p x)"
proof -
  obtain q where q: "uf_merge_better better l r p = Some q"
    "\<forall>x. root q x = (if root p x = root p l \<or> root p x = root p r
       then if root p l \<noteq> root p r \<and> better (root p r) (root p l) then root p r else root p l
       else root p x)"
    using merge_ok [OF assms(1)] by blast
  then have "q = p'" using assms(2) by simp
  then show ?thesis using q(2) by blast
qed

section \<open>Equivalence closure\<close>

text \<open>The least equivalence that contains a relation.\<close>

definition eqc :: "('a \<times> 'a) set \<Rightarrow> ('a \<times> 'a) set" where
  "eqc R = (R \<union> R\<inverse>)\<^sup>*"

lemma eqc_refl [simp]: "(x, x) \<in> eqc R"
  by (simp add: eqc_def)

lemma eqc_sym: "(x, y) \<in> eqc R \<Longrightarrow> (y, x) \<in> eqc R"
  unfolding eqc_def by (metis (no_types, lifting) converse_Un converse_converse rtrancl_converseD sup_commute)

lemma eqc_trans: "(x, y) \<in> eqc R \<Longrightarrow> (y, z) \<in> eqc R \<Longrightarrow> (x, z) \<in> eqc R"
  unfolding eqc_def by (rule rtrancl_trans)

lemma eqc_mono: "R \<subseteq> S \<Longrightarrow> eqc R \<subseteq> eqc S"
  unfolding eqc_def by (rule rtrancl_mono) auto

lemma eqc_base: "(x, y) \<in> R \<Longrightarrow> (x, y) \<in> eqc R"
  by (auto simp: eqc_def)

lemma eqc_empty: "(x, y) \<in> eqc {} \<longleftrightarrow> x = y"
  by (simp add: eqc_def)

lemma eqc_insert:
  "(x, y) \<in> eqc (insert (l, r) R) \<longleftrightarrow>
     (x, y) \<in> eqc R \<or> (x, l) \<in> eqc R \<and> (y, r) \<in> eqc R \<or> (x, r) \<in> eqc R \<and> (y, l) \<in> eqc R"
    (is "_ \<longleftrightarrow> ?new x y")
proof
  assume "(x, y) \<in> eqc (insert (l, r) R)"
  then show "?new x y"
    unfolding eqc_def [of "insert (l, r) R"]
  proof (induction rule: rtrancl_induct)
    case (step y z)
    have "(y, z) \<in> eqc R \<or> y = l \<and> z = r \<or> y = r \<and> z = l"
      using step(2) by (auto intro: eqc_base eqc_sym [OF eqc_base])
    with step(3) show ?case by (metis eqc_refl eqc_sym eqc_trans)
  qed simp
next
  let ?R = "insert (l, r) R"
  assume "?new x y"
  moreover have "(u, v) \<in> eqc R \<Longrightarrow> (u, v) \<in> eqc ?R" for u v using eqc_mono [of R ?R] by blast
  moreover have "(l, r) \<in> eqc ?R" by (simp add: eqc_base)
  ultimately show "(x, y) \<in> eqc ?R" by (metis eqc_sym eqc_trans)
qed

text \<open>
  What a client of the closure relies on: values have representatives, and a merge makes exactly
  the two classes one.
\<close>

locale representatives =
  fixes ok :: "'s \<Rightarrow> bool"
    and rt :: "'s \<Rightarrow> 'a \<Rightarrow> 'a"
    and merge :: "'a \<Rightarrow> 'a \<Rightarrow> 's \<Rightarrow> 's option"
  assumes merge_returns: "ok s \<Longrightarrow> \<exists>s'. merge l r s = Some s' \<and> ok s'"
    and merge_classes: "ok s \<Longrightarrow> merge l r s = Some s' \<Longrightarrow>
      rt s' x = rt s' y \<longleftrightarrow>
        rt s x = rt s y \<or> rt s x = rt s l \<and> rt s y = rt s r \<or> rt s x = rt s r \<and> rt s y = rt s l"
begin

lemma merge_all_closure:
  assumes "ok s" and "\<And>x y. rt s x = rt s y \<longleftrightarrow> (x, y) \<in> eqc R"
  shows "\<exists>s'. merge_all merge es s = Some s' \<and> ok s' \<and>
    (\<forall>x y. rt s' x = rt s' y \<longleftrightarrow> (x, y) \<in> eqc (set es \<union> R))"
  using assms
proof (induction es arbitrary: s R)
  case (Cons e es)
  obtain l r where e: "e = (l, r)" by (cases e)
  obtain s1 where s1: "merge l r s = Some s1" "ok s1" using merge_returns [OF Cons.prems(1)] by blast
  have "rt s1 x = rt s1 y \<longleftrightarrow> (x, y) \<in> eqc (insert (l, r) R)" for x y
    using merge_classes [OF Cons.prems(1) s1(1), of x y] by (simp add: Cons.prems(2) eqc_insert)
  from Cons.IH [OF s1(2) this] show ?case using e s1(1) by simp
qed auto

end

lemma one_class:
  "(w = c \<or> w = d) \<Longrightarrow> (if a = c \<or> a = d then w else a) = (if b = c \<or> b = d then w else b) \<longleftrightarrow>
     a = b \<or> a = c \<and> b = d \<or> a = d \<and> b = c"
  by auto

interpretation uf: representatives uf_ok root "uf_merge_better better" for better
proof
  fix p :: "'a parents" and l r
  assume ok: "uf_ok p"
  from merge_ok [OF this, of better l r]
  show "\<exists>p'. uf_merge_better better l r p = Some p' \<and> uf_ok p'"
    by (elim exE conjE) (intro exI conjI)
  fix p' x y
  assume m: "uf_merge_better better l r p = Some p'"
  define w where "w = (if root p l \<noteq> root p r \<and> better (root p r) (root p l) then root p r else root p l)"
  have rt: "root p' x = (if root p x = root p l \<or> root p x = root p r then w else root p x)" for x
    unfolding w_def by (rule merge_root [OF ok m])
  have "w = root p l \<or> w = root p r" by (simp add: w_def)
  then show "root p' x = root p' y \<longleftrightarrow> root p x = root p y \<or>
      root p x = root p l \<and> root p y = root p r \<or> root p x = root p r \<and> root p y = root p l"
    unfolding rt by (rule one_class)
qed

text \<open>A closure in which every value represents itself: new, or with values added only.\<close>

lemma merges_from_discrete:
  assumes "uf_ok p0" and "\<And>x. root p0 x = x"
  shows "\<exists>p. merge_all (uf_merge_better better) es p0 = Some p \<and> uf_ok p \<and>
     (\<forall>x y. root p x = root p y \<longleftrightarrow> (x, y) \<in> eqc (set es))"
proof -
  have "\<And>x y. root p0 x = root p0 y \<longleftrightarrow> (x, y) \<in> eqc {}" by (simp add: assms(2) eqc_empty)
  from uf.merge_all_closure [OF assms(1) this, of better es] show ?thesis by simp
qed

lemma discrete_empty: "uf_ok Map.empty" "root Map.empty x = x"
  by (simp_all add: uf_ok_def root_undefined)

lemma discrete_adds: "uf_ok (fold uf_add xs Map.empty)" "root (fold uf_add xs Map.empty) x = x"
proof -
  have "uf_ok (fold uf_add xs p) \<and> root (fold uf_add xs p) = root p" if "uf_ok p" for p :: "'b parents"
    and xs using that by (induction xs arbitrary: p) (simp_all add: add_ok)
  then show "uf_ok (fold uf_add xs Map.empty)" "root (fold uf_add xs Map.empty) x = x"
    using discrete_empty by metis+
qed

lemmas merges_from_empty = merges_from_discrete [OF discrete_empty]

section \<open>The better representative\<close>

text \<open>With a preference given by a key, the representative has the least key of its class.\<close>

definition best_roots :: "('a \<Rightarrow> 'k :: linorder) \<Rightarrow> 'a parents \<Rightarrow> bool" where
  "best_roots key p \<longleftrightarrow> (\<forall>x. key (root p x) \<le> key x)"

lemma best_roots_merge:
  assumes "uf_ok p" and "best_roots key p"
    and "uf_merge_better (\<lambda>a b. key a < key b) l r p = Some p'"
  shows "best_roots key p'"
  unfolding best_roots_def
proof
  fix x
  have old: "key (root p x) \<le> key x" using assms(2) by (simp add: best_roots_def)
  have "key (root p' x) \<le> key (root p x)"
    by (subst merge_root [OF assms(1,3)]) (auto simp: not_less)
  then show "key (root p' x) \<le> key x" using old by (rule order_trans)
qed

lemma best_roots_merge_all:
  "uf_ok p \<Longrightarrow> best_roots key p \<Longrightarrow>
   merge_all (uf_merge_better (\<lambda>a b. key a < key b)) es p = Some p' \<Longrightarrow> best_roots key p'"
proof (induction es arbitrary: p)
  case (Cons e es)
  obtain l r where e: "e = (l, r)" by (cases e)
  obtain p1 where p1: "uf_merge_better (\<lambda>a b. key a < key b) l r p = Some p1" "uf_ok p1"
    using uf.merge_returns [OF Cons.prems(1)] by blast
  show ?case
    using Cons.IH [OF p1(2) best_roots_merge [OF Cons.prems(1,2) p1(1)]] Cons.prems(3) p1(1) e by simp
qed simp

lemma root_root: "uf_ok p \<Longrightarrow> root p (root p x) = root p x"
  by (cases "x \<in> dom p") (metis uf_ok_root root_fixed, simp add: root_undefined domIff)

lemma best_from_discrete:
  fixes key :: "'a \<Rightarrow> 'k :: linorder"
  assumes "uf_ok p0" and "\<And>x. root p0 x = x"
    and "merge_all (uf_merge_better (\<lambda>a b. key a < key b)) es p0 = Some p"
  shows "(root p x, x) \<in> eqc (set es)" and "(x, y) \<in> eqc (set es) \<Longrightarrow> key (root p x) \<le> key y"
proof -
  obtain q where "merge_all (uf_merge_better (\<lambda>a b. key a < key b)) es p0 = Some q" "uf_ok q"
    "\<forall>x y. root q x = root q y \<longleftrightarrow> (x, y) \<in> eqc (set es)"
    using merges_from_discrete [OF assms(1,2), of "\<lambda>a b. key a < key b" es] by blast
  with assms(3) have p: "uf_ok p" "\<And>x y. root p x = root p y \<longleftrightarrow> (x, y) \<in> eqc (set es)" by auto
  show "(root p x, x) \<in> eqc (set es)" using p root_root by metis
  have "best_roots key p0" by (simp add: best_roots_def assms(2))
  from best_roots_merge_all [OF assms(1) this assms(3)] have best: "key (root p y) \<le> key y"
    by (simp add: best_roots_def)
  assume "(x, y) \<in> eqc (set es)"
  then show "key (root p x) \<le> key y" using p(2) best by metis
qed

section \<open>Properties\<close>

text \<open>
  C14: The closure decides the least equivalence containing the merged pairs. From an empty
  closure every sequence of merges and finds returns (the loops over parent pointers end), the
  two finds of any two values return the same representative exactly when the pairs connect
  them, whatever preference is used, and finds do not disturb the answer to later ones.
\<close>

theorem closure_decides_equivalence:
  "\<exists>p. merge_all (uf_merge_better better) es Map.empty = Some p \<and>
     (\<exists>rx p1 ry p2. uf_find x p = Some (rx, p1) \<and> uf_find y p1 = Some (ry, p2) \<and>
        rx = root p x \<and> ry = root p y \<and> (rx = ry \<longleftrightarrow> (x, y) \<in> eqc (set es)) \<and>
        uf_ok p2 \<and> root p2 = root p)"
proof -
  from merges_from_empty [of better es] obtain p where
    p: "merge_all (uf_merge_better better) es Map.empty = Some p" "uf_ok p"
    "\<forall>x y. root p x = root p y \<longleftrightarrow> (x, y) \<in> eqc (set es)" by blast
  obtain p1 where p1: "uf_find x p = Some (root p x, p1)" "uf_ok p1" "root p1 = root p"
    using find_ok [OF p(2)] by blast
  obtain p2 where p2: "uf_find y p1 = Some (root p y, p2)" "uf_ok p2" "root p2 = root p"
    using find_ok [OF p1(2), of y] p1(3) by auto
  show ?thesis using p p1 p2 by blast
qed

text \<open>
  C33: With a preference given by a key, the representative of a class is one of its members and
  has the least key of the class, so it does not depend on the order of the merges.
\<close>

theorem closure_best_representative:
  fixes key :: "'a \<Rightarrow> 'k :: linorder"
  assumes "merge_all (uf_merge_better (\<lambda>a b. key a < key b)) es Map.empty = Some p"
    and "(x, y) \<in> eqc (set es)"
  shows "(root p x, x) \<in> eqc (set es) \<and> key (root p x) \<le> key y"
  using best_from_discrete [OF discrete_empty assms(1)] assms(2) by blast

text \<open>Three numbers merged in a chain, with the smaller number preferred.\<close>

theorem closure_best_representative_witness:
  "\<exists>p. merge_all (uf_merge_better (<)) [(5, 3), (3, 9 :: nat)] Map.empty = Some p \<and> root p 9 \<le> 3"
proof -
  obtain p where p: "merge_all (uf_merge_better (<)) [(5, 3), (3, 9 :: nat)] Map.empty = Some p"
    using merges_from_empty [of "(<)" "[(5, 3), (3, 9 :: nat)]"] by (elim exE conjE)
  have cls: "(9, 3) \<in> eqc (set [(5, 3), (3, 9 :: nat)])"
    by (rule eqc_sym, rule eqc_base) simp
  from closure_best_representative [of "\<lambda>n. n", OF p cls, THEN conjunct2] p show ?thesis
    by (intro exI conjI)
qed

end
