(* ===== verification/Join_Enforcement.thy ===== *)
theory Join_Enforcement
  imports Join_Hypergraph Equivalence_Closure "HOL-Library.Sublist"
begin

text \<open>
  How the edges of a join hypergraph are applied (\<^verbatim>\<open>optimizer/v2/JoinHypergraph.cpp\<close>):
  \<open>crossingEdges\<close> classifies the edges between two sides of a join, \<open>canonicalKeyEdges\<close> drops
  keys that others imply, and \<open>checkEdgesEnforced\<close> checks a finished plan with the closure of
  equalities of \<open>Equivalence_Closure\<close>.
\<close>

section \<open>Edges across a partition\<close>

definition forward :: "join_edge \<Rightarrow> relation_set \<Rightarrow> relation_set \<Rightarrow> bool" where
  "forward e l r \<longleftrightarrow> rs_isSubset (leftEligibility e) l \<and> rs_isSubset (rightEligibility e) r"

fun crossing_loop ::
  "relation_set \<Rightarrow> relation_set \<Rightarrow> nat \<Rightarrow> join_edge list \<Rightarrow> (nat \<times> bool) list \<Rightarrow> nat list \<Rightarrow>
   ((nat \<times> bool) list \<times> nat list) option" where
  "crossing_loop l r i [] joinEdges filterEdges = Some (joinEdges, filterEdges)"
| "crossing_loop l r i (e # es) joinEdges filterEdges =
     (let rels = totalEligibility e in
      if rs_isSubset rels l \<or> rs_isSubset rels r \<or> \<not> rs_isSubset rels (rs_unionSet l r)
      then crossing_loop l r (Suc i) es joinEdges filterEdges
      else if forward e l r \<or> forward e r l
      then crossing_loop l r (Suc i) es (joinEdges @ [(i, forward e l r)]) filterEdges
      else if \<not> isUnnest e \<and> joinType e = KInner
      then crossing_loop l r (Suc i) es joinEdges (filterEdges @ [i])
      else None)"

definition crossingEdges ::
  "hypergraph \<Rightarrow> relation_set \<Rightarrow> relation_set \<Rightarrow> ((nat \<times> bool) list \<times> nat list) option" where
  "crossingEdges h l r = crossing_loop l r 0 (edges h) [] []"

section \<open>Redundant key edges\<close>

definition pairClass :: "join_edge \<Rightarrow> nat \<Rightarrow> nat option" where
  "pairClass e i =
     (case (leftKeys e ! i, rightKeys e ! i) of
        (ColumnKey l, ColumnKey r) \<Rightarrow>
          if jc_equivalence l = jc_equivalence r then jc_equivalence l else None
      | _ \<Rightarrow> None)"

definition edge_classes :: "join_edge \<Rightarrow> nat option list" where
  "edge_classes e = map (pairClass e) [0..<length (leftKeys e)]"

fun canonical_loop ::
  "join_edge list \<Rightarrow> nat list \<Rightarrow> nat set \<Rightarrow> graph_error + nat list" where
  "canonical_loop es [] seen = Inr []"
| "canonical_loop es (i # is) seen =
     (let e = es ! i in
      check (joinType e = KInner \<and> \<not> isUnnest e) NotAnInnerEdge
        (if leftKeys e \<noteq> [] \<and> list_all (\<lambda>c. c \<noteq> None \<and> the c \<in> seen) (edge_classes e)
         then canonical_loop es is seen
         else bind_res
           (canonical_loop es is (seen \<union> {c. Some c \<in> set (edge_classes e)}))
           (\<lambda>rest. Inr (i # rest))))"

definition canonicalKeyEdges :: "hypergraph \<Rightarrow> nat list \<Rightarrow> graph_error + nat list" where
  "canonicalKeyEdges h edgeIndices = canonical_loop (edges h) (sort edgeIndices) {}"

section \<open>Enforcement of equalities\<close>

text \<open>The merges made for the columns of one relation; \<open>reps\<close> maps a class to its first column.\<close>

fun class_pairs :: "jcolumn list \<Rightarrow> (nat \<rightharpoonup> jcolumn) \<Rightarrow> (kexpr \<times> kexpr) list" where
  "class_pairs [] reps = []"
| "class_pairs (c # cs) reps =
     (case jc_equivalence c of
        None \<Rightarrow> class_pairs cs reps
      | Some q \<Rightarrow>
          (case reps q of
             None \<Rightarrow> class_pairs cs (reps(q \<mapsto> c))
           | Some d \<Rightarrow> (ColumnKey d, ColumnKey c) # class_pairs cs reps))"

definition edge_pairs :: "join_edge \<Rightarrow> (kexpr \<times> kexpr) list" where
  "edge_pairs e =
     (if isUnnest e \<or> \<not> provesKeyEquality (joinType e) then [] else zip (leftKeys e) (rightKeys e))"

definition enforced_pairs :: "hypergraph \<Rightarrow> nat list \<Rightarrow> (kexpr \<times> kexpr) list" where
  "enforced_pairs h appliedEdges =
     concat (map (\<lambda>r. class_pairs (rel_columns r) Map.empty) (relations h)) @
     concat (map (\<lambda>i. edge_pairs (edges h ! i)) appliedEdges)"

text \<open>\<^const>\<open>None\<close> stands for a \<open>find\<close> that does not return.\<close>

fun check_pairs ::
  "(kexpr \<times> kexpr) list \<Rightarrow> kexpr parents \<Rightarrow> (graph_error + kexpr parents) option" where
  "check_pairs [] p = Some (Inr p)"
| "check_pairs ((l, r) # ps) p =
     (case uf_find l p of
        None \<Rightarrow> None
      | Some (a, p) \<Rightarrow>
          (case uf_find r p of
             None \<Rightarrow> None
           | Some (b, p) \<Rightarrow> if a = b then check_pairs ps p else Some (Inl EqualityNotEnforced)))"

fun enforce_loop ::
  "nat list \<Rightarrow> nat \<Rightarrow> join_edge list \<Rightarrow> kexpr parents \<Rightarrow> (graph_error + unit) option" where
  "enforce_loop applied i [] p = Some (Inr ())"
| "enforce_loop applied i (e # es) p =
     (if isUnnest e \<or> \<not> provesKeyEquality (joinType e) then
        if i \<in> set applied then enforce_loop applied (Suc i) es p else Some (Inl (EdgeNotApplied i))
      else
        (case check_pairs (zip (leftKeys e) (rightKeys e)) p of
           None \<Rightarrow> None
         | Some (Inl err) \<Rightarrow> Some (Inl err)
         | Some (Inr p) \<Rightarrow> enforce_loop applied (Suc i) es p))"

definition checkEdgesEnforced :: "hypergraph \<Rightarrow> nat list \<Rightarrow> (graph_error + unit) option" where
  "checkEdgesEnforced h appliedEdges =
     (case merge_all uf_merge (enforced_pairs h appliedEdges) Map.empty of
        None \<Rightarrow> None
      | Some p \<Rightarrow> enforce_loop appliedEdges 0 (edges h) p)"

section \<open>Enforced equalities\<close>

text \<open>
  What a plan that applies the edges \<open>applied\<close> enforces: equal classes within one relation, and
  the keys of the applied edges that prove them equal.
\<close>

definition same_class :: "jcolumn list \<Rightarrow> (kexpr \<times> kexpr) set" where
  "same_class cs = {(ColumnKey c, ColumnKey d) | c d.
     c \<in> set cs \<and> d \<in> set cs \<and> jc_equivalence c \<noteq> None \<and> jc_equivalence c = jc_equivalence d}"

definition enforced :: "hypergraph \<Rightarrow> nat list \<Rightarrow> (kexpr \<times> kexpr) set" where
  "enforced h applied =
     (\<Union>r\<in>set (relations h). same_class (rel_columns r)) \<union>
     (\<Union>e\<in>{edges h ! i | i. i \<in> set applied}.
        if isUnnest e then {}
        else case joinType e of
          KInner \<Rightarrow> set (zip (leftKeys e) (rightKeys e))
        | KCountingLeftSemiFilter \<Rightarrow> set (zip (leftKeys e) (rightKeys e))
        | _ \<Rightarrow> {})"

lemma set_edge_pairs:
  "set (edge_pairs e) =
     (if isUnnest e then {}
      else case joinType e of
        KInner \<Rightarrow> set (zip (leftKeys e) (rightKeys e))
      | KCountingLeftSemiFilter \<Rightarrow> set (zip (leftKeys e) (rightKeys e))
      | _ \<Rightarrow> {})"
  by (cases "joinType e") (simp_all add: edge_pairs_def provesKeyEquality_def)

lemma enforced_edges:
  "enforced h applied =
     (\<Union>r\<in>set (relations h). same_class (rel_columns r)) \<union>
     (\<Union>i\<in>set applied. set (edge_pairs (edges h ! i)))"
  unfolding enforced_def set_edge_pairs by auto

lemma eqc_least: "R \<subseteq> eqc S \<Longrightarrow> eqc R \<subseteq> eqc S"
proof
  fix p
  assume R: "R \<subseteq> eqc S" and "p \<in> eqc R"
  then obtain x y where p: "p = (x, y)" "(x, y) \<in> (R \<union> R\<inverse>)\<^sup>*" by (cases p) (simp add: eqc_def)
  from p(2) have "(x, y) \<in> eqc S"
  proof (induction rule: rtrancl_induct)
    case (step y z)
    then have "(y, z) \<in> eqc S" using R by (blast intro: eqc_sym)
    with step(3) show ?case by (rule eqc_trans)
  qed simp
  then show "p \<in> eqc S" by (simp add: p(1))
qed

lemma eqc_eqI: "R \<subseteq> eqc S \<Longrightarrow> S \<subseteq> eqc R \<Longrightarrow> eqc R = eqc S"
  by (intro equalityI eqc_least)

lemma class_pairs_cases:
  "class_pairs (c # cs) reps =
     (if jc_equivalence c = None then class_pairs cs reps
      else if reps (the (jc_equivalence c)) = None then class_pairs cs (reps(the (jc_equivalence c) \<mapsto> c))
      else (ColumnKey (the (reps (the (jc_equivalence c)))), ColumnKey c) # class_pairs cs reps)"
  by (simp split: option.splits)

lemma class_pairs_rep:
  "c \<in> set cs \<Longrightarrow> jc_equivalence c = Some q \<Longrightarrow> reps q = Some d \<Longrightarrow>
   (ColumnKey d, ColumnKey c) \<in> set (class_pairs cs reps)"
proof (induction cs arbitrary: reps)
  case (Cons b cs)
  have keep: "(reps(x \<mapsto> b)) q = Some d" if "reps x = None" for x using that Cons.prems(3) by auto
  show ?case
  proof (cases "b = c")
    case True
    then show ?thesis using Cons.prems unfolding class_pairs_cases by simp
  next
    case False
    then have "c \<in> set cs" using Cons.prems(1) by simp
    note IH = Cons.IH [OF this Cons.prems(2)]
    show ?thesis
      unfolding class_pairs_cases using IH [of reps] Cons.prems(3) IH [of "reps(_ \<mapsto> b)"] keep
      by (simp del: fun_upd_apply)
  qed
qed simp

lemma class_pairs_first:
  "reps q = None \<Longrightarrow> \<exists>d. \<forall>c\<in>set cs. jc_equivalence c = Some q \<longrightarrow>
     c = d \<or> (ColumnKey d, ColumnKey c) \<in> set (class_pairs cs reps)"
proof (induction cs arbitrary: reps)
  case (Cons b cs)
  show ?case
  proof (cases "jc_equivalence b = Some q")
    case True
    have "(ColumnKey b, ColumnKey c) \<in> set (class_pairs cs (reps(q \<mapsto> b)))"
      if "c \<in> set cs" "jc_equivalence c = Some q" for c
      by (rule class_pairs_rep [OF that]) simp
    then show ?thesis using True Cons.prems unfolding class_pairs_cases
      by (intro exI [of _ b]) (simp del: fun_upd_apply)
  next
    case False
    define reps' where "reps' = (if jc_equivalence b \<noteq> None \<and> reps (the (jc_equivalence b)) = None
      then reps(the (jc_equivalence b) \<mapsto> b) else reps)"
    have "reps' q = None" using False Cons.prems by (auto simp: reps'_def)
    moreover have "set (class_pairs cs reps') \<subseteq> set (class_pairs (b # cs) reps)"
      unfolding class_pairs_cases reps'_def by auto
    ultimately show ?thesis using Cons.IH [of reps'] False
      by (metis set_ConsD subsetD)
  qed
qed simp

lemma same_class_mono: "set cs \<subseteq> set ds \<Longrightarrow> same_class cs \<subseteq> same_class ds"
  unfolding same_class_def by blast

lemma class_pairs_sound:
  "\<forall>q d. reps q = Some d \<longrightarrow> jc_equivalence d = Some q \<and> d \<in> set ds \<Longrightarrow>
   set (class_pairs cs reps) \<subseteq> same_class (ds @ cs)"
proof (induction cs arbitrary: reps ds)
  case (Cons c cs)
  have app: "same_class ((ds @ [c]) @ cs) = same_class (ds @ c # cs)" by (simp add: same_class_def)
  have keep: "\<forall>q d. reps q = Some d \<longrightarrow> jc_equivalence d = Some q \<and> d \<in> set (ds @ [c])"
    using Cons.prems by simp
  have upd: "\<forall>q' d. (reps(q \<mapsto> c)) q' = Some d \<longrightarrow> jc_equivalence d = Some q' \<and> d \<in> set (ds @ [c])"
    if "jc_equivalence c = Some q" for q using Cons.prems that by auto
  have pair: "(ColumnKey (the (reps q)), ColumnKey c) \<in> same_class (ds @ c # cs)"
    if "jc_equivalence c = Some q" "reps q \<noteq> None" for q
    using Cons.prems that by (auto simp: same_class_def)
  show ?case
    unfolding class_pairs_cases
    using Cons.IH [OF keep] Cons.IH [OF upd] pair unfolding app by (auto simp del: fun_upd_apply)
qed simp

lemma eqc_class_pairs: "eqc (set (class_pairs cs Map.empty)) = eqc (same_class cs)"
proof (rule eqc_eqI)
  show "set (class_pairs cs Map.empty) \<subseteq> eqc (same_class cs)"
    using class_pairs_sound [of Map.empty "[]" cs] by (auto intro: eqc_base)
  show "same_class cs \<subseteq> eqc (set (class_pairs cs Map.empty))"
  proof
    fix p
    assume "p \<in> same_class cs"
    then obtain c d q where p: "p = (ColumnKey c, ColumnKey d)" "c \<in> set cs" "d \<in> set cs"
      "jc_equivalence c = Some q" "jc_equivalence d = Some q" unfolding same_class_def by (smt (verit) mem_Collect_eq not_Some_eq)
    obtain f where f: "\<forall>c\<in>set cs. jc_equivalence c = Some q \<longrightarrow>
        c = f \<or> (ColumnKey f, ColumnKey c) \<in> set (class_pairs cs Map.empty)"
      using class_pairs_first [of Map.empty q cs] by auto
    then have "(ColumnKey f, ColumnKey c) \<in> eqc (set (class_pairs cs Map.empty))"
      "(ColumnKey f, ColumnKey d) \<in> eqc (set (class_pairs cs Map.empty))"
      using p by (metis eqc_base eqc_refl)+
    then show "p \<in> eqc (set (class_pairs cs Map.empty))"
      unfolding p(1) by (blast intro: eqc_trans eqc_sym)
  qed
qed

lemma eqc_enforced_pairs: "eqc (set (enforced_pairs h applied)) = eqc (enforced h applied)"
proof (rule eqc_eqI)
  have pairs: "set (class_pairs cs Map.empty) \<subseteq> eqc (same_class cs)"
    "same_class cs \<subseteq> eqc (set (class_pairs cs Map.empty))" for cs
    using eqc_class_pairs [of cs] by (auto intro: eqc_base)
  have mono: "eqc (same_class (rel_columns r)) \<subseteq> eqc (enforced h applied)"
    "eqc (set (class_pairs (rel_columns r) Map.empty)) \<subseteq> eqc (set (enforced_pairs h applied))"
    if "r \<in> set (relations h)" for r
    using that by (intro eqc_mono; auto simp: enforced_edges enforced_pairs_def)+
  have edge: "set (edge_pairs (edges h ! i)) \<subseteq> eqc (enforced h applied)"
    "set (edge_pairs (edges h ! i)) \<subseteq> eqc (set (enforced_pairs h applied))" if "i \<in> set applied" for i
    using that by (auto simp: enforced_edges enforced_pairs_def intro!: eqc_base)
  show "set (enforced_pairs h applied) \<subseteq> eqc (enforced h applied)"
    using pairs(1) mono(1) edge(1) unfolding enforced_pairs_def set_append set_concat set_map by blast
  show "enforced h applied \<subseteq> eqc (set (enforced_pairs h applied))"
    using pairs(2) mono(2) edge(2) unfolding enforced_edges [of h applied] by blast
qed

lemma check_pairs_result:
  assumes "uf_ok p" and "\<And>x y. root p x = root p y \<longleftrightarrow> (x, y) \<in> E"
  shows "if set ps \<subseteq> E then \<exists>p'. check_pairs ps p = Some (Inr p') \<and> uf_ok p' \<and> root p' = root p
    else check_pairs ps p = Some (Inl EqualityNotEnforced)"
  using assms
proof (induction ps arbitrary: p)
  case (Cons a ps)
  obtain l r where a: "a = (l, r)" by (cases a)
  obtain p1 where p1: "uf_find l p = Some (root p l, p1)" "uf_ok p1" "root p1 = root p"
    using find_ok [OF Cons.prems(1)] by blast
  obtain p2 where p2: "uf_find r p1 = Some (root p r, p2)" "uf_ok p2" "root p2 = root p"
    using find_ok [OF p1(2), of r] p1(3) by auto
  have E2: "root p2 x = root p2 y \<longleftrightarrow> (x, y) \<in> E" for x y by (simp add: p2(3) Cons.prems(2))
  have "(l, r) \<in> E \<longleftrightarrow> root p l = root p r" by (simp add: Cons.prems(2))
  moreover have "check_pairs (a # ps) p =
      (if root p l = root p r then check_pairs ps p2 else Some (Inl EqualityNotEnforced))"
    by (simp add: a p1(1) p2(1))
  ultimately show ?case
    using Cons.IH [OF p2(2) E2] by (simp del: check_pairs.simps add: a p2(3) split: if_splits)
qed simp

definition edge_enforced :: "(kexpr \<times> kexpr) set \<Rightarrow> nat list \<Rightarrow> nat \<Rightarrow> join_edge \<Rightarrow> bool" where
  "edge_enforced E applied i e \<longleftrightarrow>
     (if isUnnest e \<or> \<not> provesKeyEquality (joinType e) then i \<in> set applied
      else set (zip (leftKeys e) (rightKeys e)) \<subseteq> E)"

lemma enforce_loop_result:
  assumes "uf_ok p" and "\<And>x y. root p x = root p y \<longleftrightarrow> (x, y) \<in> E"
  shows "if \<forall>j<length es. edge_enforced E applied (i + j) (es ! j)
    then enforce_loop applied i es p = Some (Inr ())
    else \<exists>err. enforce_loop applied i es p = Some (Inl err)"
  using assms
proof (induction es arbitrary: i p)
  case (Cons e es)
  have split: "(\<forall>j<length (e # es). edge_enforced E applied (i + j) ((e # es) ! j)) \<longleftrightarrow>
      edge_enforced E applied i e \<and> (\<forall>j<length es. edge_enforced E applied (Suc i + j) (es ! j))"
    by (simp add: All_less_Suc2)
  show ?case
  proof (cases "isUnnest e \<or> \<not> provesKeyEquality (joinType e)")
    case True
    then show ?thesis
      using Cons.IH [OF Cons.prems, of "Suc i"] unfolding split by (simp add: edge_enforced_def)
  next
    case False
    note pairs = check_pairs_result [OF Cons.prems, of "zip (leftKeys e) (rightKeys e)"]
    show ?thesis
    proof (cases "set (zip (leftKeys e) (rightKeys e)) \<subseteq> E")
      case True
      then obtain p' where p': "check_pairs (zip (leftKeys e) (rightKeys e)) p = Some (Inr p')"
        "uf_ok p'" "root p' = root p" using pairs by auto
      have "root p' x = root p' y \<longleftrightarrow> (x, y) \<in> E" for x y by (simp add: p'(3) Cons.prems(2))
      from Cons.IH [OF p'(2) this, of "Suc i"] False True p'(1) show ?thesis
        unfolding split by (simp add: edge_enforced_def)
    next
      case no: False
      then show ?thesis using False pairs unfolding split by (simp add: edge_enforced_def)
    qed
  qed
qed simp

lemma checkEdgesEnforced_result:
  "if \<forall>i<length (edges h). edge_enforced (eqc (enforced h applied)) applied i (edges h ! i)
   then checkEdgesEnforced h applied = Some (Inr ())
   else \<exists>err. checkEdgesEnforced h applied = Some (Inl err)"
proof -
  from merges_from_empty [of "\<lambda>_ _. False" "enforced_pairs h applied"] obtain p where
    p: "merge_all (uf_merge_better (\<lambda>_ _. False)) (enforced_pairs h applied) Map.empty = Some p" "uf_ok p"
    "\<forall>x y. root p x = root p y \<longleftrightarrow> (x, y) \<in> eqc (enforced h applied)"
    unfolding eqc_enforced_pairs by blast
  have "(uf_merge :: kexpr \<Rightarrow> _) = uf_merge_better (\<lambda>_ _. False)" by (simp add: fun_eq_iff uf_merge_def)
  then have "checkEdgesEnforced h applied = enforce_loop applied 0 (edges h) p"
    unfolding checkEdgesEnforced_def using p(1) by (simp only: option.case)
  then show ?thesis using enforce_loop_result [OF p(2), of _ "edges h" applied 0] p(3) by simp
qed

section \<open>Edges between two sides\<close>

definition crosses :: "relation_set \<Rightarrow> relation_set \<Rightarrow> join_edge \<Rightarrow> bool" where
  "crosses l r e \<longleftrightarrow> ids (totalEligibility e) \<subseteq> ids l \<union> ids r \<and>
     \<not> ids (totalEligibility e) \<subseteq> ids l \<and> \<not> ids (totalEligibility e) \<subseteq> ids r"

definition aligned :: "relation_set \<Rightarrow> relation_set \<Rightarrow> join_edge \<Rightarrow> bool" where
  "aligned l r e \<longleftrightarrow> forward e l r \<or> forward e r l"

definition filterable :: "join_edge \<Rightarrow> bool" where
  "filterable e \<longleftrightarrow> \<not> isUnnest e \<and> joinType e = KInner"

text \<open>An edge that stops the classification: it straddles the partition and is no inner filter.\<close>

definition blocking :: "relation_set \<Rightarrow> relation_set \<Rightarrow> join_edge \<Rightarrow> bool" where
  "blocking l r e \<longleftrightarrow> crosses l r e \<and> \<not> aligned l r e \<and> \<not> filterable e"

lemma crossing_loop_step:
  "crossing_loop l r i (e # es) js fs =
     (if \<not> crosses l r e then crossing_loop l r (Suc i) es js fs
      else if aligned l r e then crossing_loop l r (Suc i) es (js @ [(i, forward e l r)]) fs
      else if filterable e then crossing_loop l r (Suc i) es js (fs @ [i])
      else None)"
  by (auto simp: crosses_def aligned_def filterable_def Let_def ids_isSubset ids_unionSet)

lemma crossing_loop_result:
  "crossing_loop l r i es js fs =
     (if \<exists>e\<in>set es. blocking l r e then None
      else Some
        (js @ map (\<lambda>j. (i + j, forward (es ! j) l r))
           (filter (\<lambda>j. crosses l r (es ! j) \<and> aligned l r (es ! j)) [0..<length es]),
         fs @ map (\<lambda>j. i + j)
           (filter (\<lambda>j. crosses l r (es ! j) \<and> \<not> aligned l r (es ! j)) [0..<length es])))"
proof (induction es arbitrary: i js fs)
  case (Cons e es)
  have up: "[0..<length (e # es)] = 0 # map Suc [0..<length es]"
    by (simp add: upt_conv_Cons map_Suc_upt del: upt_Suc)
  show ?case
    unfolding crossing_loop_step up
    by (auto simp: Cons.IH blocking_def filter_map comp_def simp del: crossing_loop.simps)
qed simp

lemma crosses_sym: "crosses r l e = crosses l r e"
  by (auto simp: crosses_def)

lemma aligned_sym: "aligned r l e = aligned l r e"
  by (auto simp: aligned_def)

text \<open>An edge whose sides are not empty has one orientation at most between disjoint sides.\<close>

lemma forward_flip:
  assumes "edge_ok e" and "ids l \<inter> ids r = {}" and "aligned l r e"
  shows "forward e r l \<longleftrightarrow> \<not> forward e l r"
  proof -
  have "ids (leftEligibility e) \<noteq> {}" using assms(1) by (auto simp: edge_ok_def)
  then show ?thesis using assms(2,3) unfolding aligned_def forward_def ids_isSubset by blast
qed

lemma crossingEdges_flip:
  assumes "\<forall>e\<in>set (edges h). edge_ok e" and "ids l \<inter> ids r = {}"
  shows "crossingEdges h r l =
    map_option (\<lambda>(js, fs). (map (\<lambda>(i, f). (i, \<not> f)) js, fs)) (crossingEdges h l r)"
proof -
  let ?P = "\<lambda>j. crosses l r (edges h ! j) \<and> aligned l r (edges h ! j)"
  have "map (\<lambda>j. (j, forward (edges h ! j) r l)) (filter ?P [0..<length (edges h)]) =
      map (\<lambda>j. (j, \<not> forward (edges h ! j) l r)) (filter ?P [0..<length (edges h)])"
    using assms by (intro map_cong refl) (auto simp: forward_flip)
  then show ?thesis
    unfolding crossingEdges_def crossing_loop_result blocking_def crosses_sym [of r l] aligned_sym [of r l]
    by (simp add: comp_def)
qed

section \<open>Redundant keys\<close>

lemma set_edge_classes:
  "length (leftKeys e) = length (rightKeys e) \<Longrightarrow> edge_classes e =
     map (\<lambda>p. case p of (ColumnKey l, ColumnKey r) \<Rightarrow>
       if jc_equivalence l = jc_equivalence r then jc_equivalence l else None | _ \<Rightarrow> None)
     (zip (leftKeys e) (rightKeys e))"
  by (rule nth_equalityI) (auto simp: edge_classes_def pairClass_def)

definition classes_of :: "join_edge \<Rightarrow> nat set" where
  "classes_of e = {c. Some c \<in> set (edge_classes e)}"

text \<open>An edge all of whose key pairs are in classes of \<open>seen\<close>.\<close>

definition covered :: "nat set \<Rightarrow> join_edge \<Rightarrow> bool" where
  "covered seen e \<longleftrightarrow> leftKeys e \<noteq> [] \<and> (\<forall>c\<in>set (edge_classes e). c \<in> Some ` seen)"

lemma canonical_loop_step:
  "canonical_loop es (i # is) seen =
     check (joinType (es ! i) = KInner \<and> \<not> isUnnest (es ! i)) NotAnInnerEdge
       (if covered seen (es ! i) then canonical_loop es is seen
        else bind_res (canonical_loop es is (seen \<union> classes_of (es ! i))) (\<lambda>rest. Inr (i # rest)))"
proof -
  have "list_all (\<lambda>c. c \<noteq> None \<and> the c \<in> seen) cs \<longleftrightarrow> (\<forall>c\<in>set cs. c \<in> Some ` seen)" for cs
    by (auto simp: list_all_iff)
  then show ?thesis by (simp add: covered_def classes_of_def Let_def)
qed

declare canonical_loop.simps(2) [simp del]

text \<open>The edges kept, split at any edge of the input: it is kept, or covered by those before it.\<close>

lemma canonical_loop_inner:
  "(\<exists>ks. canonical_loop es is seen = Inr ks) \<longleftrightarrow> (\<forall>i\<in>set is. filterable (es ! i))"
  by (induction "is" arbitrary: seen) (auto simp: canonical_loop_step filterable_def bind_res_Inr_iff)

lemma canonical_loop_kept:
  assumes "canonical_loop es is seen = Inr ks"
  shows "subseq ks is" and
    "\<And>as i bs. is = as @ i # bs \<Longrightarrow> \<exists>us vs. ks = us @ vs \<and> subseq us as \<and>
       (if covered (seen \<union> (\<Union>k\<in>set us. classes_of (es ! k))) (es ! i) then subseq vs bs
        else \<exists>ws. vs = i # ws \<and> subseq ws bs)"
  using assms
proof (induction "is" arbitrary: seen ks)
  case (Cons j js)
  {
    case 1
    then show ?case using Cons.IH(1)
      by (auto simp: canonical_loop_step bind_res_Inr_iff split: if_splits)
  next
    case (2 as i bs)
    consider (cov) "covered seen (es ! j)" "canonical_loop es js seen = Inr ks"
      | (new) ks' where "\<not> covered seen (es ! j)" "ks = j # ks'"
        "canonical_loop es js (seen \<union> classes_of (es ! j)) = Inr ks'"
      using 2(2) by (auto simp: canonical_loop_step bind_res_Inr_iff split: if_splits)
    then show ?case
    proof cases
      case cov
      show ?thesis
      proof (cases as)
        case Nil
        then show ?thesis using 2(1) cov Cons.IH(1) [OF cov(2)]
          by (intro exI [of _ "[]"] exI [of _ ks]) auto
      next
        case (Cons a as')
        then have "js = as' @ i # bs" "a = j" using 2(1) by auto
        with Cons.IH(2) [OF _ cov(2)] Cons show ?thesis by (blast intro: list_emb_Cons)
      qed
    next
      case new
      show ?thesis
      proof (cases as)
        case Nil
        then show ?thesis using 2(1) new Cons.IH(1) [OF new(3)]
          by (intro exI [of _ "[]"] exI [of _ ks]) auto
      next
        case (Cons a as')
        then have *: "js = as' @ i # bs" "a = j" using 2(1) by auto
        obtain us vs where "ks' = us @ vs" "subseq us as'"
          "if covered (seen \<union> classes_of (es ! j) \<union> (\<Union>k\<in>set us. classes_of (es ! k))) (es ! i)
           then subseq vs bs else \<exists>ws. vs = i # ws \<and> subseq ws bs"
          using Cons.IH(2) [OF *(1) new(3)] by blast
        then show ?thesis using new(2) Cons *(2)
          by (intro exI [of _ "j # us"] exI [of _ vs]) (simp add: Un_assoc)
      qed
    qed
  }
qed simp_all

text \<open>
  What the removal of redundant keys relies on: in each of the two inputs columns of one class
  are equal, and each edge has its left columns in one input and its right columns in the other.
\<close>

definition class_equal :: "(kexpr \<Rightarrow> 'v) \<Rightarrow> jcolumn set \<Rightarrow> bool" where
  "class_equal val S \<longleftrightarrow> (\<forall>c\<in>S. \<forall>d\<in>S. jc_equivalence c \<noteq> None \<longrightarrow>
     jc_equivalence c = jc_equivalence d \<longrightarrow> val (ColumnKey c) = val (ColumnKey d))"

definition key_sides :: "jcolumn set \<Rightarrow> jcolumn set \<Rightarrow> join_edge \<Rightarrow> bool" where
  "key_sides L R e \<longleftrightarrow> length (leftKeys e) = length (rightKeys e) \<and>
     (\<forall>c d. (ColumnKey c, ColumnKey d) \<in> set (zip (leftKeys e) (rightKeys e)) \<longrightarrow>
        c \<in> L \<and> d \<in> R \<or> c \<in> R \<and> d \<in> L)"

definition edge_holds :: "(kexpr \<Rightarrow> 'v) \<Rightarrow> join_edge \<Rightarrow> bool" where
  "edge_holds val e \<longleftrightarrow> (\<forall>(l, r)\<in>set (zip (leftKeys e) (rightKeys e)). val l = val r)"

lemma edge_class_pair:
  assumes "length (leftKeys e) = length (rightKeys e)"
  shows "c \<in> classes_of e \<longleftrightarrow> (\<exists>l r. (ColumnKey l, ColumnKey r) \<in> set (zip (leftKeys e) (rightKeys e)) \<and>
    jc_equivalence l = Some c \<and> jc_equivalence r = Some c)"
  unfolding classes_of_def set_edge_classes [OF assms]
  by (force split: kexpr.splits if_splits)

lemma covered_pair:
  assumes "length (leftKeys e) = length (rightKeys e)" and "covered seen e"
    and "(x, y) \<in> set (zip (leftKeys e) (rightKeys e))"
  shows "\<exists>l r c. x = ColumnKey l \<and> y = ColumnKey r \<and> c \<in> seen \<and>
    jc_equivalence l = Some c \<and> jc_equivalence r = Some c"
  using assms(2,3) unfolding covered_def set_edge_classes [OF assms(1)]
  by (cases x; cases y) (force split: if_splits)+

lemma covered_holds:
  assumes "class_equal val L" and "class_equal val R" and "key_sides L R e"
    and "covered (\<Union>k\<in>K. classes_of (es ! k)) e"
    and "\<forall>k\<in>K. key_sides L R (es ! k) \<and> edge_holds val (es ! k)"
  shows "edge_holds val e"
  unfolding edge_holds_def
proof (intro ballI, clarify)
  fix x y
  assume xy: "(x, y) \<in> set (zip (leftKeys e) (rightKeys e))"
  obtain l r c k where x: "x = ColumnKey l" "y = ColumnKey r" "k \<in> K" "c \<in> classes_of (es ! k)"
    and lr: "jc_equivalence l = Some c" "jc_equivalence r = Some c"
    using covered_pair [OF _ assms(4) xy] assms(3) by (auto simp: key_sides_def)
  have k: "key_sides L R (es ! k)" "edge_holds val (es ! k)" using assms(5) x(3) by auto
  then obtain a b where ab: "(ColumnKey a, ColumnKey b) \<in> set (zip (leftKeys (es ! k)) (rightKeys (es ! k)))"
    "jc_equivalence a = Some c" "jc_equivalence b = Some c"
    using x(4) edge_class_pair by (auto simp: key_sides_def)
  have "val (ColumnKey a) = val (ColumnKey b)" using k(2) ab(1) by (auto simp: edge_holds_def)
  moreover have "a \<in> L \<and> b \<in> R \<or> a \<in> R \<and> b \<in> L" using k(1) ab(1) by (auto simp: key_sides_def)
  moreover have "l \<in> L \<and> r \<in> R \<or> l \<in> R \<and> r \<in> L" using assms(3) xy x by (auto simp: key_sides_def)
  ultimately show "val x = val y"
    using assms(1,2) lr ab(2,3) unfolding x class_equal_def by (metis option.distinct(1))
qed

lemma subseq_set: "subseq xs ys \<Longrightarrow> set xs \<subseteq> set ys"
  by (metis notin_set_nthsI subseq_conv_nths subsetI)

section \<open>Properties\<close>

text \<open>
  C4: The final check of a plan accepts exactly the plans that enforce every edge. It always
  returns; it accepts when each unnest edge and each edge of a join that keeps unmatched rows is
  itself applied, and each key pair of the other edges is connected by the equalities of the
  applied edges together with the classes of columns within one relation. So an edge may be
  left out when others imply it by transitivity, and never otherwise.
\<close>

theorem edges_enforced_iff:
  assumes "set applied \<subseteq> {..<length (edges h)}"
  shows "checkEdgesEnforced h applied \<noteq> None \<and>
    (checkEdgesEnforced h applied = Some (Inr ()) \<longleftrightarrow>
      (\<forall>i<length (edges h).
         if isUnnest (edges h ! i) \<or> \<not> provesKeyEquality (joinType (edges h ! i)) then i \<in> set applied
         else set (zip (leftKeys (edges h ! i)) (rightKeys (edges h ! i))) \<subseteq> eqc (enforced h applied)))"
proof (cases "\<forall>i<length (edges h). edge_enforced (eqc (enforced h applied)) applied i (edges h ! i)")
  case True
  with checkEdgesEnforced_result [of h applied] show ?thesis unfolding edge_enforced_def by simp
next
  case False
  with checkEdgesEnforced_result [of h applied] obtain err where
    "checkEdgesEnforced h applied = Some (Inl err)" by (simp only: if_False) blast
  with False show ?thesis unfolding edge_enforced_def by simp
qed

text \<open>The plan that applies no edge of the two-way join is rejected, the other one accepted.\<close>

theorem edges_enforced_iff_witness:
  "checkEdgesEnforced two_way_join [0] = Some (Inr ()) \<and>
   checkEdgesEnforced two_way_join [] \<noteq> Some (Inr ())"
proof -
  let ?l = "ColumnKey (fst two_columns)" and ?r = "ColumnKey (snd two_columns)"
  have keys: "zip (leftKeys two_way_edge) (rightKeys two_way_edge) = [(?l, ?r)]"
    by (simp add: two_way_edge_def)
  have "(?l, ?r) \<in> enforced two_way_join [0]"
    by (simp add: enforced_edges edge_pairs_def keys provesKeyEquality_def)
  then have 1: "(?l, ?r) \<in> eqc (enforced two_way_join [0])" by (rule eqc_base)
  have "enforced two_way_join [] = {(?l, ?l), (?r, ?r)}"
    by (auto simp: enforced_edges same_class_def two_way_join_def two_columns_def)
  then have "enforced two_way_join [] \<subseteq> eqc {}" by (simp add: eqc_empty)
  from eqc_least [OF this] have 2: "(?l, ?r) \<notin> eqc (enforced two_way_join [])"
    by (auto simp: eqc_empty two_columns_def dest!: subsetD)
  show ?thesis
    using edges_enforced_iff [of "[0]" two_way_join] edges_enforced_iff [of "[]" two_way_join] 1 2
    by (simp add: keys provesKeyEquality_def)
qed

text \<open>
  C17: The classification of the edges between two sides is exact. It gives up exactly when some
  edge straddles the partition and is not a plain inner join; otherwise the join edges are, in
  edge order, the crossing edges whose two sides fall on the two inputs, with the orientation
  that puts the left side left, and the filter edges are the other crossing edges. Exchanging
  the inputs only flips every orientation.
\<close>

theorem crossing_edges_exact:
  assumes "built_graph h" and "ids l \<inter> ids r = {}"
  shows "crossingEdges h l r =
      (if \<exists>e\<in>set (edges h). blocking l r e then None
       else Some
        (map (\<lambda>i. (i, forward (edges h ! i) l r))
           (filter (\<lambda>i. crosses l r (edges h ! i) \<and> aligned l r (edges h ! i)) [0..<length (edges h)]),
         filter (\<lambda>i. crosses l r (edges h ! i) \<and> \<not> aligned l r (edges h ! i)) [0..<length (edges h)]))
    \<and> crossingEdges h r l =
      map_option (\<lambda>(js, fs). (map (\<lambda>(i, f). (i, \<not> f)) js, fs)) (crossingEdges h l r)"
proof -
  have ok: "\<forall>e\<in>set (edges h). edge_ok e"
    using built_graph_ok [OF assms(1)] by (auto simp: graph_ok_def edge_in_def)
  show ?thesis
  proof
    show "crossingEdges h r l =
        map_option (\<lambda>(js, fs). (map (\<lambda>(i, f). (i, \<not> f)) js, fs)) (crossingEdges h l r)"
      by (rule crossingEdges_flip [OF ok assms(2)])
  qed (simp add: crossingEdges_def crossing_loop_result map_idI)
qed

theorem crossing_edges_exact_witness:
  "crossingEdges two_way_join (RelationSet 1) (RelationSet 2) = Some ([(0, True)], []) \<and>
   crossingEdges two_way_join (RelationSet 2) (RelationSet 1) = Some ([(0, False)], [])"
proof -
  have "crosses (RelationSet 1) (RelationSet 2) two_way_edge" by (simp add: crosses_def)
  moreover have "forward two_way_edge (RelationSet 1) (RelationSet 2)"
    by (simp add: forward_def two_way_edge_def rs_isSubset_def)
  ultimately show ?thesis
    using crossing_edges_exact [OF built_two_way_join, of "RelationSet 1" "RelationSet 2"]
    by (simp add: aligned_def blocking_def)
qed

text \<open>
  C18: Dropping redundant keys loses no row condition. On plain inner edges the operation
  succeeds, and its result is a subsequence of the sorted indices. Where columns of one class
  are equal within each of the two inputs, as its contract asks, every row pair that satisfies
  the kept edges satisfies all of them. On any other edge it throws.
\<close>

theorem canonical_edges_lossless:
  assumes "class_equal val L" and "class_equal val R"
    and "\<forall>i\<in>set edgeIndices. key_sides L R (edges h ! i)"
  shows "if \<forall>i\<in>set edgeIndices. filterable (edges h ! i)
    then \<exists>ks. canonicalKeyEdges h edgeIndices = Inr ks \<and> subseq ks (sort edgeIndices) \<and>
      ((\<forall>k\<in>set ks. edge_holds val (edges h ! k)) \<longrightarrow>
       (\<forall>i\<in>set edgeIndices. edge_holds val (edges h ! i)))
    else \<exists>err. canonicalKeyEdges h edgeIndices = Inl err"
proof (cases "\<forall>i\<in>set edgeIndices. filterable (edges h ! i)")
  case False
  then have "\<nexists>ks. canonicalKeyEdges h edgeIndices = Inr ks"
    unfolding canonicalKeyEdges_def canonical_loop_inner by simp
  with False show ?thesis by (cases "canonicalKeyEdges h edgeIndices") auto
next
  case True
  then obtain ks where ks: "canonical_loop (edges h) (sort edgeIndices) {} = Inr ks"
    using canonical_loop_inner [of "edges h" "sort edgeIndices"] by auto
  have "edge_holds val (edges h ! i)"
    if i: "i \<in> set edgeIndices" and kept: "\<forall>k\<in>set ks. edge_holds val (edges h ! k)" for i
  proof -
    obtain as bs where "sort edgeIndices = as @ i # bs" using i by (metis set_sort split_list)
    from canonical_loop_kept(2) [OF ks this] obtain us vs where us: "ks = us @ vs"
      "covered (\<Union>k\<in>set us. classes_of (edges h ! k)) (edges h ! i) \<or> i \<in> set vs"
      by (auto split: if_splits)
    have "set us \<subseteq> set edgeIndices"
      using canonical_loop_kept(1) [OF ks] us(1) by (auto dest!: subseq_set)
    then show ?thesis
      using us kept covered_holds [OF assms(1,2) _ _, of "edges h ! i" "edges h" "set us"] assms(3) i
      by auto
  qed
  then show ?thesis
    using True ks canonical_loop_kept(1) [OF ks] by (auto simp: canonicalKeyEdges_def)
qed

theorem canonical_edges_lossless_witness:
  "\<exists>ks. canonicalKeyEdges two_way_join [0] = Inr ks \<and> subseq ks [0] \<and>
     ((\<forall>k\<in>set ks. edge_holds (\<lambda>_. 7 :: int) (edges two_way_join ! k)) \<longrightarrow>
      (\<forall>i\<in>set [0]. edge_holds (\<lambda>_. 7 :: int) (edges two_way_join ! i)))"
proof -
  have 1: "class_equal (\<lambda>_. 7 :: int) S" for S by (simp add: class_equal_def)
  have 2: "\<forall>i\<in>set [0]. key_sides {fst two_columns} {snd two_columns} (edges two_way_join ! i)"
    by (simp add: key_sides_def two_way_edge_def)
  from canonical_edges_lossless [OF 1 1 2] show ?thesis by (simp add: filterable_def)
qed

end
