(* ===== verification/Join_Cover.thy ===== *)
theory Join_Cover
  imports Join_Hypergraph Equivalence_Closure "HOL-Library.Product_Lexorder"
    "HOL-Library.List_Lexorder" "HOL-Library.Char_ord"
begin

text \<open>
  The columns of a subplan over a set of relations (\<open>coverColumns\<close>, \<open>coverColumnReps\<close> and
  \<open>coverOutputColumns\<close> in \<^verbatim>\<open>optimizer/v2/JoinHypergraph.cpp\<close>): which columns it can supply, which
  column stands for a group of equal ones, and which it must output, with the memo table the
  graph keeps for the last. \<^const>\<open>None\<close> stands for a \<open>find\<close> of the closure that does not return.
\<close>

section \<open>Columns and representatives\<close>

definition add_outputs :: "join_edge \<Rightarrow> jcolumn list \<Rightarrow> jcolumn list" where
  "add_outputs e cs =
     fold (\<lambda>(out, src) cs. if out \<noteq> src then pos_add out cs else cs)
       (zip (outputColumns e) (sourceColumns e)) cs"

definition coverColumns :: "hypergraph \<Rightarrow> relation_set \<Rightarrow> jcolumn list" where
  "coverColumns h cover =
     fold (\<lambda>e cs. if \<not> rs_isSubset (totalEligibility e) cover then cs else add_outputs e cs) (edges h)
       (rs_forEach (\<lambda>i cs. pos_union cs (rel_columns (relations h ! i))) cover [])"

definition betterRep :: "jcolumn list \<Rightarrow> jcolumn \<Rightarrow> jcolumn \<Rightarrow> bool" where
  "betterRep target a b =
     (let aTarget = a \<in> set target; bTarget = b \<in> set target in
      if aTarget \<noteq> bTarget then aTarget
      else if jc_name a \<noteq> jc_name b then jc_name a < jc_name b
      else jc_id a < jc_id b)"

text \<open>The merges of \<open>coverColumnReps\<close>, in order.\<close>

definition key_pair :: "jcolumn list \<Rightarrow> kexpr \<times> kexpr \<Rightarrow> (jcolumn \<times> jcolumn) list" where
  "key_pair columns k =
     (case (asColumn (fst k), asColumn (snd k)) of
        (Some left, Some right) \<Rightarrow>
          if left \<notin> set columns \<or> right \<notin> set columns then [] else [(left, right)]
      | _ \<Rightarrow> [])"

definition cover_pairs :: "hypergraph \<Rightarrow> relation_set \<Rightarrow> (jcolumn \<times> jcolumn) list" where
  "cover_pairs h cover =
     concat (map (\<lambda>e.
       if \<not> provesKeyEquality (joinType e) then []
       else if \<not> rs_isSubset (totalEligibility e) cover then []
       else concat (map (key_pair (coverColumns h cover)) (zip (leftKeys e) (rightKeys e)))) (edges h))"

fun find_all :: "'a list \<Rightarrow> 'a parents \<Rightarrow> ('a \<rightharpoonup> 'a) \<Rightarrow> ('a \<rightharpoonup> 'a) option" where
  "find_all [] p reps = Some reps"
| "find_all (c # cs) p reps =
     (case uf_find c p of None \<Rightarrow> None | Some (r, p) \<Rightarrow> find_all cs p (reps(c \<mapsto> r)))"

definition coverColumnReps :: "hypergraph \<Rightarrow> relation_set \<Rightarrow> (jcolumn \<rightharpoonup> jcolumn) option" where
  "coverColumnReps h cover =
     (let columns = coverColumns h cover in
      case merge_all (uf_merge_better (betterRep (targetColumns h))) (cover_pairs h cover)
             (fold uf_add columns Map.empty) of
        None \<Rightarrow> None
      | Some p \<Rightarrow> find_all columns p Map.empty)"

section \<open>Demand\<close>

definition edge_needs :: "hypergraph \<Rightarrow> join_edge \<Rightarrow> jcolumn list \<Rightarrow> jcolumn list" where
  "edge_needs h e needed =
     (let needed = pos_unionColumns needed (leftKeys e);
          needed = pos_unionColumns needed (rightKeys e);
          needed = pos_unionColumns needed (edge_filter e);
          needed = pos_union needed (sourceColumns e)
      in if isUnnest e
         then pos_unionColumns needed
           (unnestExpressions (rel_node (relations h ! rs_min (rightEndpoints e))))
         else needed)"

definition source_pass :: "(jcolumn \<times> jcolumn) list \<Rightarrow> jcolumn list \<Rightarrow> jcolumn list" where
  "source_pass ps needed = fold (\<lambda>(out, src) needed. if out \<in> set needed then pos_add src needed else needed) ps needed"

definition output_pairs :: "hypergraph \<Rightarrow> (jcolumn \<times> jcolumn) list" where
  "output_pairs h = concat (map (\<lambda>e. zip (outputColumns e) (sourceColumns e)) (edges h))"

lemma set_pos_add [simp]: "set (pos_add c cs) = insert c (set cs)"
  by (auto simp: pos_add_def set_insort_key)

lemma distinct_pos_add: "distinct cs \<Longrightarrow> distinct (pos_add c cs)"
  by (simp add: pos_add_def distinct_insort)

lemma length_pos_add: "length (pos_add c cs) = (if c \<in> set cs then length cs else Suc (length cs))"
  by (simp add: pos_add_def)

lemma source_pass_grows:
  "set cs \<subseteq> set (source_pass ps cs) \<and> set (source_pass ps cs) \<subseteq> set cs \<union> snd ` set ps \<and>
   length cs \<le> length (source_pass ps cs) \<and>
   (length (source_pass ps cs) \<noteq> length cs \<longrightarrow> set cs \<noteq> set (source_pass ps cs))"
proof (induction ps arbitrary: cs)
  case (Cons q ps)
  obtain out src where q: "q = (out, src)" by (cases q)
  show ?case
  proof (cases "out \<in> set cs \<and> src \<notin> set cs")
    case True
    then show ?thesis
      using Cons [of "pos_add src cs"] by (auto simp: source_pass_def q length_pos_add)
  next
    case False
    then have "source_pass (q # ps) cs = source_pass ps cs" by (auto simp: source_pass_def q pos_add_def)
    then show ?thesis using Cons [of cs] by auto
  qed
qed (simp add: source_pass_def)

function demand_loop :: "(jcolumn \<times> jcolumn) list \<Rightarrow> jcolumn list \<Rightarrow> jcolumn list" where
  "demand_loop ps needed =
     (let next = source_pass ps needed
      in if length next \<noteq> length needed then demand_loop ps next else next)"
  by pat_completeness auto
termination
proof (relation "measure (\<lambda>(ps, needed). card (snd ` set ps - set needed))")
  fix ps needed "next"
  assume "next = source_pass ps needed" "length next \<noteq> length needed"
  then have "set needed \<subset> set next" "set next \<subseteq> set needed \<union> snd ` set ps"
    using source_pass_grows [of needed ps] by auto
  then have "snd ` set ps - set next \<subset> snd ` set ps - set needed" by auto
  then show "((ps, next), ps, needed) \<in> measure (\<lambda>(ps, needed). card (snd ` set ps - set needed))"
    by (simp add: psubset_card_mono)
qed simp

declare demand_loop.simps [simp del]

definition neededAbove :: "hypergraph \<Rightarrow> relation_set \<Rightarrow> jcolumn list" where
  "neededAbove h cover =
     (let needed = fold (\<lambda>e needed.
            if \<not> rs_isSubset (totalEligibility e) cover then edge_needs h e needed else needed)
            (edges h) (targetColumns h);
          needed = demand_loop (output_pairs h) needed
      in fold (\<lambda>c needed.
           if \<not> rs_isSubset (fc_relations c) cover
           then pos_unionColumns needed [the (fc_expr c)] else needed)
         (filterConjuncts h) needed)"

definition computeOutputColumns :: "hypergraph \<Rightarrow> relation_set \<Rightarrow> jcolumn list option" where
  "computeOutputColumns h cover =
     (let demand = filter (\<lambda>c. c \<in> set (neededAbove h cover)) (coverColumns h cover)
      in case coverColumnReps h cover of
           None \<Rightarrow> None
         | Some reps \<Rightarrow>
             Some (fold (\<lambda>column columns. pos_add
               (case reps column of Some r \<Rightarrow> r | None \<Rightarrow> column) columns) demand []))"

definition coverOutputColumns :: "hypergraph \<Rightarrow> relation_set \<Rightarrow> (jcolumn list \<times> hypergraph) option" where
  "coverOutputColumns h cover =
     (case coverOutputColumnsCache h cover of
        Some columns \<Rightarrow> Some (columns, h)
      | None \<Rightarrow>
          (case computeOutputColumns h cover of
             None \<Rightarrow> None
           | Some columns \<Rightarrow>
               Some (columns,
                 h\<lparr>coverOutputColumnsCache := (coverOutputColumnsCache h)(cover \<mapsto> columns)\<rparr>)))"

section \<open>The columns of a cover\<close>

lemma set_pos_union [simp]: "set (pos_union cs ds) = set cs \<union> set ds"
  unfolding pos_union_def by (induction ds arbitrary: cs) auto

lemma set_pos_unionColumns [simp]:
  "set (pos_unionColumns cs es) = set cs \<union> (\<Union>e\<in>set es. set (key_columns e))"
  unfolding pos_unionColumns_def by (induction es arbitrary: cs) auto

lemma set_add_outputs:
  "set (add_outputs e cs) = set cs \<union>
     {out. \<exists>src. (out, src) \<in> set (zip (outputColumns e) (sourceColumns e)) \<and> out \<noteq> src}"
proof -
  have "set (fold (\<lambda>(out, src) cs. if out \<noteq> src then pos_add out cs else cs) ps cs) =
      set cs \<union> {out. \<exists>src. (out, src) \<in> set ps \<and> out \<noteq> src}" for ps
    by (induction ps arbitrary: cs) (auto split: if_splits)
  then show ?thesis by (simp add: add_outputs_def)
qed

lemma set_fold_guarded:
  assumes "\<And>x cs. set (f x cs) = set cs \<union> F x"
  shows "set (fold (\<lambda>x cs. if \<not> P x then cs else f x cs) xs cs) = set cs \<union> (\<Union>x\<in>{x \<in> set xs. P x}. F x)"
  by (induction xs arbitrary: cs) (auto simp: assms)

lemma set_coverColumns:
  "set (coverColumns h cover) =
     (\<Union>i\<in>ids cover. set (rel_columns (relations h ! i))) \<union>
     {out. \<exists>e\<in>set (edges h). ids (totalEligibility e) \<subseteq> ids cover \<and>
        (\<exists>src. (out, src) \<in> set (zip (outputColumns e) (sourceColumns e)) \<and> out \<noteq> src)}"
proof -
  have "set (fold (\<lambda>i cs. pos_union cs (rel_columns (relations h ! i))) is cs) =
      set cs \<union> (\<Union>i\<in>set is. set (rel_columns (relations h ! i)))" for "is" cs
    by (induction "is" arbitrary: cs) auto
  then have "set (rs_forEach (\<lambda>i cs. pos_union cs (rel_columns (relations h ! i))) cover []) =
      (\<Union>i\<in>ids cover. set (rel_columns (relations h ! i)))"
    by (simp add: ids_forEach)
  then show ?thesis
    unfolding coverColumns_def set_fold_guarded [OF set_add_outputs] by (auto simp: ids_isSubset)
qed

lemma coverColumns_mono:
  "ids a \<subseteq> ids b \<Longrightarrow> set (coverColumns h a) \<subseteq> set (coverColumns h b)"
  unfolding set_coverColumns by blast

lemma set_key_pair:
  "set (key_pair cs k) = {(l, r). l \<in> set cs \<and> r \<in> set cs \<and> k = (ColumnKey l, ColumnKey r)}"
  by (cases k; cases "fst k"; cases "snd k") (auto simp: key_pair_def)

lemma set_cover_pairs:
  "set (cover_pairs h cover) =
     {(l, r). l \<in> set (coverColumns h cover) \<and> r \<in> set (coverColumns h cover) \<and>
        (\<exists>e\<in>set (edges h). provesKeyEquality (joinType e) \<and> ids (totalEligibility e) \<subseteq> ids cover \<and>
           (ColumnKey l, ColumnKey r) \<in> set (zip (leftKeys e) (rightKeys e)))}"
  unfolding cover_pairs_def by (auto simp: ids_isSubset set_key_pair split: if_splits)

lemma cover_pairs_mono: "ids a \<subseteq> ids b \<Longrightarrow> set (cover_pairs h a) \<subseteq> set (cover_pairs h b)"
  unfolding set_cover_pairs using coverColumns_mono [of a b h] by blast

text \<open>The order of preference, as a key: targets first, then the name, then the id.\<close>

definition rep_key :: "jcolumn list \<Rightarrow> jcolumn \<Rightarrow> bool \<times> string \<times> nat" where
  "rep_key target c = (c \<notin> set target, jc_name c, jc_id c)"

lemma betterRep_key: "betterRep target a b \<longleftrightarrow> rep_key target a < rep_key target b"
  by (auto simp: betterRep_def rep_key_def Let_def less_prod_def' split: if_splits)

lemma find_all_result:
  "uf_ok p \<Longrightarrow> find_all cs p reps = Some (\<lambda>c. if c \<in> set cs then Some (root p c) else reps c)"
proof (induction cs arbitrary: p reps)
  case (Cons c cs)
  obtain p1 where p1: "uf_find c p = Some (root p c, p1)" "uf_ok p1" "root p1 = root p"
    using find_ok [OF Cons.prems] by blast
  have "find_all (c # cs) p reps = find_all cs p1 (reps(c \<mapsto> root p c))" by (simp add: p1(1))
  also have "\<dots> = Some (\<lambda>d. if d \<in> set cs then Some (root p d) else (reps(c \<mapsto> root p c)) d)"
    unfolding Cons.IH [OF p1(2)] p1(3) ..
  also have "\<dots> = Some (\<lambda>d. if d \<in> set (c # cs) then Some (root p d) else reps d)"
    by (rule arg_cong [of _ _ Some]) auto
  finally show ?case .
qed simp

abbreviation cover_classes :: "hypergraph \<Rightarrow> relation_set \<Rightarrow> (jcolumn \<times> jcolumn) set" where
  "cover_classes h cover \<equiv> eqc (set (cover_pairs h cover))"

lemma eqc_closed:
  assumes "(x, y) \<in> eqc R" and "\<And>a b. (a, b) \<in> R \<Longrightarrow> a \<in> S \<and> b \<in> S" and "x \<in> S"
  shows "y \<in> S"
  using assms(1) unfolding eqc_def
  by (induction rule: rtrancl_induct) (use assms in auto)

lemma cover_classes_closed:
  "(x, y) \<in> cover_classes h cover \<Longrightarrow> x \<in> set (coverColumns h cover) \<Longrightarrow> y \<in> set (coverColumns h cover)"
  by (rule eqc_closed [of x y "set (cover_pairs h cover)"]) (auto simp: set_cover_pairs)

lemma coverColumnReps_result:
  "\<exists>reps. coverColumnReps h cover = Some (\<lambda>c. if c \<in> set (coverColumns h cover) then Some (reps c) else None) \<and>
     (\<forall>x. (x, reps x) \<in> cover_classes h cover) \<and>
     (\<forall>x y. reps x = reps y \<longleftrightarrow> (x, y) \<in> cover_classes h cover) \<and>
     (\<forall>x y. (x, y) \<in> cover_classes h cover \<longrightarrow>
        rep_key (targetColumns h) (reps x) \<le> rep_key (targetColumns h) y)"
proof -
  let ?p0 = "fold uf_add (coverColumns h cover) Map.empty" and ?key = "rep_key (targetColumns h)"
  have better: "betterRep (targetColumns h) = (\<lambda>a b. ?key a < ?key b)"
    by (simp add: fun_eq_iff betterRep_key)
  from merges_from_discrete [OF discrete_adds, of "\<lambda>a b. ?key a < ?key b" "cover_pairs h cover"]
  obtain p where p: "merge_all (uf_merge_better (\<lambda>a b. ?key a < ?key b)) (cover_pairs h cover) ?p0 = Some p"
    "uf_ok p" "\<forall>x y. root p x = root p y \<longleftrightarrow> (x, y) \<in> cover_classes h cover" by blast
  note best = best_from_discrete [OF discrete_adds p(1)]
  have "coverColumnReps h cover =
      Some (\<lambda>c. if c \<in> set (coverColumns h cover) then Some (root p c) else None)"
    unfolding coverColumnReps_def Let_def better p(1) option.case find_all_result [OF p(2)] by simp
  moreover have "\<forall>x. (x, root p x) \<in> cover_classes h cover" using eqc_sym [OF best(1)] by blast
  moreover have "\<forall>x y. (x, y) \<in> cover_classes h cover \<longrightarrow> ?key (root p x) \<le> ?key y"
    using best(2) by blast
  ultimately show ?thesis using p(3) by (intro exI [of _ "root p"] conjI)
qed

section \<open>The demand\<close>

inductive demanded :: "(jcolumn \<times> jcolumn) set \<Rightarrow> jcolumn set \<Rightarrow> jcolumn \<Rightarrow> bool" for P S where
  demanded_base: "c \<in> S \<Longrightarrow> demanded P S c"
| demanded_source: "demanded P S out \<Longrightarrow> (out, src) \<in> P \<Longrightarrow> demanded P S src"

lemma source_pass_sound:
  "set ps \<subseteq> P \<Longrightarrow> \<forall>c\<in>set cs. demanded P S c \<Longrightarrow> \<forall>c\<in>set (source_pass ps cs). demanded P S c"
proof (induction ps arbitrary: cs)
  case (Cons q ps)
  obtain out src where q: "q = (out, src)" by (cases q)
  let ?cs = "if out \<in> set cs then pos_add src cs else cs"
  have "\<forall>c\<in>set ?cs. demanded P S c"
    using Cons.prems q demanded_source [of P S out src] by auto
  from Cons.IH [OF _ this] Cons.prems(1) show ?case by (simp add: source_pass_def q)
qed (simp add: source_pass_def)

lemma source_pass_fixed:
  "length (source_pass ps cs) = length cs \<Longrightarrow>
   source_pass ps cs = cs \<and> (\<forall>(out, src)\<in>set ps. out \<in> set cs \<longrightarrow> src \<in> set cs)"
proof (induction ps)
  case (Cons q ps)
  obtain out src where q: "q = (out, src)" by (cases q)
  have step: "source_pass (q # ps) cs = source_pass ps (if out \<in> set cs then pos_add src cs else cs)"
    by (simp add: source_pass_def q)
  have stay: "out \<in> set cs \<longrightarrow> src \<in> set cs"
  proof (rule ccontr)
    assume "\<not> (out \<in> set cs \<longrightarrow> src \<in> set cs)"
    then have "Suc (length cs) \<le> length (source_pass (q # ps) cs)"
      using source_pass_grows [of "pos_add src cs" ps] by (simp add: step length_pos_add)
    then show False using Cons.prems by simp
  qed
  then have "source_pass (q # ps) cs = source_pass ps cs" by (simp add: step pos_add_def)
  then show ?case using Cons stay q by auto
qed (simp add: source_pass_def)

lemma set_demand_loop:
  "S \<subseteq> set cs \<Longrightarrow> \<forall>c\<in>set cs. demanded (set ps) S c \<Longrightarrow>
   set (demand_loop ps cs) = {c. demanded (set ps) S c}"
proof (induction ps cs rule: demand_loop.induct)
  case (1 ps cs)
  let ?next = "source_pass ps cs"
  have sound: "\<forall>c\<in>set ?next. demanded (set ps) S c" by (rule source_pass_sound) (use 1 in auto)
  show ?case
  proof (cases "length ?next = length cs")
    case False
    have "S \<subseteq> set ?next" using source_pass_grows [of cs ps] 1(2) by blast
    then show ?thesis using 1(1) [OF refl False _ sound] False demand_loop.simps by (simp add: Let_def)
  next
    case True
    note fixed = source_pass_fixed [OF True]
    have "c \<in> set cs" if "demanded (set ps) S c" for c
      using that by (induction rule: demanded.induct) (use fixed 1(2) in auto)
    then show ?thesis using 1(3) fixed True demand_loop.simps [of ps cs] by (auto simp: Let_def)
  qed
qed

text \<open>What the edges that are still to be applied read.\<close>

definition edge_reads :: "hypergraph \<Rightarrow> join_edge \<Rightarrow> jcolumn set" where
  "edge_reads h e =
     (\<Union>k\<in>set (leftKeys e) \<union> set (rightKeys e) \<union> set (edge_filter e). set (key_columns k)) \<union>
     set (sourceColumns e) \<union>
     (if isUnnest e
      then \<Union>k\<in>set (unnestExpressions (rel_node (relations h ! rs_min (rightEndpoints e)))). set (key_columns k)
      else {})"

definition demand_above :: "hypergraph \<Rightarrow> relation_set \<Rightarrow> jcolumn set" where
  "demand_above h cover =
     {c. demanded (set (output_pairs h))
        (set (targetColumns h) \<union>
         (\<Union>e\<in>{e \<in> set (edges h). \<not> ids (totalEligibility e) \<subseteq> ids cover}. edge_reads h e)) c} \<union>
     (\<Union>f\<in>{f \<in> set (filterConjuncts h). \<not> ids (fc_relations f) \<subseteq> ids cover}.
        set (key_columns (the (fc_expr f))))"

lemma set_edge_needs: "set (edge_needs h e cs) = set cs \<union> edge_reads h e"
  by (auto simp: edge_needs_def edge_reads_def Let_def)

lemma set_fold_guarded':
  assumes "\<And>x cs. set (f x cs) = set cs \<union> F x"
  shows "set (fold (\<lambda>x cs. if P x then f x cs else cs) xs cs) = set cs \<union> (\<Union>x\<in>{x \<in> set xs. P x}. F x)"
  by (induction xs arbitrary: cs) (auto simp: assms)

lemma set_neededAbove: "set (neededAbove h cover) = demand_above h cover"
proof -
  have conj: "set (pos_unionColumns cs [the (fc_expr f)]) = set cs \<union> set (key_columns (the (fc_expr f)))"
    for f cs by simp
  show ?thesis
    unfolding neededAbove_def Let_def set_fold_guarded' [OF conj] demand_above_def
    by (subst set_demand_loop [OF subset_refl])
      (auto simp: set_fold_guarded' [OF set_edge_needs] ids_isSubset intro: demanded_base)
qed

lemma set_fold_pos_add: "set (fold (\<lambda>c cs. pos_add (f c) cs) ds cs) = set cs \<union> f ` set ds"
  by (induction ds arbitrary: cs) auto

lemma computeOutputColumns_result:
  "\<exists>reps cs. coverColumnReps h cover = Some reps \<and> computeOutputColumns h cover = Some cs \<and>
     set cs = (\<lambda>c. the (reps c)) ` (set (coverColumns h cover) \<inter> demand_above h cover)"
proof -
  obtain reps where reps: "coverColumnReps h cover = Some reps"
    and dom: "\<forall>c\<in>set (coverColumns h cover). reps c \<noteq> None"
    using coverColumnReps_result [of h cover] by (elim exE conjE) auto
  have "(\<lambda>c. case reps c of Some r \<Rightarrow> r | None \<Rightarrow> c) ` (set (coverColumns h cover) \<inter> demand_above h cover) =
      (\<lambda>c. the (reps c)) ` (set (coverColumns h cover) \<inter> demand_above h cover)"
    using dom by (intro image_cong refl) auto
  then show ?thesis
    unfolding computeOutputColumns_def Let_def reps option.case
    by (simp add: set_fold_pos_add set_neededAbove Int_def)
qed

section \<open>The memo table\<close>

text \<open>A graph in use: builder operations and queries, interleaved in any order.\<close>

inductive live_graph :: "hypergraph \<Rightarrow> bool" where
  live_empty: "live_graph empty_graph"
| live_build: "live_graph h \<Longrightarrow> build_step h h' \<Longrightarrow> live_graph h'"
| live_query: "live_graph h \<Longrightarrow> coverOutputColumns h cover = Some (cs, h') \<Longrightarrow> live_graph h'"

definition cache_ok :: "hypergraph \<Rightarrow> bool" where
  "cache_ok h \<longleftrightarrow> (\<forall>cover cs. coverOutputColumnsCache h cover = Some cs \<longrightarrow>
     computeOutputColumns h cover = Some cs)"

lemma compute_ignores_cache:
  "coverColumns (h\<lparr>coverOutputColumnsCache := m\<rparr>) cover = coverColumns h cover"
  "coverColumnReps (h\<lparr>coverOutputColumnsCache := m\<rparr>) cover = coverColumnReps h cover"
  "neededAbove (h\<lparr>coverOutputColumnsCache := m\<rparr>) cover = neededAbove h cover"
  "computeOutputColumns (h\<lparr>coverOutputColumnsCache := m\<rparr>) cover = computeOutputColumns h cover"
proof -
  show c: "coverColumns (h\<lparr>coverOutputColumnsCache := m\<rparr>) cover = coverColumns h cover"
    by (simp add: coverColumns_def)
  have "cover_pairs (h\<lparr>coverOutputColumnsCache := m\<rparr>) cover = cover_pairs h cover"
    unfolding cover_pairs_def c by simp
  then show r: "coverColumnReps (h\<lparr>coverOutputColumnsCache := m\<rparr>) cover = coverColumnReps h cover"
    by (simp add: coverColumnReps_def c)
  have en: "edge_needs (h\<lparr>coverOutputColumnsCache := m\<rparr>) = edge_needs h"
    by (intro ext) (simp add: edge_needs_def Let_def)
  show n: "neededAbove (h\<lparr>coverOutputColumnsCache := m\<rparr>) cover = neededAbove h cover"
    unfolding neededAbove_def en by (simp add: output_pairs_def)
  show "computeOutputColumns (h\<lparr>coverOutputColumnsCache := m\<rparr>) cover = computeOutputColumns h cover"
    unfolding computeOutputColumns_def c r n ..
qed

lemma coverOutputColumns_cached:
  assumes "cache_ok h"
  shows "\<exists>cs h'. coverOutputColumns h cover = Some (cs, h') \<and> computeOutputColumns h cover = Some cs \<and>
    cache_ok h' \<and> (\<exists>m. h' = h\<lparr>coverOutputColumnsCache := m\<rparr>)"
proof (cases "coverOutputColumnsCache h cover")
  case (Some cs)
  moreover have "\<exists>m. h = h\<lparr>coverOutputColumnsCache := m\<rparr>"
    by (rule exI [of _ "coverOutputColumnsCache h"]) simp
  ultimately show ?thesis using assms unfolding coverOutputColumns_def cache_ok_def by auto
next
  case None
  obtain cs where cs: "computeOutputColumns h cover = Some cs"
    using computeOutputColumns_result [of h cover] by blast
  let ?h = "h\<lparr>coverOutputColumnsCache := (coverOutputColumnsCache h)(cover \<mapsto> cs)\<rparr>"
  have "cache_ok ?h"
    using assms cs unfolding cache_ok_def compute_ignores_cache by simp
  moreover have "coverOutputColumns h cover = Some (cs, ?h)"
    unfolding coverOutputColumns_def None cs by simp
  ultimately show ?thesis using cs by blast
qed

lemma live_graph_ok: "live_graph h \<Longrightarrow> graph_ok h \<and> cache_ok h"
proof (induction rule: live_graph.induct)
  case live_empty
  show ?case using graph_ok_empty by (simp add: cache_ok_def empty_graph_def)
next
  case (live_build h h')
  then show ?case using graph_ok_step build_step_clears by (auto simp: cache_ok_def)
next
  case (live_query h cover cs h')
  then obtain m where "h' = h\<lparr>coverOutputColumnsCache := m\<rparr>" "cache_ok h'"
    using coverOutputColumns_cached [of h cover] by auto
  moreover have "graph_ok (h\<lparr>coverOutputColumnsCache := m\<rparr>) = graph_ok h" by (simp add: graph_ok_def)
  ultimately show ?case using live_query by simp
qed

lemma built_live: "built_graph h \<Longrightarrow> live_graph h"
  by (induction rule: built_graph.induct) (auto intro: live_graph.intros)

section \<open>Properties\<close>

text \<open>
  What the representatives have to be, stated on the relations and edges of the graph: the columns
  a cover supplies, the columns that keys inside the cover make equal, and the preference.
\<close>

definition supplied :: "hypergraph \<Rightarrow> relation_set \<Rightarrow> jcolumn set" where
  "supplied h cover =
     (\<Union>i\<in>ids cover. set (rel_columns (relations h ! i))) \<union>
     {outputColumns e ! k | e k. e \<in> set (edges h) \<and>
        ids (leftEligibility e) \<union> ids (rightEligibility e) \<subseteq> ids cover \<and>
        k < length (outputColumns e) \<and> k < length (sourceColumns e) \<and>
        outputColumns e ! k \<noteq> sourceColumns e ! k}"

inductive made_equal :: "hypergraph \<Rightarrow> relation_set \<Rightarrow> jcolumn \<Rightarrow> jcolumn \<Rightarrow> bool" for h cover where
  made_equal_refl: "made_equal h cover c c"
| made_equal_key: "e \<in> set (edges h) \<Longrightarrow> joinType e = KInner \<or> joinType e = KCountingLeftSemiFilter \<Longrightarrow>
    ids (leftEligibility e) \<union> ids (rightEligibility e) \<subseteq> ids cover \<Longrightarrow>
    k < length (leftKeys e) \<Longrightarrow> k < length (rightKeys e) \<Longrightarrow>
    leftKeys e ! k = ColumnKey c \<Longrightarrow> rightKeys e ! k = ColumnKey d \<Longrightarrow>
    c \<in> supplied h cover \<Longrightarrow> d \<in> supplied h cover \<Longrightarrow> made_equal h cover c d"
| made_equal_sym: "made_equal h cover c d \<Longrightarrow> made_equal h cover d c"
| made_equal_trans: "made_equal h cover c d \<Longrightarrow> made_equal h cover d a \<Longrightarrow> made_equal h cover c a"

definition preferred :: "jcolumn set \<Rightarrow> jcolumn \<Rightarrow> jcolumn \<Rightarrow> bool" where
  "preferred target c d \<longleftrightarrow>
     c \<in> target \<and> d \<notin> target \<or>
     (c \<in> target \<longleftrightarrow> d \<in> target) \<and>
       (jc_name c < jc_name d \<or> jc_name c = jc_name d \<and> jc_id c < jc_id d)"

lemma betterRep_preferred: "betterRep target c d \<longleftrightarrow> preferred (set target) c d"
  by (auto simp: betterRep_def preferred_def Let_def)

lemma ids_total: "ids (totalEligibility e) = ids (leftEligibility e) \<union> ids (rightEligibility e)"
  by (simp add: totalEligibility_def rs_unionSet_def flip: ids_unionSet)

lemma in_zip_nth: "(a, b) \<in> set (zip xs ys) \<longleftrightarrow> (\<exists>k<min (length xs) (length ys). xs ! k = a \<and> ys ! k = b)"
  by (auto simp: in_set_zip)

lemma set_coverColumns_supplied: "set (coverColumns h cover) = supplied h cover"
  unfolding set_coverColumns supplied_def ids_total in_zip_nth by auto

lemma made_equal_pair:
  assumes "(c, d) \<in> set (cover_pairs h cover)"
  shows "made_equal h cover c d"
proof -
  obtain e where e: "e \<in> set (edges h)" "provesKeyEquality (joinType e)" "ids (totalEligibility e) \<subseteq> ids cover"
    "(ColumnKey c, ColumnKey d) \<in> set (zip (leftKeys e) (rightKeys e))"
    and s: "c \<in> supplied h cover" "d \<in> supplied h cover"
    using assms unfolding set_cover_pairs set_coverColumns_supplied by blast
  obtain k where "k < length (leftKeys e)" "k < length (rightKeys e)"
    "leftKeys e ! k = ColumnKey c" "rightKeys e ! k = ColumnKey d"
    using e(4) by (auto simp: in_set_zip)
  then show ?thesis
    using made_equal_key [of e h cover k c d] e(1-3) s unfolding ids_total provesKeyEquality_def by blast
qed

lemma made_equal_classes: "made_equal h cover c d \<longleftrightarrow> (c, d) \<in> cover_classes h cover"
proof
  show "(c, d) \<in> cover_classes h cover" if "made_equal h cover c d"
    using that
  proof (induction rule: made_equal.induct)
    case (made_equal_key e k c d)
    then have "(c, d) \<in> set (cover_pairs h cover)"
      unfolding set_cover_pairs set_coverColumns_supplied provesKeyEquality_def ids_total in_zip_nth mem_Collect_eq split
      by (intro conjI bexI [of _ e] exI [of _ k]) simp_all
    then show ?case by (rule eqc_base)
  qed (blast intro: eqc_refl eqc_sym eqc_trans)+
next
  assume "(c, d) \<in> cover_classes h cover"
  then show "made_equal h cover c d"
    unfolding eqc_def
    by (induction rule: rtrancl_induct)
      (blast intro: made_equal_refl made_equal_sym made_equal_trans made_equal_pair)+
qed

text \<open>
  C19: The representatives of a cover. \<open>coverColumnReps\<close> returns on every graph and cover. It maps
  exactly the columns of the cover's relations and the copies made by joins inside the cover. Two
  columns have one representative exactly when the column keys of inner joins and counting left
  semi joins inside the cover connect them; the header of the class names inner joins only. The
  representative is a column of the cover, of the same group, that is preferred to every other
  column of its group: a target column if there is one, then the least name, then the least id.
\<close>

theorem cover_reps_best:
  "\<exists>reps. coverColumnReps h cover = Some reps \<and> dom reps = supplied h cover \<and>
     (\<forall>c\<in>dom reps. \<forall>d\<in>dom reps. reps c = reps d \<longleftrightarrow> made_equal h cover c d) \<and>
     (\<forall>c r. reps c = Some r \<longrightarrow> r \<in> supplied h cover \<and> made_equal h cover c r \<and>
        (\<forall>d. made_equal h cover c d \<longrightarrow> \<not> preferred (set (targetColumns h)) d r))"
proof -
  obtain f where f: "coverColumnReps h cover =
      Some (\<lambda>c. if c \<in> set (coverColumns h cover) then Some (f c) else None)"
    "\<forall>x. (x, f x) \<in> cover_classes h cover"
    "\<forall>x y. f x = f y \<longleftrightarrow> (x, y) \<in> cover_classes h cover"
    "\<forall>x y. (x, y) \<in> cover_classes h cover \<longrightarrow> rep_key (targetColumns h) (f x) \<le> rep_key (targetColumns h) y"
    using coverColumnReps_result by blast
  have "f c \<in> set (coverColumns h cover)" if "c \<in> set (coverColumns h cover)" for c
    using cover_classes_closed f(2) that by blast
  then show ?thesis
    unfolding f(1) betterRep_preferred [symmetric] set_coverColumns_supplied [symmetric] made_equal_classes
    using f(2-4)
    by (intro exI [of _ "\<lambda>c. if c \<in> set (coverColumns h cover) then Some (f c) else None"] conjI)
      (auto simp: dom_def betterRep_key not_less split: if_splits)
qed

text \<open>In the two-way join the column of the lesser name stands for both.\<close>

lemma two_way_columns:
  "set (coverColumns two_way_join (RelationSet 3)) = {fst two_columns, snd two_columns}"
  "set (cover_pairs two_way_join (RelationSet 3)) = {(fst two_columns, snd two_columns)}"
proof -
  show c: "set (coverColumns two_way_join (RelationSet 3)) = {fst two_columns, snd two_columns}"
    unfolding set_coverColumns by (auto simp: two_way_join_def)
  show "set (cover_pairs two_way_join (RelationSet 3)) = {(fst two_columns, snd two_columns)}"
    unfolding set_cover_pairs c by (rule set_eqI) (simp add: provesKeyEquality_def split_beta prod_eq_iff, blast)
qed

theorem cover_reps_best_witness:
  "\<exists>reps. coverColumnReps two_way_join (RelationSet 3) = Some reps \<and>
     reps (snd two_columns) = Some (fst two_columns)"
proof -
  let ?a = "fst two_columns" and ?b = "snd two_columns"
  obtain reps where reps: "coverColumnReps two_way_join (RelationSet 3) = Some reps"
    "dom reps = {?a, ?b}"
    and best: "\<forall>c r. reps c = Some r \<longrightarrow> r \<in> {?a, ?b} \<and> made_equal two_way_join (RelationSet 3) c r \<and>
      (\<forall>d. made_equal two_way_join (RelationSet 3) c d \<longrightarrow>
         \<not> preferred (set (targetColumns two_way_join)) d r)"
    using cover_reps_best [of two_way_join "RelationSet 3"]
    unfolding set_coverColumns_supplied [symmetric] two_way_columns(1) by (elim exE conjE) (rule that)
  obtain r where r: "reps ?b = Some r" using reps(2) by blast
  have "made_equal two_way_join (RelationSet 3) ?b ?a"
    by (rule made_equal_sym, rule made_equal_pair) (simp add: two_way_columns(2))
  with best [rule_format, OF r] have "\<not> preferred (set (targetColumns two_way_join)) ?a r" "r \<in> {?a, ?b}"
    by simp_all
  moreover have "preferred (set (targetColumns two_way_join)) ?a ?b"
    by (simp add: preferred_def two_way_join_def empty_graph_def two_columns_def)
  ultimately have "r = ?a" by blast
  with reps(1) r show ?thesis by blast
qed

text \<open>
  C36: The choice of representatives does not depend on the order of joins. A column that
  represents its group in a larger cover represents itself in every smaller cover that can
  supply it, so a join's representative is already the representative in the child it comes
  from. Column ids identify columns.
\<close>

theorem representative_stable:
  assumes "ids a \<subseteq> ids b" and "inj_on jc_id (set (coverColumns h b))"
    and "coverColumnReps h b = Some rb" and "rb c = Some r" and "r \<in> set (coverColumns h a)"
  shows "\<exists>ra. coverColumnReps h a = Some ra \<and> ra r = Some r"
proof -
  let ?key = "rep_key (targetColumns h)"
  obtain f where f: "coverColumnReps h a = Some (\<lambda>c. if c \<in> set (coverColumns h a) then Some (f c) else None)"
    "\<forall>x. (x, f x) \<in> cover_classes h a" "\<forall>x y. (x, y) \<in> cover_classes h a \<longrightarrow> ?key (f x) \<le> ?key y"
    using coverColumnReps_result by blast
  obtain g where g: "coverColumnReps h b = Some (\<lambda>c. if c \<in> set (coverColumns h b) then Some (g c) else None)"
    "\<forall>x. (x, g x) \<in> cover_classes h b" "\<forall>x y. (x, y) \<in> cover_classes h b \<longrightarrow> ?key (g x) \<le> ?key y"
    using coverColumnReps_result by blast
  have r: "r = g c" "c \<in> set (coverColumns h b)" using assms(3,4) g(1) by (auto split: if_splits)
  have "(r, f r) \<in> cover_classes h b"
    using f(2) eqc_mono [OF cover_pairs_mono [OF assms(1), of h]] by blast
  then have "(c, f r) \<in> cover_classes h b" using g(2) r(1) eqc_trans by metis
  then have "?key r \<le> ?key (f r)" using g(3) r(1) by blast
  moreover have "?key (f r) \<le> ?key r" by (rule f(3) [rule_format, OF eqc_refl])
  ultimately have "?key r = ?key (f r)" by (rule antisym)
  then have "jc_id (f r) = jc_id r" by (simp add: rep_key_def)
  moreover have "f r \<in> set (coverColumns h b)" "r \<in> set (coverColumns h b)"
    using cover_classes_closed f(2) assms(5) coverColumns_mono [OF assms(1), of h] by blast+
  ultimately have "f r = r" using assms(2) by (auto dest: inj_onD)
  then show ?thesis using f(1) assms(5) by auto
qed

theorem representative_stable_witness:
  "\<exists>ra. coverColumnReps two_way_join (RelationSet 1) = Some ra \<and> ra (fst two_columns) = Some (fst two_columns)"
proof -
  let ?a = "fst two_columns" and ?b = "snd two_columns"
  obtain f where f: "coverColumnReps two_way_join (RelationSet 3) =
      Some (\<lambda>c. if c \<in> {?a, ?b} then Some (f c) else None)"
    "\<forall>x. (x, f x) \<in> cover_classes two_way_join (RelationSet 3)"
    "\<forall>x y. (x, y) \<in> cover_classes two_way_join (RelationSet 3) \<longrightarrow>
       rep_key (targetColumns two_way_join) (f x) \<le> rep_key (targetColumns two_way_join) y"
    using coverColumnReps_result [of two_way_join "RelationSet 3"] unfolding two_way_columns(1) by blast
  have "f ?a \<in> {?a, ?b}"
    using cover_classes_closed [of ?a "f ?a" two_way_join "RelationSet 3"] f(2)
    unfolding two_way_columns(1) by blast
  moreover have "rep_key (targetColumns two_way_join) (f ?a) \<le> rep_key (targetColumns two_way_join) ?a"
    by (rule f(3) [rule_format, OF eqc_refl])
  moreover have "\<not> rep_key (targetColumns two_way_join) ?b \<le> rep_key (targetColumns two_way_join) ?a"
    by (simp add: rep_key_def two_way_join_def empty_graph_def two_columns_def)
  ultimately have fa: "f ?a = ?a" by (metis insertE singletonD)
  have inj: "inj_on jc_id (set (coverColumns two_way_join (RelationSet 3)))"
    unfolding two_way_columns(1) by (simp add: two_columns_def)
  have mem: "?a \<in> set (coverColumns two_way_join (RelationSet 1))"
    unfolding set_coverColumns by (simp add: two_way_join_def)
  show ?thesis
    by (rule representative_stable [OF _ inj f(1) _ mem, of ?a]) (simp_all add: fa)
qed

text \<open>
  C37: The memo table is never stale. In every graph in use, whatever sequence of builder
  operations and queries led to it, a query returns, gives what a computation from scratch
  gives, and changes nothing but the table. The answer is the set of representatives of the
  columns of the cover that are needed above it: targets, what the edges and filters that are
  not applied yet read, and the sources of needed join outputs, followed through any chain.
\<close>

theorem cover_output_exact:
  assumes "live_graph h"
  shows "\<exists>cs m reps. coverOutputColumns h cover = Some (cs, h\<lparr>coverOutputColumnsCache := m\<rparr>) \<and>
    computeOutputColumns h cover = Some cs \<and> coverColumnReps h cover = Some reps \<and>
    set cs = (\<lambda>c. the (reps c)) ` (set (coverColumns h cover) \<inter> demand_above h cover)"
proof -
  obtain cs m where cs: "coverOutputColumns h cover = Some (cs, h\<lparr>coverOutputColumnsCache := m\<rparr>)"
    "computeOutputColumns h cover = Some cs"
    using coverOutputColumns_cached live_graph_ok [OF assms] by blast
  then show ?thesis using computeOutputColumns_result [of h cover] by auto
qed

text \<open>After a query of the two-way join, the same query is answered from the table.\<close>

theorem cover_output_exact_witness:
  "\<exists>cs m. coverOutputColumns two_way_join (RelationSet 1) =
       Some (cs, two_way_join\<lparr>coverOutputColumnsCache := m\<rparr>) \<and>
     fst two_columns \<in> demand_above two_way_join (RelationSet 1) \<and> cs \<noteq> []"
proof -
  obtain cs m reps where cs: "coverOutputColumns two_way_join (RelationSet 1) =
      Some (cs, two_way_join\<lparr>coverOutputColumnsCache := m\<rparr>)"
    "set cs = (\<lambda>c. the (reps c)) ` (set (coverColumns two_way_join (RelationSet 1)) \<inter>
       demand_above two_way_join (RelationSet 1))"
    using cover_output_exact [OF built_live [OF built_two_way_join], of "RelationSet 1"] by blast
  have mem: "fst two_columns \<in> set (coverColumns two_way_join (RelationSet 1))"
    unfolding set_coverColumns by (simp add: two_way_join_def)
  have "fst two_columns \<in> edge_reads two_way_join two_way_edge"
    by (simp add: edge_reads_def two_way_edge_def)
  moreover have "\<not> ids (totalEligibility two_way_edge) \<subseteq> ids (RelationSet 1)" by simp
  ultimately have dem: "fst two_columns \<in> demand_above two_way_join (RelationSet 1)"
    unfolding demand_above_def by (auto intro!: demanded_base)
  have "the (reps (fst two_columns)) \<in> set cs" unfolding cs(2) using mem dem by blast
  then show ?thesis using cs(1) dem by auto
qed

end
