(* ===== verification/Interval_Parser.thy ===== *)
theory Interval_Parser
  imports Decimal
begin

text \<open>
  The parser of Presto interval literals (\<^verbatim>\<open>sql/presto/IntervalParser.cpp\<close> and the literal node in
  \<^verbatim>\<open>sql/presto/ast/AstLiterals.h\<close>). Positions in the value are indices as in the code. The code
  computes in \<^verbatim>\<open>int64_t\<close>, where overflow is undefined; the model computes in integers and yields
  \<open>SignedOverflow\<close> where a result leaves the range, and the bounds theorem shows that it never
  does. The value is a semantic error or a typed constant; the location attached to an error
  and the text of its message are not modelled.
\<close>

section \<open>Literals\<close>

datatype interval_sign = KPositive | KNegative

datatype interval_field = KYear | KMonth | KDay | KHour | KMinute | KSecond

fun field_index :: "interval_field \<Rightarrow> nat" where
  "field_index KYear = 0"
| "field_index KMonth = 1"
| "field_index KDay = 2"
| "field_index KHour = 3"
| "field_index KMinute = 4"
| "field_index KSecond = 5"

text \<open>The order of the enumeration.\<close>

lemma field_index_inj: "field_index a = field_index b \<Longrightarrow> a = b"
  by (cases a; cases b) simp_all

instantiation interval_field :: linorder
begin

definition less_eq_interval_field :: "interval_field \<Rightarrow> interval_field \<Rightarrow> bool" where
  "less_eq_interval_field a b \<longleftrightarrow> field_index a \<le> field_index b"

definition less_interval_field :: "interval_field \<Rightarrow> interval_field \<Rightarrow> bool" where
  "less_interval_field a b \<longleftrightarrow> field_index a < field_index b"

instance
  by standard (auto simp: less_eq_interval_field_def less_interval_field_def dest: field_index_inj)

end

record interval_literal =
  il_value :: string
  il_sign :: interval_sign
  il_startField :: interval_field
  il_endField :: "interval_field option"

definition isYearToMonth :: "interval_literal \<Rightarrow> bool" where
  "isYearToMonth l \<longleftrightarrow> il_startField l = KYear \<or> il_startField l = KMonth"

datatype separator = KSpace | KColon | KHyphen

datatype interval_error =
  TooManyDigits interval_field
  | ExpectedDigits interval_field
  | FieldTooLarge interval_field
  | TooManyIntegerDigits
  | TooManySecondDigits
  | NegativeField interval_field
  | ExpectedSeparator separator interval_field interval_field
  | UnexpectedCharacters string
  | TotalTooLarge
  | QualifierGroups
  | QualifierOrder
  | SignedOverflow
  | Unreachable

datatype interval_constant = IntervalYearMonth int | IntervalDayTime int

section \<open>Fields\<close>

definition kMaxDigits :: nat where
  "kMaxDigits = 10"

definition kMaxInt32 :: int where
  "kMaxInt32 = 2147483647"

text \<open>A signed 64-bit result, or undefined behaviour.\<close>

definition in64 :: "int \<Rightarrow> bool" where
  "in64 x \<longleftrightarrow> - 9223372036854775808 \<le> x \<and> x \<le> 9223372036854775807"

definition i64 :: "int \<Rightarrow> interval_error + int" where
  "i64 x = (if in64 x then Inr x else Inl SignedOverflow)"

definition isDigit :: "char \<Rightarrow> bool" where
  "isDigit c \<longleftrightarrow> of_char CHR ''0'' \<le> (of_char c :: nat) \<and> (of_char c :: nat) \<le> of_char CHR ''9''"

definition digit_value :: "char \<Rightarrow> int" where
  "digit_value c = int (of_char c) - int (of_char CHR ''0'')"

definition dayTimeField :: "interval_field \<Rightarrow> interval_error + nat" where
  "dayTimeField f =
     (case f of KDay \<Rightarrow> Inr 0 | KHour \<Rightarrow> Inr 1 | KMinute \<Rightarrow> Inr 2 | KSecond \<Rightarrow> Inr 3
      | _ \<Rightarrow> Inl Unreachable)"

text \<open>The loop of \<open>readNumber\<close>.\<close>

function number_loop ::
  "string \<Rightarrow> interval_field \<Rightarrow> nat \<Rightarrow> nat \<Rightarrow> int \<Rightarrow> interval_error + int \<times> nat" where
  "number_loop val field start pos number =
     (if pos < length val \<and> isDigit (val ! pos) then
        if pos - start = kMaxDigits then Inl (TooManyDigits field)
        else let n = number * 10 + digit_value (val ! pos)
             in if in64 n then number_loop val field start (Suc pos) n else Inl SignedOverflow
      else Inr (number, pos))"
  by pat_completeness auto
termination
  by (relation "measure (\<lambda>(val, field, start, pos, number). length val - pos)") auto

declare number_loop.simps [simp del]

definition readNumber :: "string \<Rightarrow> nat \<Rightarrow> interval_field \<Rightarrow> interval_error + int \<times> nat" where
  "readNumber val start field =
     bind_res (number_loop val field start start 0)
       (\<lambda>(number, pos).
          if pos = start \<and> \<not> (field = KSecond \<and> pos < length val \<and> val ! pos = CHR ''.'')
          then Inl (ExpectedDigits field)
          else if number > kMaxInt32 then Inl (FieldTooLarge field)
          else Inr (number, pos))"

text \<open>The two loops of \<open>readMillis\<close>.\<close>

function fraction_loop ::
  "string \<Rightarrow> nat \<Rightarrow> nat \<Rightarrow> nat \<Rightarrow> int \<Rightarrow> interval_error + int \<times> nat" where
  "fraction_loop val integerDigits start pos millis =
     (if pos < length val \<and> isDigit (val ! pos) then
        let fractionDigits = pos - start in
        if integerDigits + fractionDigits = kMaxDigits then Inl TooManySecondDigits
        else let m = (if fractionDigits < 3 then millis * 10 + digit_value (val ! pos) else millis)
             in if in64 m then fraction_loop val integerDigits start (Suc pos) m else Inl SignedOverflow
      else Inr (millis, pos))"
  by pat_completeness auto
termination
  by (relation "measure (\<lambda>(val, integerDigits, start, pos, millis). length val - pos)") auto

declare fraction_loop.simps [simp del]

function scale_loop :: "nat \<Rightarrow> int \<Rightarrow> interval_error + int" where
  "scale_loop digits millis =
     (if digits < 3 then
        if in64 (millis * 10) then scale_loop (Suc digits) (millis * 10) else Inl SignedOverflow
      else Inr millis)"
  by pat_completeness auto
termination
  by (relation "measure (\<lambda>(digits, millis). 3 - digits)") auto

declare scale_loop.simps [simp del]

definition readMillis :: "string \<Rightarrow> nat \<Rightarrow> nat \<Rightarrow> interval_error + int \<times> nat" where
  "readMillis val pos integerDigits =
     (if pos = length val \<or> val ! pos \<noteq> CHR ''.'' then Inr (0, pos)
      else if integerDigits \<ge> kMaxDigits then Inl TooManyIntegerDigits
      else let start = Suc pos in
        bind_res (fraction_loop val integerDigits start start 0)
          (\<lambda>(millis, pos).
             if integerDigits = 0 \<and> pos = start then Inl (ExpectedDigits KSecond)
             else bind_res (scale_loop (pos - start) millis) (\<lambda>millis. Inr (millis, pos))))"

definition readField :: "string \<Rightarrow> nat \<Rightarrow> interval_field \<Rightarrow> interval_error + int \<times> nat" where
  "readField val pos field =
     (let pos = (if pos < length val \<and> val ! pos = CHR ''+'' then Suc pos else pos) in
      if pos < length val \<and> val ! pos = CHR ''-'' then Inl (NegativeField field)
      else let start = pos in
        bind_res (readNumber val pos field)
          (\<lambda>(number, pos).
             if field = KSecond then
               bind_res (readMillis val pos (pos - start))
                 (\<lambda>(millis, pos). bind_res (i64 (number * 1000))
                    (\<lambda>n. bind_res (i64 (n + millis)) (\<lambda>n. Inr (n, pos))))
             else Inr (number, pos)))"

fun separator_char :: "separator \<Rightarrow> char" where
  "separator_char KSpace = CHR '' ''"
| "separator_char KColon = CHR '':''"
| "separator_char KHyphen = CHR ''-''"

definition readSeparator ::
  "string \<Rightarrow> nat \<Rightarrow> separator \<Rightarrow> interval_field \<Rightarrow> interval_field \<Rightarrow> interval_error + nat" where
  "readSeparator val pos sep previous next =
     (if val ! pos \<noteq> separator_char sep then Inl (ExpectedSeparator sep previous next)
      else Inr (Suc pos))"

definition checkEnd :: "string \<Rightarrow> nat \<Rightarrow> interval_error + unit" where
  "checkEnd val pos =
     (if pos < length val then Inl (UnexpectedCharacters (drop pos val)) else Inr ())"

section \<open>Values\<close>

definition kUnits :: "(interval_field \<times> int) list" where
  "kUnits = [(KDay, 24 * 60 * 60 * 1000), (KHour, 60 * 60 * 1000), (KMinute, 60 * 1000), (KSecond, 1)]"

function daytime_loop ::
  "string \<Rightarrow> nat \<Rightarrow> nat \<Rightarrow> nat \<Rightarrow> nat \<Rightarrow> int \<Rightarrow> interval_error + int \<times> nat" where
  "daytime_loop val first final index pos millis =
     (if index \<le> final \<and> pos < length val then
        (case
           (let (field, unitMillis) = kUnits ! index in
            bind_res
              (if index > first
               then readSeparator val pos (if index = 1 then KSpace else KColon)
                 (fst (kUnits ! (index - 1))) field
               else Inr pos)
              (\<lambda>pos. bind_res (readField val pos field)
                (\<lambda>(fieldValue, pos). bind_res (i64 (fieldValue * unitMillis))
                  (\<lambda>v. bind_res (i64 (millis + v)) (\<lambda>millis. Inr (millis, pos))))))
         of Inl e \<Rightarrow> Inl e
          | Inr (millis, pos) \<Rightarrow> daytime_loop val first final (Suc index) pos millis)
      else Inr (millis, pos))"
  by pat_completeness auto
termination
  by (relation "measure (\<lambda>(val, first, final, index, pos, millis). Suc final - index)") auto

declare daytime_loop.simps [simp del]

definition parseDayTime ::
  "string \<Rightarrow> nat \<Rightarrow> interval_field \<Rightarrow> interval_field \<Rightarrow> interval_error + int" where
  "parseDayTime val pos start end =
     bind_res (dayTimeField start)
       (\<lambda>first. bind_res (dayTimeField end)
         (\<lambda>last. bind_res (daytime_loop val first last first pos 0)
           (\<lambda>(millis, pos). bind_res (checkEnd val pos) (\<lambda>_. Inr millis))))"

definition parseYearMonth ::
  "string \<Rightarrow> nat \<Rightarrow> interval_field \<Rightarrow> interval_field \<Rightarrow> interval_error + int" where
  "parseYearMonth val pos start end =
     (if pos = length val then Inr 0
      else
        bind_res (readField val pos start)
          (\<lambda>(months, pos). bind_res (if start = KYear then i64 (months * 12) else Inr months)
            (\<lambda>months. bind_res
              (if start \<noteq> end \<and> pos < length val then
                 bind_res (readSeparator val pos KHyphen start end)
                   (\<lambda>pos. bind_res (readField val pos end)
                     (\<lambda>(lastField, pos). bind_res (i64 (months + lastField))
                       (\<lambda>months. Inr (months, pos))))
               else Inr (months, pos))
              (\<lambda>(months, pos).
                 if months > kMaxInt32 then Inl TotalTooLarge
                 else bind_res (checkEnd val pos) (\<lambda>_. Inr months)))))"

text \<open>The cast to \<^verbatim>\<open>int32_t\<close> keeps the low 32 bits.\<close>

definition cast32 :: "int \<Rightarrow> int" where
  "cast32 x = (x + 2147483648) mod 4294967296 - 2147483648"

text \<open>The checks of the qualifier and the signed number of months or milliseconds.\<close>

definition interval_value :: "interval_literal \<Rightarrow> interval_error + int" where
  "interval_value l =
     (let start = il_startField l;
          end = (case il_endField l of Some f \<Rightarrow> f | None \<Rightarrow> start);
          val = il_value l;
          yearMonth = isYearToMonth l;
          endYearMonth = (end = KYear \<or> end = KMonth)
      in check (yearMonth = endYearMonth) QualifierGroups
        (check (start \<le> end) QualifierOrder
          (let sign = (if il_sign l = KPositive then 1 else - 1 :: int);
               neg = (val \<noteq> [] \<and> val ! 0 = CHR ''-'');
               pos = (if neg then 1 else 0);
               sign = (if neg then - sign else sign)
           in bind_res (if yearMonth then parseYearMonth val pos start end
                        else parseDayTime val pos start end)
                (\<lambda>parsed. i64 (sign * parsed)))))"

definition interval_parse :: "interval_literal \<Rightarrow> interval_error + interval_constant" where
  "interval_parse l =
     bind_res (interval_value l)
       (\<lambda>v. if isYearToMonth l then Inr (IntervalYearMonth (cast32 v)) else Inr (IntervalDayTime v))"

section \<open>Reading a field\<close>

text \<open>The value of a string of digits, and of the digits after the decimal point in milliseconds.\<close>

definition push_digit :: "int \<Rightarrow> char \<Rightarrow> int" where
  "push_digit n c = n * 10 + digit_value c"

definition dec :: "string \<Rightarrow> int" where
  "dec ds = foldl push_digit 0 ds"

definition millis_of :: "string \<Rightarrow> int" where
  "millis_of fs = dec (take 3 fs) * 10 ^ (3 - length fs)"

definition starts :: "char \<Rightarrow> string \<Rightarrow> bool" where
  "starts c s \<longleftrightarrow> s \<noteq> [] \<and> hd s = c"

lemma digit_value_bounds: "isDigit c \<Longrightarrow> 0 \<le> digit_value c \<and> digit_value c \<le> 9"
proof -
  assume "isDigit c"
  then have "48 \<le> (of_char c :: nat)" "(of_char c :: nat) \<le> 57" by (simp_all add: isDigit_def)
  then show ?thesis unfolding digit_value_def by simp
qed

lemma push_digit_bounds:
  assumes "isDigit c" and "0 \<le> n" and "n < 10 ^ k"
  shows "0 \<le> push_digit n c" and "push_digit n c < 10 ^ Suc k"
  using assms digit_value_bounds [OF assms(1)] by (auto simp: push_digit_def)

lemma foldl_bounds:
  assumes "list_all isDigit ds" and "0 \<le> n" and "n < 10 ^ k"
  shows "0 \<le> foldl push_digit n ds \<and> foldl push_digit n ds < 10 ^ (k + length ds)"
  using assms
proof (induction ds arbitrary: n k)
  case (Cons d ds)
  then show ?case using Cons.IH [of "push_digit n d" "Suc k"] push_digit_bounds [of d n k] by simp
qed simp

lemma dec_bounds: "list_all isDigit ds \<Longrightarrow> 0 \<le> dec ds \<and> dec ds < 10 ^ length ds"
  unfolding dec_def using foldl_bounds [of ds 0 0] by simp

lemma all_digits_takeWhile [simp]: "list_all isDigit (takeWhile isDigit s)"
  by (auto simp: list_all_iff dest: set_takeWhileD)

lemma all_digits_take: "list_all isDigit ds \<Longrightarrow> list_all isDigit (take k ds)"
  by (auto simp: list_all_iff dest: in_set_takeD)

lemma power_less_in64: "0 \<le> x \<Longrightarrow> x < 10 ^ k \<Longrightarrow> k \<le> 18 \<Longrightarrow> in64 x"
proof -
  assume "0 \<le> x" "x < 10 ^ k" "k \<le> 18"
  moreover have "(10 :: int) ^ k \<le> 10 ^ 18" using \<open>k \<le> 18\<close> by (rule power_increasing) simp
  ultimately show ?thesis by (simp add: in64_def)
qed

lemma digits_at:
  "pos < length val \<and> isDigit (val ! pos) \<Longrightarrow>
     takeWhile isDigit (drop pos val) = val ! pos # takeWhile isDigit (drop (Suc pos) val)"
  "\<not> (pos < length val \<and> isDigit (val ! pos)) \<Longrightarrow> takeWhile isDigit (drop pos val) = []"
  by (auto simp: Cons_nth_drop_Suc [symmetric]) (cases "pos < length val"; simp add: Cons_nth_drop_Suc [symmetric])

lemma number_loop_result:
  assumes "start \<le> pos" and "pos - start \<le> kMaxDigits" and "0 \<le> n" and "n < 10 ^ (pos - start)"
  shows "number_loop val field start pos n =
    (let ds = takeWhile isDigit (drop pos val) in
     if pos - start + length ds \<le> kMaxDigits then Inr (foldl push_digit n ds, pos + length ds)
     else Inl (TooManyDigits field))"
  using assms
proof (induction val field start pos n rule: number_loop.induct)
  case (1 val field start pos n)
  let ?ds = "takeWhile isDigit (drop pos val)"
  show ?case
  proof (cases "pos < length val \<and> isDigit (val ! pos)")
    case False
    then show ?thesis using 1(3) digits_at(2) [OF False] by (subst number_loop.simps) auto
  next
    case True
    note ds = digits_at(1) [OF True]
    show ?thesis
    proof (cases "pos - start = kMaxDigits")
      case full: True
      then show ?thesis using True ds by (subst number_loop.simps) simp
    next
      case False
      let ?n = "push_digit n (val ! pos)"
      have b: "0 \<le> ?n" "?n < 10 ^ Suc (pos - start)" using push_digit_bounds [OF _ 1(4,5)] True by auto
      have S: "Suc pos - start = Suc (pos - start)" "Suc (pos - start) \<le> kMaxDigits"
        using 1(2,3) False by auto
      have "in64 ?n" using power_less_in64 [OF b] S(2) by (simp add: kMaxDigits_def)
      then have "number_loop val field start pos n = number_loop val field start (Suc pos) ?n"
        using True False by (subst number_loop.simps) (simp add: push_digit_def Let_def)
      then show ?thesis
        using 1(1) [OF True False refl] 1(2) b S \<open>in64 ?n\<close>
        by (simp add: ds push_digit_def Let_def) arith
    qed
  qed
qed

lemma fraction_loop_result:
  assumes "start \<le> pos" and "d + (pos - start) \<le> kMaxDigits" and "0 \<le> m" and "m < 10 ^ min 3 (pos - start)"
  shows "fraction_loop val d start pos m =
    (let fs = takeWhile isDigit (drop pos val) in
     if d + (pos - start) + length fs \<le> kMaxDigits
     then Inr (foldl push_digit m (take (3 - (pos - start)) fs), pos + length fs)
     else Inl TooManySecondDigits)"
  using assms
proof (induction val d start pos m rule: fraction_loop.induct)
  case (1 val d start pos m)
  show ?case
  proof (cases "pos < length val \<and> isDigit (val ! pos)")
    case False
    then show ?thesis using 1(3) digits_at(2) [OF False] by (subst fraction_loop.simps) auto
  next
    case True
    note ds = digits_at(1) [OF True]
    show ?thesis
    proof (cases "d + (pos - start) = kMaxDigits")
      case full: True
      then show ?thesis using True ds by (subst fraction_loop.simps) (simp add: Let_def)
    next
      case False
      let ?m = "if pos - start < 3 then push_digit m (val ! pos) else m"
      have S: "Suc pos - start = Suc (pos - start)" using 1(2) by auto
      have small: "pos - start < 3 \<Longrightarrow> min 3 (pos - start) = pos - start"
        "pos - start < 3 \<Longrightarrow> min 3 (Suc (pos - start)) = Suc (pos - start)" by simp_all
      have b: "0 \<le> ?m" "?m < 10 ^ min 3 (Suc pos - start)"
        using push_digit_bounds [of "val ! pos" m "pos - start"] 1(4,5) True small
        by (cases "pos - start < 3"; simp add: S)+
      have "in64 ?m" using power_less_in64 [OF b] by (simp add: min_def)
      then have "fraction_loop val d start pos m = fraction_loop val d start (Suc pos) ?m"
        using True False by (subst fraction_loop.simps) (auto simp: push_digit_def Let_def split: if_splits)
      moreover have "fraction_loop val d start (Suc pos) ?m =
          (let fs = takeWhile isDigit (drop (Suc pos) val) in
           if d + (Suc pos - start) + length fs \<le> kMaxDigits
           then Inr (foldl push_digit ?m (take (3 - (Suc pos - start)) fs), Suc pos + length fs)
           else Inl TooManySecondDigits)"
        using 1(1) [OF True refl False refl, folded push_digit_def, OF \<open>in64 ?m\<close> _ _ b] 1(2,3) False S
        by simp
      ultimately show ?thesis using False
        by (cases "pos - start < 3") (auto simp: ds S Let_def Suc_diff_Suc take_Cons' numeral_3_eq_3)
    qed
  qed
qed

lemma scale_loop_result:
  "0 \<le> m \<Longrightarrow> m < 1000 \<Longrightarrow> scale_loop k m = Inr (m * 10 ^ (3 - k))"
proof -
  assume m: "0 \<le> m" "m < 1000"
  have "in64 (m * 10)" "in64 (m * 10 * 10)" "in64 (m * 10 * 10 * 10)" using m by (auto simp: in64_def)
  note in64 = this
  consider "k = 0" | "k = 1" | "k = 2" | "3 \<le> k" by linarith
  then show ?thesis using in64 by cases (simp_all add: scale_loop.simps)
qed

text \<open>Reading a field as a function of the rest of the value: its number, and the length read.\<close>

definition lex_field :: "interval_field \<Rightarrow> string \<Rightarrow> interval_error + int \<times> nat" where
  "lex_field f s =
     (let plus = (if starts CHR ''+'' s then 1 else 0);
          s = drop plus s;
          ds = takeWhile isDigit s;
          r = dropWhile isDigit s;
          fs = takeWhile isDigit (tl r);
          point = (f = KSecond \<and> starts CHR ''.'' r)
      in if starts CHR ''-'' s then Inl (NegativeField f)
         else if length ds > kMaxDigits then Inl (TooManyDigits f)
         else if ds = [] \<and> \<not> point then Inl (ExpectedDigits f)
         else if dec ds > kMaxInt32 then Inl (FieldTooLarge f)
         else if point then
           if length ds \<ge> kMaxDigits then Inl TooManyIntegerDigits
           else if length ds + length fs > kMaxDigits then Inl TooManySecondDigits
           else if ds = [] \<and> fs = [] then Inl (ExpectedDigits KSecond)
           else Inr (dec ds * 1000 + millis_of fs, plus + length ds + 1 + length fs)
         else Inr (if f = KSecond then dec ds * 1000 else dec ds, plus + length ds))"

lemma starts_drop: "starts c (drop pos val) \<longleftrightarrow> pos < length val \<and> val ! pos = c"
  by (cases "pos < length val") (auto simp: starts_def hd_drop_conv_nth)

lemma drop_digits:
  "drop (pos + length (takeWhile isDigit (drop pos val))) val = dropWhile isDigit (drop pos val)"
  by (simp add: dropWhile_eq_drop add.commute)

lemma readNumber_result:
  "readNumber val start field =
     (let ds = takeWhile isDigit (drop start val) in
      if length ds > kMaxDigits then Inl (TooManyDigits field)
      else if ds = [] \<and> \<not> (field = KSecond \<and> starts CHR ''.'' (drop start val))
      then Inl (ExpectedDigits field)
      else if dec ds > kMaxInt32 then Inl (FieldTooLarge field)
      else Inr (dec ds, start + length ds))"
  unfolding readNumber_def
  by (subst number_loop_result) (auto simp: Let_def dec_def starts_drop)

lemma millis_of_bounds:
  assumes "list_all isDigit fs"
  shows "0 \<le> millis_of fs" "millis_of fs < 1000"
proof -
  have b: "0 \<le> dec (take 3 fs)" "dec (take 3 fs) < 10 ^ length (take 3 fs)"
    using dec_bounds [OF all_digits_take [OF assms]] by auto
  then show "0 \<le> millis_of fs" by (simp add: millis_of_def)
  have "millis_of fs < 10 ^ length (take 3 fs) * 10 ^ (3 - length fs)"
    unfolding millis_of_def using b(2) by (intro mult_strict_right_mono) simp_all
  also have "\<dots> = 10 ^ 3" by (simp add: power_add [symmetric] min_def)
  finally show "millis_of fs < 1000" by simp
qed

lemma readMillis_result:
  assumes "pos \<le> length val"
  shows "readMillis val pos d =
    (let fs = takeWhile isDigit (drop (Suc pos) val) in
     if \<not> starts CHR ''.'' (drop pos val) then Inr (0, pos)
     else if d \<ge> kMaxDigits then Inl TooManyIntegerDigits
     else if d + length fs > kMaxDigits then Inl TooManySecondDigits
     else if d = 0 \<and> fs = [] then Inl (ExpectedDigits KSecond)
     else Inr (millis_of fs, Suc pos + length fs))"
proof -
  let ?fs = "takeWhile isDigit (drop (Suc pos) val)"
  have "0 \<le> dec (take 3 ?fs)" "dec (take 3 ?fs) < 10 ^ length (take 3 ?fs)"
    using dec_bounds [OF all_digits_take] by auto
  moreover have "(10 :: int) ^ length (take 3 ?fs) \<le> 10 ^ 3" by (rule power_increasing) simp_all
  ultimately have b: "0 \<le> dec (take 3 ?fs)" "dec (take 3 ?fs) < 1000" by simp_all
  have "d < kMaxDigits \<Longrightarrow> fraction_loop val d (Suc pos) (Suc pos) 0 =
      (if d + length ?fs \<le> kMaxDigits then Inr (dec (take 3 ?fs), Suc pos + length ?fs)
       else Inl TooManySecondDigits)"
    by (subst fraction_loop_result) (simp_all add: Let_def dec_def)
  then show ?thesis
    using assms scale_loop_result [OF b]
    by (auto simp: readMillis_def Let_def starts_drop millis_of_def)
qed

lemma readField_result:
  assumes "pos \<le> length val"
  shows "readField val pos f = map_sum (\<lambda>e. e) (\<lambda>(n, k). (n, pos + k)) (lex_field f (drop pos val))"
proof -
  define p where "p = (if pos < length val \<and> val ! pos = CHR ''+'' then Suc pos else pos)"
  define plus :: nat where "plus = (if starts CHR ''+'' (drop pos val) then 1 else 0)"
  let ?s = "drop p val"
  let ?ds = "takeWhile isDigit ?s"
  have p: "p = pos + plus" "p \<le> length val" using assms by (auto simp: p_def plus_def starts_drop)
  have s: "drop plus (drop pos val) = ?s" by (simp add: p(1) add.commute)
  have rest: "drop (p + length ?ds) val = dropWhile isDigit ?s" by (rule drop_digits)
  have tail: "drop (Suc (p + length ?ds)) val = tl (dropWhile isDigit ?s)"
    by (simp add: rest [symmetric] drop_Suc tl_drop)
  have le: "p + length ?ds \<le> length val"
    using length_takeWhile_le [of isDigit ?s] p(2) by simp
  have bounds: "in64 (dec ?ds * 1000)" "in64 (dec ?ds * 1000 + millis_of fs)"
    if "\<not> dec ?ds > kMaxInt32" "list_all isDigit fs" for fs
    using that dec_bounds [of ?ds] millis_of_bounds [of fs] by (auto simp: in64_def kMaxInt32_def)
  have dot: "?ds = [] \<Longrightarrow> dropWhile isDigit ?s = ?s"
    by (metis append.left_neutral takeWhile_dropWhile_id)
  have rf: "readField val pos f =
      (if starts CHR ''-'' ?s then Inl (NegativeField f)
       else bind_res (readNumber val p f)
          (\<lambda>(number, q).
             if f = KSecond then
               bind_res (readMillis val q (q - p))
                 (\<lambda>(millis, q). bind_res (i64 (number * 1000))
                    (\<lambda>n. bind_res (i64 (n + millis)) (\<lambda>n. Inr (n, q))))
             else Inr (number, q)))"
    unfolding readField_def p_def [symmetric] by (simp add: Let_def starts_drop)
  note lf = lex_field_def [of f "drop pos val", folded plus_def, unfolded Let_def s]
  have rn: "readNumber val p f =
      (if length ?ds > kMaxDigits then Inl (TooManyDigits f)
       else if ?ds = [] \<and> \<not> (f = KSecond \<and> starts CHR ''.'' (dropWhile isDigit ?s))
       then Inl (ExpectedDigits f)
       else if dec ?ds > kMaxInt32 then Inl (FieldTooLarge f)
       else Inr (dec ?ds, p + length ?ds))"
    unfolding readNumber_result Let_def using dot by (cases "?ds = []") simp_all
  show ?thesis
  proof (cases "starts CHR ''-'' ?s \<or> length ?ds > kMaxDigits \<or> dec ?ds > kMaxInt32 \<or>
      ?ds = [] \<and> \<not> (f = KSecond \<and> starts CHR ''.'' (dropWhile isDigit ?s))")
    case True
    then show ?thesis unfolding rf rn lf by auto
  next
    case False
    then have num: "readNumber val p f = Inr (dec ?ds, p + length ?ds)" unfolding rn by auto
    let ?fs = "takeWhile isDigit (tl (dropWhile isDigit ?s))"
    have mil: "readMillis val (p + length ?ds) (length ?ds) =
        (if \<not> starts CHR ''.'' (dropWhile isDigit ?s) then Inr (0, p + length ?ds)
         else if length ?ds \<ge> kMaxDigits then Inl TooManyIntegerDigits
         else if length ?ds + length ?fs > kMaxDigits then Inl TooManySecondDigits
         else if length ?ds = 0 \<and> ?fs = [] then Inl (ExpectedDigits KSecond)
         else Inr (millis_of ?fs, Suc (p + length ?ds) + length ?fs))"
      unfolding readMillis_result [OF le] Let_def rest tail ..
    have big: "i64 (dec ?ds * 1000) = Inr (dec ?ds * 1000)"
      "i64 (dec ?ds * 1000 + millis_of ?fs) = Inr (dec ?ds * 1000 + millis_of ?fs)"
      using bounds [of ?fs] False by (simp_all add: i64_def)
    have shift: "pos + (plus + a) = p + a" "pos + Suc (plus + a + b) = Suc (p + a + b)" for a b
      by (simp_all add: p(1))
    show ?thesis
      using False unfolding rf lf num
      by (cases "f = KSecond") (auto simp: mil big shift)
  qed
qed

lemma starts_length: "starts c r \<Longrightarrow> 0 < length r"
  by (auto simp: starts_def)

lemma lex_field_length: "lex_field f s = Inr (n, k) \<Longrightarrow> 0 < k \<and> k \<le> length s"
proof -
  assume l: "lex_field f s = Inr (n, k)"
  define plus :: nat where "plus = (if starts CHR ''+'' s then 1 else 0)"
  define r where "r = dropWhile isDigit (drop plus s)"
  define R where "R = length r"
  have "plus \<le> length s" by (auto simp: plus_def starts_def Suc_le_eq)
  moreover have "length (takeWhile isDigit (drop plus s)) + R = length s - plus"
    unfolding R_def r_def by (metis length_append length_drop takeWhile_dropWhile_id)
  moreover have "length (takeWhile isDigit (tl r)) \<le> R - 1"
    using length_takeWhile_le [of isDigit "tl r"] by (simp add: R_def)
  moreover have "starts CHR ''.'' r \<Longrightarrow> 0 < R" unfolding R_def by (rule starts_length)
  ultimately show ?thesis
    using l unfolding lex_field_def plus_def [symmetric] Let_def r_def [symmetric]
    by (auto split: if_splits)
qed

section \<open>The language of interval values\<close>

definition all_digits :: "string \<Rightarrow> bool" where
  "all_digits ds \<longleftrightarrow> list_all isDigit ds"

text \<open>One field: an optional plus sign, digits, and for seconds a fraction.\<close>

inductive field_text :: "interval_field \<Rightarrow> string \<Rightarrow> int \<Rightarrow> bool" where
  whole_field: "pre \<in> {'''', ''+''} \<Longrightarrow> all_digits ds \<Longrightarrow> ds \<noteq> [] \<Longrightarrow> length ds \<le> 10 \<Longrightarrow>
    dec ds \<le> 2147483647 \<Longrightarrow> field_text f (pre @ ds) (if f = KSecond then dec ds * 1000 else dec ds)"
| fraction_field: "pre \<in> {'''', ''+''} \<Longrightarrow> all_digits ds \<Longrightarrow> all_digits fs \<Longrightarrow> ds @ fs \<noteq> [] \<Longrightarrow>
    length ds < 10 \<Longrightarrow> length ds + length fs \<le> 10 \<Longrightarrow> dec ds \<le> 2147483647 \<Longrightarrow>
    field_text KSecond (pre @ ds @ ''.'' @ fs) (dec ds * 1000 + millis_of fs)"

text \<open>Day-time fields after the first, each behind its separator; trailing fields may be missing.\<close>

inductive more_fields :: "nat \<Rightarrow> nat \<Rightarrow> string \<Rightarrow> int \<Rightarrow> bool" for final where
  more_none: "more_fields final i [] 0"
| more_some: "i \<le> final \<Longrightarrow> field_text (fst (kUnits ! i)) t n \<Longrightarrow> more_fields final (Suc i) r m \<Longrightarrow>
    more_fields final i ((if i = 1 then CHR '' '' else CHR '':'') # t @ r) (n * snd (kUnits ! i) + m)"

inductive day_time_text :: "nat \<Rightarrow> nat \<Rightarrow> string \<Rightarrow> int \<Rightarrow> bool" for first final where
  day_time_none: "day_time_text first final [] 0"
| day_time_some: "field_text (fst (kUnits ! first)) t n \<Longrightarrow> more_fields final (Suc first) r m \<Longrightarrow>
    day_time_text first final (t @ r) (n * snd (kUnits ! first) + m)"

definition months_per :: "interval_field \<Rightarrow> int" where
  "months_per f = (if f = KYear then 12 else 1)"

inductive year_month_text :: "interval_field \<Rightarrow> interval_field \<Rightarrow> string \<Rightarrow> int \<Rightarrow> bool" for start "end" where
  year_month_none: "year_month_text start end [] 0"
| year_month_one: "field_text start t n \<Longrightarrow> n * months_per start \<le> 2147483647 \<Longrightarrow>
    year_month_text start end t (n * months_per start)"
| year_month_two: "start \<noteq> end \<Longrightarrow> field_text start t n \<Longrightarrow> field_text end u m \<Longrightarrow>
    n * months_per start + m \<le> 2147483647 \<Longrightarrow>
    year_month_text start end (t @ CHR ''-'' # u) (n * months_per start + m)"

inductive_simps more_fields_simps: "more_fields final i [] m" "more_fields final i (c # s) m"
inductive_cases day_time_textE: "day_time_text first final s m"
inductive_cases year_month_textE: "year_month_text start end s m"

lemma digits_stop:
  assumes "all_digits ds" and "r = [] \<or> \<not> isDigit (hd r)"
  shows "takeWhile isDigit (ds @ r) = ds" "dropWhile isDigit (ds @ r) = r"
  using assms by (induction ds) (cases r; auto simp: all_digits_def)+

lemma no_digit [simp]:
  "\<not> isDigit CHR ''+''" "\<not> isDigit CHR ''-''" "\<not> isDigit CHR ''.''" "\<not> isDigit CHR '' ''" "\<not> isDigit CHR '':''"
  by (simp_all add: isDigit_def)

lemma digits_start: "all_digits ds \<Longrightarrow> \<not> isDigit c \<Longrightarrow> starts c (ds @ r) \<longleftrightarrow> ds = [] \<and> starts c r"
  by (cases ds) (auto simp: starts_def all_digits_def)

lemma strip_plus:
  assumes "pre \<in> {'''', ''+''}" and "\<not> starts CHR ''+'' s"
  shows "drop (if starts CHR ''+'' (pre @ s) then 1 else 0) (pre @ s) = s"
    "(if starts CHR ''+'' (pre @ s) then 1 else 0) = length pre"
  using assms by (auto simp: starts_def)

text \<open>What may follow a field.\<close>

definition stops :: "string \<Rightarrow> bool" where
  "stops r \<longleftrightarrow> r = [] \<or> hd r \<in> {CHR '' '', CHR '':'', CHR ''-''}"

lemma lex_field_complete:
  assumes "field_text f t n" and "stops r"
  shows "lex_field f (t @ r) = Inr (n, length t)"
  using assms(1)
proof cases
  case (whole_field pre ds)
  let ?s = "ds @ r"
  have stop: "r = [] \<or> \<not> isDigit (hd r)" "\<not> starts CHR ''.'' r" "\<not> starts CHR ''+'' r"
    using assms(2) by (auto simp: stops_def starts_def)
  note dig = digits_stop [OF whole_field(4) stop(1)]
  have sign: "\<not> starts CHR ''+'' ?s" "\<not> starts CHR ''-'' ?s"
    using digits_start [OF whole_field(4)] whole_field(5) by auto
  have t: "t @ r = pre @ ?s" "length t = length pre + length ds" by (simp_all add: whole_field)
  show ?thesis
    unfolding lex_field_def t(1) Let_def strip_plus [OF whole_field(3) sign(1)] dig
    using sign(2) stop(2) whole_field(5-7)
    by (simp add: t(2) dig whole_field(2) kMaxDigits_def kMaxInt32_def)
next
  case (fraction_field pre ds fs)
  let ?s = "ds @ CHR ''.'' # fs @ r"
  have stop: "r = [] \<or> \<not> isDigit (hd r)" using assms(2) by (auto simp: stops_def)
  have dot: "CHR ''.'' # fs @ r = [] \<or> \<not> isDigit (hd (CHR ''.'' # fs @ r))" by simp
  note dig = digits_stop [OF fraction_field(5) dot] digits_stop [OF fraction_field(6) stop]
  have sign: "\<not> starts CHR ''+'' ?s" "\<not> starts CHR ''-'' ?s"
    unfolding digits_start [OF fraction_field(5) no_digit(1)] digits_start [OF fraction_field(5) no_digit(2)]
    by (simp_all add: starts_def)
  have t: "t @ r = pre @ ?s" "length t = length pre + length ds + 1 + length fs"
    by (simp_all add: fraction_field)
  show ?thesis
    unfolding lex_field_def t(1) Let_def strip_plus [OF fraction_field(4) sign(1)] dig list.sel
    using sign(2) fraction_field(7-10)
    by (simp add: t(2) dig fraction_field(1,3) kMaxDigits_def kMaxInt32_def starts_def)
qed

lemma lex_field_sound:
  assumes "lex_field f s = Inr (n, k)"
  shows "field_text f (take k s) n"
proof -
  define pre where "pre = (if starts CHR ''+'' s then ''+'' else '''')"
  define u where "u = drop (length pre) s"
  have pl: "(if starts CHR ''+'' s then 1 else 0) = length pre" by (simp add: pre_def)
  have s: "s = pre @ u" by (cases s) (auto simp: pre_def u_def starts_def)
  let ?ds = "takeWhile isDigit u" and ?r = "dropWhile isDigit u"
  let ?fs = "takeWhile isDigit (tl ?r)"
  have u: "u = ?ds @ ?r" by simp
  have p: "pre \<in> {'''', ''+''}" by (simp add: pre_def)
  have ds: "all_digits ?ds" "all_digits ?fs" by (simp_all add: all_digits_def)
  note lf = assms [unfolded lex_field_def pl Let_def u_def [symmetric]]
  show ?thesis
  proof (cases "f = KSecond \<and> starts CHR ''.'' ?r")
    case True
    then have "?r = CHR ''.'' # tl ?r" by (cases ?r) (auto simp: starts_def)
    then have s': "s = (pre @ ?ds @ ''.'' @ ?fs) @ dropWhile isDigit (tl ?r)"
      using u unfolding s by (metis append.assoc append_Cons append_Nil takeWhile_dropWhile_id)
    have k: "n = dec ?ds * 1000 + millis_of ?fs" "k = length (pre @ ?ds @ ''.'' @ ?fs)"
      "?ds @ ?fs \<noteq> []" "length ?ds < 10" "length ?ds + length ?fs \<le> 10" "dec ?ds \<le> 2147483647"
      using lf True by (auto simp: kMaxDigits_def kMaxInt32_def not_less split: if_splits)
    have "take k s = pre @ ?ds @ ''.'' @ ?fs" unfolding k(2)
      by (subst s', rule append_eq_conv_conj [THEN iffD1, OF refl, THEN conjunct1, symmetric])
    then show ?thesis using field_text.fraction_field [OF p ds k(3-6)] True k(1) by simp
  next
    case False
    then have k: "n = (if f = KSecond then dec ?ds * 1000 else dec ?ds)" "k = length (pre @ ?ds)"
      "?ds \<noteq> []" "length ?ds \<le> 10" "dec ?ds \<le> 2147483647"
      using lf by (auto simp: kMaxDigits_def kMaxInt32_def not_less split: if_splits)
    have "s = (pre @ ?ds) @ ?r" unfolding s by simp
    then have "take k s = pre @ ?ds"
      unfolding k(2) by (rule append_eq_conv_conj [THEN iffD1, OF sym, THEN conjunct1, symmetric])
    then show ?thesis using field_text.whole_field [OF p ds(1) k(3-5)] k(1) by simp
  qed
qed

lemma field_text_bounds:
  assumes "field_text f t n"
  shows "0 \<le> n" "n \<le> 2147483647999" "f \<noteq> KSecond \<Longrightarrow> n \<le> 2147483647"
proof -
  have "0 \<le> n \<and> n \<le> 2147483647999 \<and> (f \<noteq> KSecond \<longrightarrow> n \<le> 2147483647)"
    using assms
  proof (induction rule: field_text.induct)
    case (whole_field pre ds f)
    then show ?case using dec_bounds [of ds] by (auto simp: all_digits_def)
  next
    case (fraction_field pre ds fs)
    then show ?case using dec_bounds [of ds] millis_of_bounds [of fs] by (auto simp: all_digits_def)
  qed
  then show "0 \<le> n" "n \<le> 2147483647999" "f \<noteq> KSecond \<Longrightarrow> n \<le> 2147483647" by auto
qed

lemma field_text_start: "field_text f t n \<Longrightarrow> t \<noteq> [] \<and> \<not> starts CHR ''-'' t"
proof (induction rule: field_text.induct)
  case (whole_field pre ds f)
  then show ?case by (cases ds) (auto simp: starts_def all_digits_def)
next
  case (fraction_field pre ds fs)
  then show ?case by (cases ds) (auto simp: starts_def all_digits_def)
qed

text \<open>Reading a field at a position, in terms of the language.\<close>

lemma readField_iff:
  assumes "pos \<le> length val"
  shows "readField val pos f = Inr (n, q) \<Longrightarrow>
      pos < q \<and> q \<le> length val \<and> field_text f (take (q - pos) (drop pos val)) n"
    and "drop pos val = t @ r \<Longrightarrow> field_text f t n \<Longrightarrow> stops r \<Longrightarrow>
      readField val pos f = Inr (n, pos + length t)"
    and "readField val pos f \<noteq> Inl SignedOverflow" and "readField val pos f \<noteq> Inl Unreachable"
proof -
  note rf = readField_result [OF assms, of f]
  show "pos < q \<and> q \<le> length val \<and> field_text f (take (q - pos) (drop pos val)) n"
    if r: "readField val pos f = Inr (n, q)"
  proof -
    obtain k where k: "lex_field f (drop pos val) = Inr (n, k)" "q = pos + k"
      using r unfolding rf by (cases "lex_field f (drop pos val)") auto
    then show ?thesis using lex_field_length [OF k(1)] lex_field_sound [OF k(1)] assms by auto
  qed
  show "readField val pos f = Inr (n, pos + length t)"
    if "drop pos val = t @ r" "field_text f t n" "stops r"
    unfolding rf that(1) lex_field_complete [OF that(2,3)] by simp
  show "readField val pos f \<noteq> Inl SignedOverflow" "readField val pos f \<noteq> Inl Unreachable"
    unfolding rf by (auto simp: lex_field_def Let_def split: if_splits)
qed

lemma more_fields_stops: "more_fields final i s m \<Longrightarrow> stops s"
  by (cases s) (auto simp: more_fields_simps stops_def)

lemma unit_bounds:
  assumes "i \<le> 3"
  shows "0 < snd (kUnits ! i)" "snd (kUnits ! i) \<le> 86400000"
    "fst (kUnits ! i) = KSecond \<Longrightarrow> snd (kUnits ! i) = 1"
proof -
  consider "i = 0" | "i = 1" | "i = 2" | "i = 3" using assms by linarith
  then have "0 < snd (kUnits ! i) \<and> snd (kUnits ! i) \<le> 86400000 \<and>
      (fst (kUnits ! i) = KSecond \<longrightarrow> snd (kUnits ! i) = 1)" by cases (simp_all add: kUnits_def)
  then show "0 < snd (kUnits ! i)" "snd (kUnits ! i) \<le> 86400000"
    "fst (kUnits ! i) = KSecond \<Longrightarrow> snd (kUnits ! i) = 1" by auto
qed

lemma unit_value_bounds:
  assumes "i \<le> 3" and "field_text (fst (kUnits ! i)) t n"
  shows "0 \<le> n * snd (kUnits ! i)" "n * snd (kUnits ! i) \<le> 1000000000000000000"
proof -
  note n = field_text_bounds [OF assms(2)] and u = unit_bounds [OF assms(1)]
  show "0 \<le> n * snd (kUnits ! i)" using n(1) u(1) by simp
  show "n * snd (kUnits ! i) \<le> 1000000000000000000"
  proof (cases "fst (kUnits ! i) = KSecond")
    case True
    then show ?thesis using u(3) n(2) by simp
  next
    case False
    have "n * snd (kUnits ! i) \<le> 2147483647 * 86400000"
      using n(1) n(3) [OF False] u(1,2) by (intro mult_mono) auto
    then show ?thesis by simp
  qed
qed

text \<open>One round of the day-time loop.\<close>

definition day_time_round :: "string \<Rightarrow> nat \<Rightarrow> nat \<Rightarrow> nat \<Rightarrow> int \<Rightarrow> interval_error + int \<times> nat" where
  "day_time_round val first index pos millis =
     (let (field, unitMillis) = kUnits ! index in
      bind_res
        (if index > first
         then readSeparator val pos (if index = 1 then KSpace else KColon)
           (fst (kUnits ! (index - 1))) field
         else Inr pos)
        (\<lambda>pos. bind_res (readField val pos field)
          (\<lambda>(fieldValue, pos). bind_res (i64 (fieldValue * unitMillis))
            (\<lambda>v. bind_res (i64 (millis + v)) (\<lambda>millis. Inr (millis, pos))))))"

lemma daytime_loop_step:
  "daytime_loop val first final index pos millis =
     (if index \<le> final \<and> pos < length val then
        (case day_time_round val first index pos millis of
           Inl e \<Rightarrow> Inl e
         | Inr (millis, pos) \<Rightarrow> daytime_loop val first final (Suc index) pos millis)
      else Inr (millis, pos))"
  by (subst daytime_loop.simps) (simp add: day_time_round_def)

definition in_budget :: "nat \<Rightarrow> int \<Rightarrow> bool" where
  "in_budget i x \<longleftrightarrow> 0 \<le> x \<and> x \<le> int i * 1000000000000000000"

lemma round_field:
  assumes "index \<le> 3" and "pos < length val" and "in_budget index millis"
    and p: "p = (if index > first then Suc pos else pos)"
    and sep: "index > first \<longrightarrow> val ! pos = (if index = 1 then CHR '' '' else CHR '':'')"
  shows "day_time_round val first index pos millis =
    map_sum (\<lambda>e. e) (\<lambda>(n, q). (millis + n * snd (kUnits ! index), q)) (readField val p (fst (kUnits ! index)))"
proof -
  obtain f u where fu: "kUnits ! index = (f, u)" by (cases "kUnits ! index")
  have "day_time_round val first index pos millis =
      bind_res (readField val p f)
        (\<lambda>(n, q). bind_res (i64 (n * u)) (\<lambda>v. bind_res (i64 (millis + v)) (\<lambda>millis. Inr (millis, q))))"
    using sep p by (simp add: day_time_round_def fu readSeparator_def)
  also have "\<dots> = map_sum (\<lambda>e. e) (\<lambda>(n, q). (millis + n * u, q)) (readField val p f)"
  proof (cases "readField val p f")
    case (Inr nq)
    obtain n q where nq: "nq = (n, q)" by (cases nq)
    have le: "p \<le> length val" using assms(2) p by auto
    have "field_text (fst (kUnits ! index)) (take (q - p) (drop p val)) n"
      using readField_iff(1) [OF le] Inr nq fu by simp
    from unit_value_bounds [OF assms(1) this] have "in64 (n * u)" "in64 (millis + n * u)"
      using assms(1,3) fu by (auto simp: in64_def in_budget_def)
    then show ?thesis using Inr nq by (simp add: i64_def)
  qed simp
  finally show ?thesis using fu by simp
qed

lemma day_time_round_errors:
  assumes "index \<le> 3" and "pos < length val" and "in_budget index millis"
  shows "day_time_round val first index pos millis \<noteq> Inl SignedOverflow"
    and "day_time_round val first index pos millis \<noteq> Inl Unreachable"
    and "day_time_round val first index pos millis = Inr (m, q) \<Longrightarrow>
      q \<le> length val \<and> in_budget (Suc index) m \<and>
      (index > first \<longrightarrow> val ! pos = (if index = 1 then CHR '' '' else CHR '':'')) \<and>
      (\<exists>n. m = millis + n * snd (kUnits ! index) \<and>
         readField val (if index > first then Suc pos else pos) (fst (kUnits ! index)) = Inr (n, q))"
proof -
  let ?p = "if index > first then Suc pos else pos" and ?f = "fst (kUnits ! index)"
  let ?sep = "index > first \<longrightarrow> val ! pos = (if index = 1 then CHR '' '' else CHR '':'')"
  let ?R = "day_time_round val first index pos millis"
  have le: "?p \<le> length val" using assms(2) by auto
  have sepE: "\<not> ?sep \<Longrightarrow> \<exists>s a b. ?R = Inl (ExpectedSeparator s a b)"
    by (cases "kUnits ! index") (auto simp: day_time_round_def readSeparator_def)
  note rd = round_field [OF assms refl]
  have err: "?R \<noteq> Inl SignedOverflow \<and> ?R \<noteq> Inl Unreachable"
  proof (cases ?sep)
    case True
    then show ?thesis unfolding rd [OF True]
      using readField_iff(3,4) [OF le, of ?f] by (cases "readField val ?p ?f") auto
  qed (use sepE in force)
  then show "?R \<noteq> Inl SignedOverflow" "?R \<noteq> Inl Unreachable" by auto
  show "q \<le> length val \<and> in_budget (Suc index) m \<and> ?sep \<and>
      (\<exists>n. m = millis + n * snd (kUnits ! index) \<and> readField val ?p ?f = Inr (n, q))"
    if R: "?R = Inr (m, q)"
  proof -
    have sep: ?sep using sepE R by force
    obtain n where n: "readField val ?p ?f = Inr (n, q)" "m = millis + n * snd (kUnits ! index)"
      using R unfolding rd [OF sep] by (cases "readField val ?p ?f") auto
    have "q \<le> length val" and ft: "field_text ?f (take (q - ?p) (drop ?p val)) n"
      using readField_iff(1) [OF le n(1)] by auto
    moreover have "in_budget (Suc index) m"
      using unit_value_bounds [OF assms(1) ft] assms(3) n(2) by (auto simp: in_budget_def)
    ultimately show ?thesis using sep n by blast
  qed
qed

lemma daytime_loop_errors:
  assumes "final \<le> 3" and "pos \<le> length val" and "in_budget index millis"
  shows "daytime_loop val first final index pos millis \<noteq> Inl SignedOverflow \<and>
    daytime_loop val first final index pos millis \<noteq> Inl Unreachable \<and>
    (\<forall>m q. daytime_loop val first final index pos millis = Inr (m, q) \<longrightarrow>
       q \<le> length val \<and> in_budget (max index 4) m)"
  using assms
proof (induction "Suc final - index" arbitrary: index pos millis)
  case 0
  then show ?case by (subst (1 2 3) daytime_loop_step) (auto simp: in_budget_def)
next
  case (Suc k)
  show ?case
  proof (cases "index \<le> final \<and> pos < length val")
    case False
    then show ?thesis using Suc.prems
      by (subst (1 2 3) daytime_loop_step) (auto simp: in_budget_def)
  next
    case True
    then have i: "index \<le> 3" "pos < length val" using Suc.prems(1) by auto
    note rd = day_time_round_errors [OF i Suc.prems(3), of first]
    show ?thesis
    proof (cases "day_time_round val first index pos millis")
      case (Inl e)
      then have "daytime_loop val first final index pos millis = Inl e"
        using True by (subst daytime_loop_step) simp
      then show ?thesis using rd(1,2) Inl by simp
    next
      case (Inr mq)
      obtain m q where mq: "mq = (m, q)" by (cases mq)
      have q: "q \<le> length val" "in_budget (Suc index) m" using rd(3) [of m q] Inr mq by auto
      have "daytime_loop val first final index pos millis = daytime_loop val first final (Suc index) q m"
        using True Inr mq by (subst daytime_loop_step) simp
      moreover have "k = Suc final - Suc index" using Suc.hyps(2) by simp
      ultimately show ?thesis
        using Suc.hyps(1) [of "Suc index" q m] Suc.prems(1) q i(1) by (simp add: max_def)
    qed
  qed
qed

lemma more_fields_loop:
  assumes "first < index" and "final \<le> 3" and "pos \<le> length val" and "in_budget index millis"
  shows "daytime_loop val first final index pos millis = Inr (m, length val) \<longleftrightarrow>
    more_fields final index (drop pos val) (m - millis)"
  using assms
proof (induction "Suc final - index" arbitrary: index pos millis)
  case 0
  then have stop: "daytime_loop val first final index pos millis = Inr (millis, pos)"
    by (subst daytime_loop_step) auto
  show ?case
  proof
    assume "daytime_loop val first final index pos millis = Inr (m, length val)"
    then show "more_fields final index (drop pos val) (m - millis)"
      using stop by (simp add: more_none)
  next
    assume "more_fields final index (drop pos val) (m - millis)"
    then show "daytime_loop val first final index pos millis = Inr (m, length val)"
      using stop 0 by (cases "drop pos val") (auto simp: more_fields_simps)
  qed
next
  case (Suc k)
  show ?case
  proof (cases "pos = length val")
    case True
    then have "daytime_loop val first final index pos millis = Inr (millis, pos)"
      by (subst daytime_loop_step) auto
    then show ?thesis using True by (auto simp: more_fields_simps)
  next
    case False
    then have i: "index \<le> final" "index \<le> 3" "pos < length val" using Suc by auto
    let ?f = "fst (kUnits ! index)" and ?u = "snd (kUnits ! index)"
    let ?sep = "if index = 1 then CHR '' '' else CHR '':''"
    note rd = day_time_round_errors [OF i(2,3) Suc.prems(4), of first]
    have k: "k = Suc final - Suc index" using Suc.hyps(2) by simp
    have dr: "drop pos val = val ! pos # drop (Suc pos) val" by (simp add: Cons_nth_drop_Suc i(3))
    show ?thesis
    proof
      assume L: "daytime_loop val first final index pos millis = Inr (m, length val)"
      then obtain m1 q where R: "day_time_round val first index pos millis = Inr (m1, q)"
        "daytime_loop val first final (Suc index) q m1 = Inr (m, length val)"
        using i by (subst (asm) daytime_loop_step) (auto split: sum.splits)
      obtain n where n: "m1 = millis + n * ?u" "readField val (Suc pos) ?f = Inr (n, q)"
        "val ! pos = ?sep" "q \<le> length val" "in_budget (Suc index) m1"
        using rd(3) [OF R(1)] Suc.prems(1) by auto
      have ft: "Suc pos < q" "field_text ?f (take (q - Suc pos) (drop (Suc pos) val)) n"
        using readField_iff(1) [OF _ n(2)] i(3) by auto
      have "more_fields final (Suc index) (drop q val) (m - m1)"
        using Suc.hyps(1) [OF k _ Suc.prems(2) n(4,5)] R(2) Suc.prems(1) by simp
      from more_some [OF i(1) ft(2) this]
      have "more_fields final index (?sep # take (q - Suc pos) (drop (Suc pos) val) @ drop q val)
          (n * ?u + (m - m1))" .
      moreover have "take (q - Suc pos) (drop (Suc pos) val) @ drop q val = drop (Suc pos) val"
        using append_take_drop_id [of "q - Suc pos" "drop (Suc pos) val"] ft(1) by simp
      ultimately show "more_fields final index (drop pos val) (m - millis)"
        unfolding dr n(1,3) by (simp add: algebra_simps)
    next
      assume "more_fields final index (drop pos val) (m - millis)"
      then obtain t n r m' where t: "val ! pos = ?sep" "drop (Suc pos) val = t @ r"
        "field_text ?f t n" "more_fields final (Suc index) r m'" "m - millis = n * ?u + m'"
        unfolding dr more_fields_simps(2) One_nat_def by blast
      let ?q = "Suc pos + length t"
      have rf: "readField val (Suc pos) ?f = Inr (n, ?q)"
        using readField_iff(2) [OF _ t(2,3) more_fields_stops [OF t(4)]] i(3) by simp
      have R: "day_time_round val first index pos millis = Inr (millis + n * ?u, ?q)"
        using round_field [OF i(2,3) Suc.prems(4) refl, of first] t(1) Suc.prems(1) rf by simp
      have q: "?q \<le> length val" "in_budget (Suc index) (millis + n * ?u)" using rd(3) [OF R] by auto
      have "drop ?q val = r" using t(2) by (metis add.commute append_eq_conv_conj drop_drop)
      then have "daytime_loop val first final (Suc index) ?q (millis + n * ?u) = Inr (m, length val)"
        using Suc.hyps(1) [OF k _ Suc.prems(2) q] t(4,5) Suc.prems(1) by (simp add: algebra_simps)
      then show "daytime_loop val first final index pos millis = Inr (m, length val)"
        using R i by (subst daytime_loop_step) simp
    qed
  qed
qed

lemma dayTimeField_units:
  "dayTimeField f = Inr i \<Longrightarrow> i \<le> 3 \<and> fst (kUnits ! i) = f"
  by (cases f) (auto simp: dayTimeField_def kUnits_def)

lemma parseDayTime_iff:
  assumes "pos \<le> length val" and "dayTimeField start = Inr first" and "dayTimeField end = Inr final"
    and "first \<le> final"
  shows "parseDayTime val pos start end = Inr m \<longleftrightarrow> day_time_text first final (drop pos val) m"
    and "parseDayTime val pos start end \<noteq> Inl SignedOverflow"
    and "parseDayTime val pos start end \<noteq> Inl Unreachable"
proof -
  let ?L = "daytime_loop val first final first pos 0"
  have fin: "first \<le> 3" "final \<le> 3" using dayTimeField_units assms(2,3) by auto
  have b0: "in_budget first 0" by (simp add: in_budget_def)
  note errs = daytime_loop_errors [OF fin(2) assms(1) b0, of first]
  have ov: "?L \<noteq> Inl SignedOverflow" "?L \<noteq> Inl Unreachable" using errs by blast+
  have parse: "parseDayTime val pos start end =
      bind_res ?L (\<lambda>(millis, pos). bind_res (checkEnd val pos) (\<lambda>_. Inr millis))"
    by (simp add: parseDayTime_def assms(2,3))
  show "parseDayTime val pos start end \<noteq> Inl SignedOverflow" "parseDayTime val pos start end \<noteq> Inl Unreachable"
    unfolding parse using ov by (cases ?L; auto simp: checkEnd_def split: prod.splits)+
  have iff: "parseDayTime val pos start end = Inr m \<longleftrightarrow> ?L = Inr (m, length val)"
  proof (cases ?L)
    case (Inr mq)
    obtain k q where mq: "mq = (k, q)" by (cases mq)
    then have "q \<le> length val" using errs Inr by blast
    then show ?thesis unfolding parse Inr mq by (auto simp: checkEnd_def)
  qed (simp add: parse)
  show "parseDayTime val pos start end = Inr m \<longleftrightarrow> day_time_text first final (drop pos val) m"
  proof (cases "pos = length val")
    case True
    then have "?L = Inr (0, length val)" by (subst daytime_loop_step) simp
    then show ?thesis unfolding iff using True
      by (auto elim!: day_time_textE intro: day_time_none dest: field_text_start)
  next
    case False
    then have p: "pos < length val" using assms(1) by simp
    let ?f = "fst (kUnits ! first)" and ?u = "snd (kUnits ! first)"
    note rd = day_time_round_errors [OF fin(1) p b0, of first]
    note round = round_field [OF fin(1) p b0 refl, of first]
    show ?thesis unfolding iff
    proof
      assume L: "?L = Inr (m, length val)"
      then obtain m1 q where R: "day_time_round val first first pos 0 = Inr (m1, q)"
        "daytime_loop val first final (Suc first) q m1 = Inr (m, length val)"
        using p assms(4) by (subst (asm) daytime_loop_step) (auto split: sum.splits)
      obtain n where n: "m1 = n * ?u" "readField val pos ?f = Inr (n, q)" "q \<le> length val"
        "in_budget (Suc first) m1" using rd(3) [OF R(1)] by auto
      have ft: "pos < q" "field_text ?f (take (q - pos) (drop pos val)) n"
        using readField_iff(1) [OF assms(1) n(2)] by auto
      have "more_fields final (Suc first) (drop q val) (m - m1)"
        using iffD1 [OF more_fields_loop [OF lessI fin(2) n(3,4)] R(2)] .
      from day_time_some [OF ft(2) this]
      have "day_time_text first final (take (q - pos) (drop pos val) @ drop q val) (n * ?u + (m - m1))" .
      moreover have "take (q - pos) (drop pos val) @ drop q val = drop pos val"
        using append_take_drop_id [of "q - pos" "drop pos val"] ft(1) by simp
      ultimately show "day_time_text first final (drop pos val) m" using n(1) by simp
    next
      assume "day_time_text first final (drop pos val) m"
      then obtain t n r m' where t: "drop pos val = t @ r" "field_text ?f t n"
        "more_fields final (Suc first) r m'" "m = n * ?u + m'"
        using p by (auto elim!: day_time_textE)
      let ?q = "pos + length t"
      have "readField val pos ?f = Inr (n, ?q)"
        by (rule readField_iff(2) [OF assms(1) t(1,2) more_fields_stops [OF t(3)]])
      then have R: "day_time_round val first first pos 0 = Inr (n * ?u, ?q)" using round by simp
      have q: "?q \<le> length val" "in_budget (Suc first) (n * ?u)" using rd(3) [OF R] by auto
      have "drop ?q val = r" using t(1) by (metis add.commute append_eq_conv_conj drop_drop)
      then have "daytime_loop val first final (Suc first) ?q (n * ?u) = Inr (m, length val)"
        using more_fields_loop [OF _ fin(2) q, of first m] t(3,4) by simp
      then show "?L = Inr (m, length val)" using R p assms(4) by (subst daytime_loop_step) simp
    qed
  qed
qed

lemma parseYearMonth_result:
  assumes "pos \<le> length val" and "start \<in> {KYear, KMonth}" and "end \<in> {KYear, KMonth}"
  shows "parseYearMonth val pos start end =
    (if pos = length val then Inr 0
     else case readField val pos start of
       Inl e \<Rightarrow> Inl e
     | Inr (n, q) \<Rightarrow>
         (case
            (if start \<noteq> end \<and> q < length val then
               if val ! q \<noteq> CHR ''-'' then Inl (ExpectedSeparator KHyphen start end)
               else case readField val (Suc q) end of
                 Inl e \<Rightarrow> Inl e | Inr (k, p) \<Rightarrow> Inr (n * months_per start + k, p)
             else Inr (n * months_per start, q))
          of Inl e \<Rightarrow> Inl e
           | Inr (m, p) \<Rightarrow>
               if m > kMaxInt32 then Inl TotalTooLarge
               else if p < length val then Inl (UnexpectedCharacters (drop p val)) else Inr m))"
proof (cases "pos = length val")
  case False
  show ?thesis
  proof (cases "readField val pos start")
    case (Inr nq)
    obtain n q where nq: "nq = (n, q)" by (cases nq)
    note ft = readField_iff(1) [OF assms(1) Inr [unfolded nq]]
    have n: "0 \<le> n" "n \<le> 2147483647" using ft field_text_bounds assms(2) by blast+
    have one: "(if start = KYear then i64 (n * 12) else Inr n) = Inr (n * months_per start)"
      using n by (simp add: i64_def in64_def months_per_def)
    have two: "i64 (n * months_per start + k) = Inr (n * months_per start + k)"
      if k: "readField val (Suc q) end = Inr (k, p)" and q: "q < length val" for k p
    proof -
      have "Suc q \<le> length val" using q by simp
      note ft = readField_iff(1) [OF this k]
      have "0 \<le> k" "k \<le> 2147483647" using ft field_text_bounds assms(3) by blast+
      then show ?thesis using n by (simp add: i64_def in64_def months_per_def)
    qed
    show ?thesis
      using False Inr nq one two
      by (cases "readField val (Suc q) end")
        (auto simp: parseYearMonth_def readSeparator_def checkEnd_def split: prod.splits)
  qed (simp add: parseYearMonth_def)
qed (simp add: parseYearMonth_def)

lemma parseYearMonth_errors:
  assumes "pos \<le> length val" and "start \<in> {KYear, KMonth}" and "end \<in> {KYear, KMonth}"
  shows "parseYearMonth val pos start end \<noteq> Inl SignedOverflow"
    and "parseYearMonth val pos start end \<noteq> Inl Unreachable"
  unfolding parseYearMonth_result [OF assms]
  using readField_iff(3,4) [of _ val] assms(1)
  by (auto split: sum.splits prod.splits if_splits)

lemma year_month_read:
  assumes "pos \<le> length val" and "pos \<noteq> length val" and "start \<in> {KYear, KMonth}" and "end \<in> {KYear, KMonth}"
    and "parseYearMonth val pos start end = Inr m"
  shows "\<exists>n q. readField val pos start = Inr (n, q) \<and> m \<le> 2147483647 \<and>
    (q = length val \<and> m = n * months_per start \<or>
     start \<noteq> end \<and> q < length val \<and> val ! q = CHR ''-'' \<and>
       (\<exists>k. readField val (Suc q) end = Inr (k, length val) \<and> m = n * months_per start + k))"
proof -
  obtain n q where nq: "readField val pos start = Inr (n, q)"
    using assms(2,5) unfolding parseYearMonth_result [OF assms(1,3,4)] by (auto split: sum.splits)
  have q: "q \<le> length val" using readField_iff(1) [OF assms(1) nq] by simp
  show ?thesis
  proof (cases "start \<noteq> end \<and> q < length val")
    case True
    then obtain k p where kp: "readField val (Suc q) end = Inr (k, p)" "val ! q = CHR ''-''"
      using assms(2,5) nq unfolding parseYearMonth_result [OF assms(1,3,4)]
      by (auto split: sum.splits if_splits)
    have "p \<le> length val" using readField_iff(1) [OF _ kp(1)] True by simp
    then show ?thesis
      using True kp nq assms(2,5) unfolding parseYearMonth_result [OF assms(1,3,4)]
      by (auto simp: kMaxInt32_def split: if_splits)
  next
    case False
    then show ?thesis
      using q nq assms(2,5) unfolding parseYearMonth_result [OF assms(1,3,4)]
      by (auto simp: kMaxInt32_def split: if_splits)
  qed
qed

lemma parseYearMonth_iff:
  assumes "pos \<le> length val" and "start \<in> {KYear, KMonth}" and "end \<in> {KYear, KMonth}"
  shows "parseYearMonth val pos start end = Inr m \<longleftrightarrow> year_month_text start end (drop pos val) m"
proof (cases "pos = length val")
  case True
  then show ?thesis
    unfolding parseYearMonth_result [OF assms]
    by (auto elim!: year_month_textE intro: year_month_none dest: field_text_start)
next
  case False
  show ?thesis
  proof
    assume "parseYearMonth val pos start end = Inr m"
    from year_month_read [OF assms(1) False assms(2,3) this] obtain n q where
      nq: "readField val pos start = Inr (n, q)" "m \<le> 2147483647" and
      alt: "q = length val \<and> m = n * months_per start \<or>
        start \<noteq> end \<and> q < length val \<and> val ! q = CHR ''-'' \<and>
        (\<exists>k. readField val (Suc q) end = Inr (k, length val) \<and> m = n * months_per start + k)"
      by blast
    have ft: "pos < q" "field_text start (take (q - pos) (drop pos val)) n"
      using readField_iff(1) [OF assms(1) nq(1)] by auto
    have dr: "drop pos val = take (q - pos) (drop pos val) @ drop q val"
      using append_take_drop_id [of "q - pos" "drop pos val"] ft(1) by simp
    from alt show "year_month_text start end (drop pos val) m"
    proof (elim disjE conjE exE)
      assume "q = length val" "m = n * months_per start"
      then show ?thesis using year_month_one [OF ft(2)] nq(2) dr by simp
    next
      fix k
      assume k: "start \<noteq> end" "q < length val" "val ! q = CHR ''-''"
        "readField val (Suc q) end = Inr (k, length val)" "m = n * months_per start + k"
      have "field_text end (drop (Suc q) val) k" using readField_iff(1) [OF _ k(4)] k(2) by simp
      moreover have "drop q val = CHR ''-'' # drop (Suc q) val"
        by (metis k(2,3) Cons_nth_drop_Suc)
      ultimately show ?thesis
        using year_month_two [OF k(1) ft(2), of "drop (Suc q) val" k] nq(2) k(5) dr by simp
    qed
  next
    assume "year_month_text start end (drop pos val) m"
    then show "parseYearMonth val pos start end = Inr m"
    proof cases
      case year_month_none
      then show ?thesis using False assms(1) by simp
    next
      case (year_month_one n)
      have "readField val pos start = Inr (n, pos + length (drop pos val))"
        by (rule readField_iff(2) [OF assms(1) _ year_month_one(2), where r = "[]"]) (simp_all add: stops_def)
      then show ?thesis using False assms(1) year_month_one
        unfolding parseYearMonth_result [OF assms] by (simp add: kMaxInt32_def)
    next
      case (year_month_two t n u k)
      let ?q = "pos + length t"
      have r1: "readField val pos start = Inr (n, ?q)"
        by (rule readField_iff(2) [OF assms(1) year_month_two(1,4)]) (simp add: stops_def)
      have q: "drop ?q val = CHR ''-'' # u" using year_month_two(1)
        by (metis add.commute append_eq_conv_conj drop_drop)
      then have q': "?q < length val" "val ! ?q = CHR ''-''" "drop (Suc ?q) val = u"
        by (metis drop_eq_Nil linorder_not_le list.distinct(1),
            metis drop_eq_Nil hd_drop_conv_nth linorder_not_le list.distinct(1) list.sel(1),
            metis drop_Suc list.sel(3) tl_drop)
      have "readField val (Suc ?q) end = Inr (k, Suc ?q + length u)"
        by (rule readField_iff(2) [OF _ _ year_month_two(5), where r = "[]"])
          (use q' in \<open>simp_all add: stops_def\<close>)
      moreover have "Suc ?q + length u = length val" using q'(1) arg_cong [OF q'(3), of length] by simp
      ultimately show ?thesis using False q' r1 year_month_two(2,3,6)
        unfolding parseYearMonth_result [OF assms] by (simp add: kMaxInt32_def)
    qed
  qed
qed

section \<open>Properties\<close>

text \<open>The fields of a literal's qualifier, and whether they are a valid one.\<close>

definition end_field :: "interval_literal \<Rightarrow> interval_field" where
  "end_field l = (case il_endField l of Some f \<Rightarrow> f | None \<Rightarrow> il_startField l)"

definition valid_qualifier :: "interval_literal \<Rightarrow> bool" where
  "valid_qualifier l \<longleftrightarrow> (il_startField l, end_field l) \<in>
     {(KYear, KYear), (KYear, KMonth), (KMonth, KMonth),
      (KDay, KDay), (KDay, KHour), (KDay, KMinute), (KDay, KSecond), (KHour, KHour), (KHour, KMinute),
      (KHour, KSecond), (KMinute, KMinute), (KMinute, KSecond), (KSecond, KSecond)}"

text \<open>The meaning of a literal: a sign, an optional minus in the value, and the fields.\<close>

definition denotes :: "interval_literal \<Rightarrow> interval_constant \<Rightarrow> bool" where
  "denotes l c \<longleftrightarrow> valid_qualifier l \<and>
     (let neg = starts CHR ''-'' (il_value l);
          s = (if neg then tl (il_value l) else il_value l);
          sign = (if (il_sign l = KNegative) = neg then 1 else - 1 :: int)
      in if isYearToMonth l
         then \<exists>m. year_month_text (il_startField l) (end_field l) s m \<and> c = IntervalYearMonth (sign * m)
         else \<exists>m. day_time_text (field_index (il_startField l) - 2) (field_index (end_field l) - 2) s m \<and>
           c = IntervalDayTime (sign * m))"

lemma year_month_text_bounds:
  assumes "year_month_text start end s m" "start \<in> {KYear, KMonth}"
  shows "0 \<le> m" "m \<le> 2147483647"
proof -
  have "0 \<le> months_per start" by (simp add: months_per_def)
  then show "0 \<le> m" "m \<le> 2147483647"
    using assms(1) field_text_bounds(1) by (auto elim!: year_month_textE)
qed

lemma more_fields_bounds:
  "more_fields final i s m \<Longrightarrow> final \<le> 3 \<Longrightarrow>
   0 \<le> m \<and> m \<le> int (Suc final - i) * 1000000000000000000"
proof (induction rule: more_fields.induct)
  case (more_some i t n r m)
  have "0 \<le> n * snd (kUnits ! i)" "n * snd (kUnits ! i) \<le> 1000000000000000000"
    using unit_value_bounds [OF _ more_some(2)] more_some(1,5) by auto
  moreover have "Suc final - i = Suc (Suc final - Suc i)" using more_some(1) by simp
  ultimately show ?case using more_some(4,5) by (simp add: algebra_simps)
qed simp

lemma day_time_text_bounds:
  assumes "day_time_text first final s m" "first \<le> 3" "final \<le> 3"
  shows "0 \<le> m" "m \<le> 5000000000000000000"
proof -
  have "0 \<le> m \<and> m \<le> 5000000000000000000"
    using assms(1)
  proof (induction rule: day_time_text.induct)
    case (day_time_some t n r m)
    have "int (Suc final - Suc first) \<le> 3" using assms(3) by simp
    with unit_value_bounds [OF assms(2) day_time_some(1)] more_fields_bounds [OF day_time_some(2) assms(3)]
    show ?case by auto
  qed simp
  then show "0 \<le> m" "m \<le> 5000000000000000000" by auto
qed

lemma qualifier_checks:
  "(isYearToMonth l = (end_field l = KYear \<or> end_field l = KMonth)) \<and> il_startField l \<le> end_field l \<longleftrightarrow>
     valid_qualifier l"
  unfolding isYearToMonth_def valid_qualifier_def
  by (cases "il_startField l"; cases "end_field l") (simp_all add: less_eq_interval_field_def)

lemma parse_fields:
  assumes "valid_qualifier l"
  defines "neg \<equiv> starts CHR ''-'' (il_value l)"
  defines "s \<equiv> (if neg then tl (il_value l) else il_value l)"
    and "pos \<equiv> (if neg then 1 else 0 :: nat)"
  shows "isYearToMonth l \<Longrightarrow>
      (parseYearMonth (il_value l) pos (il_startField l) (end_field l) = Inr m \<longleftrightarrow>
         year_month_text (il_startField l) (end_field l) s m) \<and>
      parseYearMonth (il_value l) pos (il_startField l) (end_field l) \<notin> {Inl SignedOverflow, Inl Unreachable}"
    and "\<not> isYearToMonth l \<Longrightarrow>
      (parseDayTime (il_value l) pos (il_startField l) (end_field l) = Inr m \<longleftrightarrow>
         day_time_text (field_index (il_startField l) - 2) (field_index (end_field l) - 2) s m) \<and>
      parseDayTime (il_value l) pos (il_startField l) (end_field l) \<notin> {Inl SignedOverflow, Inl Unreachable}"
proof -
  have pos: "pos \<le> length (il_value l)" "drop pos (il_value l) = s"
    by (auto simp: pos_def s_def neg_def starts_def drop_Suc Suc_le_eq)
  show "(parseYearMonth (il_value l) pos (il_startField l) (end_field l) = Inr m \<longleftrightarrow>
      year_month_text (il_startField l) (end_field l) s m) \<and>
      parseYearMonth (il_value l) pos (il_startField l) (end_field l) \<notin> {Inl SignedOverflow, Inl Unreachable}"
    if "isYearToMonth l"
  proof -
    have f: "il_startField l \<in> {KYear, KMonth}" "end_field l \<in> {KYear, KMonth}"
      using that assms(1) by (auto simp: isYearToMonth_def valid_qualifier_def)
    show ?thesis
      using parseYearMonth_iff [OF pos(1) f] parseYearMonth_errors [OF pos(1) f] pos(2) by simp
  qed
  show "(parseDayTime (il_value l) pos (il_startField l) (end_field l) = Inr m \<longleftrightarrow>
      day_time_text (field_index (il_startField l) - 2) (field_index (end_field l) - 2) s m) \<and>
      parseDayTime (il_value l) pos (il_startField l) (end_field l) \<notin> {Inl SignedOverflow, Inl Unreachable}"
    if "\<not> isYearToMonth l"
  proof -
    have f: "dayTimeField (il_startField l) = Inr (field_index (il_startField l) - 2)"
      "dayTimeField (end_field l) = Inr (field_index (end_field l) - 2)"
      "field_index (il_startField l) - 2 \<le> field_index (end_field l) - 2"
      using that assms(1) by (auto simp: isYearToMonth_def valid_qualifier_def dayTimeField_def)
    show ?thesis using parseDayTime_iff [OF pos(1) f] pos(2) by simp
  qed
qed

lemma interval_value_shape:
  "interval_value l =
     (if \<not> valid_qualifier l then
        Inl (if isYearToMonth l = (end_field l = KYear \<or> end_field l = KMonth) then QualifierOrder else QualifierGroups)
      else
        let neg = starts CHR ''-'' (il_value l);
            pos = (if neg then 1 else 0);
            sign = (if (il_sign l = KNegative) = neg then 1 else - 1)
        in bind_res (if isYearToMonth l then parseYearMonth (il_value l) pos (il_startField l) (end_field l)
                     else parseDayTime (il_value l) pos (il_startField l) (end_field l))
             (\<lambda>parsed. i64 (sign * parsed)))"
proof -
  have neg: "(il_value l \<noteq> [] \<and> il_value l ! 0 = CHR ''-'') = starts CHR ''-'' (il_value l)"
    by (auto simp: starts_def hd_conv_nth)
  have sign: "(if starts CHR ''-'' (il_value l) then - (if il_sign l = KPositive then 1 else - 1)
      else if il_sign l = KPositive then 1 else - 1 :: int) =
      (if (il_sign l = KNegative) = starts CHR ''-'' (il_value l) then 1 else - 1)"
    by (cases "il_sign l") auto
  show ?thesis
    unfolding interval_value_def Let_def end_field_def [symmetric] neg sign
    by (auto simp: check_def qualifier_checks [symmetric])
qed

lemma bind_res_assoc: "bind_res (bind_res r f) g = bind_res r (\<lambda>x. bind_res (f x) g)"
  by (cases r) simp_all

lemma interval_parse_shape:
  "interval_parse l =
     (if \<not> valid_qualifier l then
        Inl (if isYearToMonth l = (end_field l = KYear \<or> end_field l = KMonth) then QualifierOrder else QualifierGroups)
      else
        let neg = starts CHR ''-'' (il_value l);
            pos = (if neg then 1 else 0);
            sign = (if (il_sign l = KNegative) = neg then 1 else - 1)
        in bind_res (if isYearToMonth l then parseYearMonth (il_value l) pos (il_startField l) (end_field l)
                     else parseDayTime (il_value l) pos (il_startField l) (end_field l))
             (\<lambda>parsed. bind_res (i64 (sign * parsed))
               (\<lambda>v. if isYearToMonth l then Inr (IntervalYearMonth (cast32 v)) else Inr (IntervalDayTime v))))"
  unfolding interval_parse_def interval_value_shape Let_def by (simp add: bind_res_assoc)

lemma only_value:
  assumes "r = Inr (f m)" and "P m" and "\<And>m'. P m' \<Longrightarrow> m' = m"
  shows "(r = Inr c \<longleftrightarrow> (\<exists>m. P m \<and> c = f m)) \<and> r \<notin> {Inl a, Inl b}"
  unfolding assms(1) using assms(2,3) by (metis Inr_inject Inl_Inr_False insertE singletonD)

lemma interval_values:
  assumes "valid_qualifier l"
  defines "neg \<equiv> starts CHR ''-'' (il_value l)"
  defines "s \<equiv> (if neg then tl (il_value l) else il_value l)"
    and "sign \<equiv> (if (il_sign l = KNegative) = neg then 1 else - 1 :: int)"
  shows "isYearToMonth l \<Longrightarrow> interval_parse l = Inr c \<longleftrightarrow>
      (\<exists>m. year_month_text (il_startField l) (end_field l) s m \<and> c = IntervalYearMonth (sign * m))"
    and "\<not> isYearToMonth l \<Longrightarrow> interval_parse l = Inr c \<longleftrightarrow>
      (\<exists>m. day_time_text (field_index (il_startField l) - 2) (field_index (end_field l) - 2) s m \<and>
         c = IntervalDayTime (sign * m))"
    and "interval_parse l \<notin> {Inl SignedOverflow, Inl Unreachable}"
proof -
  let ?pos = "if neg then 1 else 0 :: nat"
  note pf = parse_fields [OF assms(1), folded neg_def s_def]
  have sg: "sign = 1 \<or> sign = - 1" by (simp add: sign_def)
  have ym: "(interval_parse l = Inr c \<longleftrightarrow>
      (\<exists>m. year_month_text (il_startField l) (end_field l) s m \<and> c = IntervalYearMonth (sign * m))) \<and>
      interval_parse l \<notin> {Inl SignedOverflow, Inl Unreachable}" if y: "isYearToMonth l"
  proof -
    let ?P = "parseYearMonth (il_value l) ?pos (il_startField l) (end_field l)"
    have start: "il_startField l \<in> {KYear, KMonth}" using y by (auto simp: isYearToMonth_def)
    have shape: "interval_parse l = bind_res ?P
        (\<lambda>parsed. bind_res (i64 (sign * parsed)) (\<lambda>v. Inr (IntervalYearMonth (cast32 v))))"
      using assms(1) y by (simp add: interval_parse_shape Let_def neg_def sign_def)
    show ?thesis
    proof (cases ?P)
      case (Inl e)
      then show ?thesis using pf(1) [OF y] unfolding shape by auto
    next
      case (Inr m)
      then have tx: "year_month_text (il_startField l) (end_field l) s m" using pf(1) [OF y] by blast
      have uniq: "year_month_text (il_startField l) (end_field l) s m' \<Longrightarrow> m' = m" for m'
        using pf(1) [OF y, of m'] Inr by simp
      have "i64 (sign * m) = Inr (sign * m)" "cast32 (sign * m) = sign * m"
        using year_month_text_bounds [OF tx start] sg by (auto simp: i64_def in64_def cast32_def)
      then have "interval_parse l = Inr (IntervalYearMonth (sign * m))" unfolding shape Inr by simp
      from only_value [where f = "\<lambda>m. IntervalYearMonth (sign * m)"
          and P = "year_month_text (il_startField l) (end_field l) s", OF this tx uniq] show ?thesis .
    qed
  qed
  have dt: "(interval_parse l = Inr c \<longleftrightarrow>
      (\<exists>m. day_time_text (field_index (il_startField l) - 2) (field_index (end_field l) - 2) s m \<and>
         c = IntervalDayTime (sign * m))) \<and>
      interval_parse l \<notin> {Inl SignedOverflow, Inl Unreachable}" if y: "\<not> isYearToMonth l"
  proof -
    let ?P = "parseDayTime (il_value l) ?pos (il_startField l) (end_field l)"
    have idx: "field_index f - 2 \<le> 3" for f by (cases f) simp_all
    have shape: "interval_parse l = bind_res ?P
        (\<lambda>parsed. bind_res (i64 (sign * parsed)) (\<lambda>v. Inr (IntervalDayTime v)))"
      using assms(1) y by (simp add: interval_parse_shape Let_def neg_def sign_def)
    show ?thesis
    proof (cases ?P)
      case (Inl e)
      then show ?thesis using pf(2) [OF y] unfolding shape by auto
    next
      case (Inr m)
      then have tx: "day_time_text (field_index (il_startField l) - 2) (field_index (end_field l) - 2) s m"
        using pf(2) [OF y] by blast
      have uniq: "day_time_text (field_index (il_startField l) - 2) (field_index (end_field l) - 2) s m' \<Longrightarrow> m' = m"
        for m' using pf(2) [OF y, of m'] Inr by simp
      have "i64 (sign * m) = Inr (sign * m)"
        using day_time_text_bounds [OF tx idx idx] sg by (auto simp: i64_def in64_def)
      then have "interval_parse l = Inr (IntervalDayTime (sign * m))" unfolding shape Inr by simp
      from only_value [where f = "\<lambda>m. IntervalDayTime (sign * m)"
          and P = "day_time_text (field_index (il_startField l) - 2) (field_index (end_field l) - 2) s",
          OF this tx uniq] show ?thesis .
    qed
  qed
  show "isYearToMonth l \<Longrightarrow> interval_parse l = Inr c \<longleftrightarrow>
      (\<exists>m. year_month_text (il_startField l) (end_field l) s m \<and> c = IntervalYearMonth (sign * m))"
    using ym by blast
  show "\<not> isYearToMonth l \<Longrightarrow> interval_parse l = Inr c \<longleftrightarrow>
      (\<exists>m. day_time_text (field_index (il_startField l) - 2) (field_index (end_field l) - 2) s m \<and>
         c = IntervalDayTime (sign * m))"
    using dt by blast
  show "interval_parse l \<notin> {Inl SignedOverflow, Inl Unreachable}" using ym dt by blast
qed

text \<open>
  C13: The parser accepts exactly the documented language of interval literals and gives each its
  documented meaning. A literal is parsed to a constant exactly when its qualifier names fields
  of one group from the largest to the smallest, and its value is an optional minus followed by
  the fields in order, each with its separator, where trailing fields, or all of them, may be
  missing; the constant is the sum of the fields in the smallest unit, with both signs applied,
  and fractions of seconds cut to milliseconds.
\<close>

theorem interval_language: "interval_parse l = Inr c \<longleftrightarrow> denotes l c"
proof (cases "valid_qualifier l")
  case True
  then show ?thesis
    using interval_values(1,2) [OF True, of c] by (cases "isYearToMonth l") (simp_all add: denotes_def Let_def)
next
  case False
  then show ?thesis by (simp add: interval_parse_shape denotes_def)
qed

lemma interval_value_bounds:
  assumes "interval_value l = Inr v"
  shows "\<bar>v\<bar> \<le> (if isYearToMonth l then 2147483647 else 5000000000000000000)"
proof -
  have valid: "valid_qualifier l" using assms by (auto simp: interval_value_shape split: if_splits)
  let ?neg = "starts CHR ''-'' (il_value l)"
  let ?sign = "if (il_sign l = KNegative) = ?neg then 1 else - 1 :: int"
  note pf = parse_fields [OF valid]
  have idx: "field_index f - 2 \<le> 3" for f by (cases f) simp_all
  obtain m where m: "(if isYearToMonth l then parseYearMonth (il_value l) (if ?neg then 1 else 0) (il_startField l) (end_field l)
      else parseDayTime (il_value l) (if ?neg then 1 else 0) (il_startField l) (end_field l)) = Inr m"
    "i64 (?sign * m) = Inr v"
    using assms valid unfolding interval_value_shape Let_def
    by (simp only: not_True_eq_False if_False bind_res_Inr_iff) blast
  have v: "\<bar>v\<bar> = \<bar>m\<bar>" using m(2) by (auto simp: i64_def split: if_splits)
  show ?thesis
  proof (cases "isYearToMonth l")
    case y: True
    then have "il_startField l \<in> {KYear, KMonth}" by (auto simp: isYearToMonth_def)
    then show ?thesis using m(1) y pf(1) [OF y, of m] year_month_text_bounds v by fastforce
  next
    case y: False
    then show ?thesis using m(1) y pf(2) [OF y, of m] day_time_text_bounds [OF _ idx idx] v by fastforce
  qed
qed

text \<open>
  C38: No arithmetic of the parser overflows and the cast to 32 bits loses nothing. For every
  literal whatever, the parser neither leaves the 64-bit range nor reaches its unreachable
  branches. The constant holds the very number of months or milliseconds that was computed in 64
  bits, before the cast of months to 32 bits; months are within plus or minus 2147483647, and
  milliseconds well within 64 bits.
\<close>

theorem interval_no_overflow:
  "interval_parse l \<noteq> Inl SignedOverflow \<and> interval_parse l \<noteq> Inl Unreachable \<and>
   (case interval_value l of
      Inl e \<Rightarrow> interval_parse l = Inl e
    | Inr n \<Rightarrow>
        interval_parse l = Inr (if isYearToMonth l then IntervalYearMonth n else IntervalDayTime n) \<and>
        \<bar>n\<bar> \<le> (if isYearToMonth l then 2147483647 else 5000000000000000000))"
proof -
  have "interval_parse l \<notin> {Inl SignedOverflow, Inl Unreachable}"
  proof (cases "valid_qualifier l")
    case True
    then show ?thesis by (rule interval_values(3))
  qed (simp add: interval_parse_shape)
  moreover have "cast32 n = n" if "\<bar>n\<bar> \<le> 2147483647" for n
    using that by (simp add: cast32_def)
  ultimately show ?thesis
    using interval_value_bounds [of l] by (auto simp: interval_parse_def split: sum.split)
qed

section \<open>Printing\<close>

text \<open>The canonical text of a day-time value, and its round trip.\<close>

lemma isDigit_digit: "n < 10 \<Longrightarrow> isDigit (digit n)"
  by (simp add: isDigit_def of_char_digit)

lemma digit_value_digit: "n < 10 \<Longrightarrow> digit_value (digit n) = int n"
  by (simp add: digit_value_def of_char_digit)

lemma dec_snoc: "dec (ds @ [c]) = dec ds * 10 + digit_value c"
  by (simp add: dec_def push_digit_def)

lemma show_nat_text: "all_digits (show_nat n) \<and> show_nat n \<noteq> [] \<and> dec (show_nat n) = int n"
proof (induction n rule: show_nat.induct)
  case (1 n)
  show ?case
  proof (cases "n < 10")
    case True
    then show ?thesis
      by (simp add: show_nat.simps all_digits_def isDigit_digit dec_def push_digit_def digit_value_digit)
  next
    case False
    then have s: "show_nat n = show_nat (n div 10) @ [digit (n mod 10)]" by (subst show_nat.simps) simp
    have "int (n div 10) * 10 + int (n mod 10) = int n" by presburger
    then show ?thesis using 1 [OF False] unfolding s dec_snoc
      by (simp add: all_digits_def isDigit_digit digit_value_digit)
  qed
qed

lemma show_nat_length: "n < 10 ^ k \<Longrightarrow> 0 < k \<Longrightarrow> length (show_nat n) \<le> k"
proof (induction n arbitrary: k rule: show_nat.induct)
  case (1 n)
  show ?case
  proof (cases "n < 10")
    case True
    then show ?thesis using 1(3) by (simp add: show_nat.simps)
  next
    case False
    then have s: "length (show_nat n) = Suc (length (show_nat (n div 10)))" by (subst show_nat.simps) simp
    obtain j where k: "k = Suc j" using 1(3) by (cases k) auto
    have j: "0 < j" using False 1(2) k by (cases j) auto
    have "n div 10 < 10 ^ j" using 1(2) k by (simp add: less_mult_imp_div_less mult.commute)
    then show ?thesis using 1(1) [OF False _ j] s k by simp
  qed
qed

definition show3 :: "nat \<Rightarrow> string" where
  "show3 n = [digit (n div 100), digit (n div 10 mod 10), digit (n mod 10)]"

lemma three_digits:
  assumes "a < 10" "b < 10" "c < 10"
  shows "all_digits [digit a, digit b, digit c]"
    "millis_of [digit a, digit b, digit c] = (int a * 10 + int b) * 10 + int c"
  using assms
  by (simp_all add: all_digits_def isDigit_digit millis_of_def dec_def push_digit_def digit_value_digit)

lemma show3_text: "n < 1000 \<Longrightarrow> all_digits (show3 n) \<and> length (show3 n) = 3 \<and> millis_of (show3 n) = int n"
proof -
  assume "n < 1000"
  then have "n div 100 < 10" using less_mult_imp_div_less [of n 10 100] by simp
  moreover have "n div 10 mod 10 < 10" "n mod 10 < 10" by (rule mod_less_divisor, simp)+
  ultimately have "n div 100 < 10" "n div 10 mod 10 < 10" "n mod 10 < 10" .
  note t = three_digits [OF this]
  have "n div 100 = n div 10 div 10" by (simp add: div_mult2_eq [symmetric])
  then have "(n div 100 * 10 + n div 10 mod 10) * 10 + n mod 10 = n"
    using div_mult_mod_eq [of "n div 10" 10] div_mult_mod_eq [of n 10] by simp
  then have "int ((n div 100 * 10 + n div 10 mod 10) * 10 + n mod 10) = int n" by (rule arg_cong)
  then show ?thesis unfolding show3_def t(2) using t(1) by (simp only: of_nat_add of_nat_mult of_nat_numeral) simp
qed

definition print_day_time :: "nat \<Rightarrow> nat \<Rightarrow> nat \<Rightarrow> nat \<Rightarrow> nat \<Rightarrow> string" where
  "print_day_time d h m s ms =
     show_nat d @ '' '' @ show_nat h @ '':'' @ show_nat m @ '':'' @ show_nat s @ ''.'' @ show3 ms"

lemma whole_show:
  assumes "n \<le> 2147483647"
  shows "field_text f (show_nat n) (if f = KSecond then int n * 1000 else int n)"
proof -
  have "length (show_nat n) \<le> 10" using show_nat_length [of n 10] assms by simp
  then show ?thesis
    using whole_field [of "[]" "show_nat n" f] show_nat_text [of n] assms by (cases "f = KSecond") simp_all
qed

text \<open>
  C39: Printing a day-time value in full and parsing it gives the value back: days, hours and
  minutes up to 2147483647 each, seconds below ten million and milliseconds, with the sign
  outside the quotes.
\<close>

theorem interval_roundtrip:
  assumes "d \<le> 2147483647" and "h \<le> 2147483647" and "m \<le> 2147483647" and "s < 10000000" and "ms < 1000"
  shows "interval_parse \<lparr>il_value = print_day_time d h m s ms, il_sign = sg, il_startField = KDay,
      il_endField = Some KSecond\<rparr> =
    Inr (IntervalDayTime ((if sg = KNegative then - 1 else 1) *
      (((int d * 24 + int h) * 60 + int m) * 60000 + int s * 1000 + int ms)))"
proof -
  let ?l = "\<lparr>il_value = print_day_time d h m s ms, il_sign = sg, il_startField = KDay, il_endField = Some KSecond\<rparr>"
  have "length (show_nat s) \<le> 7" using show_nat_length [of s 7] assms(4) by simp
  then have "field_text KSecond ([] @ show_nat s @ ''.'' @ show3 ms) (dec (show_nat s) * 1000 + millis_of (show3 ms))"
    using show_nat_text [of s] show3_text [OF assms(5)] assms(4) by (intro fraction_field) simp_all
  then have sec: "field_text KSecond (show_nat s @ ''.'' @ show3 ms) (int s * 1000 + int ms)"
    using show_nat_text [of s] show3_text [OF assms(5)] by simp
  have f: "field_text KDay (show_nat d) (int d)" "field_text KHour (show_nat h) (int h)"
    "field_text KMinute (show_nat m) (int m)" using whole_show [OF assms(1), of KDay]
    whole_show [OF assms(2), of KHour] whole_show [OF assms(3), of KMinute] by simp_all
  have 3: "more_fields 3 3 ('':'' @ show_nat s @ ''.'' @ show3 ms) (int s * 1000 + int ms)"
    using more_some [of 3 3 _ _ "[]" 0] sec by (simp add: kUnits_def more_none)
  have 2: "more_fields 3 2 ('':'' @ show_nat m @ '':'' @ show_nat s @ ''.'' @ show3 ms)
      (int m * 60000 + (int s * 1000 + int ms))"
    using more_some [of 2 3 "show_nat m" "int m"] f(3) 3 by (simp add: kUnits_def)
  have 1: "more_fields 3 1 ('' '' @ show_nat h @ '':'' @ show_nat m @ '':'' @ show_nat s @ ''.'' @ show3 ms)
      (int h * 3600000 + (int m * 60000 + (int s * 1000 + int ms)))"
    using more_some [of 1 3 "show_nat h" "int h"] f(2) 2 by (simp add: kUnits_def numeral_2_eq_2)
  define v where "v = int d * 86400000 + (int h * 3600000 + (int m * 60000 + (int s * 1000 + int ms)))"
  have tx: "day_time_text 0 3 (print_day_time d h m s ms) v"
    using day_time_some [of 0 "show_nat d" "int d"] f(1) 1 by (simp add: kUnits_def print_day_time_def v_def)
  have pos: "\<not> starts CHR ''-'' (print_day_time d h m s ms)"
    using show_nat_text [of d] by (simp add: print_day_time_def digits_start)
  have "interval_parse ?l = Inr (IntervalDayTime ((if sg = KNegative then - 1 else 1) * v))"
    using interval_values(2) [of ?l] tx pos
    by (cases sg) (simp_all add: valid_qualifier_def end_field_def isYearToMonth_def)
  then show ?thesis by (simp add: v_def algebra_simps)
qed

theorem interval_roundtrip_witness:
  "interval_parse \<lparr>il_value = print_day_time 1 2 3 4 500, il_sign = KNegative, il_startField = KDay,
      il_endField = Some KSecond\<rparr> = Inr (IntervalDayTime (- 93784500))"
  using interval_roundtrip [of 1 2 3 4 500 KNegative] by simp

end
