(* ===== verification/Join_Type.thy ===== *)
theory Join_Type
  imports Join_Hypergraph "HOL-Library.Multiset"
begin

text \<open>
  What the optimizer knows about each type of join (the static members of \<^verbatim>\<open>Join\<close> in
  \<^verbatim>\<open>optimizer/v2/Node.cpp\<close>): which inputs reach the output unchanged, which input may be copied
  to every worker, which type results from exchanging the inputs, and which empty inputs make the
  join empty. These tables decide which plans are built, so they are compared with the meaning
  of the joins on lists of rows.
\<close>

section \<open>Tables of the join types\<close>

record join_sides =
  side_left :: bool
  side_right :: bool

abbreviation sides :: "bool \<Rightarrow> bool \<Rightarrow> join_sides" where
  "sides l r \<equiv> \<lparr>side_left = l, side_right = r\<rparr>"

datatype join_type_error = NoSwappedRepresentation

fun projectsMark :: "join_type \<Rightarrow> bool" where
  "projectsMark jt \<longleftrightarrow> jt = KLeftSemiProject \<or> jt = KRightSemiProject"

fun preservedSides :: "join_type \<Rightarrow> join_sides" where
  "preservedSides KInner = sides True True"
| "preservedSides KLeft = sides True False"
| "preservedSides KLeftSemiFilter = sides True False"
| "preservedSides KCountingLeftSemiFilter = sides True False"
| "preservedSides KLeftSemiProject = sides True False"
| "preservedSides KAnti = sides True False"
| "preservedSides KCountingAnti = sides True False"
| "preservedSides KRight = sides False True"
| "preservedSides KRightSemiFilter = sides False True"
| "preservedSides KRightSemiProject = sides False True"
| "preservedSides KRightAnti = sides False True"
| "preservedSides KFull = sides False False"

definition canSwapInputs :: "join_type \<Rightarrow> bool" where
  "canSwapInputs jt \<longleftrightarrow> jt = KInner \<or> jt = KLeft \<or> jt = KRight \<or> jt = KFull"

fun swapType :: "join_type \<Rightarrow> join_type_error + join_type" where
  "swapType KInner = Inr KInner"
| "swapType KFull = Inr KFull"
| "swapType KCountingLeftSemiFilter = Inr KCountingLeftSemiFilter"
| "swapType KLeft = Inr KRight"
| "swapType KRight = Inr KLeft"
| "swapType KLeftSemiFilter = Inr KRightSemiFilter"
| "swapType KRightSemiFilter = Inr KLeftSemiFilter"
| "swapType KLeftSemiProject = Inr KRightSemiProject"
| "swapType KRightSemiProject = Inr KLeftSemiProject"
| "swapType KAnti = Inl NoSwappedRepresentation"
| "swapType KRightAnti = Inl NoSwappedRepresentation"
| "swapType KCountingAnti = Inl NoSwappedRepresentation"

definition canBroadcastBuild :: "join_type \<Rightarrow> bool" where
  "canBroadcastBuild jt \<longleftrightarrow>
     jt = KInner \<or> jt = KLeft \<or> jt = KLeftSemiFilter \<or> jt = KLeftSemiProject \<or> jt = KAnti"

definition canBroadcastProbe :: "join_type \<Rightarrow> bool" where
  "canBroadcastProbe jt \<longleftrightarrow>
     jt = KInner \<or> jt = KRight \<or> jt = KRightSemiFilter \<or> jt = KRightSemiProject \<or> jt = KRightAnti"

definition isKnownEmpty :: "join_type \<Rightarrow> bool \<Rightarrow> bool \<Rightarrow> bool" where
  "isKnownEmpty jt leftIsKnownEmpty rightIsKnownEmpty =
     (case jt of
        KInner \<Rightarrow> leftIsKnownEmpty \<or> rightIsKnownEmpty
      | KLeftSemiFilter \<Rightarrow> leftIsKnownEmpty \<or> rightIsKnownEmpty
      | KCountingLeftSemiFilter \<Rightarrow> leftIsKnownEmpty \<or> rightIsKnownEmpty
      | KRightSemiFilter \<Rightarrow> leftIsKnownEmpty \<or> rightIsKnownEmpty
      | KLeft \<Rightarrow> leftIsKnownEmpty
      | KLeftSemiProject \<Rightarrow> leftIsKnownEmpty
      | KAnti \<Rightarrow> leftIsKnownEmpty
      | KCountingAnti \<Rightarrow> leftIsKnownEmpty
      | KRight \<Rightarrow> rightIsKnownEmpty
      | KRightSemiProject \<Rightarrow> rightIsKnownEmpty
      | KRightAnti \<Rightarrow> rightIsKnownEmpty
      | KFull \<Rightarrow> leftIsKnownEmpty \<and> rightIsKnownEmpty)"

definition loopInvariantSide :: "join_type \<Rightarrow> bool \<Rightarrow> bool \<Rightarrow> join_sides \<Rightarrow> join_sides" where
  "loopInvariantSide jt hasKeys nullAsVal readsState =
     (if jt = KInner \<and> hasKeys \<and> \<not> nullAsVal \<and> side_left readsState \<noteq> side_right readsState
      then sides (\<not> side_left readsState) (\<not> side_right readsState)
      else sides False False)"

fun distinct_columns :: "kexpr list \<Rightarrow> kexpr set \<Rightarrow> bool" where
  "distinct_columns [] seen = True"
| "distinct_columns (k # ks) seen =
     (asColumn k \<noteq> None \<and> k \<notin> seen \<and> distinct_columns ks (insert k seen))"

definition canBuildLoopInvariant :: "join_type \<Rightarrow> kexpr list \<Rightarrow> bool \<Rightarrow> bool \<Rightarrow> bool \<Rightarrow> bool" where
  "canBuildLoopInvariant jt rKeys nullAsVal leftReads rightReads =
     (if \<not> side_right (loopInvariantSide jt (rKeys \<noteq> []) nullAsVal (sides leftReads rightReads))
      then False
      else distinct_columns rKeys {})"

text \<open>An input enters the next table with its unique keys, sets of columns.\<close>

definition uniqueOn :: "jcolumn set list \<Rightarrow> kexpr list \<Rightarrow> bool" where
  "uniqueOn unique keys = list_ex (\<lambda>u. u \<subseteq> {c. ColumnKey c \<in> set keys}) unique"

definition matchesAtMostOne :: "jcolumn set list \<Rightarrow> kexpr list \<Rightarrow> bool" where
  "matchesAtMostOne unique keys = (if keys = [] then list_ex (\<lambda>u. u = {}) unique else uniqueOn unique keys)"

definition emittedOnceSides ::
  "join_type \<Rightarrow> jcolumn set list \<Rightarrow> jcolumn set list \<Rightarrow> kexpr list \<Rightarrow> kexpr list \<Rightarrow> join_sides" where
  "emittedOnceSides jt leftUnique rightUnique lKeys rKeys =
     (case jt of
        KInner \<Rightarrow> sides (matchesAtMostOne rightUnique rKeys) (matchesAtMostOne leftUnique lKeys)
      | KLeft \<Rightarrow> sides (matchesAtMostOne rightUnique rKeys) False
      | KRight \<Rightarrow> sides False (matchesAtMostOne leftUnique lKeys)
      | KLeftSemiFilter \<Rightarrow> sides True False
      | KLeftSemiProject \<Rightarrow> sides True False
      | KAnti \<Rightarrow> sides True False
      | KRightSemiFilter \<Rightarrow> sides False True
      | KRightSemiProject \<Rightarrow> sides False True
      | KRightAnti \<Rightarrow> sides False True
      | KFull \<Rightarrow> sides False False
      | KCountingLeftSemiFilter \<Rightarrow> sides False False
      | KCountingAnti \<Rightarrow> sides False False)"

section \<open>What the joins mean\<close>

text \<open>
  A condition holds, does not hold, or is unknown when a null takes part. An output row has
  the columns of a left row, of a right row, or of both, and a mark in a semi-project join. A
  null-aware join treats an unknown match as a possible one. The counting joins let each right
  row account for one left row.
\<close>

datatype ('a, 'b) joined =
  Joined (j_left: "'a option") (j_right: "'b option") (j_mark: "bool option option")

definition verdict :: "bool \<Rightarrow> ('a \<Rightarrow> 'b \<Rightarrow> bool option) \<Rightarrow> 'a \<Rightarrow> 'b list \<Rightarrow> bool option" where
  "verdict na p l R =
     (if list_ex (\<lambda>r. p l r = Some True) R then Some True
      else if na \<and> list_ex (\<lambda>r. p l r = None) R then None
      else Some False)"

definition inner_rows :: "('a \<Rightarrow> 'b \<Rightarrow> bool option) \<Rightarrow> 'a list \<Rightarrow> 'b list \<Rightarrow> ('a, 'b) joined list" where
  "inner_rows p L R =
     concat (map (\<lambda>l. map (\<lambda>r. Joined (Some l) (Some r) None) (filter (\<lambda>r. p l r = Some True) R)) L)"

definition left_rows :: "('a \<Rightarrow> bool) \<Rightarrow> 'a list \<Rightarrow> ('a, 'b) joined list" where
  "left_rows c L = map (\<lambda>l. Joined (Some l) None None) (filter c L)"

definition right_rows :: "('b \<Rightarrow> bool) \<Rightarrow> 'b list \<Rightarrow> ('a, 'b) joined list" where
  "right_rows c R = map (\<lambda>r. Joined None (Some r) None) (filter c R)"

fun counting_rows :: "bool \<Rightarrow> ('a \<Rightarrow> 'b \<Rightarrow> bool option) \<Rightarrow> 'a list \<Rightarrow> 'b list \<Rightarrow> 'a list" where
  "counting_rows semi p [] R = []"
| "counting_rows semi p (l # L) R =
     (case find (\<lambda>r. p l r = Some True) R of
        Some r \<Rightarrow> (if semi then [l] else []) @ counting_rows semi p L (remove1 r R)
      | None \<Rightarrow> (if semi then [] else [l]) @ counting_rows semi p L R)"

fun join_rows ::
  "join_type \<Rightarrow> bool \<Rightarrow> ('a \<Rightarrow> 'b \<Rightarrow> bool option) \<Rightarrow> 'a list \<Rightarrow> 'b list \<Rightarrow> ('a, 'b) joined list" where
  "join_rows KInner na p L R = inner_rows p L R"
| "join_rows KLeft na p L R = inner_rows p L R @ left_rows (\<lambda>l. verdict False p l R = Some False) L"
| "join_rows KRight na p L R =
     inner_rows p L R @ right_rows (\<lambda>r. verdict False (\<lambda>r l. p l r) r L = Some False) R"
| "join_rows KFull na p L R =
     inner_rows p L R @ left_rows (\<lambda>l. verdict False p l R = Some False) L @
     right_rows (\<lambda>r. verdict False (\<lambda>r l. p l r) r L = Some False) R"
| "join_rows KLeftSemiFilter na p L R = left_rows (\<lambda>l. verdict na p l R = Some True) L"
| "join_rows KAnti na p L R = left_rows (\<lambda>l. verdict na p l R = Some False) L"
| "join_rows KLeftSemiProject na p L R =
     map (\<lambda>l. Joined (Some l) None (Some (verdict na p l R))) L"
| "join_rows KRightSemiFilter na p L R = right_rows (\<lambda>r. verdict na (\<lambda>r l. p l r) r L = Some True) R"
| "join_rows KRightAnti na p L R = right_rows (\<lambda>r. verdict na (\<lambda>r l. p l r) r L = Some False) R"
| "join_rows KRightSemiProject na p L R =
     map (\<lambda>r. Joined None (Some r) (Some (verdict na (\<lambda>r l. p l r) r L))) R"
| "join_rows KCountingLeftSemiFilter na p L R = map (\<lambda>l. Joined (Some l) None None) (counting_rows True p L R)"
| "join_rows KCountingAnti na p L R = map (\<lambda>l. Joined (Some l) None None) (counting_rows False p L R)"

section \<open>Splitting an input into parts\<close>

lemma inner_rows_Nil [simp]: "inner_rows p [] R = []" "inner_rows p L [] = []"
  by (simp_all add: inner_rows_def)

lemma inner_rows_append: "inner_rows p (L1 @ L2) R = inner_rows p L1 R @ inner_rows p L2 R"
  by (simp add: inner_rows_def)

lemma inner_rows_append_right:
  "mset (inner_rows p L (R1 @ R2)) = mset (inner_rows p L R1) + mset (inner_rows p L R2)"
  by (induction L) (simp_all add: inner_rows_def)

lemma left_rows_simps [simp]: "left_rows c [] = []" "left_rows c (L1 @ L2) = left_rows c L1 @ left_rows c L2"
  by (simp_all add: left_rows_def)

lemma right_rows_simps [simp]: "right_rows c [] = []" "right_rows c (R1 @ R2) = right_rows c R1 @ right_rows c R2"
  by (simp_all add: right_rows_def)

lemma mset_split_left:
  assumes "canBroadcastBuild jt"
  shows "mset (join_rows jt na p (L1 @ L2) R) = mset (join_rows jt na p L1 R) + mset (join_rows jt na p L2 R)"
  using assms by (cases jt) (simp_all add: canBroadcastBuild_def inner_rows_append)

lemma mset_split_right:
  assumes "canBroadcastProbe jt"
  shows "mset (join_rows jt na p L (R1 @ R2)) = mset (join_rows jt na p L R1) + mset (join_rows jt na p L R2)"
  using assms by (cases jt) (simp_all add: canBroadcastProbe_def inner_rows_append_right)

lemma mset_concat_left:
  assumes "canBroadcastBuild jt"
  shows "mset (join_rows jt na p (concat Ls) R) = (\<Sum>L\<leftarrow>Ls. mset (join_rows jt na p L R))"
proof (induction Ls)
  case Nil
  show ?case using assms by (cases jt) (simp_all add: canBroadcastBuild_def)
qed (simp add: mset_split_left [OF assms])

lemma mset_concat_right:
  assumes "canBroadcastProbe jt"
  shows "mset (join_rows jt na p L (concat Rs)) = (\<Sum>R\<leftarrow>Rs. mset (join_rows jt na p L R))"
proof (induction Rs)
  case Nil
  show ?case using assms by (cases jt) (simp_all add: canBroadcastProbe_def)
qed (simp add: mset_split_right [OF assms])

text \<open>Two parts that a copied input tells apart, for every other type of join.\<close>

definition same_number :: "nat \<Rightarrow> nat \<Rightarrow> bool option" where
  "same_number l r = Some (l = r)"

lemmas join_rows_defs = inner_rows_def left_rows_def right_rows_def verdict_def same_number_def

lemma split_left_fails:
  assumes "\<not> canBroadcastBuild jt"
  shows "mset (join_rows jt False same_number (concat [[1], [1]]) [1, 2]) \<noteq>
    (\<Sum>L\<leftarrow>[[1], [1]]. mset (join_rows jt False same_number L [1, 2]))"
  using assms by (cases jt) (simp_all add: canBroadcastBuild_def join_rows_defs)

lemma split_right_fails:
  assumes "\<not> canBroadcastProbe jt"
  shows "mset (join_rows jt False same_number [1, 2] (concat [[1], [1]])) \<noteq>
    (\<Sum>R\<leftarrow>[[1], [1]]. mset (join_rows jt False same_number [1, 2] R))"
  using assms by (cases jt) (simp_all add: canBroadcastProbe_def join_rows_defs)

text \<open>
  C6: An input is broadcast exactly when that is right. \<open>canBroadcastBuild\<close> accepts a join
  type if and only if, for every condition and however the left rows are spread over tasks, joining
  each part with all right rows and putting the results together gives the join of all rows;
  \<open>canBroadcastProbe\<close> likewise with the sides exchanged.
\<close>

theorem broadcast_exact:
  "(canBroadcastBuild jt \<longleftrightarrow>
      (\<forall>na (p :: nat \<Rightarrow> nat \<Rightarrow> bool option) Ls R.
         mset (join_rows jt na p (concat Ls) R) = (\<Sum>L\<leftarrow>Ls. mset (join_rows jt na p L R)))) \<and>
   (canBroadcastProbe jt \<longleftrightarrow>
      (\<forall>na (p :: nat \<Rightarrow> nat \<Rightarrow> bool option) L Rs.
         mset (join_rows jt na p L (concat Rs)) = (\<Sum>R\<leftarrow>Rs. mset (join_rows jt na p L R))))"
  using mset_concat_left mset_concat_right split_left_fails split_right_fails by blast

section \<open>Preserved and empty inputs\<close>

lemma set_left_rows [simp]: "set (left_rows c L) = (\<lambda>l. Joined (Some l) None None) ` {l \<in> set L. c l}"
  by (auto simp: left_rows_def)

lemma set_right_rows [simp]: "set (right_rows c R) = (\<lambda>r. Joined None (Some r) None) ` {r \<in> set R. c r}"
  by (auto simp: right_rows_def)

lemma set_inner_rows [simp]:
  "set (inner_rows p L R) = {Joined (Some l) (Some r) None | l r. l \<in> set L \<and> r \<in> set R \<and> p l r = Some True}"
  by (auto simp: inner_rows_def)

lemma set_counting_rows: "set (counting_rows semi p L R) \<subseteq> set L"
  by (induction semi p L R rule: counting_rows.induct) (auto split: option.splits)

lemma preserved_left_sound:
  "side_left (preservedSides jt) \<Longrightarrow> j_left ` set (join_rows jt na p L R) \<subseteq> Some ` set L"
  using set_counting_rows [of True p L R] set_counting_rows [of False p L R] by (cases jt) auto

lemma preserved_right_sound:
  "side_right (preservedSides jt) \<Longrightarrow> j_right ` set (join_rows jt na p L R) \<subseteq> Some ` set R"
  by (cases jt) auto

lemma preserved_left_complete:
  assumes "\<not> side_left (preservedSides jt)"
  shows "\<not> j_left ` set (join_rows jt False
      (if jt = KRightSemiFilter then \<lambda>l r. Some True else (\<lambda>l r. Some False)) [1 :: nat] [1 :: nat]) \<subseteq> Some ` set [1]"
  using assms by (cases jt) (simp_all add: join_rows_defs)

lemma preserved_right_complete:
  assumes "\<not> side_right (preservedSides jt)"
  shows "\<not> j_right ` set (join_rows jt False
      (if jt \<in> {KLeftSemiFilter, KCountingLeftSemiFilter} then \<lambda>l r. Some True else (\<lambda>l r. Some False))
      [1 :: nat] [1 :: nat]) \<subseteq> Some ` set [1]"
  using assms by (cases jt) (simp_all add: join_rows_defs)

lemma counting_rows_Nil [simp]: "counting_rows True p L [] = []" "counting_rows semi p [] R = []"
  by (induction L) auto

lemma known_empty_sound:
  "isKnownEmpty jt le re \<Longrightarrow> join_rows jt na p (if le then [] else L) (if re then [] else R) = []"
  by (cases jt) (auto simp: isKnownEmpty_def join_rows_defs)

lemma known_empty_complete:
  assumes "\<not> isKnownEmpty jt le re"
  shows "join_rows jt False (if jt \<in> {KAnti, KRightAnti, KCountingAnti} then \<lambda>l r. Some False else (\<lambda>l r. Some True))
    (if le then [] else [1 :: nat]) (if re then [] else [1 :: nat]) \<noteq> []"
  using assms by (cases jt) (auto simp: isKnownEmpty_def join_rows_defs)

section \<open>Exchanging the inputs\<close>

fun swap_joined :: "('a, 'b) joined \<Rightarrow> ('b, 'a) joined" where
  "swap_joined (Joined l r m) = Joined r l m"

lemma inner_rows_snoc: "mset (inner_rows p L (r # R)) =
    mset (map (\<lambda>l. Joined (Some l) (Some r) None) (filter (\<lambda>l. p l r = Some True) L)) + mset (inner_rows p L R)"
  by (induction L) (simp_all add: inner_rows_def)

lemma mset_swap_inner: "mset (inner_rows (\<lambda>r l. p l r) R L) = mset (map swap_joined (inner_rows p L R))"
proof (induction R)
  case (Cons r R)
  have "mset (inner_rows (\<lambda>r l. p l r) (r # R) L) =
      mset (map (\<lambda>l. Joined (Some r) (Some l) None) (filter (\<lambda>l. p l r = Some True) L)) +
      mset (map swap_joined (inner_rows p L R))"
    using Cons by (simp add: inner_rows_def)
  also have "\<dots> = image_mset swap_joined (mset (inner_rows p L (r # R)))"
    by (simp only: inner_rows_snoc) (simp add: multiset.map_comp comp_def flip: mset_map)
  finally show ?case by simp
qed simp

lemma map_swap_rows [simp]:
  "map swap_joined (left_rows c L) = right_rows c L" "map swap_joined (right_rows d R) = left_rows d R"
  by (simp_all add: left_rows_def right_rows_def)

section \<open>Rows emitted once\<close>

text \<open>
  A row gives a value to every expression. A unique key of an input tells any two of its rows apart,
  and a join on keys matches rows of equal keys only (it may ask for more). An input is
  emitted once when no output row lacks a row of it and none of its rows is in two output rows.
\<close>

type_synonym krow = "kexpr \<Rightarrow> nat"

definition unique_rows :: "jcolumn set list \<Rightarrow> krow list \<Rightarrow> bool" where
  "unique_rows unique R \<longleftrightarrow>
     (\<forall>u\<in>set unique. sorted_wrt (\<lambda>r s. \<exists>c\<in>u. r (ColumnKey c) \<noteq> s (ColumnKey c)) R)"

definition join_on :: "(kexpr \<times> kexpr) list \<Rightarrow> (krow \<Rightarrow> krow \<Rightarrow> bool option) \<Rightarrow> bool" where
  "join_on ks p \<longleftrightarrow> (\<forall>l r. p l r = Some True \<longrightarrow> (\<forall>(a, b)\<in>set ks. l a = r b))"

definition left_once :: "join_type \<Rightarrow> jcolumn set list \<Rightarrow> jcolumn set list \<Rightarrow> (kexpr \<times> kexpr) list \<Rightarrow> bool" where
  "left_once jt leftUnique rightUnique ks \<longleftrightarrow>
     (\<forall>na p L R. unique_rows leftUnique L \<longrightarrow> unique_rows rightUnique R \<longrightarrow> join_on ks p \<longrightarrow>
        mset (map j_left (join_rows jt na p L R)) \<subseteq># mset (map Some L))"

definition right_once :: "join_type \<Rightarrow> jcolumn set list \<Rightarrow> jcolumn set list \<Rightarrow> (kexpr \<times> kexpr) list \<Rightarrow> bool" where
  "right_once jt leftUnique rightUnique ks \<longleftrightarrow>
     (\<forall>na p L R. unique_rows leftUnique L \<longrightarrow> unique_rows rightUnique R \<longrightarrow> join_on ks p \<longrightarrow>
        mset (map j_right (join_rows jt na p L R)) \<subseteq># mset (map Some R))"

lemma matchesAtMostOne_iff:
  "matchesAtMostOne unique keys \<longleftrightarrow> (\<exists>u\<in>set unique. u \<subseteq> {c. ColumnKey c \<in> set keys})"
  by (auto simp: matchesAtMostOne_def uniqueOn_def list_ex_iff)

lemma at_most_one_match:
  assumes "matchesAtMostOne unique keys" "unique_rows unique R"
    and "\<And>r s e. q r \<Longrightarrow> q s \<Longrightarrow> e \<in> set keys \<Longrightarrow> r e = s e"
  shows "length (filter q R) \<le> 1"
proof -
  obtain u where u: "u \<in> set unique" "u \<subseteq> {c. ColumnKey c \<in> set keys}"
    using assms(1) unfolding matchesAtMostOne_iff by blast
  have "sorted_wrt (\<lambda>r s. \<exists>c\<in>u. r (ColumnKey c) \<noteq> s (ColumnKey c)) R"
    using assms(2) u(1) unfolding unique_rows_def by blast
  then show ?thesis
  proof (induction R)
    case (Cons r R)
    show ?case
    proof (cases "q r")
      case True
      have "\<not> q s" if "s \<in> set R" for s
        using Cons.prems that True u(2) assms(3) [of r s] by fastforce
      then have "filter q R = []" by (simp add: filter_empty_conv)
      then show ?thesis by simp
    next
      case False
      then show ?thesis using Cons by simp
    qed
  qed simp
qed

lemma mset_left_inner_Cons:
  "mset (map j_left (inner_rows p (l # L) R)) =
     replicate_mset (length (filter (\<lambda>r. p l r = Some True) R)) (Some l) + mset (map j_left (inner_rows p L R))"
  by (simp add: inner_rows_def comp_def image_mset_const_eq flip: mset_filter)

lemma left_once_inner:
  fixes p :: "'a \<Rightarrow> 'b \<Rightarrow> bool option"
  assumes "\<And>l. length (filter (\<lambda>r. p l r = Some True) R) \<le> 1"
  shows "mset (map j_left (inner_rows p L R)) +
      mset (map j_left (left_rows (\<lambda>l. verdict False p l R = Some False) L :: ('a, 'b) joined list))
    \<subseteq># mset (map Some L)"
proof (induction L)
  case (Cons l L)
  let ?n = "length (filter (\<lambda>r. p l r = Some True) R)"
  have "replicate_mset ?n (Some l) + (if verdict False p l R = Some False then {#Some l#} else {#}) \<subseteq># {#Some l#}"
  proof (cases "?n = 0")
    case True
    then show ?thesis by simp
  next
    case False
    then have n: "?n = 1" using assms [of l] by linarith
    obtain r where "r \<in> set R" "p l r = Some True" using False by (auto simp: filter_empty_conv)
    then have "verdict False p l R = Some True" by (auto simp: verdict_def list_ex_iff)
    then show ?thesis using n by simp
  qed
  note sum = subset_mset.add_mono [OF this Cons]
  have kept: "mset (map j_left (left_rows c (l # L) :: ('a, 'b) joined list)) =
      (if c l then {#Some l#} else {#}) + mset (map j_left (left_rows c L :: ('a, 'b) joined list))" for c
    by (simp add: left_rows_def)
  have "mset (map Some (l # L)) = {#Some l#} + mset (map Some L)" by simp
  with sum show ?case unfolding mset_left_inner_Cons kept by (simp only: ac_simps)
qed simp

lemma swap_joined_sel [simp]: "j_left (swap_joined x) = j_right x" "j_right (swap_joined x) = j_left x"
  by (cases x; simp)+

lemma right_once_inner:
  fixes p :: "'a \<Rightarrow> 'b \<Rightarrow> bool option"
  assumes "\<And>r. length (filter (\<lambda>l. p l r = Some True) L) \<le> 1"
  shows "mset (map j_right (inner_rows p L R)) +
      mset (map j_right (right_rows (\<lambda>r. verdict False (\<lambda>r l. p l r) r L = Some False) R :: ('a, 'b) joined list))
    \<subseteq># mset (map Some R)"
proof -
  have "mset (map j_left (inner_rows (\<lambda>r l. p l r) R L)) = mset (map j_right (inner_rows p L R))"
    using mset_swap_inner [of p R L] by (simp add: multiset.map_comp comp_def)
  moreover have "map j_left (left_rows (\<lambda>r. verdict False (\<lambda>r l. p l r) r L = Some False) R :: ('b, 'a) joined list) =
      map j_right (right_rows (\<lambda>r. verdict False (\<lambda>r l. p l r) r L = Some False) R :: ('a, 'b) joined list)"
    by (simp add: left_rows_def right_rows_def)
  ultimately show ?thesis using left_once_inner [of "\<lambda>r l. p l r" L R, OF assms] by (simp only:)
qed

lemma once_matches:
  assumes "join_on ks p"
  shows "matchesAtMostOne rightUnique (map snd ks) \<Longrightarrow> unique_rows rightUnique R \<Longrightarrow>
      length (filter (\<lambda>r. p l r = Some True) R) \<le> 1"
    and "matchesAtMostOne leftUnique (map fst ks) \<Longrightarrow> unique_rows leftUnique L \<Longrightarrow>
      length (filter (\<lambda>l. p l r = Some True) L) \<le> 1"
proof -
  have eq: "l a = r b" if "p l r = Some True" "(a, b) \<in> set ks" for l r a b
    using assms that unfolding join_on_def by blast
  show "matchesAtMostOne rightUnique (map snd ks) \<Longrightarrow> unique_rows rightUnique R \<Longrightarrow>
      length (filter (\<lambda>r. p l r = Some True) R) \<le> 1"
    by (erule (1) at_most_one_match) (auto, metis eq)
  show "matchesAtMostOne leftUnique (map fst ks) \<Longrightarrow> unique_rows leftUnique L \<Longrightarrow>
      length (filter (\<lambda>l. p l r = Some True) L) \<le> 1"
    by (erule (1) at_most_one_match) (auto, metis eq)
qed

lemma kept_rows:
  "mset (map j_left (left_rows c L)) \<subseteq># mset (map Some L)"
  "mset (map j_right (right_rows d R)) \<subseteq># mset (map Some R)"
  by (simp_all add: left_rows_def right_rows_def comp_def image_mset_subseteq_mono)

lemma emitted_once_sound:
  "side_left (emittedOnceSides jt leftUnique rightUnique (map fst ks) (map snd ks)) \<Longrightarrow>
    left_once jt leftUnique rightUnique ks"
  "side_right (emittedOnceSides jt leftUnique rightUnique (map fst ks) (map snd ks)) \<Longrightarrow>
    right_once jt leftUnique rightUnique ks"
proof -
  show "left_once jt leftUnique rightUnique ks"
    if s: "side_left (emittedOnceSides jt leftUnique rightUnique (map fst ks) (map snd ks))"
    unfolding left_once_def
  proof (intro allI impI)
    fix na p L R assume u: "unique_rows leftUnique L" "unique_rows rightUnique R" "join_on ks p"
    note once = left_once_inner [OF once_matches(1) [OF u(3) _ u(2)], where L = L]
    show "mset (map j_left (join_rows jt na p L R)) \<subseteq># mset (map Some L)"
      using s once subset_mset.order_trans [OF mset_subset_eq_add_left once] kept_rows(1)
      by (cases jt) (simp_all add: emittedOnceSides_def comp_def)
  qed
  show "right_once jt leftUnique rightUnique ks"
    if s: "side_right (emittedOnceSides jt leftUnique rightUnique (map fst ks) (map snd ks))"
    unfolding right_once_def
  proof (intro allI impI)
    fix na p L R assume u: "unique_rows leftUnique L" "unique_rows rightUnique R" "join_on ks p"
    note once = right_once_inner [OF once_matches(2) [OF u(3) _ u(1)], where R = R]
    show "mset (map j_right (join_rows jt na p L R)) \<subseteq># mset (map Some R)"
      using s once subset_mset.order_trans [OF mset_subset_eq_add_left once] kept_rows(2)
      by (cases jt) (simp_all add: emittedOnceSides_def comp_def)
  qed
qed

text \<open>Where the table denies an input, other than in counting joins, a join shows why.\<close>

definition twin :: "kexpr list \<Rightarrow> nat \<Rightarrow> krow" where
  "twin keys n = (\<lambda>e. if e \<in> set keys then 0 else n)"

lemma twins:
  assumes "\<not> matchesAtMostOne unique keys"
  shows "unique_rows unique [twin keys 1, twin keys 2]"
  using assms unfolding matchesAtMostOne_iff unique_rows_def by (fastforce simp: twin_def)

lemma unique_small [simp]: "unique_rows unique []" "unique_rows unique [r]"
  by (simp_all add: unique_rows_def)

lemma join_on_simps [simp]:
  "join_on ks (\<lambda>_ _. Some False)"
  "join_on ks (\<lambda>l r. Some (\<forall>(a, b)\<in>set ks. l a = r b))"
  by (auto simp: join_on_def)

lemma all_match [simp]:
  "\<forall>(a, b)\<in>set ks. twin (map snd ks) n b = 0" "\<forall>(a, b)\<in>set ks. 0 = twin (map snd ks) n b"
  "\<forall>(a, b)\<in>set ks. twin (map fst ks) n a = 0" "\<forall>(a, b)\<in>set ks. 0 = twin (map fst ks) n a"
  by (force simp: twin_def)+

lemma left_onceD:
  assumes "left_once jt leftUnique rightUnique ks" "unique_rows leftUnique L" "unique_rows rightUnique R" "join_on ks p"
  shows "mset (map j_left (join_rows jt na p L R)) \<subseteq># mset (map Some L)"
  using assms unfolding left_once_def by blast

lemma right_onceD:
  assumes "right_once jt leftUnique rightUnique ks" "unique_rows leftUnique L" "unique_rows rightUnique R" "join_on ks p"
  shows "mset (map j_right (join_rows jt na p L R)) \<subseteq># mset (map Some R)"
  using assms unfolding right_once_def by blast

abbreviation on_keys :: "(kexpr \<times> kexpr) list \<Rightarrow> krow \<Rightarrow> krow \<Rightarrow> bool option" where
  "on_keys ks \<equiv> \<lambda>l r. Some (\<forall>(a, b)\<in>set ks. l a = r b)"

lemma emitted_once_complete:
  assumes "jt \<notin> {KCountingLeftSemiFilter, KCountingAnti}"
  shows "left_once jt leftUnique rightUnique ks \<Longrightarrow>
      side_left (emittedOnceSides jt leftUnique rightUnique (map fst ks) (map snd ks))"
    and "right_once jt leftUnique rightUnique ks \<Longrightarrow>
      side_right (emittedOnceSides jt leftUnique rightUnique (map fst ks) (map snd ks))"
proof -
  let ?l = "twin (map fst ks)" and ?r = "twin (map snd ks)"
  show "side_left (emittedOnceSides jt leftUnique rightUnique (map fst ks) (map snd ks))"
    if o: "left_once jt leftUnique rightUnique ks"
  proof (rule ccontr)
    assume s: "\<not> side_left (emittedOnceSides jt leftUnique rightUnique (map fst ks) (map snd ks))"
    note unmatched = left_onceD [OF o unique_small(1,2) join_on_simps(1), of False]
    note matched = left_onceD [OF o unique_small(2,2) join_on_simps(2), of False "\<lambda>_. 0" "?r 1"]
    have twice: False if "jt \<in> {KInner, KLeft}" "\<not> matchesAtMostOne rightUnique (map snd ks)"
      using left_onceD [OF o unique_small(2) twins [OF that(2)] join_on_simps(2), of False "\<lambda>_. 0"] that(1)
      by (auto simp: inner_rows_def left_rows_def verdict_def)
    show False
      using s assms unmatched matched twice
      by (cases jt) (simp_all add: emittedOnceSides_def join_rows_defs)
  qed
  show "side_right (emittedOnceSides jt leftUnique rightUnique (map fst ks) (map snd ks))"
    if o: "right_once jt leftUnique rightUnique ks"
  proof (rule ccontr)
    assume s: "\<not> side_right (emittedOnceSides jt leftUnique rightUnique (map fst ks) (map snd ks))"
    note unmatched = right_onceD [OF o unique_small(2,1) join_on_simps(1), of False]
    note matched = right_onceD [OF o unique_small(2,2) join_on_simps(2), of False "?l 1" "\<lambda>_. 0"]
    have twice: False if "jt \<in> {KInner, KRight}" "\<not> matchesAtMostOne leftUnique (map fst ks)"
      using right_onceD [OF o twins [OF that(2)] unique_small(2) join_on_simps(2), of False "\<lambda>_. 0"] that(1)
      by (auto simp: inner_rows_def right_rows_def verdict_def)
    show False
      using s assms unmatched matched twice
      by (cases jt) (simp_all add: emittedOnceSides_def join_rows_defs)
  qed
qed

text \<open>Rows that carry a mark.\<close>

lemma marks_sound: "(\<lambda>j. j_mark j \<noteq> None) ` set (join_rows jt na p L R) \<subseteq> {projectsMark jt}"
  by (cases jt) auto

lemma marks_complete:
  assumes "\<And>na (p :: nat \<Rightarrow> nat \<Rightarrow> bool option) L R. (\<lambda>j. j_mark j \<noteq> None) ` set (join_rows jt na p L R) \<subseteq> {b}"
  shows "b = projectsMark jt"
  using assms [of False "\<lambda>_ _. Some True" "[1]" "[1]"] assms [of False "\<lambda>_ _. Some False" "[1]" "[1]"]
  by (cases jt) (auto simp: join_rows_defs)

text \<open>
  C40: The tables of the join types are exact. \<open>preservedSides\<close> names an input if and only if in
  every join of that type each output row carries a row of that input unchanged. \<open>isKnownEmpty\<close>
  answers yes if and only if every join of that type is empty when the inputs said to be
  empty are. \<open>projectsMark\<close> tells whether the rows of a join have a mark. \<open>emittedOnceSides\<close>
  names an input if and only if, in every join of that type on the keys, with inputs that satisfy
  their unique keys, each row of that input is in at most one output row and no output row is
  without one; it names neither input of a counting join.
\<close>

theorem join_tables_exact:
  "(side_left (preservedSides jt) \<longleftrightarrow>
      (\<forall>na (p :: nat \<Rightarrow> nat \<Rightarrow> bool option) L R. j_left ` set (join_rows jt na p L R) \<subseteq> Some ` set L)) \<and>
   (side_right (preservedSides jt) \<longleftrightarrow>
      (\<forall>na (p :: nat \<Rightarrow> nat \<Rightarrow> bool option) L R. j_right ` set (join_rows jt na p L R) \<subseteq> Some ` set R)) \<and>
   (isKnownEmpty jt le re \<longleftrightarrow>
      (\<forall>na (p :: nat \<Rightarrow> nat \<Rightarrow> bool option) L R.
         join_rows jt na p (if le then [] else L) (if re then [] else R) = [])) \<and>
   (projectsMark jt = b \<longleftrightarrow>
      (\<forall>na (p :: nat \<Rightarrow> nat \<Rightarrow> bool option) L R.
         (\<lambda>j. j_mark j \<noteq> None) ` set (join_rows jt na p L R) \<subseteq> {b})) \<and>
   (side_left (emittedOnceSides jt leftUnique rightUnique (map fst ks) (map snd ks)) \<longleftrightarrow>
      jt \<notin> {KCountingLeftSemiFilter, KCountingAnti} \<and> left_once jt leftUnique rightUnique ks) \<and>
   (side_right (emittedOnceSides jt leftUnique rightUnique (map fst ks) (map snd ks)) \<longleftrightarrow>
      jt \<notin> {KCountingLeftSemiFilter, KCountingAnti} \<and> right_once jt leftUnique rightUnique ks)"
proof -
  have preserved: "(side_left (preservedSides jt) \<longleftrightarrow>
      (\<forall>na (p :: nat \<Rightarrow> nat \<Rightarrow> bool option) L R. j_left ` set (join_rows jt na p L R) \<subseteq> Some ` set L))"
    "(side_right (preservedSides jt) \<longleftrightarrow>
      (\<forall>na (p :: nat \<Rightarrow> nat \<Rightarrow> bool option) L R. j_right ` set (join_rows jt na p L R) \<subseteq> Some ` set R))"
    using preserved_left_sound [of jt] preserved_left_complete [of jt]
      preserved_right_sound [of jt] preserved_right_complete [of jt] by blast+
  have empty: "isKnownEmpty jt le re \<longleftrightarrow>
      (\<forall>na (p :: nat \<Rightarrow> nat \<Rightarrow> bool option) L R.
         join_rows jt na p (if le then [] else L) (if re then [] else R) = [])"
    using known_empty_sound known_empty_complete by blast
  have mark: "projectsMark jt = b \<longleftrightarrow>
      (\<forall>na (p :: nat \<Rightarrow> nat \<Rightarrow> bool option) L R.
         (\<lambda>j. j_mark j \<noteq> None) ` set (join_rows jt na p L R) \<subseteq> {b})"
    using marks_sound [of jt] marks_complete [of jt b] by blast
  have counting: "\<not> side_left (emittedOnceSides jt lu ru lk rk)" "\<not> side_right (emittedOnceSides jt lu ru lk rk)"
    if "jt \<in> {KCountingLeftSemiFilter, KCountingAnti}" for lu ru lk rk
    using that by (auto simp: emittedOnceSides_def)
  have once: "side_left (emittedOnceSides jt leftUnique rightUnique (map fst ks) (map snd ks)) \<longleftrightarrow>
      jt \<notin> {KCountingLeftSemiFilter, KCountingAnti} \<and> left_once jt leftUnique rightUnique ks"
    "side_right (emittedOnceSides jt leftUnique rightUnique (map fst ks) (map snd ks)) \<longleftrightarrow>
      jt \<notin> {KCountingLeftSemiFilter, KCountingAnti} \<and> right_once jt leftUnique rightUnique ks"
    using counting emitted_once_sound [of jt] emitted_once_complete [of jt] by blast+
  show ?thesis by (intro conjI preserved empty mark once)
qed

text \<open>The counting semi join of rows equal to their keys.\<close>

lemma mset_counting: "mset (counting_rows True (\<lambda>l r. Some (l = r)) L R) = mset L \<inter># mset R"
proof (induction L arbitrary: R)
  case (Cons l L)
  show ?case
  proof (cases "l \<in> set R")
    case True
    then have "find (\<lambda>r. l = r) R = Some l" by (induction R) auto
    moreover obtain M where "mset R = add_mset l M" using True by (metis multi_member_split set_mset_mset)
    ultimately show ?thesis using Cons by simp
  next
    case False
    then have "find (\<lambda>r. l = r) R = None" by (induction R) auto
    then show ?thesis using Cons False by (simp add: inter_add_left1)
  qed
qed simp

text \<open>
  C20: Exchanging the inputs of a join. Where \<open>swapType\<close> gives another type, or the same one
  for an inner or full join, the join of that type with the inputs exchanged gives the same rows
  with their sides exchanged, for every condition. The counting semi join also keeps its type: when
  rows are compared as a whole its rows are the intersection of two multisets, in either order.
\<close>

theorem swap_exact:
  fixes p :: "'a \<Rightarrow> 'b \<Rightarrow> bool option" and S T :: "'c list"
  assumes "swapType jt = Inr jt'"
  shows "(if jt = KCountingLeftSemiFilter then jt' = jt
     else mset (join_rows jt' na (\<lambda>r l. p l r) R L) = mset (map swap_joined (join_rows jt na p L R)))
   \<and> mset (map (\<lambda>j. the (j_left j)) (join_rows KCountingLeftSemiFilter na (\<lambda>l r. Some (l = r)) S T)) =
     mset S \<inter># mset T"
proof
  note swap = mset_swap_inner [of p R L]
  show "if jt = KCountingLeftSemiFilter then jt' = jt
     else mset (join_rows jt' na (\<lambda>r l. p l r) R L) = mset (map swap_joined (join_rows jt na p L R))"
    using assms by (cases jt) (simp_all add: swap flip: mset_map, simp_all add: comp_def)
qed (simp add: comp_def mset_counting flip: mset_map)

theorem swap_exact_witness:
  "mset (join_rows KRight False (\<lambda>r l. same_number l r) [2, 3] [1, 2]) =
   mset (map swap_joined (join_rows KLeft False same_number [1, 2] [2, 3]))"
proof -
  have "swapType KLeft = Inr KRight" by simp
  from conjunct1 [OF swap_exact [OF this, of False same_number "[2, 3]" "[1, 2]"]]
  show ?thesis by (simp only: join_type.distinct if_False)
qed

end
