(* ===== verification/Physical_Properties.thy ===== *)
theory Physical_Properties
  imports Prelude
begin

text \<open>
  The physical properties of plans (\<^verbatim>\<open>optimizer/v2/PhysicalProperties.h\<close> and \<^verbatim>\<open>.cpp\<close>): how rows are
  spread over tasks and drivers, the tests whether a partitioning can be reused, and co-location.

  Expressions and connector partition functions are objects compared by identity; they are
  natural numbers here. What the code asks of a connector is a parameter: \<open>numPartitions\<close> of a
  partition function and \<open>copartitionedType\<close> of two of them, and so are \<open>sameOrEqual\<close>, the deep
  comparison of two expressions, and \<open>columnsOf\<close>, the columns an expression depends on.
\<close>

section \<open>Partitionings\<close>

datatype property_scope = KGlobal | KDriver

datatype partition_kind = KUnspecified | KPartitioned | KGather | KBroadcast | KArbitrary

record partitioning =
  p_kind :: partition_kind
  p_partitionType :: "nat option"
  p_keys :: "nat list"
  p_orderKeys :: "nat list"
  p_orderTypes :: "nat list"
  p_scope :: property_scope
  p_replicateNullsAndAny :: bool

datatype property_error =
  ReplicateNeedsGlobal | GlobalScopeExpected | DriverScopeExpected | PartitioningNotInOutput
  | DriverOrderNotInOutput | UniqueKeyNotInOutput | KeyCountsDiffer

definition p_unspecified :: "property_scope \<Rightarrow> partitioning" where
  "p_unspecified s = \<lparr>p_kind = KUnspecified, p_partitionType = None, p_keys = [], p_orderKeys = [],
     p_orderTypes = [], p_scope = s, p_replicateNullsAndAny = False\<rparr>"

definition dropOrder :: "partitioning \<Rightarrow> partitioning" where
  "dropOrder p = p\<lparr>p_orderKeys := [], p_orderTypes := []\<rparr>"

definition numStageTasks :: "(nat \<Rightarrow> int) \<Rightarrow> partitioning \<Rightarrow> int \<Rightarrow> int \<Rightarrow> int" where
  "numStageTasks numPartitions p numWorkers hashStageTasks =
     (case p_kind p of
        KPartitioned \<Rightarrow>
          (case p_partitionType p of Some t \<Rightarrow> numPartitions t | None \<Rightarrow> hashStageTasks)
      | KGather \<Rightarrow> 1
      | KUnspecified \<Rightarrow> numWorkers
      | KBroadcast \<Rightarrow> numWorkers
      | KArbitrary \<Rightarrow> numWorkers)"

definition p_hash :: "property_scope \<Rightarrow> nat list \<Rightarrow> bool \<Rightarrow> property_error + partitioning" where
  "p_hash s keys replicateNulls =
     check (\<not> replicateNulls \<or> s = KGlobal) ReplicateNeedsGlobal
       (Inr ((p_unspecified s)\<lparr>p_kind := KPartitioned, p_keys := keys, p_replicateNullsAndAny := replicateNulls\<rparr>))"

definition connectorHash :: "property_scope \<Rightarrow> nat list \<Rightarrow> nat \<Rightarrow> partitioning" where
  "connectorHash s keys partitionType =
     (p_unspecified s)\<lparr>p_kind := KPartitioned, p_partitionType := Some partitionType, p_keys := keys\<rparr>"

text \<open>A common partition function: \<^term>\<open>Some None\<close> is the standard hash.\<close>

definition commonPartitionType ::
  "(nat \<Rightarrow> nat \<Rightarrow> nat option) \<Rightarrow> nat option \<Rightarrow> nat option \<Rightarrow> nat option option" where
  "commonPartitionType copartitionedType left right =
     (case (left, right) of
        (Some l, Some r) \<Rightarrow> (case copartitionedType l r of None \<Rightarrow> None | Some t \<Rightarrow> Some (Some t))
      | _ \<Rightarrow> if left = right then Some None else None)"

definition commonUnionPartitionType ::
  "(nat \<Rightarrow> nat \<Rightarrow> nat option) \<Rightarrow> nat option \<Rightarrow> nat option \<Rightarrow> nat option option" where
  "commonUnionPartitionType copartitionedType left right = commonPartitionType copartitionedType left right"

definition commonJoinPartitionType ::
  "(nat \<Rightarrow> int) \<Rightarrow> (nat \<Rightarrow> nat \<Rightarrow> nat option) \<Rightarrow> nat option \<Rightarrow> nat option \<Rightarrow> nat option option" where
  "commonJoinPartitionType numPartitions copartitionedType left right =
     (let common = commonPartitionType copartitionedType left right in
      case common of
        Some (Some t) \<Rightarrow>
          if numPartitions t = numPartitions (the left) \<and> numPartitions t = numPartitions (the right)
          then common else None
      | _ \<Rightarrow> common)"

definition p_gather :: "property_scope \<Rightarrow> partitioning" where
  "p_gather s = (p_unspecified s)\<lparr>p_kind := KGather\<rparr>"

definition gatherMerge :: "property_scope \<Rightarrow> nat list \<Rightarrow> nat list \<Rightarrow> partitioning" where
  "gatherMerge s orderKeys orderTypes =
     (p_unspecified s)\<lparr>p_kind := KGather, p_orderKeys := orderKeys, p_orderTypes := orderTypes\<rparr>"

definition globalBroadcast :: partitioning where
  "globalBroadcast = (p_unspecified KGlobal)\<lparr>p_kind := KBroadcast\<rparr>"

definition globalReplicatedTo :: "partitioning \<Rightarrow> partitioning" where
  "globalReplicatedTo consumer = (if p_kind consumer = KGather then p_gather KGlobal else globalBroadcast)"

definition p_arbitrary :: "property_scope \<Rightarrow> partitioning" where
  "p_arbitrary s = (p_unspecified s)\<lparr>p_kind := KArbitrary\<rparr>"

definition p_coLocates :: "partitioning \<Rightarrow> nat list \<Rightarrow> bool" where
  "p_coLocates p columns =
     (if p_kind p \<noteq> KPartitioned \<or> p_keys p = [] then False
      else list_all (\<lambda>key. key \<in> set columns) (p_keys p))"

definition isBucketedOn :: "(nat \<Rightarrow> nat \<Rightarrow> bool) \<Rightarrow> partitioning \<Rightarrow> nat list \<Rightarrow> bool" where
  "isBucketedOn sameOrEqual p otherKeys =
     (if otherKeys = [] \<or> p_kind p \<noteq> KPartitioned \<or> p_partitionType p = None \<or>
         length (p_keys p) \<noteq> length otherKeys then False
      else list_all (\<lambda>(k, l). sameOrEqual k l) (zip (p_keys p) otherKeys))"

definition satisfiesWritePartitioning ::
  "(nat \<Rightarrow> int) \<Rightarrow> (nat \<Rightarrow> nat \<Rightarrow> nat option) \<Rightarrow> (nat \<Rightarrow> nat \<Rightarrow> bool) \<Rightarrow> partitioning \<Rightarrow> nat list \<Rightarrow> nat \<Rightarrow> bool" where
  "satisfiesWritePartitioning numPartitions copartitionedType sameOrEqual p otherKeys targetType =
     (if \<not> isBucketedOn sameOrEqual p otherKeys then False
      else case commonPartitionType copartitionedType (p_partitionType p) (Some targetType) of
             Some (Some t) \<Rightarrow> numPartitions t = numPartitions (the (p_partitionType p))
           | _ \<Rightarrow> False)"

definition sameClassAs :: "partitioning \<Rightarrow> partitioning \<Rightarrow> bool" where
  "sameClassAs p q =
     (if p_kind p \<noteq> p_kind q \<or> p_partitionType p \<noteq> p_partitionType q \<or>
         p_replicateNullsAndAny p \<noteq> p_replicateNullsAndAny q \<or> length (p_keys p) \<noteq> length (p_keys q)
      then False
      else list_all (\<lambda>(k, l). k = l) (zip (p_keys p) (p_keys q)))"

section \<open>Physical properties\<close>

datatype driver_order_kind = KGrouped | KSorted

record driver_order =
  do_kind :: driver_order_kind
  do_columns :: "nat list"
  do_orders :: "nat list"

record physical_properties =
  globalPartition :: partitioning
  driverPartition :: partitioning
  driverOrder :: "driver_order list"
  globalUnique :: "nat set list"
  driverUnique :: "nat set list"

definition pp_coLocates :: "physical_properties \<Rightarrow> property_scope \<Rightarrow> nat list \<Rightarrow> bool" where
  "pp_coLocates pp s keys =
     (let partition = (if s = KGlobal then globalPartition pp else driverPartition pp) in
      if p_kind partition = KGather then True
      else if keys \<noteq> [] \<and> p_coLocates partition keys then True
      else if s = KGlobal \<and> p_kind (globalPartition pp) = KBroadcast then False
      else list_ex (\<lambda>key. key \<subseteq> set keys) (globalUnique pp))"

definition checkReferencesColumns ::
  "(nat \<Rightarrow> nat set) \<Rightarrow> physical_properties \<Rightarrow> nat set \<Rightarrow> property_error + unit" where
  "checkReferencesColumns columnsOf pp outputColumns =
     (let checkPartition = (\<lambda>p r.
        check ((\<Union>k\<in>set (p_keys p). columnsOf k) \<subseteq> outputColumns \<and>
               (\<Union>k\<in>set (p_orderKeys p). columnsOf k) \<subseteq> outputColumns) PartitioningNotInOutput r)
      in
      check (p_scope (globalPartition pp) = KGlobal) GlobalScopeExpected
      (check (p_scope (driverPartition pp) = KDriver) DriverScopeExpected
      (checkPartition (globalPartition pp)
      (checkPartition (driverPartition pp)
      (check (list_all (\<lambda>d. set (do_columns d) \<subseteq> outputColumns) (driverOrder pp)) DriverOrderNotInOutput
      (check (list_all (\<lambda>k. k \<subseteq> outputColumns) (globalUnique pp @ driverUnique pp)) UniqueKeyNotInOutput
        (Inr ())))))))"

section \<open>Classes of partitionings\<close>

lemma sameClassAs_iff:
  "sameClassAs p q \<longleftrightarrow> p_kind p = p_kind q \<and> p_partitionType p = p_partitionType q \<and>
     p_replicateNullsAndAny p = p_replicateNullsAndAny q \<and> p_keys p = p_keys q"
proof -
  have "length ks = length ls \<Longrightarrow> list_all (\<lambda>(k, l). k = l) (zip ks ls) \<longleftrightarrow> ks = ls" for ks ls :: "nat list"
    by (induction ks ls rule: list_induct2) auto
  then show ?thesis by (auto simp: sameClassAs_def)
qed

lemma sameClassAs_refl: "sameClassAs p p"
  and sameClassAs_sym: "sameClassAs p q \<Longrightarrow> sameClassAs q p"
  and sameClassAs_trans: "sameClassAs p q \<Longrightarrow> sameClassAs q r \<Longrightarrow> sameClassAs p r"
  by (auto simp: sameClassAs_iff)

section \<open>What the properties mean\<close>

text \<open>
  A distributed relation: the values of expressions in each row, and the places (tasks, or the
  drivers of one task) that hold a copy of the row. A partitioning puts each row in the place its
  keys choose; one that replicates nulls puts rows with a null key, and some arbitrary rows, in
  every place instead. A gather has one place; a broadcast has every row everywhere.
\<close>

definition same_values :: "('r \<Rightarrow> nat \<Rightarrow> 'v) \<Rightarrow> nat set \<Rightarrow> 'r \<Rightarrow> 'r \<Rightarrow> bool" where
  "same_values val ks x y \<longleftrightarrow> (\<forall>k\<in>ks. val x k = val y k)"

text \<open>The rows sent everywhere: those with a null key, and the arbitrary ones.\<close>

definition replicated :: "('v \<Rightarrow> bool) \<Rightarrow> ('r \<Rightarrow> nat \<Rightarrow> 'v) \<Rightarrow> 'r set \<Rightarrow> partitioning \<Rightarrow> 'r \<Rightarrow> bool" where
  "replicated isNull val arbitrary p x \<longleftrightarrow>
     p_replicateNullsAndAny p \<and> (x \<in> arbitrary \<or> (\<exists>k\<in>set (p_keys p). isNull (val x k)))"

definition holds_partition :: "('v \<Rightarrow> bool) \<Rightarrow> ('r \<Rightarrow> nat \<Rightarrow> 'v) \<Rightarrow> 'r set \<Rightarrow> 'r set \<Rightarrow>
    't set \<Rightarrow> ('r \<Rightarrow> 't set) \<Rightarrow> partitioning \<Rightarrow> bool" where
  "holds_partition isNull val rows arbitrary everywhere places p \<longleftrightarrow>
     (case p_kind p of
        KPartitioned \<Rightarrow>
          (\<exists>target. (\<forall>x\<in>rows. target x \<in> everywhere \<and>
              places x = (if replicated isNull val arbitrary p x then everywhere else {target x})) \<and>
            (\<forall>x\<in>rows. \<forall>y\<in>rows. same_values val (set (p_keys p)) x y \<longrightarrow> target x = target y))
      | KGather \<Rightarrow> \<exists>t\<in>everywhere. \<forall>x\<in>rows. places x = {t}
      | KBroadcast \<Rightarrow> \<forall>x\<in>rows. places x = everywhere
      | _ \<Rightarrow> \<forall>x\<in>rows. \<exists>t\<in>everywhere. places x = {t})"

definition holds_unique :: "('r \<Rightarrow> nat \<Rightarrow> 'v) \<Rightarrow> 'r set \<Rightarrow> nat set \<Rightarrow> bool" where
  "holds_unique val rows ks \<longleftrightarrow> (\<forall>x\<in>rows. \<forall>y\<in>rows. same_values val ks x y \<longrightarrow> x = y)"

lemma same_values_mono: "same_values val ks x y \<Longrightarrow> js \<subseteq> ks \<Longrightarrow> same_values val js x y"
  by (auto simp: same_values_def)

definition partition_at :: "physical_properties \<Rightarrow> property_scope \<Rightarrow> partitioning" where
  "partition_at pp s = (if s = KGlobal then globalPartition pp else driverPartition pp)"

text \<open>A place for each row: the only one, or one of all of them when the row is replicated.\<close>

definition placed :: "bool \<Rightarrow> 't set \<Rightarrow> 't set \<Rightarrow> 't \<Rightarrow> bool" where
  "placed everywhere_too everywhere ps t \<longleftrightarrow> t \<in> everywhere \<and> ps = (if everywhere_too then everywhere else {t})"

abbreviation sent_everywhere :: "('v \<Rightarrow> bool) \<Rightarrow> ('r \<Rightarrow> nat \<Rightarrow> 'v) \<Rightarrow> 'r set \<Rightarrow> partitioning \<Rightarrow> 'r \<Rightarrow> bool" where
  "sent_everywhere isNull val arbitrary p x \<equiv> p_kind p = KPartitioned \<and> replicated isNull val arbitrary p x"

lemma row_placed:
  assumes "holds_partition isNull val rows arbitrary everywhere places p" "p_kind p \<noteq> KBroadcast" "x \<in> rows"
  shows "\<exists>t. placed (sent_everywhere isNull val arbitrary p x) everywhere (places x) t"
  using assms by (cases "p_kind p") (fastforce simp: holds_partition_def placed_def)+

lemma partition_coLocates_sound:
  assumes "holds_partition isNull val rows arbitrary everywhere places p" "p_coLocates p keys" "x \<in> rows"
  shows "\<exists>t. \<forall>y\<in>rows. same_values val (set keys) x y \<longrightarrow>
    placed (sent_everywhere isNull val arbitrary p y) everywhere (places y) t"
proof -
  have k: "p_kind p = KPartitioned" "set (p_keys p) \<subseteq> set keys"
    using assms(2) by (simp_all add: p_coLocates_def list_all_iff subset_iff split: if_splits)
  obtain target where t: "\<forall>x\<in>rows. target x \<in> everywhere \<and>
      places x = (if replicated isNull val arbitrary p x then everywhere else {target x})"
    "\<forall>x\<in>rows. \<forall>y\<in>rows. same_values val (set (p_keys p)) x y \<longrightarrow> target x = target y"
    using assms(1) k(1) unfolding holds_partition_def by auto
  have "placed (sent_everywhere isNull val arbitrary p y) everywhere (places y) (target x)"
    if y: "y \<in> rows" "same_values val (set keys) x y" for y
  proof -
    have "target x = target y" using t(2) assms(3) y(1) same_values_mono [OF y(2) k(2)] by blast
    then show ?thesis using bspec [OF t(1) y(1)] k(1) by (simp add: placed_def)
  qed
  then show ?thesis by blast
qed

text \<open>
  C16: Co-location is sound. Where the partitioning of a scope describes the rows and the global
  unique keys are unique, a positive answer means that each group of rows that agree on the keys
  is whole in one place: there is a place that holds all rows of the group. A partitioning that
  does not replicate nulls puts them nowhere else. One that does also has them, in every other place,
  but only those with a null partition key and the arbitrary ones.
\<close>

theorem co_location_sound:
  fixes val :: "'r \<Rightarrow> nat \<Rightarrow> 'v" and places :: "'r \<Rightarrow> 't set"
  assumes "holds_partition isNull val rows arbitrary everywhere places (partition_at pp s)"
    and "p_kind (driverPartition pp) \<noteq> KBroadcast"
    and "\<forall>ks\<in>set (globalUnique pp). holds_unique val rows ks"
    and "pp_coLocates pp s keys"
    and "x \<in> rows"
  shows "\<exists>t\<in>everywhere. \<forall>y\<in>rows. same_values val (set keys) x y \<longrightarrow>
    places y = (if p_kind (partition_at pp s) = KPartitioned \<and> replicated isNull val arbitrary (partition_at pp s) y
      then everywhere else {t})"
proof -
  let ?p = "partition_at pp s"
  consider "p_kind ?p = KGather" | "p_coLocates ?p keys"
    | ks where "p_kind ?p \<noteq> KGather" "p_kind ?p \<noteq> KBroadcast" "ks \<in> set (globalUnique pp)" "ks \<subseteq> set keys"
    using assms(2,4) unfolding partition_at_def
    by (cases s) (auto simp: pp_coLocates_def Let_def list_ex_iff split: if_splits)
  then show ?thesis
  proof cases
    case 1
    then show ?thesis using assms(1) by (auto simp: holds_partition_def)
  next
    case 2
    show ?thesis
      using partition_coLocates_sound [OF assms(1) 2 assms(5)] assms(5)
      unfolding placed_def same_values_def by metis
  next
    case (3 ks)
    have "y = x" if "y \<in> rows" "same_values val (set keys) x y" for y
      using 3(3) assms(3,5) that same_values_mono [OF that(2) 3(4)] unfolding holds_unique_def by blast
    moreover obtain t where "placed (sent_everywhere isNull val arbitrary ?p x) everywhere (places x) t"
      using row_placed [OF assms(1) 3(2) assms(5)] by blast
    ultimately show ?thesis unfolding placed_def by blast
  qed
qed

text \<open>
  Rows hashed on their first column over two tasks, with null (0) replicated: the rows of key 5 are
  in the task of their parity, and nowhere else.
\<close>

definition demo_spread :: physical_properties where
  "demo_spread = \<lparr>globalPartition = (p_unspecified KGlobal)\<lparr>p_kind := KPartitioned, p_keys := [0],
       p_replicateNullsAndAny := True\<rparr>,
     driverPartition = p_unspecified KDriver, driverOrder = [], globalUnique = [{0, 1}], driverUnique = []\<rparr>"

definition demo_val :: "nat \<times> nat \<Rightarrow> nat \<Rightarrow> nat" where
  "demo_val r k = (if k = 0 then fst r else snd r)"

definition demo_places :: "nat \<times> nat \<Rightarrow> nat set" where
  "demo_places r = (if fst r = 0 then {0, 1} else {fst r mod 2})"

lemma demo_spread_holds:
  "holds_partition (\<lambda>v. v = 0) demo_val {(5, 1), (5, 2), (4, 2), (0, 3)} {} {0, 1} demo_places
    (globalPartition demo_spread)"
  unfolding holds_partition_def demo_spread_def
  by (simp add: p_unspecified_def, rule exI[of _ "\<lambda>r. fst r mod 2"])
    (auto simp: same_values_def replicated_def demo_val_def demo_places_def)

lemma demo_spread_unique: "holds_unique demo_val rows {0, 1}"
  by (auto simp: holds_unique_def same_values_def demo_val_def)

theorem co_location_sound_witness:
  "pp_coLocates demo_spread KGlobal [0] \<and> (\<exists>t. demo_places (5, 1) = {t} \<and> demo_places (5, 2) = {t})"
proof -
  have co: "pp_coLocates demo_spread KGlobal [0]"
    by (simp add: pp_coLocates_def p_coLocates_def p_unspecified_def demo_spread_def)
  have "\<exists>t\<in>{0, 1}. \<forall>y\<in>{(5, 1), (5, 2), (4, 2), (0, 3)}. same_values demo_val (set [0]) (5, 1) y \<longrightarrow>
      demo_places y = (if p_kind (partition_at demo_spread KGlobal) = KPartitioned \<and>
          replicated (\<lambda>v. v = 0) demo_val {} (partition_at demo_spread KGlobal) y
        then {0, 1} else {t})"
    by (rule co_location_sound)
      (use demo_spread_holds demo_spread_unique co in \<open>simp_all add: partition_at_def demo_spread_def p_unspecified_def\<close>)
  then show ?thesis using co by (auto simp: same_values_def demo_val_def demo_places_def)
qed

text \<open>
  The comment of \<open>coLocates\<close> promises that every group is wholly within one partition; a row with a
  null key is also in all the others.
\<close>

lemma null_group_in_many_places:
  "p_coLocates (globalPartition demo_spread) [0] \<and> demo_places (0, 3) = {0, 1}"
  by (simp add: p_coLocates_def demo_spread_def p_unspecified_def demo_places_def)

end
