(* ===== verification/Plan_Set.thy ===== *)
theory Plan_Set
  imports Join_Hypergraph Physical_Properties "HOL-Library.Product_Lexorder"
begin

text \<open>
  The memo of join enumeration: its entries (\<^verbatim>\<open>optimizer/v2/MemoOp.h\<close> and \<^verbatim>\<open>.cpp\<close>) and the set of
  non-dominated plans it keeps for one set of relations (\<^verbatim>\<open>optimizer/v2/PlanSet.h\<close> and \<^verbatim>\<open>.cpp\<close>).

  Costs are floats in the code. Here they are values of any linear order, so that NaN is
  excluded, with float addition and multiplication as parameters \<open>addf\<close> and \<open>mulf\<close>; the theorems
  state the two facts they need of a rounded addition. The cost of a shuffle of one row of a
  cover, which the cost model computes from column widths, is the parameter \<open>rowCost\<close>. The
  integer codes of Velox join types, which break ties, are the parameter \<open>joinTypeCode\<close>.
\<close>

section \<open>Memo entries\<close>

record 'c plan_cost =
  cost :: "'c option"
  cardinality :: "'c option"

datatype 'c memo_op =
  LeafOp (op_cost: "'c plan_cost") (relationId: nat) (outputPartitioning: partitioning)
  | JoinOp (op_cost: "'c plan_cost") (op_left: "'c memo_op") (op_right: "'c memo_op") (edgeIndex: nat)
      (op_joinType: join_type) (reversedAnti: bool) (keyEdges: "nat list") (filterEdges: "nat list")
      (outputPartitioning: partitioning)
  | UnnestOp (op_cost: "'c plan_cost") (op_input: "'c memo_op") (edgeIndex: nat)
      (unnestRelation: relation_set) (filterEdges: "nat list") (outputPartitioning: partitioning)
  | ExchangeOp (op_cost: "'c plan_cost") (op_input: "'c memo_op") (outputPartitioning: partitioning)

definition combinedCover :: "relation_set \<Rightarrow> relation_set \<Rightarrow> relation_set" where
  "combinedCover left right = rs_unionSet left right"

definition expandedCover :: "relation_set \<Rightarrow> relation_set \<Rightarrow> relation_set" where
  "expandedCover input unnestRel = rs_unionSet input unnestRel"

fun cover :: "'c memo_op \<Rightarrow> relation_set" where
  "cover (LeafOp _ i _) = singleton i"
| "cover (JoinOp _ l r _ _ _ _ _ _) = combinedCover (cover l) (cover r)"
| "cover (UnnestOp _ input _ rel _ _) = expandedCover (cover input) rel"
| "cover (ExchangeOp _ input _) = cover input"

text \<open>An Unnest keeps the partitioning of its input.\<close>

definition makeUnnestOp ::
  "'c plan_cost \<Rightarrow> 'c memo_op \<Rightarrow> nat \<Rightarrow> relation_set \<Rightarrow> nat list \<Rightarrow> 'c memo_op" where
  "makeUnnestOp c input edge rel filters = UnnestOp c input edge rel filters (outputPartitioning input)"

definition emittedJoinType :: "join_type \<Rightarrow> bool \<Rightarrow> unit + join_type" where
  "emittedJoinType jt reversed =
     (if \<not> reversed then Inr jt else check (jt = KAnti) () (Inr KRightSemiProject))"

section \<open>Plan sets\<close>

type_synonym tie_key = "u64 \<times> u64 \<times> nat \<times> int \<times> int"

fun kind_code :: "partition_kind \<Rightarrow> int" where
  "kind_code KUnspecified = 0"
| "kind_code KPartitioned = 1"
| "kind_code KGather = 2"
| "kind_code KBroadcast = 3"
| "kind_code KArbitrary = 4"

fun tieKey :: "(join_type \<Rightarrow> int) \<Rightarrow> 'c memo_op \<Rightarrow> tie_key" where
  "tieKey joinTypeCode (JoinOp _ l r e jt reversed _ _ _) =
     (bits (cover l), bits (cover r), e, joinTypeCode jt, if reversed then 1 else 0)"
| "tieKey joinTypeCode (UnnestOp _ input e _ _ _) = (bits (cover input), 0, e, 0, 2)"
| "tieKey joinTypeCode (ExchangeOp _ input p) =
     (bits (cover input), 0, length (p_keys p), kind_code (p_kind p), 1)"
| "tieKey joinTypeCode (LeafOp _ i _) = (of_nat i, 0, 0, 0, 0)"

definition shuffleCost :: "('c \<Rightarrow> 'c \<Rightarrow> 'c) \<Rightarrow> (relation_set \<Rightarrow> 'c) \<Rightarrow> 'c memo_op \<Rightarrow> 'c option" where
  "shuffleCost mulf rowCost op =
     (case cardinality (op_cost op) of None \<Rightarrow> None | Some n \<Rightarrow> Some (mulf n (rowCost (cover op))))"

text \<open>
  \<open>the (cost ...)\<close> is the dereference of the optional cost, which the set's precondition makes
  present.
\<close>

definition costAsPartitioning ::
  "('c \<Rightarrow> 'c \<Rightarrow> 'c) \<Rightarrow> ('c memo_op \<Rightarrow> 'c option) \<Rightarrow> 'c memo_op \<Rightarrow> partitioning \<Rightarrow> 'c option" where
  "costAsPartitioning addf shuffle op target =
     (let base = the (cost (op_cost op)) in
      if sameClassAs (outputPartitioning op) target then Some base
      else case shuffle op of None \<Rightarrow> None | Some s \<Rightarrow> Some (addf base s))"

definition addPlan ::
  "('c :: linorder \<Rightarrow> 'c \<Rightarrow> 'c) \<Rightarrow> ('c memo_op \<Rightarrow> 'c option) \<Rightarrow> (join_type \<Rightarrow> int) \<Rightarrow>
   'c memo_op \<Rightarrow> 'c memo_op list \<Rightarrow> 'c memo_op list" where
  "addPlan addf shuffle joinTypeCode candidate plans =
     (case cost (op_cost candidate) of
        None \<Rightarrow> plans @ [candidate]
      | Some candidateCost \<Rightarrow>
          let candidateKey = tieKey joinTypeCode candidate in
          if list_ex (\<lambda>existing.
               case costAsPartitioning addf shuffle existing (outputPartitioning candidate) of
                 None \<Rightarrow> False
               | Some asCandidate \<Rightarrow> asCandidate < candidateCost \<or>
                   asCandidate = candidateCost \<and> tieKey joinTypeCode existing \<le> candidateKey) plans
          then plans
          else filter (\<lambda>existing.
               case costAsPartitioning addf shuffle candidate (outputPartitioning existing) of
                 None \<Rightarrow> True
               | Some asExisting \<Rightarrow>
                   \<not> (asExisting < the (cost (op_cost existing)) \<or>
                      asExisting = the (cost (op_cost existing)) \<and>
                        candidateKey < tieKey joinTypeCode existing)) plans @ [candidate])"

text \<open>The cost of a plan once it meets the requirement; \<^const>\<open>None\<close> for a requirement is "any".\<close>

definition effectiveCost ::
  "('c \<Rightarrow> 'c \<Rightarrow> 'c) \<Rightarrow> ('c memo_op \<Rightarrow> 'c option) \<Rightarrow> partitioning option \<Rightarrow> 'c memo_op \<Rightarrow> 'c option" where
  "effectiveCost addf shuffle required plan =
     (if required = None \<or> sameClassAs (outputPartitioning plan) (the required)
      then cost (op_cost plan)
      else case cost (op_cost plan) of
             None \<Rightarrow> None
           | Some c \<Rightarrow> (case shuffle plan of None \<Rightarrow> None | Some s \<Rightarrow> Some (addf c s)))"

text \<open>The scan for the least cost, ties broken by the key; the first of equals stays.\<close>

fun scan_best ::
  "('p \<Rightarrow> ('c :: linorder) option) \<Rightarrow> ('p \<Rightarrow> 'k :: linorder) \<Rightarrow> 'p list \<Rightarrow> ('p \<times> 'c \<times> 'k) option \<Rightarrow>
   ('p \<times> 'c \<times> 'k) option" where
  "scan_best eff key [] best = best"
| "scan_best eff key (p # ps) best =
     (case eff p of
        None \<Rightarrow> scan_best eff key ps best
      | Some e \<Rightarrow>
          (case best of
             None \<Rightarrow> scan_best eff key ps (Some (p, e, key p))
           | Some (b, bestCost, bestKey) \<Rightarrow>
               if e < bestCost \<or> e = bestCost \<and> key p < bestKey
               then scan_best eff key ps (Some (p, e, key p))
               else scan_best eff key ps best))"

record 'c selection =
  sel_plan :: "'c memo_op"
  sel_cost :: "'c plan_cost"

definition ps_best ::
  "('c :: linorder \<Rightarrow> 'c \<Rightarrow> 'c) \<Rightarrow> ('c memo_op \<Rightarrow> 'c option) \<Rightarrow> (join_type \<Rightarrow> int) \<Rightarrow>
   partitioning option \<Rightarrow> 'c memo_op list \<Rightarrow> 'c selection option" where
  "ps_best addf shuffle joinTypeCode required plans =
     (case scan_best (effectiveCost addf shuffle required) (tieKey joinTypeCode) plans None of
        None \<Rightarrow> None
      | Some (p, e, _) \<Rightarrow> Some \<lparr>sel_plan = p, sel_cost = (op_cost p)\<lparr>cost := Some e\<rparr>\<rparr>)"

definition cheapest ::
  "(join_type \<Rightarrow> int) \<Rightarrow> ('c :: linorder) memo_op list \<Rightarrow> 'c memo_op option" where
  "cheapest joinTypeCode plans =
     (if length plans = 1 then Some (hd plans)
      else case scan_best (\<lambda>p. cost (op_cost p)) (tieKey joinTypeCode) plans None of
             Some (p, _) \<Rightarrow> Some p
           | None \<Rightarrow> if plans \<noteq> [] then Some (hd plans) else None)"

record 'c partitioning_alternatives =
  connectorBucketed :: "'c memo_op list"
  standardHash :: "'c memo_op list"

definition partitioningsOnSubsets :: "nat list \<Rightarrow> 'c memo_op list \<Rightarrow> 'c partitioning_alternatives" where
  "partitioningsOnSubsets keys plans =
     (let usable = filter (\<lambda>plan. \<not> (cost (op_cost plan) = None \<or>
            p_kind (outputPartitioning plan) \<noteq> KPartitioned \<or>
            p_replicateNullsAndAny (outputPartitioning plan) \<or>
            \<not> p_coLocates (outputPartitioning plan) keys)) plans
      in \<lparr>connectorBucketed = filter (\<lambda>plan. p_partitionType (outputPartitioning plan) \<noteq> None) usable,
          standardHash = filter (\<lambda>plan. p_partitionType (outputPartitioning plan) = None) usable\<rparr>)"

definition ps_cardinality :: "'c memo_op list \<Rightarrow> 'c option" where
  "ps_cardinality plans = (case plans of [] \<Rightarrow> None | p # _ \<Rightarrow> cardinality (op_cost p))"

section \<open>Dominance\<close>

abbreviation costable :: "'c memo_op \<Rightarrow> bool" where
  "costable p \<equiv> cost (op_cost p) \<noteq> None"

definition dominates ::
  "('c :: linorder \<Rightarrow> 'c \<Rightarrow> 'c) \<Rightarrow> ('c memo_op \<Rightarrow> 'c option) \<Rightarrow> (join_type \<Rightarrow> int) \<Rightarrow> bool \<Rightarrow>
   'c memo_op \<Rightarrow> 'c memo_op \<Rightarrow> bool" where
  "dominates addf shuffle code strict p q \<longleftrightarrow>
     (\<exists>c. costAsPartitioning addf shuffle p (outputPartitioning q) = Some c \<and>
        (c < the (cost (op_cost q)) \<or> c = the (cost (op_cost q)) \<and>
           (if strict then tieKey code p < tieKey code q else tieKey code p \<le> tieKey code q)))"

lemma addPlan_dominance:
  assumes "costable c"
  shows "addPlan addf shuffle code c plans =
    (if \<exists>p\<in>set plans. dominates addf shuffle code False p c then plans
     else filter (\<lambda>p. \<not> dominates addf shuffle code True c p) plans @ [c])"
proof -
  obtain v where v: "cost (op_cost c) = Some v" using assms by blast
  have 1: "(case costAsPartitioning addf shuffle p (outputPartitioning c) of
      None \<Rightarrow> False
    | Some a \<Rightarrow> a < v \<or> a = v \<and> tieKey code p \<le> tieKey code c) \<longleftrightarrow> dominates addf shuffle code False p c" for p
    by (simp add: dominates_def v split: option.splits)
  have 2: "(case costAsPartitioning addf shuffle c (outputPartitioning p) of
      None \<Rightarrow> True
    | Some a \<Rightarrow> \<not> (a < the (cost (op_cost p)) \<or> a = the (cost (op_cost p)) \<and> tieKey code c < tieKey code p)) \<longleftrightarrow>
      \<not> dominates addf shuffle code True c p" for p
    by (simp add: dominates_def split: option.splits)
  show ?thesis unfolding addPlan_def v option.case Let_def 1 2 list_ex_iff by simp
qed

text \<open>In list order: an earlier plan does not dominate a later one, nor the later the earlier.\<close>

definition nondominated ::
  "('c :: linorder \<Rightarrow> 'c \<Rightarrow> 'c) \<Rightarrow> ('c memo_op \<Rightarrow> 'c option) \<Rightarrow> (join_type \<Rightarrow> int) \<Rightarrow> 'c memo_op list \<Rightarrow> bool" where
  "nondominated addf shuffle code plans \<longleftrightarrow>
     sorted_wrt (\<lambda>p q. \<not> dominates addf shuffle code False p q \<and> \<not> dominates addf shuffle code True q p) plans"

abbreviation add_plans ::
  "('c :: linorder \<Rightarrow> 'c \<Rightarrow> 'c) \<Rightarrow> ('c memo_op \<Rightarrow> 'c option) \<Rightarrow> (join_type \<Rightarrow> int) \<Rightarrow>
   'c memo_op list \<Rightarrow> 'c memo_op list \<Rightarrow> 'c memo_op list" where
  "add_plans addf shuffle code cs plans \<equiv> fold (addPlan addf shuffle code) cs plans"

lemma nondominated_addPlan:
  "nondominated addf shuffle code plans \<Longrightarrow> costable c \<Longrightarrow>
   nondominated addf shuffle code (addPlan addf shuffle code c plans)"
  unfolding nondominated_def addPlan_dominance
  by (auto simp: sorted_wrt_append intro: sorted_wrt_filter)

lemma nondominated_add_plans:
  "nondominated addf shuffle code plans \<Longrightarrow> \<forall>c\<in>set cs. costable c \<Longrightarrow>
   nondominated addf shuffle code (add_plans addf shuffle code cs plans)"
  by (induction cs arbitrary: plans) (auto intro: nondominated_addPlan)

lemma addPlan_subset: "set (addPlan addf shuffle code c plans) \<subseteq> insert c (set plans)"
  by (cases "cost (op_cost c)") (auto simp: addPlan_def Let_def)

lemma add_plans_subset: "set (add_plans addf shuffle code cs plans) \<subseteq> set cs \<union> set plans"
proof (induction cs arbitrary: plans)
  case (Cons c cs)
  then show ?case using addPlan_subset [of addf shuffle code c plans]
    by (simp, blast)
qed simp

section \<open>No loss of the optimum\<close>

text \<open>What the theorems need of rounded addition and of the shuffle costs in one set.\<close>

definition lawful_costs ::
  "('c :: linorder \<Rightarrow> 'c \<Rightarrow> 'c) \<Rightarrow> ('c memo_op \<Rightarrow> 'c option) \<Rightarrow> 'c memo_op set \<Rightarrow> bool" where
  "lawful_costs addf shuffle P \<longleftrightarrow>
     (\<forall>a b s. a \<le> b \<longrightarrow> addf a s \<le> addf b s) \<and>
     (\<forall>p\<in>P. \<forall>s a. shuffle p = Some s \<longrightarrow> a \<le> addf a s) \<and>
     (\<forall>p\<in>P. \<forall>q\<in>P. shuffle p = shuffle q)"

lemma dominates_effective:
  assumes "lawful_costs addf shuffle P" and "p \<in> P" "q \<in> P" and "costable p" "costable q"
    and "dominates addf shuffle code st p q" and "effectiveCost addf shuffle R q = Some e"
  shows "\<exists>e'. effectiveCost addf shuffle R p = Some e' \<and> e' \<le> e"
proof -
  obtain a b where ab: "cost (op_cost p) = Some a" "cost (op_cost q) = Some b" using assms(4,5) by blast
  obtain c where c: "costAsPartitioning addf shuffle p (outputPartitioning q) = Some c" "c \<le> b"
    using assms(6) ab unfolding dominates_def by (metis le_less option.sel)
  have mono: "x \<le> y \<Longrightarrow> addf x s \<le> addf y s" for x y s using assms(1) unfolding lawful_costs_def by blast
  have up: "shuffle p = Some s \<Longrightarrow> x \<le> addf x s" for s x using assms(1,2) unfolding lawful_costs_def by blast
  have same: "shuffle q = shuffle p" using assms(1-3) unfolding lawful_costs_def by metis
  have "a \<le> c" using c(1) up ab by (auto simp: costAsPartitioning_def Let_def split: if_splits option.splits)
  then have le: "a \<le> b" using c(2) by (rule order_trans)
  let ?p = "outputPartitioning p" and ?q = "outputPartitioning q"
  show ?thesis
  proof (cases "R = None \<or> sameClassAs ?p (the R)")
    case True
    then have "effectiveCost addf shuffle R p = Some a" by (simp add: effectiveCost_def ab)
    moreover have "b \<le> e"
      using assms(7) same up ab by (auto simp: effectiveCost_def split: if_splits option.splits)
    ultimately show ?thesis using le by (auto intro: order_trans)
  next
    case no: False
    show ?thesis
    proof (cases "sameClassAs ?q (the R)")
      case True
      then have "\<not> sameClassAs ?p ?q" using no sameClassAs_trans by blast
      then obtain s where s: "shuffle p = Some s" "c = addf a s"
        using c(1) ab by (auto simp: costAsPartitioning_def Let_def split: option.splits)
      have "e = b" using assms(7) True ab by (simp add: effectiveCost_def)
      then show ?thesis using no s c(2) ab by (auto simp: effectiveCost_def)
    next
      case False
      then obtain s where s: "shuffle p = Some s" "e = addf b s"
        using assms(7) no same ab by (auto simp: effectiveCost_def split: option.splits)
      then show ?thesis using no ab mono [OF le] by (auto simp: effectiveCost_def)
    qed
  qed
qed

text \<open>For every requirement, each of the plans \<open>cs\<close> has a plan in the set that is no worse.\<close>

definition covers_all ::
  "('c :: linorder \<Rightarrow> 'c \<Rightarrow> 'c) \<Rightarrow> ('c memo_op \<Rightarrow> 'c option) \<Rightarrow> 'c memo_op set \<Rightarrow> 'c memo_op list \<Rightarrow> bool" where
  "covers_all addf shuffle cs plans \<longleftrightarrow>
     (\<forall>R. \<forall>c\<in>cs. \<forall>e. effectiveCost addf shuffle R c = Some e \<longrightarrow>
        (\<exists>p\<in>set plans. \<exists>e'. effectiveCost addf shuffle R p = Some e' \<and> e' \<le> e))"

lemma covers_all_step:
  assumes "covers_all addf shuffle D plans"
    and "\<And>R p e. p \<in> set plans \<Longrightarrow> effectiveCost addf shuffle R p = Some e \<Longrightarrow>
      \<exists>q\<in>set plans'. \<exists>e'. effectiveCost addf shuffle R q = Some e' \<and> e' \<le> e"
  shows "covers_all addf shuffle D plans'"
  unfolding covers_all_def
proof (intro allI ballI impI)
  fix R c e
  assume "c \<in> D" "effectiveCost addf shuffle R c = Some e"
  then obtain p e1 where "p \<in> set plans" "effectiveCost addf shuffle R p = Some e1" "e1 \<le> e"
    using assms(1) unfolding covers_all_def by blast
  then show "\<exists>q\<in>set plans'. \<exists>e'. effectiveCost addf shuffle R q = Some e' \<and> e' \<le> e"
    using assms(2) order_trans by blast
qed

lemma covers_all_addPlan:
  assumes law: "lawful_costs addf shuffle P" and P: "set plans \<subseteq> P" "c \<in> P" "\<forall>p\<in>P. costable p"
    and "covers_all addf shuffle D plans"
  shows "covers_all addf shuffle (insert c D) (addPlan addf shuffle code c plans)"
proof (cases "\<exists>p\<in>set plans. dominates addf shuffle code False p c")
  case True
  then obtain p where p: "p \<in> set plans" "dominates addf shuffle code False p c" by blast
  have "\<forall>R e. effectiveCost addf shuffle R c = Some e \<longrightarrow>
      (\<exists>e'. effectiveCost addf shuffle R p = Some e' \<and> e' \<le> e)"
    using dominates_effective [OF law _ P(2) _ _ p(2)] p(1) P by blast
  moreover have "addPlan addf shuffle code c plans = plans" using True P(2,3) by (simp add: addPlan_dominance)
  ultimately show ?thesis using assms(5) p(1) unfolding covers_all_def by (metis insert_iff)
next
  case False
  let ?ps = "addPlan addf shuffle code c plans"
  have ps: "?ps = filter (\<lambda>p. \<not> dominates addf shuffle code True c p) plans @ [c]"
    using False P(2,3) by (simp add: addPlan_dominance)
  have keep: "\<exists>q\<in>set ?ps. \<exists>e'. effectiveCost addf shuffle R q = Some e' \<and> e' \<le> e"
    if p: "p \<in> set plans" and e: "effectiveCost addf shuffle R p = Some e" for R p e
  proof (cases "dominates addf shuffle code True c p")
    case True
    have "\<exists>e'. effectiveCost addf shuffle R c = Some e' \<and> e' \<le> e"
      using dominates_effective [OF law P(2) _ _ _ True e] p P by blast
    then show ?thesis unfolding ps by auto
  next
    case False
    then have "p \<in> set ?ps" using p unfolding ps by simp
    then show ?thesis using e by blast
  qed
  have "covers_all addf shuffle D ?ps" by (rule covers_all_step [OF assms(5) keep])
  moreover have "c \<in> set ?ps" unfolding ps by simp
  ultimately show ?thesis unfolding covers_all_def by blast
qed

lemma covers_all_add_plans:
  assumes law: "lawful_costs addf shuffle P" and P: "\<forall>p\<in>P. costable p"
  shows "set cs \<union> set plans \<subseteq> P \<Longrightarrow> covers_all addf shuffle D plans \<Longrightarrow>
    covers_all addf shuffle (set cs \<union> D) (add_plans addf shuffle code cs plans)"
proof (induction cs arbitrary: plans D)
  case (Cons c cs)
  have "covers_all addf shuffle (insert c D) (addPlan addf shuffle code c plans)"
    by (rule covers_all_addPlan [OF law _ _ P Cons.prems(2)]) (use Cons.prems(1) in auto)
  moreover have "set cs \<union> set (addPlan addf shuffle code c plans) \<subseteq> P"
    using Cons.prems(1) addPlan_subset [of addf shuffle code c plans] by (simp, blast)
  ultimately have "covers_all addf shuffle (set cs \<union> insert c D)
      (add_plans addf shuffle code cs (addPlan addf shuffle code c plans))" by (rule Cons.IH [rotated])
  then show ?case by simp
qed simp


section \<open>The scan\<close>

fun scan_ok ::
  "('p \<Rightarrow> ('c :: linorder) option) \<Rightarrow> ('p \<Rightarrow> 'k :: linorder) \<Rightarrow> 'p set \<Rightarrow> ('p \<times> 'c \<times> 'k) option \<Rightarrow> bool" where
  "scan_ok eff key S None \<longleftrightarrow> (\<forall>q\<in>S. eff q = None)"
| "scan_ok eff key S (Some (p, e, k)) \<longleftrightarrow> p \<in> S \<and> eff p = Some e \<and> k = key p \<and>
     (\<forall>q\<in>S. \<forall>e'. eff q = Some e' \<longrightarrow> e < e' \<or> e = e' \<and> k \<le> key q)"

lemma scan_ok_insert:
  assumes "scan_ok eff key S best"
  shows "scan_ok eff key (insert p S)
    (case eff p of
       None \<Rightarrow> best
     | Some e \<Rightarrow>
         (case best of
            None \<Rightarrow> Some (p, e, key p)
          | Some (b, bestCost, bestKey) \<Rightarrow>
              if e < bestCost \<or> e = bestCost \<and> key p < bestKey then Some (p, e, key p) else best))"
proof (cases best)
  case None
  then show ?thesis using assms by (cases "eff p") auto
next
  case (Some a)
  obtain b c k where a: "a = (b, c, k)" by (cases a)
  show ?thesis
  proof (cases "eff p")
    case None
    then show ?thesis using assms by (auto simp: Some a)
  next
    case e: (Some e)
    have old: "b \<in> S" "eff b = Some c" "k = key b"
      "\<And>q e'. q \<in> S \<Longrightarrow> eff q = Some e' \<Longrightarrow> c < e' \<or> c = e' \<and> k \<le> key q"
      using assms by (auto simp: Some a)
    show ?thesis
    proof (cases "e < c \<or> e = c \<and> key p < k")
      case True
      have "e < e' \<or> e = e' \<and> key p \<le> key q" if "q \<in> S" "eff q = Some e'" for q e'
        using old(4) [OF that] True by auto
      then show ?thesis using True by (simp add: Some a e)
    next
      case False
      then show ?thesis using old by (auto simp: Some a e not_less)
    qed
  qed
qed

lemma scan_best_Cons:
  "scan_best eff key (p # ps) best = scan_best eff key ps
    (case eff p of
       None \<Rightarrow> best
     | Some e \<Rightarrow>
         (case best of
            None \<Rightarrow> Some (p, e, key p)
          | Some (b, bestCost, bestKey) \<Rightarrow>
              if e < bestCost \<or> e = bestCost \<and> key p < bestKey then Some (p, e, key p) else best))"
  by (cases "eff p"; cases best) auto

lemma scan_best_ok:
  "scan_ok eff key S best \<Longrightarrow> scan_ok eff key (set ps \<union> S) (scan_best eff key ps best)"
proof (induction ps arbitrary: S best)
  case (Cons p ps)
  note step = Cons.IH [OF scan_ok_insert [OF Cons.prems, of p]]
  then show ?case by (simp add: scan_best_Cons del: scan_best.simps)
qed simp

lemmas scan_best_from_empty = scan_best_ok [where S = "{}" and best = None, simplified]

section \<open>Correctness of the set\<close>

lemma nondominated_nth:
  assumes "nondominated addf shuffle code plans" and "i < length plans" "j < length plans" "i \<noteq> j"
  shows "\<not> dominates addf shuffle code True (plans ! i) (plans ! j)"
proof (cases "i < j")
  case True
  then have "\<not> dominates addf shuffle code False (plans ! i) (plans ! j)"
    using assms by (simp add: nondominated_def sorted_wrt_iff_nth_less)
  then show ?thesis by (fastforce simp: dominates_def)
next
  case False
  then have "j < i" using assms(4) by simp
  then show ?thesis using assms by (simp add: nondominated_def sorted_wrt_iff_nth_less)
qed

text \<open>
  The set stays non-dominated. Insert any sequence of costed plans into an empty
  plan set; then for any two different plans of the result, shuffling the first into the
  partitioning of the second is never cheaper than the second, and when it costs the same the
  tie-break key of the first is not the smaller one. So every plan that was kept earns its place.
\<close>

theorem plan_set_nondominated:
  fixes cs :: "('c :: linorder) memo_op list"
  assumes "\<forall>c\<in>set cs. cost (op_cost c) \<noteq> None"
    and "plans = fold (addPlan addf shuffle code) cs []"
    and "i < length plans" and "j < length plans" and "i \<noteq> j"
    and "costAsPartitioning addf shuffle (plans ! i) (outputPartitioning (plans ! j)) = Some c"
    and "cost (op_cost (plans ! j)) = Some b"
  shows "b < c \<or> b = c \<and> tieKey code (plans ! j) \<le> tieKey code (plans ! i)"
proof -
  have "nondominated addf shuffle code plans"
    using nondominated_add_plans [of addf shuffle code "[]" cs] assms(1,2) by (simp add: nondominated_def)
  then have "\<not> dominates addf shuffle code True (plans ! i) (plans ! j)"
    using assms(3-5) by (rule nondominated_nth)
  then show ?thesis using assms(6,7) by (auto simp: dominates_def not_less)
qed

lemma scan_ok_Min:
  assumes "scan_ok eff key S r" and "finite S"
  shows "map_option (\<lambda>x. fst (snd x)) r =
    (let E = {e. \<exists>p\<in>S. eff p = Some e} in if E = {} then None else Some (Min E))"
proof (cases r)
  case None
  then show ?thesis using assms(1) by (auto simp: Let_def)
next
  case (Some x)
  obtain p e k where x: "x = (p, e, k)" by (cases x)
  let ?E = "{e. \<exists>p\<in>S. eff p = Some e}"
  have E: "?E \<subseteq> (the \<circ> eff) ` S" by force
  have ok: "p \<in> S" "eff p = Some e" "\<forall>q\<in>S. \<forall>e'. eff q = Some e' \<longrightarrow> e < e' \<or> e = e' \<and> k \<le> key q"
    using assms(1) unfolding Some x scan_ok.simps by blast+
  have "e \<in> ?E" using ok by blast
  moreover have "\<forall>e'\<in>?E. e \<le> e'" using ok(3) less_imp_le by blast
  moreover have "finite ?E" using E assms(2) by (rule finite_surj [rotated])
  ultimately have "Min ?E = e" by (meson Min_eqI)
  then show ?thesis using \<open>e \<in> ?E\<close> unfolding Some x Let_def by force
qed

lemma ps_best_Min:
  fixes plans :: "('c :: linorder) memo_op list"
  shows "map_option (\<lambda>s. cost (sel_cost s)) (ps_best addf shuffle code R plans) =
    (let E = {e. \<exists>p\<in>set plans. effectiveCost addf shuffle R p = Some e}
     in if E = {} then None else Some (Some (Min E)))"
proof -
  let ?r = "scan_best (effectiveCost addf shuffle R) (tieKey code) plans None"
  have "map_option (\<lambda>s. cost (sel_cost s)) (ps_best addf shuffle code R plans) =
      map_option Some (map_option (\<lambda>x. fst (snd x)) ?r)"
    unfolding ps_best_def by (cases ?r) (auto split: prod.splits)
  also have "\<dots> = map_option Some (let E = {e. \<exists>p\<in>set plans. effectiveCost addf shuffle R p = Some e}
     in if E = {} then None else Some (Min E))"
    by (rule arg_cong [OF scan_ok_Min [OF scan_best_from_empty List.finite_set]])
  finally show ?thesis by (simp add: Let_def)
qed

lemma Min_covering:
  fixes A B :: "('c :: linorder) set"
  assumes "B \<subseteq> A" "finite A" "\<And>a. a \<in> A \<Longrightarrow> \<exists>b\<in>B. b \<le> a"
  shows "(if B = {} then None else Some (Some (Min B))) = (if A = {} then None else Some (Some (Min A)))"
proof (cases "A = {}")
  case False
  then have "Min A \<in> A" using assms(2) by simp
  then obtain b where b: "b \<in> B" "b \<le> Min A" using assms(3) by blast
  have fin: "finite B" using assms(1,2) by (rule finite_subset)
  have "Min B \<le> Min A" using b fin by (meson Min_le order_trans)
  moreover have "Min A \<le> Min B" using assms(1,2) b(1) by (auto intro: Min_antimono)
  ultimately show ?thesis using False b(1) by auto
qed (use assms(1) in simp)

text \<open>
  C5: Dropping dominated plans loses nothing, and the choice does not depend on the order
  of insertion. Insert any candidates, all with a known cost and all for the same relation set with
  the same cardinality, into an empty plan set. For every requirement, the plan that \<open>best\<close> selects
  has, with the shuffle it may need, exactly the least cost any of the candidates could reach, those
  that were dropped included; and \<open>best\<close> finds no plan only when no candidate can be costed. The
  addition is assumed monotone and not to decrease by the cost of the shuffle, as rounded
  addition of a non-negative number does.
\<close>

theorem plan_set_optimal:
  fixes cs :: "('c :: linorder) memo_op list"
  assumes "\<forall>a b s. a \<le> b \<longrightarrow> addf a s \<le> addf b s"
    and "\<forall>n a. rows = Some n \<longrightarrow> a \<le> addf a (mulf n (rowCost rels))"
    and "\<forall>c\<in>set cs. cost (op_cost c) \<noteq> None \<and> cover c = rels \<and> cardinality (op_cost c) = rows"
  shows "map_option (\<lambda>s. cost (sel_cost s))
       (ps_best addf (shuffleCost mulf rowCost) code required
         (fold (addPlan addf (shuffleCost mulf rowCost) code) cs [])) =
     (let E = {e. \<exists>c\<in>set cs. effectiveCost addf (shuffleCost mulf rowCost) required c = Some e}
      in if E = {} then None else Some (Some (Min E)))"
proof -
  let ?sh = "shuffleCost mulf rowCost" and ?plans = "fold (addPlan addf (shuffleCost mulf rowCost) code) cs []"
  let ?eff = "effectiveCost addf ?sh required"
  have law: "lawful_costs addf ?sh (set cs)"
    unfolding lawful_costs_def shuffleCost_def using assms by (auto split: option.splits)
  have cov: "covers_all addf ?sh (set cs \<union> {}) ?plans"
    by (rule covers_all_add_plans [OF law]) (use assms(3) in \<open>auto simp: covers_all_def\<close>)
  have sub: "set ?plans \<subseteq> set cs" using add_plans_subset [of addf ?sh code cs "[]"] by simp
  have "finite {e. \<exists>c\<in>set cs. ?eff c = Some e}"
    by (rule finite_subset [of _ "(the \<circ> ?eff) ` set cs"]) force+
  moreover have "{e. \<exists>c\<in>set ?plans. ?eff c = Some e} \<subseteq> {e. \<exists>c\<in>set cs. ?eff c = Some e}"
    using sub by blast
  moreover have "\<exists>b\<in>{e. \<exists>c\<in>set ?plans. ?eff c = Some e}. b \<le> a"
    if "a \<in> {e. \<exists>c\<in>set cs. ?eff c = Some e}" for a
    using that cov unfolding covers_all_def by blast
  ultimately show ?thesis unfolding ps_best_Min Let_def by (intro Min_covering)
qed

section \<open>A set of two plans\<close>

text \<open>A gathered leaf, and the same leaf shuffled by one hash key.\<close>

definition demo_leaf :: "int memo_op" where
  "demo_leaf = LeafOp \<lparr>cost = Some 10, cardinality = Some 5\<rparr> 3 (p_gather KGlobal)"

definition demo_exchange :: "int memo_op" where
  "demo_exchange = ExchangeOp \<lparr>cost = Some 12, cardinality = Some 5\<rparr> demo_leaf
     (projr (p_hash KGlobal [7] False))"

abbreviation demo_shuffle :: "int memo_op \<Rightarrow> int option" where
  "demo_shuffle \<equiv> shuffleCost (*) (\<lambda>_. 1)"

lemma demo_set:
  "fold (addPlan (+) demo_shuffle (\<lambda>_. 0)) [demo_exchange, demo_leaf] [] =
    [demo_exchange, demo_leaf]"
  by code_simp

theorem plan_set_nondominated_witness:
  "(10::int) < 17 \<or> (10::int) = 17 \<and> tieKey (\<lambda>_. 0) demo_leaf \<le> tieKey (\<lambda>_. 0) demo_exchange"
proof -
  let ?cs = "[demo_exchange, demo_leaf]"
  have "(10::int) < 17 \<or> (10::int) = 17 \<and> tieKey (\<lambda>_. 0) (?cs ! 1) \<le> tieKey (\<lambda>_. 0) (?cs ! 0)"
  proof (rule plan_set_nondominated)
    show "?cs = fold (addPlan (+) demo_shuffle (\<lambda>_. 0)) ?cs []" by (simp only: demo_set)
    show "\<forall>c\<in>set ?cs. cost (op_cost c) \<noteq> None" by (simp add: demo_exchange_def demo_leaf_def)
    show "costAsPartitioning (+) demo_shuffle (?cs ! 0) (outputPartitioning (?cs ! 1)) = Some 17" by code_simp
    show "cost (op_cost (?cs ! 1)) = Some 10" by (simp add: demo_leaf_def)
  qed simp_all
  then show ?thesis by simp
qed

theorem plan_set_optimal_witness:
  "map_option (\<lambda>s. cost (sel_cost s)) (ps_best (+) demo_shuffle (\<lambda>_. 0) (Some (p_gather KGlobal))
      (fold (addPlan (+) demo_shuffle (\<lambda>_. 0)) [demo_exchange, demo_leaf] [])) =
    (let E = {e. \<exists>c\<in>set [demo_exchange, demo_leaf].
        effectiveCost (+) demo_shuffle (Some (p_gather KGlobal)) c = Some e}
     in if E = {} then None else Some (Some (Min E)))"
proof (rule plan_set_optimal [where rels = "singleton 3" and rows = "Some 5"])
  show "\<forall>c\<in>set [demo_exchange, demo_leaf].
      cost (op_cost c) \<noteq> None \<and> cover c = singleton 3 \<and> cardinality (op_cost c) = Some 5"
    by (simp add: demo_exchange_def demo_leaf_def)
qed auto

end
