(* ===== verification/Join_Partitioning.thy ===== *)
theory Join_Partitioning
  imports Join_Type Physical_Properties
begin

text \<open>
  How a join uses and passes on the distribution of its inputs: a partitioning in terms of the
  positions of its keys among the join keys (\<^verbatim>\<open>optimizer/v2/JoinPartitioning.h\<close> and \<^verbatim>\<open>.cpp\<close>), and
  the partitioning of a join's output (\<^verbatim>\<open>Join::outputPartitioning\<close> in \<^verbatim>\<open>optimizer/v2/Node.cpp\<close>).

  Expressions are the ids of their objects. What the code asks of an expression is a
  parameter: its columns, the columns of its equivalence class, its type, whether it has null
  behaviour of its own, the substitution of columns, and the canonical coalesce of two
  expressions.
\<close>

section \<open>Positions of partition keys\<close>

record join_partitioning =
  keyPositions :: "nat list"
  jp_partitionType :: "nat option"

fun find_position :: "('a \<Rightarrow> bool) \<Rightarrow> 'a list \<Rightarrow> nat option" where
  "find_position p [] = None"
| "find_position p (x # xs) = (if p x then Some 0 else map_option Suc (find_position p xs))"

fun key_positions :: "(nat \<Rightarrow> nat \<Rightarrow> bool) \<Rightarrow> nat list \<Rightarrow> nat list \<Rightarrow> nat list option" where
  "key_positions sameOrEqual joinKeys [] = Some []"
| "key_positions sameOrEqual joinKeys (k # ks) =
     (case find_position (\<lambda>joinKey. sameOrEqual joinKey k) joinKeys of
        None \<Rightarrow> None
      | Some i \<Rightarrow> map_option (Cons i) (key_positions sameOrEqual joinKeys ks))"

definition jp_from :: "(nat \<Rightarrow> nat \<Rightarrow> bool) \<Rightarrow> partitioning \<Rightarrow> nat list \<Rightarrow> join_partitioning option" where
  "jp_from sameOrEqual p joinKeys =
     (if p_kind p \<noteq> KPartitioned \<or> p_keys p = [] \<or> p_replicateNullsAndAny p then None
      else case key_positions sameOrEqual joinKeys (p_keys p) of
             None \<Rightarrow> None
           | Some positions \<Rightarrow> Some \<lparr>keyPositions = positions, jp_partitionType = p_partitionType p\<rparr>)"

definition coPartitionsWith ::
  "(nat \<Rightarrow> int) \<Rightarrow> (nat \<Rightarrow> nat \<Rightarrow> nat option) \<Rightarrow> join_partitioning \<Rightarrow> join_partitioning \<Rightarrow> bool" where
  "coPartitionsWith numPartitions copartitionedType p q \<longleftrightarrow>
     keyPositions p = keyPositions q \<and>
     commonJoinPartitionType numPartitions copartitionedType (jp_partitionType p) (jp_partitionType q) \<noteq> None"

definition correspondingKeys :: "join_partitioning \<Rightarrow> 'k list \<Rightarrow> 'k list" where
  "correspondingKeys p joinKeys = map (\<lambda>position. joinKeys ! position) (keyPositions p)"

section \<open>The partitioning of the output\<close>

datatype type_kind = REAL | DOUBLE | OtherKind nat

datatype column_type = ColumnType (ct_kind: type_kind) (providesCustomComparison: bool) (children: "column_type list")

fun supportsCoalesceKey :: "column_type \<Rightarrow> bool" where
  "supportsCoalesceKey (ColumnType k custom ts) =
     (if k = REAL \<or> k = DOUBLE \<or> custom then False else list_all supportsCoalesceKey ts)"

record expr_ops =
  columnsOf :: "nat \<Rightarrow> nat set"
  equivalentColumns :: "nat \<Rightarrow> nat list"
  sameOrEqual :: "nat \<Rightarrow> nat \<Rightarrow> bool"
  typeOf :: "nat \<Rightarrow> column_type"
  nonDefaultNullBehavior :: "nat \<Rightarrow> bool"
  substitute :: "nat \<Rightarrow> nat list \<Rightarrow> nat list \<Rightarrow> nat"
  canonicalizeCoalesce :: "nat \<Rightarrow> nat \<Rightarrow> nat"
  numPartitions :: "nat \<Rightarrow> int"
  copartitionedType :: "nat \<Rightarrow> nat \<Rightarrow> nat option"

definition survivingEquiKey :: "expr_ops \<Rightarrow> nat \<Rightarrow> nat set \<Rightarrow> nat option" where
  "survivingEquiKey X key outs = find (\<lambda>column. column \<in> outs) (equivalentColumns X key)"

text \<open>The key of the output for one pair of partition keys of a full join.\<close>

definition full_join_key ::
  "expr_ops \<Rightarrow> nat list \<Rightarrow> nat list \<Rightarrow> nat set \<Rightarrow> nat list \<Rightarrow> nat list \<Rightarrow> nat \<Rightarrow> nat \<Rightarrow> nat option" where
  "full_join_key X lKeys rKeys outs joinOuts joinSources lPart rPart =
     (case find_position (\<lambda>(l, r). sameOrEqual X lPart l \<and> sameOrEqual X rPart r) (zip lKeys rKeys) of
        None \<Rightarrow> None
      | Some j \<Rightarrow>
          let leftKey = substitute X (lKeys ! j) joinSources joinOuts;
              rightKey = substitute X (rKeys ! j) joinSources joinOuts
          in if nonDefaultNullBehavior X leftKey \<or> nonDefaultNullBehavior X rightKey \<or>
                typeOf X leftKey \<noteq> typeOf X rightKey \<or> \<not> supportsCoalesceKey (typeOf X leftKey)
             then None
             else let key = canonicalizeCoalesce X leftKey rightKey
                  in if columnsOf X key \<subseteq> outs then Some key else None)"

fun all_some :: "'a option list \<Rightarrow> 'a list option" where
  "all_some [] = Some []"
| "all_some (x # xs) = (case x of None \<Rightarrow> None | Some y \<Rightarrow> map_option (Cons y) (all_some xs))"

definition fullJoinPartitioning ::
  "expr_ops \<Rightarrow> partitioning \<Rightarrow> partitioning \<Rightarrow> nat list \<Rightarrow> nat list \<Rightarrow> nat set \<Rightarrow> nat list \<Rightarrow> nat list \<Rightarrow>
   property_error + partitioning" where
  "fullJoinPartitioning X lp rp lKeys rKeys outs joinOuts joinSources =
     (if lKeys = [] then Inr (p_unspecified (p_scope lp))
      else if p_kind lp \<noteq> KPartitioned \<or> p_kind rp \<noteq> KPartitioned \<or>
         p_replicateNullsAndAny lp \<or> p_replicateNullsAndAny rp \<or> length (p_keys lp) \<noteq> length (p_keys rp)
      then Inr (p_unspecified (p_scope lp))
      else case commonJoinPartitionType (numPartitions X) (copartitionedType X)
             (p_partitionType lp) (p_partitionType rp) of
        None \<Rightarrow> Inr (p_unspecified (p_scope lp))
      | Some common \<Rightarrow>
          (case all_some (map (\<lambda>(l, r). full_join_key X lKeys rKeys outs joinOuts joinSources l r)
                 (zip (p_keys lp) (p_keys rp))) of
             None \<Rightarrow> Inr (p_unspecified (p_scope lp))
           | Some keys \<Rightarrow>
               (case common of
                  None \<Rightarrow> p_hash (p_scope lp) keys False
                | Some t \<Rightarrow> Inr (connectorHash (p_scope lp) keys t))))"

text \<open>The keys of the output of another join, each itself or an equal column that survives.\<close>

definition surviving_keys :: "expr_ops \<Rightarrow> nat set \<Rightarrow> nat list \<Rightarrow> nat list option" where
  "surviving_keys X outs keys =
     all_some (map (\<lambda>key. if columnsOf X key \<subseteq> outs then Some key else survivingEquiKey X key outs) keys)"

definition join_outputPartitioning ::
  "expr_ops \<Rightarrow> join_type \<Rightarrow> partitioning \<Rightarrow> partitioning \<Rightarrow> nat list \<Rightarrow> nat list \<Rightarrow> nat set \<Rightarrow>
   nat list \<Rightarrow> nat list \<Rightarrow> property_error + partitioning" where
  "join_outputPartitioning X jt lp rp lKeys rKeys outs joinOuts joinSources =
     check (length lKeys = length rKeys) KeyCountsDiffer
     (if p_kind lp = KGather \<and> p_kind rp = KGather then Inr (p_gather (p_scope lp))
      else if p_kind lp = KBroadcast \<and> p_kind rp = KBroadcast then Inr (dropOrder lp)
      else if jt = KFull then fullJoinPartitioning X lp rp lKeys rKeys outs joinOuts joinSources
      else
        let preserved = preservedSides jt in
        if \<not> side_left preserved \<and> \<not> side_right preserved then Inr (p_unspecified (p_scope lp))
        else
          let fromLeft = (side_left preserved \<and> \<not> (side_right preserved \<and> p_kind lp = KBroadcast));
              source = (if fromLeft then lp else rp);
              other = (if fromLeft then rp else lp);
              output = dropOrder source
          in
          if p_kind output \<noteq> KPartitioned then Inr output
          else
            case (if p_partitionType output \<noteq> None \<and> p_partitionType other \<noteq> None
                  then case commonJoinPartitionType (numPartitions X) (copartitionedType X)
                         (p_partitionType output) (p_partitionType other) of
                         None \<Rightarrow> None
                       | Some common \<Rightarrow> Some (output\<lparr>p_partitionType := common\<rparr>)
                  else Some output) of
              None \<Rightarrow> Inr (p_unspecified (p_scope source))
            | Some output \<Rightarrow>
                if set (p_keys output) \<subseteq> outs then Inr output
                else if jt \<noteq> KInner then Inr (p_unspecified (p_scope source))
                else (case surviving_keys X outs (p_keys output) of
                        None \<Rightarrow> Inr (p_unspecified (p_scope source))
                      | Some keys \<Rightarrow> Inr (output\<lparr>p_keys := keys\<rparr>)))"

end
