(* ===== verification/DPhyp_Candidates.thy ===== *)
theory DPhyp_Candidates
  imports Plan_Set Join_Cover Join_Enforcement Join_Partitioning
begin

text \<open>
  The first half of the join enumerator (\<^verbatim>\<open>optimizer/v2/DPhyp.cpp\<close>): its state, the budget,
  and the operations that turn a choice for one join step into memo entries, with the exchanges
  that bring the inputs where the join needs them.

  A \<open>planner\<close> holds what the enumeration only reads. The cost model is a parameter; it may
  keep state of its own (type \<open>'m\<close>), as the default one remembers estimates. The partitioning of
  a relation's node, of its grouped read, and whether the node reads the state of a loop are
  parameters too.
\<close>

section \<open>State\<close>

datatype dphyp_error =
  GraphError graph_error | PropertyError property_error | NoSwappedType | NotReversible
  | SpecialEdgesCross | KeyEdgeUnsupported | FilterEdgeUnsupported | OfferNotMapped | FindDiverges | NotOneFragment

record ('c, 'm) planner =
  graph :: hypergraph
  costOf :: "'c memo_op \<Rightarrow> 'm \<Rightarrow> 'c plan_cost \<times> 'm"
  shuffleCostOf :: "'c memo_op \<Rightarrow> 'c option"
  broadcastCostOf :: "'c memo_op \<Rightarrow> int \<Rightarrow> 'c option"
  fitsBroadcast :: "'c memo_op \<Rightarrow> bool"
  addCost :: "'c \<Rightarrow> 'c \<Rightarrow> 'c"
  joinTypeCode :: "join_type \<Rightarrow> int"
  relationPartitioning :: "nat \<Rightarrow> partitioning"
  groupedPartitioning :: "nat \<Rightarrow> partitioning"
  readsLoopState :: "nat \<Rightarrow> bool"
  exprOps :: expr_ops
  numWorkers :: int
  hashStageTasks :: int
  budgetCap :: int

record ('c, 'm) dphyp_state =
  memo :: "relation_set \<rightharpoonup> 'c memo_op list"
  enforcementOps :: "'c memo_op list"
  groupedPartitions :: "nat \<rightharpoonup> partitioning"
  bud_count :: int
  bud_exceeded :: bool
  bud_enforced :: bool
  costModel :: 'm

type_synonym ('c, 'm) planner_step = "('c, 'm) dphyp_state \<Rightarrow> dphyp_error + ('c, 'm) dphyp_state"

definition initial_state :: "('c, 'm) planner \<Rightarrow> 'm \<Rightarrow> ('c, 'm) dphyp_state" where
  "initial_state P m = \<lparr>memo = Map.empty, enforcementOps = [], groupedPartitions = Map.empty,
     bud_count = 0, bud_exceeded = False, bud_enforced = budgetCap P > 0, costModel = m\<rparr>"

section \<open>Budget\<close>

definition budget_consume :: "int \<Rightarrow> ('c, 'm) dphyp_state \<Rightarrow> bool \<times> ('c, 'm) dphyp_state" where
  "budget_consume cap s =
     (if \<not> bud_enforced s then (False, s)
      else
        let s = (if \<not> bud_exceeded s
                 then (let s = s\<lparr>bud_count := bud_count s + 1\<rparr>
                       in if bud_count s > cap then s\<lparr>bud_exceeded := True\<rparr> else s)
                 else s)
        in (bud_exceeded s, s))"

definition budget_reset :: "int \<Rightarrow> ('c, 'm) dphyp_state \<Rightarrow> ('c, 'm) dphyp_state" where
  "budget_reset cap s = s\<lparr>bud_count := 0, bud_exceeded := False, bud_enforced := cap > 0\<rparr>"

definition budget_disable :: "('c, 'm) dphyp_state \<Rightarrow> ('c, 'm) dphyp_state" where
  "budget_disable s = s\<lparr>bud_enforced := False\<rparr>"

section \<open>The memo\<close>

definition memo_add ::
  "('c :: linorder, 'm) planner \<Rightarrow> relation_set \<Rightarrow> 'c memo_op \<Rightarrow> ('c, 'm) dphyp_state \<Rightarrow> ('c, 'm) dphyp_state" where
  "memo_add P S candidate s =
     (let plans = (case memo s S of None \<Rightarrow> [] | Some plans \<Rightarrow> plans)
      in s\<lparr>memo := (memo s)(S \<mapsto> addPlan (addCost P) (shuffleCostOf P) (joinTypeCode P) candidate plans)\<rparr>)"

definition cheapestPlan ::
  "('c :: linorder, 'm) planner \<Rightarrow> relation_set \<Rightarrow> ('c, 'm) dphyp_state \<Rightarrow> 'c memo_op option" where
  "cheapestPlan P S s =
     (case memo s S of None \<Rightarrow> None | Some plans \<Rightarrow> cheapest (joinTypeCode P) plans)"

abbreviation no_cost :: "'c plan_cost" where
  "no_cost \<equiv> \<lparr>cost = None, cardinality = None\<rparr>"

text \<open>The cost model is asked with the entry before its cost is set.\<close>

definition with_cost :: "('c plan_cost \<Rightarrow> 'c memo_op) \<Rightarrow> ('c, 'm) planner \<Rightarrow> ('c, 'm) dphyp_state \<Rightarrow>
   'c memo_op \<times> ('c, 'm) dphyp_state" where
  "with_cost entry P s =
     (let (c, m) = costOf P (entry no_cost) (costModel s) in (entry c, s\<lparr>costModel := m\<rparr>))"

definition init_leaf ::
  "('c :: linorder, 'm) planner \<Rightarrow> nat \<Rightarrow> ('c, 'm) dphyp_state \<Rightarrow> ('c, 'm) dphyp_state" where
  "init_leaf P i s =
     (if rs_contains (expandedRelationIds (graph P)) i then s
      else if memo s (singleton i) \<noteq> None then s
      else let (leaf, s) = with_cost (\<lambda>c. LeafOp c i (relationPartitioning P i)) P s
           in memo_add P (singleton i) leaf s)"

definition initLeaves ::
  "('c :: linorder, 'm) planner \<Rightarrow> relation_set \<Rightarrow> ('c, 'm) dphyp_state \<Rightarrow> ('c, 'm) dphyp_state" where
  "initLeaves P rels s = rs_forEach (init_leaf P) rels s"

section \<open>Exchanges\<close>

definition makeExchange ::
  "'c memo_op \<Rightarrow> partitioning \<Rightarrow> 'c plan_cost \<Rightarrow> ('c, 'm) dphyp_state \<Rightarrow> 'c memo_op \<times> ('c, 'm) dphyp_state" where
  "makeExchange child p c s =
     (let exchange = ExchangeOp c child p in (exchange, s\<lparr>enforcementOps := enforcementOps s @ [exchange]\<rparr>))"

definition bestOnPartitioning ::
  "('c :: linorder, 'm) planner \<Rightarrow> relation_set \<Rightarrow> partitioning \<Rightarrow> ('c, 'm) dphyp_state \<Rightarrow>
   'c memo_op option \<times> ('c, 'm) dphyp_state" where
  "bestOnPartitioning P S required s =
     (case memo s S of
        None \<Rightarrow> (None, s)
      | Some plans \<Rightarrow>
          (case ps_best (addCost P) (shuffleCostOf P) (joinTypeCode P) (Some required) plans of
             None \<Rightarrow> (None, s)
           | Some selected \<Rightarrow>
               if sameClassAs (outputPartitioning (sel_plan selected)) required
               then (Some (sel_plan selected), s)
               else if p_kind (outputPartitioning (sel_plan selected)) = KBroadcast then (None, s)
               else let (exchange, s) = makeExchange (sel_plan selected) required (sel_cost selected) s
                    in (Some exchange, s)))"

definition gatheredSmall ::
  "('c :: linorder, 'm) planner \<Rightarrow> 'c memo_op \<Rightarrow> ('c, 'm) dphyp_state \<Rightarrow> 'c memo_op option \<times> ('c, 'm) dphyp_state" where
  "gatheredSmall P input s =
     (if \<not> fitsBroadcast P input then (None, s)
      else bestOnPartitioning P (cover input) (p_gather KGlobal) s)"

fun key_id :: "kexpr \<Rightarrow> nat" where
  "key_id (ColumnKey c) = jc_id c"
| "key_id (ExprKey i _) = i"

definition keysInCoverSchema :: "hypergraph \<Rightarrow> kexpr list \<Rightarrow> relation_set \<Rightarrow> dphyp_error + nat list" where
  "keysInCoverSchema h keys S =
     (case coverColumnReps h S of
        None \<Rightarrow> Inl FindDiverges
      | Some reps \<Rightarrow>
          Inr (map (\<lambda>key.
            case asColumn key of
              None \<Rightarrow> key_id key
            | Some c \<Rightarrow> (case reps c of Some r \<Rightarrow> jc_id r | None \<Rightarrow> jc_id c)) keys))"

definition lift_property :: "property_error + 'a \<Rightarrow> dphyp_error + 'a" where
  "lift_property r = (case r of Inl e \<Rightarrow> Inl (PropertyError e) | Inr x \<Rightarrow> Inr x)"

definition repartitioned ::
  "('c :: linorder, 'm) planner \<Rightarrow> relation_set \<Rightarrow> kexpr list \<Rightarrow> bool \<Rightarrow> ('c, 'm) dphyp_state \<Rightarrow>
   dphyp_error + 'c memo_op option \<times> ('c, 'm) dphyp_state" where
  "repartitioned P S keys replicateNulls s =
     bind_res (keysInCoverSchema (graph P) keys S)
       (\<lambda>ks. bind_res (lift_property (p_hash KGlobal ks replicateNulls))
         (\<lambda>required. Inr (bestOnPartitioning P S required s)))"

definition repartitionedTo ::
  "('c :: linorder, 'm) planner \<Rightarrow> relation_set \<Rightarrow> kexpr list \<Rightarrow> nat \<Rightarrow> ('c, 'm) dphyp_state \<Rightarrow>
   dphyp_error + 'c memo_op option \<times> ('c, 'm) dphyp_state" where
  "repartitionedTo P S keys targetType s =
     bind_res (keysInCoverSchema (graph P) keys S)
       (\<lambda>ks. Inr (bestOnPartitioning P S (connectorHash KGlobal ks targetType) s))"

definition groupedRelationPartition ::
  "('c, 'm) planner \<Rightarrow> nat \<Rightarrow> ('c, 'm) dphyp_state \<Rightarrow> partitioning \<times> ('c, 'm) dphyp_state" where
  "groupedRelationPartition P i s =
     (case groupedPartitions s i of
        Some p \<Rightarrow> (p, s)
      | None \<Rightarrow> let p = groupedPartitioning P i in (p, s\<lparr>groupedPartitions := (groupedPartitions s)(i \<mapsto> p)\<rparr>))"

definition partitioningsOn ::
  "('c :: linorder, 'm) planner \<Rightarrow> relation_set \<Rightarrow> kexpr list \<Rightarrow> ('c, 'm) dphyp_state \<Rightarrow>
   dphyp_error + 'c partitioning_alternatives \<times> ('c, 'm) dphyp_state" where
  "partitioningsOn P S keys s =
     (case memo s S of
        None \<Rightarrow> Inr (\<lparr>connectorBucketed = [], standardHash = []\<rparr>, s)
      | Some plans \<Rightarrow>
          bind_res (keysInCoverSchema (graph P) keys S)
            (\<lambda>coverKeys.
               let alternatives = partitioningsOnSubsets coverKeys plans in
               if connectorBucketed alternatives \<noteq> [] then Inr (alternatives, s)
               else if rs_size S \<noteq> 1 then Inr (alternatives, s)
               else
                 let (groupedPartition, s) = groupedRelationPartition P (rs_min S) s in
                 if \<not> p_coLocates groupedPartition coverKeys then Inr (alternatives, s)
                 else
                   let (grouped, s) = with_cost (\<lambda>c. LeafOp c (rs_min S) groupedPartition) P s;
                       s = memo_add P S grouped s
                   in Inr (partitioningsOnSubsets coverKeys (the (memo s S)), s)))"

fun opt_add :: "('c \<Rightarrow> 'c \<Rightarrow> 'c) \<Rightarrow> 'c option \<Rightarrow> 'c option \<Rightarrow> 'c option" where
  "opt_add addf (Some a) (Some b) = Some (addf a b)"
| "opt_add addf _ _ = None"

definition replicatedChild ::
  "('c :: linorder, 'm) planner \<Rightarrow> relation_set \<Rightarrow> partitioning \<Rightarrow> ('c, 'm) dphyp_state \<Rightarrow>
   'c memo_op option \<times> ('c, 'm) dphyp_state" where
  "replicatedChild P S probePartitioning s =
     (case cheapestPlan P S s of
        None \<Rightarrow> (None, s)
      | Some base \<Rightarrow>
          if \<not> fitsBroadcast P base then (None, s)
          else if p_kind (outputPartitioning base) = KBroadcast \<and> p_kind probePartitioning \<noteq> KGather
          then (Some base, s)
          else
            let replicated = globalReplicatedTo probePartitioning in
            if p_kind replicated = KGather then bestOnPartitioning P S replicated s
            else
              let c = (op_cost base)\<lparr>cost := opt_add (addCost P) (cost (op_cost base))
                     (broadcastCostOf P base
                       (numStageTasks (numPartitions (exprOps P)) probePartitioning (numWorkers P) (hashStageTasks P)))\<rparr>;
                  (exchange, s) = makeExchange base globalBroadcast c s
              in (Some exchange, s))"

section \<open>Join candidates\<close>

text \<open>One way to apply edges at a join: everything but the two inputs.\<close>

record join_spec =
  js_edge :: nat
  js_type :: join_type
  js_combined :: relation_set
  js_reversedAnti :: bool
  js_keyEdges :: "nat list"
  js_filterEdges :: "nat list"

definition orientedKeys ::
  "hypergraph \<Rightarrow> 'c memo_op \<Rightarrow> nat \<Rightarrow> nat list \<Rightarrow> kexpr list \<times> kexpr list" where
  "orientedKeys h left edge moreEdges =
     fold (\<lambda>i (lKeys, rKeys).
       let e = edges h ! i in
       if rs_isSubset (leftEligibility e) (cover left)
       then (lKeys @ leftKeys e, rKeys @ rightKeys e)
       else (lKeys @ rightKeys e, rKeys @ leftKeys e)) (edge # moreEdges) ([], [])"

definition candidateOutputPartitioning ::
  "('c, 'm) planner \<Rightarrow> 'c memo_op \<Rightarrow> 'c memo_op \<Rightarrow> join_spec \<Rightarrow> kexpr list \<Rightarrow> kexpr list \<Rightarrow>
   dphyp_error + partitioning" where
  "candidateOutputPartitioning P left right J lKeys rKeys =
     bind_res (keysInCoverSchema (graph P) lKeys (cover left))
       (\<lambda>leftCoverKeys. bind_res (keysInCoverSchema (graph P) rKeys (cover right))
         (\<lambda>rightCoverKeys.
            case emittedJoinType (js_type J) (js_reversedAnti J) of
              Inl _ \<Rightarrow> Inl NotReversible
            | Inr emitted \<Rightarrow>
                (case computeOutputColumns (graph P) (js_combined J) of
                   None \<Rightarrow> Inl FindDiverges
                 | Some outs \<Rightarrow>
                     let e = edges (graph P) ! js_edge J in
                     lift_property (join_outputPartitioning (exprOps P) emitted
                       (outputPartitioning left) (outputPartitioning right) leftCoverKeys rightCoverKeys
                       (jc_id ` set outs) (map jc_id (outputColumns e)) (map jc_id (sourceColumns e))))))"

definition addJoinCandidate ::
  "('c :: linorder, 'm) planner \<Rightarrow> 'c memo_op \<Rightarrow> 'c memo_op \<Rightarrow> join_spec \<Rightarrow> partitioning \<Rightarrow>
   ('c, 'm) dphyp_state \<Rightarrow> ('c, 'm) dphyp_state" where
  "addJoinCandidate P left right J p s =
     (let s = snd (budget_consume (budgetCap P) s);
          (candidate, s) = with_cost (\<lambda>c. JoinOp c left right (js_edge J) (js_type J) (js_reversedAnti J)
            (js_keyEdges J) (js_filterEdges J) p) P s
      in if cost (op_cost candidate) = None then s else memo_add P (js_combined J) candidate s)"

definition addDistributedJoinCandidate ::
  "('c :: linorder, 'm) planner \<Rightarrow> 'c memo_op \<Rightarrow> 'c memo_op \<Rightarrow> join_spec \<Rightarrow> kexpr list \<Rightarrow> kexpr list \<Rightarrow>
   ('c, 'm) planner_step" where
  "addDistributedJoinCandidate P left right J lKeys rKeys s =
     bind_res (candidateOutputPartitioning P left right J lKeys rKeys)
       (\<lambda>p. Inr (addJoinCandidate P left right J p s))"

record 'c memo_offer =
  offer_plan :: "'c memo_op"
  offer_partitioning :: join_partitioning

text \<open>Of several plans with one partitioning only the cheapest is offered.\<close>

fun add_offer :: "('c :: linorder) memo_op \<Rightarrow> join_partitioning \<Rightarrow> 'c memo_offer list \<Rightarrow> 'c memo_offer list" where
  "add_offer plan p [] = [\<lparr>offer_plan = plan, offer_partitioning = p\<rparr>]"
| "add_offer plan p (offer # offers) =
     (if keyPositions (offer_partitioning offer) = keyPositions p \<and>
         jp_partitionType (offer_partitioning offer) = jp_partitionType p
      then (if the (cost (op_cost plan)) < the (cost (op_cost (offer_plan offer)))
            then \<lparr>offer_plan = plan, offer_partitioning = p\<rparr> # offers
            else offer # offers)
      else offer # add_offer plan p offers)"

fun makeOffers ::
  "(nat \<Rightarrow> nat \<Rightarrow> bool) \<Rightarrow> nat list \<Rightarrow> ('c :: linorder) memo_op list \<Rightarrow> 'c memo_offer list \<Rightarrow>
   dphyp_error + 'c memo_offer list" where
  "makeOffers same coverKeys [] offers = Inr offers"
| "makeOffers same coverKeys (plan # plans) offers =
     (case jp_from same (outputPartitioning plan) coverKeys of
        None \<Rightarrow> Inl OfferNotMapped
      | Some p \<Rightarrow> makeOffers same coverKeys plans (add_offer plan p offers))"

record 'c memo_offers =
  offers_hash :: "'c memo_offer list"
  offers_connector :: "'c memo_offer list"

definition partitioningOffers ::
  "('c :: linorder, 'm) planner \<Rightarrow> 'c memo_op \<Rightarrow> kexpr list \<Rightarrow> ('c, 'm) dphyp_state \<Rightarrow>
   dphyp_error + 'c memo_offers \<times> ('c, 'm) dphyp_state" where
  "partitioningOffers P plan keys s =
     bind_res (partitioningsOn P (cover plan) keys s)
       (\<lambda>(alternatives, s). bind_res (keysInCoverSchema (graph P) keys (cover plan))
         (\<lambda>coverKeys. bind_res (makeOffers (sameOrEqual (exprOps P)) coverKeys (standardHash alternatives) [])
           (\<lambda>hash. bind_res (makeOffers (sameOrEqual (exprOps P)) coverKeys (connectorBucketed alternatives) [])
             (\<lambda>connector. Inr (\<lparr>offers_hash = hash, offers_connector = connector\<rparr>, s)))))"

fun fold_res :: "('x \<Rightarrow> 's \<Rightarrow> 'e + 's) \<Rightarrow> 'x list \<Rightarrow> 's \<Rightarrow> 'e + 's" where
  "fold_res f [] s = Inr s"
| "fold_res f (x # xs) s = bind_res (f x s) (fold_res f xs)"

definition add_aligned ::
  "('c :: linorder, 'm) planner \<Rightarrow> 'c memo_op \<Rightarrow> 'c memo_op \<Rightarrow> join_spec \<Rightarrow> kexpr list \<Rightarrow> kexpr list \<Rightarrow>
   bool \<Rightarrow> 'c memo_offer \<Rightarrow> ('c, 'm) planner_step" where
  "add_aligned P left right J lKeys rKeys keepLeft keptOffer s =
     (let movedKeys = (if keepLeft then rKeys else lKeys);
          alignedKeys = correspondingKeys (offer_partitioning keptOffer) movedKeys;
          movedCover = (if keepLeft then cover right else cover left)
      in bind_res
           (case p_partitionType (outputPartitioning (offer_plan keptOffer)) of
              None \<Rightarrow> repartitioned P movedCover alignedKeys False s
            | Some t \<Rightarrow> repartitionedTo P movedCover alignedKeys t s)
           (\<lambda>(aligned, s).
              case aligned of
                None \<Rightarrow> Inr s
              | Some a \<Rightarrow> addDistributedJoinCandidate P
                  (if keepLeft then offer_plan keptOffer else a) (if keepLeft then a else offer_plan keptOffer)
                  J lKeys rKeys s))"

definition addCoPartitionedCandidate ::
  "('c :: linorder, 'm) planner \<Rightarrow> 'c memo_op \<Rightarrow> 'c memo_op \<Rightarrow> join_spec \<Rightarrow> kexpr list \<Rightarrow> kexpr list \<Rightarrow>
   'c memo_offer list \<Rightarrow> 'c memo_offer list \<Rightarrow> ('c, 'm) planner_step" where
  "addCoPartitionedCandidate P left right J lKeys rKeys leftOffers rightOffers s =
     (if leftOffers = [] \<and> rightOffers = [] then Inr s
      else
        bind_res
          (fold_res (\<lambda>(l, r) s.
             if coPartitionsWith (numPartitions (exprOps P)) (copartitionedType (exprOps P))
                  (offer_partitioning l) (offer_partitioning r)
             then addDistributedJoinCandidate P (offer_plan l) (offer_plan r) J lKeys rKeys s
             else Inr s) (List.product leftOffers rightOffers) s)
          (\<lambda>s. bind_res
             (fold_res (\<lambda>l. add_aligned P left right J lKeys rKeys True l) leftOffers s)
             (\<lambda>s. fold_res (\<lambda>r. add_aligned P left right J lKeys rKeys False r) rightOffers s)))"

text \<open>The strategies for several workers, in the order the code offers them.\<close>

definition add_if_both ::
  "('c :: linorder, 'm) planner \<Rightarrow> join_spec \<Rightarrow> kexpr list \<Rightarrow> kexpr list \<Rightarrow>
   'c memo_op option \<Rightarrow> 'c memo_op option \<Rightarrow> ('c, 'm) planner_step" where
  "add_if_both P J lKeys rKeys left right s =
     (case (left, right) of
        (Some l, Some r) \<Rightarrow> addDistributedJoinCandidate P l r J lKeys rKeys s
      | _ \<Rightarrow> Inr s)"

definition consider_gathered ::
  "('c :: linorder, 'm) planner \<Rightarrow> 'c memo_op \<Rightarrow> 'c memo_op \<Rightarrow> join_spec \<Rightarrow> kexpr list \<Rightarrow> kexpr list \<Rightarrow>
   ('c, 'm) planner_step" where
  "consider_gathered P left right J lKeys rKeys s =
     (let leftGathered = p_kind (outputPartitioning left) = KGather;
          rightGathered = p_kind (outputPartitioning right) = KGather
      in if leftGathered \<or> rightGathered
         then
           let (gatheredLeft, s) = (if leftGathered then (Some left, s) else gatheredSmall P left s);
               (gatheredRight, s) = (if rightGathered then (Some right, s) else gatheredSmall P right s)
           in add_if_both P J lKeys rKeys gatheredLeft gatheredRight s
         else Inr s)"

definition consider_replicated ::
  "('c :: linorder, 'm) planner \<Rightarrow> 'c memo_op \<Rightarrow> 'c memo_op \<Rightarrow> join_spec \<Rightarrow> kexpr list \<Rightarrow> kexpr list \<Rightarrow>
   ('c, 'm) planner_step" where
  "consider_replicated P left right J lKeys rKeys s =
     (let leftReplicated = p_kind (outputPartitioning left) = KBroadcast;
          rightReplicated = p_kind (outputPartitioning right) = KBroadcast
      in if leftReplicated \<or> rightReplicated
         then
           let (replicatedLeft, s) =
                 (if leftReplicated then (Some left, s) else replicatedChild P (cover left) globalBroadcast s);
               (replicatedRight, s) =
                 (if rightReplicated then (Some right, s) else replicatedChild P (cover right) globalBroadcast s)
           in bind_res (add_if_both P J lKeys rKeys replicatedLeft replicatedRight s)
             (\<lambda>s. if leftReplicated \<and> \<not> rightReplicated \<and> canBroadcastProbe (js_type J) \<and> \<not> js_reversedAnti J
                  then addDistributedJoinCandidate P left right J lKeys rKeys s
                  else Inr s)
         else Inr s)"

definition consider_partitioned ::
  "('c :: linorder, 'm) planner \<Rightarrow> 'c memo_op \<Rightarrow> 'c memo_op \<Rightarrow> join_spec \<Rightarrow> kexpr list \<Rightarrow> kexpr list \<Rightarrow>
   ('c, 'm) planner_step" where
  "consider_partitioned P left right J lKeys rKeys s =
     (if lKeys = [] then Inr s
      else
        let e = edges (graph P) ! js_edge J in
        if nullAware e
        then bind_res (repartitioned P (cover left) lKeys (rs_isSubset (rightEligibility e) (cover left)) s)
          (\<lambda>(leftPart, s). bind_res
             (repartitioned P (cover right) rKeys (rs_isSubset (rightEligibility e) (cover right)) s)
             (\<lambda>(rightPart, s). add_if_both P J lKeys rKeys leftPart rightPart s))
        else bind_res (partitioningOffers P left lKeys s)
          (\<lambda>(leftOffers, s). bind_res (partitioningOffers P right rKeys s)
            (\<lambda>(rightOffers, s). bind_res
               (addCoPartitionedCandidate P left right J lKeys rKeys
                  (offers_hash leftOffers) (offers_hash rightOffers) s)
               (\<lambda>s. bind_res
                  (addCoPartitionedCandidate P left right J lKeys rKeys
                     (offers_connector leftOffers) (offers_connector rightOffers) s)
                  (\<lambda>s. if offers_hash leftOffers = [] \<and> offers_connector leftOffers = [] \<and>
                          offers_hash rightOffers = [] \<and> offers_connector rightOffers = []
                       then bind_res (repartitioned P (cover left) lKeys False s)
                         (\<lambda>(leftPart, s). bind_res (repartitioned P (cover right) rKeys False s)
                           (\<lambda>(rightPart, s). add_if_both P J lKeys rKeys leftPart rightPart s))
                       else Inr s)))))"

definition consider_broadcast ::
  "('c :: linorder, 'm) planner \<Rightarrow> 'c memo_op \<Rightarrow> 'c memo_op \<Rightarrow> join_spec \<Rightarrow> kexpr list \<Rightarrow> kexpr list \<Rightarrow>
   ('c, 'm) planner_step" where
  "consider_broadcast P left right J lKeys rKeys s =
     (if canBroadcastBuild (js_type J) \<and> \<not> js_reversedAnti J
      then let (replicatedBuild, s) = replicatedChild P (cover right) (outputPartitioning left) s
           in add_if_both P J lKeys rKeys (Some left) replicatedBuild s
      else Inr s)"

definition considerCandidate ::
  "('c :: linorder, 'm) planner \<Rightarrow> 'c memo_op \<Rightarrow> 'c memo_op \<Rightarrow> join_spec \<Rightarrow> ('c, 'm) planner_step" where
  "considerCandidate P left right J s =
     (if numWorkers P = 1 then Inr (addJoinCandidate P left right J (p_unspecified KGlobal) s)
      else
        let (lKeys, rKeys) = orientedKeys (graph P) left (js_edge J) (js_keyEdges J) in
        bind_res (consider_gathered P left right J lKeys rKeys s)
          (\<lambda>s. bind_res (consider_replicated P left right J lKeys rKeys s)
            (\<lambda>s. bind_res (consider_partitioned P left right J lKeys rKeys s)
              (\<lambda>s. consider_broadcast P left right J lKeys rKeys s))))"

end
