(* ===== verification/DPhyp.thy ===== *)
theory DPhyp
  imports DPhyp_Candidates
begin

text \<open>
  The join enumerator (\<^verbatim>\<open>optimizer/v2/DPhyp.h\<close> and \<^verbatim>\<open>.cpp\<close>): the recursion over connected
  subgraphs and their complements, the step that joins such a pair, the greedy ordering that takes
  over when the budget is spent, and the two entry points. \<open>enumerateCsgRec\<close> and
  \<open>enumerateCmpRec\<close> are the same text but for what they do with a set they reach, so both are
  instances of one function.
\<close>

section \<open>Neighbourhoods and subsets\<close>

definition keepsBothInputs :: "join_type \<Rightarrow> bool" where
  "keepsBothInputs jt \<longleftrightarrow> jt = KInner \<or> jt = KLeft \<or> jt = KRight \<or> jt = KFull"

definition other_side :: "join_edge \<Rightarrow> relation_set \<Rightarrow> relation_set option" where
  "other_side e S =
     (if rs_isSubset (leftEligibility e) S \<and> \<not> rs_hasIntersection (rightEligibility e) S
      then Some (rightEligibility e)
      else if rs_isSubset (rightEligibility e) S \<and> \<not> rs_hasIntersection (leftEligibility e) S
      then Some (leftEligibility e)
      else None)"

definition neighborhood :: "hypergraph \<Rightarrow> relation_set \<Rightarrow> relation_set \<Rightarrow> relation_set" where
  "neighborhood h S forbidden =
     fold (\<lambda>e result.
       case other_side e S of
         None \<Rightarrow> result
       | Some other \<Rightarrow> if rs_hasIntersection other forbidden then result else rs_add result (rs_min other))
       (edges h) rs_empty_set"

definition hasRightProjectVariant :: "join_edge \<Rightarrow> bool" where
  "hasRightProjectVariant e \<longleftrightarrow> \<not> (nullAware e \<and> edge_filter e \<noteq> [])"

lemma sub_1_and_less: "w \<noteq> 0 \<Longrightarrow> unat ((w - 1) AND n) < unat (w :: u64)"
proof -
  assume "w \<noteq> 0"
  then have "unat (w - 1) < unat w" by (simp add: measure_unat)
  moreover have "unat ((w - 1) AND n) \<le> unat (w - 1)"
    by (simp add: word_and_le2 flip: word_le_nat_alt)
  ultimately show ?thesis by simp
qed

function subset_loop :: "u64 \<Rightarrow> u64 \<Rightarrow> u64 list" where
  "subset_loop neighborBits w =
     (if w = 0 then [] else w # subset_loop neighborBits ((w - 1) AND neighborBits))"
  by pat_completeness auto
termination
  by (relation "measure (\<lambda>(n, w). unat w)") (auto intro: sub_1_and_less)

declare subset_loop.simps [simp del]

definition subsetsBySize :: "u64 \<Rightarrow> u64 list" where
  "subsetsBySize neighborBits =
     sort_key (\<lambda>w. (popcount w, w)) (subset_loop neighborBits neighborBits)"

section \<open>Joining a pair\<close>

definition emitUnnest ::
  "('c :: linorder, 'm) planner \<Rightarrow> relation_set \<Rightarrow> nat \<Rightarrow> relation_set \<Rightarrow> nat list \<Rightarrow>
   ('c, 'm) dphyp_state \<Rightarrow> ('c, 'm) dphyp_state" where
  "emitUnnest P inputSet edge combined filters s =
     (case cheapestPlan P inputSet s of
        None \<Rightarrow> s
      | Some input \<Rightarrow>
          let s = snd (budget_consume (budgetCap P) s);
              (candidate, s) = with_cost
                (\<lambda>c. makeUnnestOp c input edge (rightEndpoints (edges (graph P) ! edge)) filters) P s
          in if cost (op_cost candidate) = None then s else memo_add P combined candidate s)"

definition readsState :: "('c, 'm) planner \<Rightarrow> relation_set \<Rightarrow> bool" where
  "readsState P S = rs_anyOf (readsLoopState P) S"

definition considerOrientations ::
  "('c :: linorder, 'm) planner \<Rightarrow> 'c memo_op \<Rightarrow> 'c memo_op \<Rightarrow> join_spec \<Rightarrow> ('c, 'm) planner_step" where
  "considerOrientations P left right J s =
     (let e = edges (graph P) ! js_edge J;
          loopInvariant = loopInvariantSide (js_type J) (leftKeys e \<noteq> []) (nullAsValue e)
            (sides (readsState P (cover left)) (readsState P (cover right)))
      in bind_res (if \<not> side_left loopInvariant then considerCandidate P left right J s else Inr s)
           (\<lambda>s. if \<not> side_right loopInvariant
                then (case swapType (js_type J) of
                        Inl _ \<Rightarrow> Inl NoSwappedType
                      | Inr t \<Rightarrow> considerCandidate P right left (J\<lparr>js_type := t\<rparr>) s)
                else Inr s))"

definition emitSingleEdge ::
  "('c :: linorder, 'm) planner \<Rightarrow> nat \<Rightarrow> bool \<Rightarrow> 'c memo_op \<Rightarrow> 'c memo_op \<Rightarrow> relation_set \<Rightarrow>
   nat list \<Rightarrow> nat list \<Rightarrow> ('c, 'm) planner_step" where
  "emitSingleEdge P edge fwd left right combined keys filters s =
     (let e = edges (graph P) ! edge;
          J = \<lparr>js_edge = edge, js_type = joinType e, js_combined = combined, js_reversedAnti = False,
               js_keyEdges = keys, js_filterEdges = filters\<rparr>
      in
      check (keys = [] \<or> joinType e = KInner) KeyEdgeUnsupported
      (check (filters = [] \<or> keepsBothInputs (joinType e)) FilterEdgeUnsupported
      (let probeOnLeft = (if fwd then left else right);
           probeOnRight = (if fwd then right else left)
       in if joinType e = KAnti \<or> joinType e = KLeftSemiProject \<and> \<not> hasRightProjectVariant e
          then bind_res (considerCandidate P probeOnLeft probeOnRight J s)
            (\<lambda>s. if joinType e = KAnti \<and> hasRightProjectVariant e
                 then considerCandidate P probeOnRight probeOnLeft
                   (J\<lparr>js_reversedAnti := True, js_keyEdges := [], js_filterEdges := []\<rparr>) s
                 else Inr s)
          else (case (if fwd then Inr (joinType e) else swapType (joinType e)) of
                  Inl _ \<Rightarrow> Inl NoSwappedType
                | Inr t \<Rightarrow> considerOrientations P left right (J\<lparr>js_type := t\<rparr>) s))))"

definition applyCrossingEdge ::
  "('c :: linorder, 'm) planner \<Rightarrow> nat \<Rightarrow> bool \<Rightarrow> relation_set \<Rightarrow> relation_set \<Rightarrow> relation_set \<Rightarrow>
   nat list \<Rightarrow> nat list \<Rightarrow> ('c, 'm) planner_step" where
  "applyCrossingEdge P edge fwd subgraph complement combined keys filters s =
     (let e = edges (graph P) ! edge in
      if isUnnest e
      then (if complement \<noteq> rightEligibility e then Inr s
            else Inr (emitUnnest P subgraph edge combined filters s))
      else case (cheapestPlan P subgraph s, cheapestPlan P complement s) of
        (Some left, Some right) \<Rightarrow> emitSingleEdge P edge fwd left right combined keys filters s
      | _ \<Rightarrow> Inr s)"

text \<open>The position of the only edge that is not a plain inner edge, if there is exactly one.\<close>

fun special_position :: "join_edge list \<Rightarrow> (nat \<times> bool) list \<Rightarrow> nat \<Rightarrow> nat option \<Rightarrow> nat option" where
  "special_position es [] i special = special"
| "special_position es ((e, _) # xs) i special =
     (if filterable (es ! e) then special_position es xs (Suc i) special
      else if special \<noteq> None then None
      else special_position es xs (Suc i) (Some i))"

definition canApplyFilterEdges :: "join_edge \<Rightarrow> nat list \<Rightarrow> bool" where
  "canApplyFilterEdges e filters \<longleftrightarrow> filters = [] \<or> isUnnest e \<or> keepsBothInputs (joinType e)"

definition emitInnerEdges ::
  "('c :: linorder, 'm) planner \<Rightarrow> relation_set \<Rightarrow> relation_set \<Rightarrow> nat list \<Rightarrow> nat list \<Rightarrow> ('c, 'm) planner_step" where
  "emitInnerEdges P subgraph complement indices filters s =
     check (list_all (\<lambda>i. filterable (edges (graph P) ! i)) indices) SpecialEdgesCross
       (case (cheapestPlan P subgraph s, cheapestPlan P complement s) of
          (Some left, Some right) \<Rightarrow>
            (case canonicalKeyEdges (graph P) indices of
               Inl err \<Rightarrow> Inl (GraphError err)
             | Inr canonical \<Rightarrow>
                 considerOrientations P left right
                   \<lparr>js_edge = hd canonical, js_type = KInner, js_combined = rs_unionSet subgraph complement,
                    js_reversedAnti = False, js_keyEdges = tl canonical, js_filterEdges = filters\<rparr> s)
        | _ \<Rightarrow> Inr s)"

definition emitCsgCmp ::
  "('c :: linorder, 'm) planner \<Rightarrow> relation_set \<Rightarrow> relation_set \<Rightarrow> ('c, 'm) planner_step" where
  "emitCsgCmp P subgraph complement s =
     (let (stop, s) = budget_consume (budgetCap P) s in
      if stop then Inr s
      else case crossingEdges (graph P) subgraph complement of
        None \<Rightarrow> Inr s
      | Some (joinEdges, filters) \<Rightarrow>
          if joinEdges = [] then Inr s
          else
            let combined = rs_unionSet subgraph complement; es = edges (graph P) in
            if length joinEdges = 1
            then let (edge, fwd) = hd joinEdges in
              if \<not> canApplyFilterEdges (es ! edge) filters then Inr s
              else applyCrossingEdge P edge fwd subgraph complement combined [] filters s
            else case special_position es joinEdges 0 None of
              Some i \<Rightarrow>
                let (edge, fwd) = joinEdges ! i;
                    filters = filters @ map fst (take i joinEdges @ drop (Suc i) joinEdges)
                in if \<not> canApplyFilterEdges (es ! edge) filters then Inr s
                   else applyCrossingEdge P edge fwd subgraph complement combined [] filters s
            | None \<Rightarrow> emitInnerEdges P subgraph complement (map fst joinEdges) filters s)"

section \<open>Enumeration\<close>

lemma bind_res_cong [fundef_cong]:
  "r = r' \<Longrightarrow> (\<And>x. r' = Inr x \<Longrightarrow> f x = g x) \<Longrightarrow> bind_res r f = bind_res r' g"
  by (cases r') auto

lemma fold_res_cong [fundef_cong]:
  "xs = ys \<Longrightarrow> s = t \<Longrightarrow> (\<And>x s. x \<in> set ys \<Longrightarrow> f x s = g x s) \<Longrightarrow> fold_res f xs s = fold_res g ys t"
proof (induction ys arbitrary: xs s t)
  case (Cons y ys)
  then show ?case by (auto intro!: bind_res_cong)
qed simp

lemma neighborhood_add: "ids (rs_add result (rs_min other)) \<subseteq> insert (rs_min other) (ids result)"
  by (auto simp: rs_add_def ids_def bit_or_iff bit_mask_of)

lemma rs_min_in: "rs_min S < 64 \<Longrightarrow> rs_min S \<in> ids S"
proof -
  assume *: "rs_min S < 64"
  have "countr_zero (bits S) = 64 \<or> bit (bits S) (countr_zero (bits S))"
    by (auto simp: countr_zero_def find_Some_iff split: option.splits)
  then show ?thesis using * by (simp add: rs_min_def ids_def)
qed

lemma neighborhood_outside: "ids (neighborhood h S forbidden) \<inter> ids forbidden = {}"
proof -
  have "ids (fold (\<lambda>e result. case other_side e S of None \<Rightarrow> result
      | Some other \<Rightarrow> if rs_hasIntersection other forbidden then result else rs_add result (rs_min other))
      es r) \<inter> ids forbidden = {}" if "ids r \<inter> ids forbidden = {}" for es r
    using that
  proof (induction es arbitrary: r)
    case (Cons e es)
    show ?case
    proof (cases "\<exists>other. other_side e S = Some other \<and> \<not> rs_hasIntersection other forbidden")
      case True
      then obtain other where o: "other_side e S = Some other" "ids other \<inter> ids forbidden = {}"
        by (auto simp: set_abs)
      have "ids (rs_add r (rs_min other)) \<inter> ids forbidden = {}"
      proof (cases "rs_min other < 64")
        case True
        then show ?thesis using o(2) Cons.prems rs_min_in [OF True] neighborhood_add [of r other] by blast
      next
        case False
        then have "rs_add r (rs_min other) = r"
          by (intro rs_eqI) (auto simp: rs_add_def ids_def bit_or_iff bit_mask_of)
        then show ?thesis using Cons.prems by simp
      qed
      then show ?thesis using o Cons.IH by (simp add: set_abs)
    next
      case False
      then show ?thesis using Cons by (auto split: option.splits)
    qed
  qed simp
  from this [of rs_empty_set "edges h"] show ?thesis by (simp add: neighborhood_def set_abs)
qed

lemma card_ids_le: "card (ids S) \<le> 64"
  using card_mono [of "{..<64}" "ids S"] by (auto dest: ids_bound)

lemma forbidden_grows:
  assumes "\<not> rs_empty (neighborhood h S F)"
  shows "64 - card (ids (rs_unionSet F (neighborhood h S F))) < 64 - card (ids F)"
proof -
  let ?N = "ids (neighborhood h S F)"
  have "?N \<noteq> {}" using assms by (simp add: set_abs)
  then have "ids F \<subset> ids F \<union> ?N" using neighborhood_outside [of h S F] by blast
  then have "card (ids F) < card (ids (rs_unionSet F (neighborhood h S F)))"
    by (simp add: set_abs psubset_card_mono)
  then show ?thesis using card_ids_le [of "rs_unionSet F (neighborhood h S F)"] by linarith
qed

function enumerate_rec ::
  "hypergraph \<Rightarrow> (relation_set \<Rightarrow> ('c, 'm) planner_step) \<Rightarrow> relation_set \<Rightarrow> relation_set \<Rightarrow> ('c, 'm) planner_step" where
  "enumerate_rec h emit S forbidden s =
     (if bud_exceeded s then Inr s
      else
        let neighbors = neighborhood h S forbidden in
        if rs_empty neighbors then Inr s
        else
          let subsets = subsetsBySize (bits neighbors) in
          bind_res
            (fold_res (\<lambda>sub s.
               let combined = RelationSet (bits S OR sub) in
               if memo s combined \<noteq> None then emit combined s else Inr s) subsets s)
            (\<lambda>s. fold_res (\<lambda>sub s.
               enumerate_rec h emit (RelationSet (bits S OR sub)) (rs_unionSet forbidden neighbors) s)
               subsets s))"
  by pat_completeness auto
termination
  by (relation "measure (\<lambda>(h, emit, S, F, s). 64 - card (ids F))") (auto intro: forbidden_grows)

declare enumerate_rec.simps [simp del]

definition enumerateCmpRec ::
  "('c :: linorder, 'm) planner \<Rightarrow> relation_set \<Rightarrow> relation_set \<Rightarrow> relation_set \<Rightarrow> ('c, 'm) planner_step" where
  "enumerateCmpRec P subgraph = enumerate_rec (graph P) (emitCsgCmp P subgraph)"

definition emitCsg :: "('c :: linorder, 'm) planner \<Rightarrow> relation_set \<Rightarrow> ('c, 'm) planner_step" where
  "emitCsg P subgraph s =
     (if bud_exceeded s then Inr s
      else
        let forbidden = prefixThrough (rs_min subgraph);
            neighbors = neighborhood (graph P) subgraph forbidden
        in fold_res (\<lambda>v s.
             let complement = singleton v;
                 vertexTail = rs_intersect (prefixThrough v) neighbors;
                 cmpForbidden = rs_unionSet (rs_unionSet forbidden subgraph) vertexTail
             in bind_res (emitCsgCmp P subgraph complement s)
                  (enumerateCmpRec P subgraph complement cmpForbidden))
             (rev (visit (bits neighbors))) s)"

definition enumerateCsgRec ::
  "('c :: linorder, 'm) planner \<Rightarrow> relation_set \<Rightarrow> relation_set \<Rightarrow> ('c, 'm) planner_step" where
  "enumerateCsgRec P = enumerate_rec (graph P) (emitCsg P)"

definition solveComponent ::
  "('c :: linorder, 'm) planner \<Rightarrow> relation_set \<Rightarrow> ('c, 'm) dphyp_state \<Rightarrow>
   dphyp_error + bool \<times> ('c, 'm) dphyp_state" where
  "solveComponent P component s =
     (let s = initLeaves P component (budget_reset (budgetCap P) s) in
      bind_res
        (fold_res (\<lambda>i s.
           if rs_contains (expandedRelationIds (graph P)) i then Inr s
           else bind_res (emitCsg P (singleton i) s) (enumerateCsgRec P (singleton i) (prefixThrough i)))
           (rev (visit (bits component))) s)
        (\<lambda>s. Inr (bud_exceeded s, s)))"

definition solve ::
  "('c :: linorder, 'm) planner \<Rightarrow> ('c, 'm) dphyp_state \<Rightarrow> dphyp_error + bool \<times> ('c, 'm) dphyp_state" where
  "solve P s = solveComponent P (prefixThrough (rel_id (last (relations (graph P))))) s"

section \<open>Greedy ordering\<close>

text \<open>A pass over the edges, repeated while it grows the set. First, what expansions would gain.\<close>

definition expandable_step :: "relation_set \<Rightarrow> join_edge \<Rightarrow> relation_set \<times> bool \<Rightarrow> relation_set \<times> bool" where
  "expandable_step S e g =
     (case g of (gained, grown) \<Rightarrow>
        let reached = rs_unionSet S gained in
        if \<not> isUnnest e \<or> \<not> rs_isSubset (leftEligibility e) reached \<or> rs_isSubset (rightEligibility e) reached
        then (gained, grown)
        else (rs_unionSet gained (rightEligibility e), True))"

lemma expandable_pass_grows:
  "ids (fst g) \<subseteq> ids (fst (fold (expandable_step S) es g)) \<and>
   (snd (fold (expandable_step S) es g) \<longrightarrow> snd g \<or> ids (fst g) \<subset> ids (fst (fold (expandable_step S) es g)))"
proof (induction es arbitrary: g)
  case (Cons e es)
  have "ids (fst g) \<subseteq> ids (fst (expandable_step S e g)) \<and>
    (snd (expandable_step S e g) \<longrightarrow> snd g \<or> ids (fst g) \<subset> ids (fst (expandable_step S e g)))"
    by (auto simp: expandable_step_def Let_def set_abs split: prod.splits)
  then show ?case using Cons [of "expandable_step S e g"] by (simp, blast)
qed simp

lemma grows_measure: "ids S \<subset> ids T \<Longrightarrow> 64 - card (ids T) < 64 - card (ids S)"
  using psubset_card_mono [of "ids T" "ids S"] card_ids_le [of T] by simp

function expandable_loop :: "join_edge list \<Rightarrow> relation_set \<Rightarrow> relation_set \<Rightarrow> relation_set" where
  "expandable_loop es S gained =
     (let g = fold (expandable_step S) es (gained, False)
      in if snd g then expandable_loop es S (fst g) else fst g)"
  by pat_completeness auto
termination
  by (relation "measure (\<lambda>(es, S, gained). 64 - card (ids gained))")
    (use expandable_pass_grows in \<open>fastforce intro: grows_measure\<close>)+

declare expandable_loop.simps [simp del]

definition expandableRelations :: "hypergraph \<Rightarrow> relation_set \<Rightarrow> relation_set" where
  "expandableRelations h S = expandable_loop (edges h) S rs_empty_set"

definition unnest_step ::
  "('c :: linorder, 'm) planner \<Rightarrow> nat \<Rightarrow> relation_set \<times> ('c, 'm) dphyp_state \<times> bool \<Rightarrow>
   relation_set \<times> ('c, 'm) dphyp_state \<times> bool" where
  "unnest_step P i g =
     (case g of (S, s, grown) \<Rightarrow>
        let e = edges (graph P) ! i in
        if \<not> isUnnest e \<or> \<not> rs_isSubset (leftEligibility e) S \<or> rs_isSubset (rightEligibility e) S then g
        else
          let expanded = rs_unionSet S (rightEligibility e);
              s = emitUnnest P S i expanded [] s
          in if cheapestPlan P expanded s = None then (S, s, grown) else (expanded, s, True))"

lemma unnest_pass_grows:
  "ids (fst g) \<subseteq> ids (fst (fold (unnest_step P) es g)) \<and>
   (snd (snd (fold (unnest_step P) es g)) \<longrightarrow>
      snd (snd g) \<or> ids (fst g) \<subset> ids (fst (fold (unnest_step P) es g)))"
proof (induction es arbitrary: g)
  case (Cons i es)
  have "ids (fst g) \<subseteq> ids (fst (unnest_step P i g)) \<and>
    (snd (snd (unnest_step P i g)) \<longrightarrow> snd (snd g) \<or> ids (fst g) \<subset> ids (fst (unnest_step P i g)))"
    by (auto simp: unnest_step_def Let_def set_abs split: prod.splits)
  then show ?case using Cons [of "unnest_step P i g"] by (simp, blast)
qed simp

function expandThroughUnnests ::
  "('c :: linorder, 'm) planner \<Rightarrow> relation_set \<Rightarrow> ('c, 'm) dphyp_state \<Rightarrow> relation_set \<times> ('c, 'm) dphyp_state" where
  "expandThroughUnnests P S s =
     (let g = fold (unnest_step P) [0..<length (edges (graph P))] (S, s, False)
      in if snd (snd g) then expandThroughUnnests P (fst g) (fst (snd g)) else (fst g, fst (snd g)))"
  by pat_completeness auto
termination
  by (relation "measure (\<lambda>(P, S, s). 64 - card (ids S))")
    (use unnest_pass_grows in \<open>fastforce intro: grows_measure\<close>)+

declare expandThroughUnnests.simps [simp del]

text \<open>Some edge waits for the relations an expansion of \<open>fragment\<close> would produce.\<close>

definition edge_waits :: "relation_set \<Rightarrow> relation_set \<Rightarrow> join_edge \<Rightarrow> bool" where
  "edge_waits reached gained e \<longleftrightarrow>
     \<not> isUnnest e \<and> rs_hasIntersection (totalEligibility e) gained \<and> \<not> rs_isSubset (totalEligibility e) reached"

fun expandOneFragment ::
  "('c :: linorder, 'm) planner \<Rightarrow> relation_set list \<Rightarrow> ('c, 'm) dphyp_state \<Rightarrow>
   bool \<times> relation_set list \<times> ('c, 'm) dphyp_state" where
  "expandOneFragment P [] s = (False, [], s)"
| "expandOneFragment P (fragment # fragments) s =
     (let gained = expandableRelations (graph P) fragment;
          continue = (\<lambda>s. let (grew, fs, s) = expandOneFragment P fragments s in (grew, fragment # fs, s))
      in if rs_empty gained then continue s
         else if list_ex (edge_waits (rs_unionSet fragment gained) gained) (edges (graph P))
         then let (expanded, s) = expandThroughUnnests P fragment s
              in if expanded \<noteq> fragment then (True, expanded # fragments, s) else continue s
         else continue s)"

text \<open>One round of the greedy ordering: every pair of fragments, and the best pair so far.\<close>

type_synonym 'c greedy_best = "('c \<times> nat \<times> nat \<times> relation_set) option"

definition greedy_pair ::
  "('c :: linorder, 'm) planner \<Rightarrow> relation_set list \<Rightarrow> nat \<times> nat \<Rightarrow> 'c greedy_best \<times> ('c, 'm) dphyp_state \<Rightarrow>
   dphyp_error + 'c greedy_best \<times> ('c, 'm) dphyp_state" where
  "greedy_pair P fragments ij b =
     (case ij of (i, j) \<Rightarrow> case b of (best, s) \<Rightarrow>
        let combined = rs_unionSet (fragments ! i) (fragments ! j) in
        bind_res (emitCsgCmp P (fragments ! i) (fragments ! j) s)
          (\<lambda>s. case memo s combined of
             None \<Rightarrow> Inr (best, s)
           | Some plans \<Rightarrow>
               let n = the (ps_cardinality plans) in
               if (case best of None \<Rightarrow> True | Some (m, _) \<Rightarrow> n < m)
               then Inr (Some (n, i, j, combined), s)
               else Inr (best, s)))"

definition index_pairs :: "nat \<Rightarrow> (nat \<times> nat) list" where
  "index_pairs n = concat (map (\<lambda>i. map (Pair i) [Suc i..<n]) [0..<n])"

definition greedy_scan ::
  "('c :: linorder, 'm) planner \<Rightarrow> relation_set list \<Rightarrow> ('c, 'm) dphyp_state \<Rightarrow>
   dphyp_error + 'c greedy_best \<times> ('c, 'm) dphyp_state" where
  "greedy_scan P fragments s = fold_res (greedy_pair P fragments) (index_pairs (length fragments)) (None, s)"

definition merge_fragments :: "relation_set list \<Rightarrow> nat \<Rightarrow> nat \<Rightarrow> relation_set \<Rightarrow> relation_set list" where
  "merge_fragments fragments i j combined =
     (let fs = fragments[i := combined] in take j fs @ drop (Suc j) fs)"

lemma fold_res_invariant:
  assumes "fold_res f xs s = Inr t" and "I s"
    and "\<And>x s t. x \<in> set xs \<Longrightarrow> I s \<Longrightarrow> f x s = Inr t \<Longrightarrow> I t"
  shows "I t"
  using assms
proof (induction xs arbitrary: s)
  case (Cons x xs)
  from Cons.prems(1) obtain u where u: "f x s = Inr u" "fold_res f xs u = Inr t"
    by (auto simp: bind_res_Inr_iff)
  have "I u" by (rule Cons.prems(3) [OF _ Cons.prems(2) u(1)]) simp
  then show ?case by (rule Cons.IH [OF u(2)]) (rule Cons.prems(3), auto)
qed simp

definition best_in :: "nat \<Rightarrow> 'c greedy_best \<times> 's \<Rightarrow> bool" where
  "best_in n b \<longleftrightarrow> (case fst b of None \<Rightarrow> True | Some (_, i, j, _) \<Rightarrow> i < j \<and> j < n)"

lemma greedy_pair_in:
  "greedy_pair P fragments (i, j) b = Inr b' \<Longrightarrow> i < j \<Longrightarrow> j < n \<Longrightarrow> best_in n b \<Longrightarrow> best_in n b'"
  by (auto simp: greedy_pair_def bind_res_Inr_iff best_in_def Let_def split: prod.splits option.splits if_splits)

lemma greedy_scan_in: "greedy_scan P fragments s = Inr b \<Longrightarrow> best_in (length fragments) b"
  unfolding greedy_scan_def
  by (erule fold_res_invariant)
    (auto simp: best_in_def index_pairs_def dest: greedy_pair_in [where n = "length fragments"])

lemma merge_shorter: "i < j \<Longrightarrow> j < length fs \<Longrightarrow> length (merge_fragments fs i j c) < length fs"
  by (simp add: merge_fragments_def Let_def)

lemma expandThroughUnnests_grows: "ids S \<subseteq> ids (fst (expandThroughUnnests P S s))"
proof (induction P S s rule: expandThroughUnnests.induct)
  case (1 P S s)
  let ?g = "fold (unnest_step P) [0..<length (edges (graph P))] (S, s, False)"
  have "ids S \<subseteq> ids (fst ?g)" using unnest_pass_grows [of "(S, s, False)"] by simp
  then show ?case
    using 1 by (subst expandThroughUnnests.simps) (auto simp: Let_def)
qed

lemma expandOneFragment_grows:
  "expandOneFragment P fs s = (grew, fs', s') \<Longrightarrow>
   length fs' = length fs \<and>
   (if grew then sum_list (map (\<lambda>f. 64 - card (ids f)) fs') < sum_list (map (\<lambda>f. 64 - card (ids f)) fs) else fs' = fs)"
proof (induction fs arbitrary: grew fs' s s')
  case (Cons f fs)
  obtain e t where e: "expandThroughUnnests P f s = (e, t)" by fastforce
  have sub: "ids f \<subseteq> ids e" using expandThroughUnnests_grows [of f P s] e by simp
  have lt: "64 - card (ids e) < 64 - card (ids f)" if "e \<noteq> f"
    using that sub by (intro grows_measure psubsetI) (auto dest: rs_eqI)
  show ?case
    using Cons.prems Cons.IH lt
    by (auto simp: e Let_def split: if_splits prod.splits)
qed simp

function greedy_loop ::
  "('c :: linorder, 'm) planner \<Rightarrow> relation_set list \<Rightarrow> ('c, 'm) dphyp_state \<Rightarrow>
   dphyp_error + relation_set list option \<times> ('c, 'm) dphyp_state" where
  "greedy_loop P fragments s =
     (if length fragments \<le> 1 then Inr (Some fragments, s)
      else
        bind_res (greedy_scan P fragments s)
          (\<lambda>b. case b of
             (Some (_, i, j, combined), s) \<Rightarrow> greedy_loop P (merge_fragments fragments i j combined) s
           | (None, s) \<Rightarrow>
               (case expandOneFragment P fragments s of
                  (grew, fs, s) \<Rightarrow> if grew then greedy_loop P fs s else Inr (None, s))))"
  by pat_completeness auto
termination
proof (relation "measures [\<lambda>(P, fs, s). length fs, \<lambda>(P, fs, s). sum_list (map (\<lambda>f. 64 - card (ids f)) fs)]", goal_cases)
  case (2 P fragments s x xa y grew r fs t)
  then show ?case using expandOneFragment_grows [of P fragments y grew fs t] by auto
next
  case (3 P fragments s x xa y x2 n r i q j combined)
  then have "best_in (length fragments) x" by (intro greedy_scan_in)
  then show ?case using 3 by (auto simp: best_in_def merge_shorter dest!: sym [of "(_, _)"])
qed simp

declare greedy_loop.simps [simp del]

definition greedy_known ::
  "('c, 'm) planner \<Rightarrow> ('c, 'm) dphyp_state \<Rightarrow> nat \<Rightarrow> bool" where
  "greedy_known P s i \<longleftrightarrow>
     rs_contains (expandedRelationIds (graph P)) i \<or>
     (case memo s (singleton i) of None \<Rightarrow> False | Some plans \<Rightarrow> ps_cardinality plans \<noteq> None)"

definition greedy ::
  "('c :: linorder, 'm) planner \<Rightarrow> relation_set \<Rightarrow> ('c, 'm) dphyp_state \<Rightarrow>
   dphyp_error + 'c memo_op option \<times> ('c, 'm) dphyp_state" where
  "greedy P component s =
     (let s = initLeaves P component (budget_disable s);
          members = visit (bits component)
      in if \<not> list_all (greedy_known P s) members then Inr (None, s)
         else
           let fragments = map singleton (filter (\<lambda>i. \<not> rs_contains (expandedRelationIds (graph P)) i) members)
           in bind_res (greedy_loop P fragments s)
             (\<lambda>(result, s). case result of
                None \<Rightarrow> Inr (None, s)
              | Some fragments \<Rightarrow>
                  check (length fragments = 1) NotOneFragment
                    (let (_, s) = expandThroughUnnests P (hd fragments) s
                     in Inr (cheapestPlan P component s, s))))"

section \<open>Entry points\<close>

fun collectAppliedEdges :: "'c memo_op \<Rightarrow> nat list \<Rightarrow> nat list" where
  "collectAppliedEdges (LeafOp _ _ _) applied = applied"
| "collectAppliedEdges (JoinOp _ l r e _ _ keys filters _) applied =
     collectAppliedEdges r (collectAppliedEdges l (fold List.insert filters (fold List.insert keys (List.insert e applied))))"
| "collectAppliedEdges (UnnestOp _ input e _ filters _) applied =
     collectAppliedEdges input (fold List.insert filters (List.insert e applied))"
| "collectAppliedEdges (ExchangeOp _ input _) applied = collectAppliedEdges input applied"

definition check_enforced :: "hypergraph \<Rightarrow> nat list \<Rightarrow> dphyp_error + unit" where
  "check_enforced h applied =
     (case checkEdgesEnforced h applied of
        None \<Rightarrow> Inl FindDiverges
      | Some (Inl e) \<Rightarrow> Inl (GraphError e)
      | Some (Inr u) \<Rightarrow> Inr u)"

definition check_plan :: "hypergraph \<Rightarrow> 'c memo_op option \<Rightarrow> dphyp_error + unit" where
  "check_plan h plan =
     (case plan of None \<Rightarrow> Inr () | Some p \<Rightarrow> check_enforced h (collectAppliedEdges p []))"

definition start :: "('c, 'm) planner \<Rightarrow> ('c, 'm) dphyp_state \<Rightarrow> ('c, 'm) dphyp_state" where
  "start P s = s\<lparr>memo := Map.empty, groupedPartitions := Map.empty, bud_count := 0, bud_exceeded := False,
     bud_enforced := budgetCap P > 0\<rparr>"

definition dphyp_enumerate ::
  "('c :: linorder, 'm) planner \<Rightarrow> ('c, 'm) dphyp_state \<Rightarrow> dphyp_error + 'c memo_op option \<times> ('c, 'm) dphyp_state" where
  "dphyp_enumerate P s =
     bind_res (solve P (start P s))
       (\<lambda>(budgetExceeded, s).
          let allRelations = fold (\<lambda>r S. rs_add S (rel_id r)) (relations (graph P)) rs_empty_set in
          if budgetExceeded
          then bind_res (greedy P allRelations (s\<lparr>memo := Map.empty\<rparr>))
            (\<lambda>(root, s). bind_res (check_plan (graph P) root) (\<lambda>_. Inr (root, s)))
          else
            case memo s allRelations of
              None \<Rightarrow> Inr (None, s)
            | Some plans \<Rightarrow>
                let root = cheapest (joinTypeCode P) plans
                in bind_res (check_plan (graph P) root) (\<lambda>_. Inr (root, s)))"

fun component_roots ::
  "('c :: linorder, 'm) planner \<Rightarrow> relation_set list \<Rightarrow> 'c memo_op list \<Rightarrow> ('c, 'm) dphyp_state \<Rightarrow>
   dphyp_error + 'c memo_op list option \<times> ('c, 'm) dphyp_state" where
  "component_roots P [] roots s = Inr (Some roots, s)"
| "component_roots P (component # components) roots s =
     bind_res (solveComponent P component s)
       (\<lambda>(exceeded, s). bind_res
          (if exceeded then greedy P component s else Inr (cheapestPlan P component s, s))
          (\<lambda>(root, s). case root of
             None \<Rightarrow> Inr (None, s)
           | Some p \<Rightarrow> component_roots P components (roots @ [p]) s))"

definition dphyp_enumerate_components ::
  "('c :: linorder, 'm) planner \<Rightarrow> relation_set list \<Rightarrow> ('c, 'm) dphyp_state \<Rightarrow>
   dphyp_error + 'c memo_op list \<times> ('c, 'm) dphyp_state" where
  "dphyp_enumerate_components P components s =
     bind_res (component_roots P components [] (start P s))
       (\<lambda>(roots, s). case roots of
          None \<Rightarrow> Inr ([], s)
        | Some roots \<Rightarrow>
            bind_res (check_enforced (graph P) (fold collectAppliedEdges roots []))
              (\<lambda>_. Inr (roots, s)))"

end
