(* ===== verification/DPhyp_Plans.thy ===== *)
theory DPhyp_Plans
  imports DPhyp
begin

text \<open>
  Every plan the join enumerator keeps is a plan of its query: it reads each relation of its
  cover once, and each of its joins applies edges that really run between its two inputs, in an
  orientation and with a join type the edge has. The invariant is about the memo, and every
  operation of \<open>DPhyp_Candidates\<close> and \<open>DPhyp\<close> keeps it.
\<close>

section \<open>Valid plans\<close>

definition crosses_sides :: "join_edge \<Rightarrow> nat set \<Rightarrow> nat set \<Rightarrow> bool" where
  "crosses_sides e L R \<longleftrightarrow>
     ids (totalEligibility e) \<subseteq> L \<union> R \<and> \<not> ids (totalEligibility e) \<subseteq> L \<and> \<not> ids (totalEligibility e) \<subseteq> R"

text \<open>The edge as it stands, exchanged, or as an anti join that builds on its preserved side.\<close>

definition orientation_ok :: "join_edge \<Rightarrow> nat set \<Rightarrow> nat set \<Rightarrow> join_type \<Rightarrow> bool \<Rightarrow> bool" where
  "orientation_ok e L R jt reversed \<longleftrightarrow>
     (ids (leftEligibility e) \<subseteq> L \<and> ids (rightEligibility e) \<subseteq> R \<and> \<not> reversed \<and> jt = joinType e) \<or>
     (ids (leftEligibility e) \<subseteq> R \<and> ids (rightEligibility e) \<subseteq> L \<and>
        (if reversed then jt = KAnti \<and> joinType e = KAnti \<and> hasRightProjectVariant e
         else swapType (joinType e) = Inr jt))"

definition filters_ok :: "hypergraph \<Rightarrow> nat list \<Rightarrow> nat set \<Rightarrow> nat set \<Rightarrow> bool" where
  "filters_ok h is L R \<longleftrightarrow>
     (\<forall>i\<in>set is. i < length (edges h) \<and> filterable (edges h ! i) \<and> crosses_sides (edges h ! i) L R)"

definition join_ok :: "hypergraph \<Rightarrow> nat set \<Rightarrow> nat set \<Rightarrow> nat \<Rightarrow> join_type \<Rightarrow> bool \<Rightarrow> nat list \<Rightarrow> nat list \<Rightarrow> bool" where
  "join_ok h L R e jt reversed ks fs \<longleftrightarrow>
     L \<inter> R = {} \<and> e < length (edges h) \<and> \<not> isUnnest (edges h ! e) \<and> crosses_sides (edges h ! e) L R \<and>
     orientation_ok (edges h ! e) L R jt reversed \<and>
     filters_ok h ks L R \<and> filters_ok h fs L R \<and>
     (ks \<noteq> [] \<longrightarrow> filterable (edges h ! e)) \<and> (fs \<noteq> [] \<longrightarrow> keepsBothInputs (joinType (edges h ! e)))"

fun plan_ok :: "hypergraph \<Rightarrow> 'c memo_op \<Rightarrow> bool" where
  "plan_ok h (LeafOp _ i _) \<longleftrightarrow> i < length (relations h) \<and> i < 64 \<and> i \<notin> ids (expandedRelationIds h)"
| "plan_ok h (JoinOp _ l r e jt reversed ks fs _) \<longleftrightarrow>
     plan_ok h l \<and> plan_ok h r \<and> join_ok h (ids (cover l)) (ids (cover r)) e jt reversed ks fs"
| "plan_ok h (UnnestOp _ input e rel fs _) \<longleftrightarrow>
     plan_ok h input \<and> e < length (edges h) \<and> isUnnest (edges h ! e) \<and>
     rel = rightEndpoints (edges h ! e) \<and> ids (leftEligibility (edges h ! e)) \<subseteq> ids (cover input) \<and>
     ids rel \<inter> ids (cover input) = {} \<and> filters_ok h fs (ids (cover input)) (ids rel)"
| "plan_ok h (ExchangeOp _ input _) \<longleftrightarrow> plan_ok h input"

text \<open>The relations a plan reads, with repetition.\<close>

fun plan_relations :: "'c memo_op \<Rightarrow> nat list" where
  "plan_relations (LeafOp _ i _) = [i]"
| "plan_relations (JoinOp _ l r _ _ _ _ _ _) = plan_relations l @ plan_relations r"
| "plan_relations (UnnestOp _ input _ rel _ _) = plan_relations input @ visit (bits rel)"
| "plan_relations (ExchangeOp _ input _) = plan_relations input"

lemma distinct_visit: "distinct (visit w)"
  using sorted_visit [of w] by (simp add: strict_sorted_iff)

lemma plan_reads_cover_once:
  "plan_ok h p \<Longrightarrow> distinct (plan_relations p) \<and> set (plan_relations p) = ids (cover p)"
proof (induction p)
  case (UnnestOp c input e rel fs q)
  have "set (visit (bits rel)) = ids rel" by (simp add: set_visit ids_def)
  then show ?case
    using UnnestOp by (auto simp: distinct_visit expandedCover_def set_abs)
qed (auto simp: set_abs combinedCover_def join_ok_def)

section \<open>Plans chosen from a set\<close>

lemma addPlan_nonempty: "addPlan addf shuffle code c plans \<noteq> []"
  by (cases "cost (op_cost c)") (auto simp: addPlan_def Let_def list_ex_iff)

lemma scan_best_member:
  "scan_best eff key ps None = Some (p, e, k) \<Longrightarrow> p \<in> set ps"
  using scan_best_from_empty [of eff key ps] by simp

lemma cheapest_member: "cheapest code plans = Some p \<Longrightarrow> p \<in> set plans"
  by (auto simp: cheapest_def dest: scan_best_member split: if_splits option.splits) (cases plans; auto)+

lemma cheapest_some: "plans \<noteq> [] \<Longrightarrow> cheapest code plans \<noteq> None"
  by (auto simp: cheapest_def split: option.splits)

lemma ps_best_member: "ps_best addf shuffle code R plans = Some b \<Longrightarrow> sel_plan b \<in> set plans"
  by (auto simp: ps_best_def dest: scan_best_member split: option.splits)

section \<open>The memo invariant\<close>

definition memo_ok :: "hypergraph \<Rightarrow> (relation_set \<rightharpoonup> 'c memo_op list) \<Rightarrow> bool" where
  "memo_ok h m \<longleftrightarrow> (\<forall>S plans. m S = Some plans \<longrightarrow> plans \<noteq> [] \<and> (\<forall>p\<in>set plans. plan_ok h p \<and> cover p = S))"

text \<open>What an operation may do to the state: the memo stays valid and no entry disappears.\<close>

definition good :: "hypergraph \<Rightarrow> ('c, 'm) dphyp_state \<Rightarrow> ('c, 'm) dphyp_state \<Rightarrow> bool" where
  "good h s t \<longleftrightarrow> (memo_ok h (memo s) \<longrightarrow> memo_ok h (memo t)) \<and> dom (memo s) \<subseteq> dom (memo t) \<and>
     bud_enforced t = bud_enforced s \<and> (bud_exceeded s \<longrightarrow> bud_exceeded t) \<and>
     (\<not> bud_enforced s \<longrightarrow> bud_exceeded t = bud_exceeded s)"

lemma good_refl [simp, intro]: "good h s s"
  by (simp add: good_def)

lemma good_trans [trans]: "good h s t \<Longrightarrow> good h t u \<Longrightarrow> good h s u"
  by (auto simp: good_def)

lemma good_same_memo:
  "memo t = memo s \<Longrightarrow> bud_enforced t = bud_enforced s \<Longrightarrow> bud_exceeded t = bud_exceeded s \<Longrightarrow> good h s t"
  by (simp add: good_def)

lemma good_consume: "good h s (snd (budget_consume cap s))"
  by (simp add: budget_consume_def good_def Let_def)

lemma consume_memo [simp]: "memo (snd (budget_consume cap s)) = memo s"
  by (simp add: budget_consume_def Let_def)

lemma memo_ok_plan:
  "memo_ok h m \<Longrightarrow> m S = Some plans \<Longrightarrow> p \<in> set plans \<Longrightarrow> plan_ok h p \<and> cover p = S"
  by (auto simp: memo_ok_def)

lemma good_memo_add:
  assumes "memo_ok h (memo s) \<Longrightarrow> plan_ok h p" and "memo_ok h (memo s) \<Longrightarrow> cover p = S"
  shows "good h s (memo_add P S p s)"
proof -
  let ?old = "case memo s S of None \<Rightarrow> [] | Some plans \<Rightarrow> plans"
  let ?new = "addPlan (addCost P) (shuffleCostOf P) (joinTypeCode P) p ?old"
  have "memo_ok h ((memo s)(S \<mapsto> ?new))" if ok: "memo_ok h (memo s)"
  proof -
    have "q \<in> set ?new \<Longrightarrow> plan_ok h q \<and> cover q = S" for q
      using subsetD [OF addPlan_subset, of q "addCost P" "shuffleCostOf P" "joinTypeCode P" p ?old]
        assms(1) [OF ok] assms(2) [OF ok] memo_ok_plan [OF ok]
      by (auto split: option.splits)
    then show ?thesis using ok by (auto simp: memo_ok_def addPlan_nonempty)
  qed
  then show ?thesis by (auto simp: good_def memo_add_def Let_def)
qed

lemma with_cost_result:
  "with_cost entry P s = (p, t) \<Longrightarrow> \<exists>c. p = entry c \<and> t = s\<lparr>costModel := costModel t\<rparr>"
  by (auto simp: with_cost_def split: prod.splits)

lemma good_with_cost: "with_cost entry P s = (p, t) \<Longrightarrow> good h s t"
  by (auto simp: with_cost_def intro: good_same_memo split: prod.splits)

lemma cheapestPlan_member:
  assumes "cheapestPlan P S s = Some p"
  obtains plans where "memo s S = Some plans" "p \<in> set plans"
  using assms by (auto simp: cheapestPlan_def dest: cheapest_member split: option.splits)

lemma cheapestPlan_ok:
  "cheapestPlan P S s = Some p \<Longrightarrow> memo_ok h (memo s) \<Longrightarrow> plan_ok h p \<and> cover p = S"
  by (auto elim!: cheapestPlan_member dest: memo_ok_plan)

lemma good_init_leaf:
  assumes "i < length (relations (graph P))" "i < 64"
  shows "good (graph P) s (init_leaf P i s)"
proof -
  obtain leaf t where w: "with_cost (\<lambda>c. LeafOp c i (relationPartitioning P i)) P s = (leaf, t)" by fastforce
  obtain c where leaf: "leaf = LeafOp c i (relationPartitioning P i)" using with_cost_result [OF w] by blast
  show ?thesis
  proof (cases "i \<in> ids (expandedRelationIds (graph P)) \<or> memo s (singleton i) \<noteq> None")
    case True
    then show ?thesis by (auto simp: init_leaf_def set_abs)
  next
    case False
    then have "good (graph P) t (memo_add P (singleton i) leaf t)"
      by (intro good_memo_add) (auto simp: leaf assms)
    then show ?thesis using False good_with_cost [OF w] by (auto simp: init_leaf_def set_abs w intro: good_trans)
  qed
qed

lemma good_fold:
  assumes "\<And>x s. x \<in> set xs \<Longrightarrow> good h s (f x s)"
  shows "good h s (fold f xs s)"
  using assms
proof (induction xs arbitrary: s)
  case (Cons x xs)
  have "good h s (f x s)" "good h (f x s) (fold f xs (f x s))" using Cons by auto
  then show ?case by (simp, rule good_trans)
qed simp

lemma good_initLeaves:
  assumes "ids R \<subseteq> {..<length (relations (graph P))}"
  shows "good (graph P) s (initLeaves P R s)"
proof -
  have "good (graph P) s (init_leaf P i s)" if "i \<in> set (sorted_list_of_set (ids R))" for i s
    using that assms by (intro good_init_leaf) (auto dest: ids_bound)
  then show ?thesis unfolding initLeaves_def ids_forEach by (rule good_fold)
qed

section \<open>Exchanges\<close>

text \<open>An operation that may return a plan for the relations \<open>S\<close>.\<close>

definition gives :: "hypergraph \<Rightarrow> relation_set \<Rightarrow> ('c, 'm) dphyp_state \<Rightarrow>
   'c memo_op option \<times> ('c, 'm) dphyp_state \<Rightarrow> bool" where
  "gives h S s r \<longleftrightarrow> good h s (snd r) \<and>
     (\<forall>p. fst r = Some p \<longrightarrow> memo_ok h (memo s) \<longrightarrow> plan_ok h p \<and> cover p = S)"

lemma givesD:
  assumes "gives h S s (op, t)"
  shows "good h s t" and "op = Some p \<Longrightarrow> memo_ok h (memo s) \<Longrightarrow> plan_ok h p"
    and "op = Some p \<Longrightarrow> memo_ok h (memo s) \<Longrightarrow> cover p = S"
  using assms by (auto simp: gives_def)

lemma gives_None [simp]: "gives h S s (None, t) \<longleftrightarrow> good h s t"
  by (simp add: gives_def)

lemma gives_exchange:
  assumes "memo_ok h (memo s) \<Longrightarrow> plan_ok h p \<and> cover p = S" and "makeExchange p q c s = (x, t)"
  shows "gives h S s (Some x, t)"
  using assms by (auto simp: gives_def makeExchange_def Let_def intro!: good_same_memo)

lemma gives_bestOnPartitioning: "gives h S s (bestOnPartitioning P S required s)"
proof (cases "memo s S")
  case (Some plans)
  show ?thesis
  proof (cases "ps_best (addCost P) (shuffleCostOf P) (joinTypeCode P) (Some required) plans")
    case best: (Some b)
    have ok: "memo_ok h (memo s) \<Longrightarrow> plan_ok h (sel_plan b) \<and> cover (sel_plan b) = S"
      using ps_best_member [OF best] Some by (auto dest: memo_ok_plan)
    obtain x t where x: "makeExchange (sel_plan b) required (sel_cost b) s = (x, t)" by fastforce
    show ?thesis
      using ok gives_exchange [OF ok x] by (auto simp: bestOnPartitioning_def Some best x gives_def)
  qed (simp add: bestOnPartitioning_def Some)
qed (simp add: bestOnPartitioning_def)

lemma gives_gatheredSmall: "gives h (cover p) s (gatheredSmall P p s)"
  by (simp add: gatheredSmall_def gives_bestOnPartitioning)

lemma gives_repartitioned: "repartitioned P S keys b s = Inr r \<Longrightarrow> gives h S s r"
  by (auto simp: repartitioned_def bind_res_Inr_iff gives_bestOnPartitioning)

lemma gives_repartitionedTo: "repartitionedTo P S keys b s = Inr r \<Longrightarrow> gives h S s r"
  by (auto simp: repartitionedTo_def bind_res_Inr_iff gives_bestOnPartitioning)

lemma gives_replicatedChild: "gives h S s (replicatedChild P S q s)"
proof (cases "cheapestPlan P S s")
  case (Some base)
  have ok: "memo_ok h (memo s) \<Longrightarrow> plan_ok h base \<and> cover base = S"
    using cheapestPlan_ok [OF Some] by blast
  have x: "gives h S s (let (e, t) = makeExchange base globalBroadcast c s in (Some e, t))" for c
    using gives_exchange [OF ok] by (auto split: prod.splits)
  have b: "gives h S s (Some base, s)" using ok by (auto simp: gives_def)
  show ?thesis
    by (simp add: replicatedChild_def Some b Let_def gives_bestOnPartitioning x [unfolded Let_def])
qed (simp add: replicatedChild_def)

section \<open>Offers\<close>

definition alternatives_ok :: "hypergraph \<Rightarrow> relation_set \<Rightarrow> 'c partitioning_alternatives \<Rightarrow> bool" where
  "alternatives_ok h S a \<longleftrightarrow>
     (\<forall>p\<in>set (connectorBucketed a) \<union> set (standardHash a). plan_ok h p \<and> cover p = S)"

lemma alternatives_subsets:
  "\<forall>p\<in>set plans. plan_ok h p \<and> cover p = S \<Longrightarrow> alternatives_ok h S (partitioningsOnSubsets keys plans)"
  by (auto simp: alternatives_ok_def partitioningsOnSubsets_def Let_def)

lemma good_groupedRelationPartition: "groupedRelationPartition P i s = (p, t) \<Longrightarrow> good h s t \<and> memo t = memo s"
  by (auto simp: groupedRelationPartition_def Let_def intro: good_same_memo split: option.splits)

lemma singleton_of_size: "rs_size S = 1 \<Longrightarrow> S = singleton (rs_min S) \<and> rs_min S \<in> ids S"
proof -
  assume "rs_size S = 1"
  then obtain i where i: "ids S = {i}" by (auto simp: set_abs card_1_singleton_iff)
  have m: "rs_min S = i" using ids_min [of S] i by simp
  have "i < 64" using i ids_bound [of i S] by simp
  then have "S = singleton i" by (intro rs_eqI) (simp add: i ids_singleton)
  then show ?thesis using i m by simp
qed

lemma partitioningsOn_ok:
  assumes "partitioningsOn P S keys s = Inr (a, t)"
    and leaf: "\<And>i. S = singleton i \<Longrightarrow> i \<in> ids S \<Longrightarrow> memo s S \<noteq> None \<Longrightarrow> plan_ok (graph P) (LeafOp c i p)"
  shows "good (graph P) s t \<and> (memo_ok (graph P) (memo s) \<longrightarrow> alternatives_ok (graph P) S a)"
proof (cases "memo s S")
  case None
  then show ?thesis using assms(1) by (auto simp: partitioningsOn_def alternatives_ok_def)
next
  case (Some plans)
  have sub: "memo_ok (graph P) (memo s) \<Longrightarrow> alternatives_ok (graph P) S (partitioningsOnSubsets keys' plans)" for keys'
    using Some by (intro alternatives_subsets) (auto dest: memo_ok_plan)
  obtain ks where ks: "keysInCoverSchema (graph P) keys S = Inr ks"
    using assms(1) Some by (auto simp: partitioningsOn_def bind_res_Inr_iff)
  obtain q s1 where q: "groupedRelationPartition P (rs_min S) s = (q, s1)" by fastforce
  obtain g s2 where g: "with_cost (\<lambda>c. LeafOp c (rs_min S) q) P s1 = (g, s2)" by fastforce
  let ?s3 = "memo_add P S g s2"
  have s1: "good (graph P) s s1" using good_groupedRelationPartition [OF q] by blast
  show ?thesis
  proof (cases "connectorBucketed (partitioningsOnSubsets ks plans) \<noteq> [] \<or> rs_size S \<noteq> 1 \<or> \<not> p_coLocates q ks")
    case True
    then show ?thesis
      using assms(1) Some ks sub q s1
      by (auto simp: partitioningsOn_def Let_def split: if_splits)
  next
    case False
    then have S: "S = singleton (rs_min S)" "rs_min S \<in> ids S" using singleton_of_size by auto
    obtain c' where c': "g = LeafOp c' (rs_min S) q" using with_cost_result [OF g] by blast
    have "plan_ok (graph P) g" using leaf [OF S] Some by (simp add: c')
    then have s3: "good (graph P) s2 ?s3" by (rule good_memo_add) (use c' S(1) in simp)
    have s: "good (graph P) s ?s3"
      by (rule good_trans [OF good_trans [OF s1 good_with_cost [OF g]] s3])
    have a: "a = partitioningsOnSubsets ks (the (memo ?s3 S))" "t = ?s3"
      using assms(1) Some ks q g False by (auto simp: partitioningsOn_def Let_def)
    obtain new where new: "memo ?s3 S = Some new" by (simp add: memo_add_def Let_def)
    have "alternatives_ok (graph P) S a" if "memo_ok (graph P) (memo s)"
      unfolding a new option.sel using s that new
      by (intro alternatives_subsets) (auto simp: good_def dest: memo_ok_plan)
    then show ?thesis using s a(2) by simp
  qed
qed

definition offers_ok :: "hypergraph \<Rightarrow> relation_set \<Rightarrow> 'c memo_offer list \<Rightarrow> bool" where
  "offers_ok h S offers \<longleftrightarrow> (\<forall>x\<in>set offers. plan_ok h (offer_plan x) \<and> cover (offer_plan x) = S)"

lemma offers_ok_add: "offers_ok h S offers \<Longrightarrow> plan_ok h p \<Longrightarrow> cover p = S \<Longrightarrow> offers_ok h S (add_offer p q offers)"
  by (induction p q offers rule: add_offer.induct) (auto simp: offers_ok_def)

lemma offers_ok_make:
  "makeOffers same ks plans offers = Inr r \<Longrightarrow> offers_ok h S offers \<Longrightarrow>
   \<forall>p\<in>set plans. plan_ok h p \<and> cover p = S \<Longrightarrow> offers_ok h S r"
  by (induction same ks plans offers rule: makeOffers.induct) (auto simp: offers_ok_add split: option.splits)

lemma offers_ok_Nil [simp]: "offers_ok h S []"
  by (simp add: offers_ok_def)

section \<open>Candidates\<close>

abbreviation edges_ok :: "hypergraph \<Rightarrow> bool" where
  "edges_ok h \<equiv> \<forall>e\<in>set (edges h). edge_ok e"

lemma two_parts: "A \<inter> B = {} \<Longrightarrow> A \<noteq> {} \<Longrightarrow> B \<noteq> {} \<Longrightarrow> A \<union> B \<noteq> {i}"
  by (metis Int_absorb Un_singleton_iff)

lemma plan_ok_cover:
  assumes "edges_ok h"
  shows "plan_ok h p \<Longrightarrow> ids (cover p) \<noteq> {} \<and>
    (\<forall>i. ids (cover p) = {i} \<longrightarrow> i < length (relations h) \<and> i < 64 \<and> i \<notin> ids (expandedRelationIds h))"
proof (induction p)
  case (JoinOp c l r e jt b ks fs q)
  have "ids (cover l) \<inter> ids (cover r) = {}" "ids (cover l) \<noteq> {}" "ids (cover r) \<noteq> {}"
    using JoinOp by (auto simp: join_ok_def)
  then show ?case using two_parts [of "ids (cover l)" "ids (cover r)"] by (simp add: combinedCover_def set_abs)
next
  case (UnnestOp c input e rel fs q)
  then have "edge_ok (edges h ! e)" using assms by simp
  then have "ids rel \<noteq> {}" "ids (cover input) \<inter> ids rel = {}" "ids (cover input) \<noteq> {}"
    using UnnestOp by (auto simp: edge_ok_def)
  then show ?case using two_parts [of "ids (cover input)" "ids rel"] by (simp add: expandedCover_def set_abs)
qed (auto simp: set_abs)

definition spec_ok :: "hypergraph \<Rightarrow> relation_set \<Rightarrow> relation_set \<Rightarrow> join_spec \<Rightarrow> bool" where
  "spec_ok h L R J \<longleftrightarrow> js_combined J = rs_unionSet L R \<and>
     join_ok h (ids L) (ids R) (js_edge J) (js_type J) (js_reversedAnti J) (js_keyEdges J) (js_filterEdges J)"

text \<open>Plans for two sides of a join, in a valid memo.\<close>

definition sides_ok :: "hypergraph \<Rightarrow> relation_set \<Rightarrow> relation_set \<Rightarrow> 'c memo_op \<Rightarrow> 'c memo_op \<Rightarrow> join_spec \<Rightarrow>
   ('c, 'm) dphyp_state \<Rightarrow> bool" where
  "sides_ok h L R l r J s \<longleftrightarrow> edges_ok h \<and> memo_ok h (memo s) \<and> plan_ok h l \<and> plan_ok h r \<and>
     cover l = L \<and> cover r = R \<and> spec_ok h L R J"

lemma sides_ok_memo: "sides_ok h L R l r J s \<Longrightarrow> memo_ok h (memo s)"
  by (simp add: sides_ok_def)

lemma sides_ok_later: "sides_ok h L R l r J s \<Longrightarrow> good h s t \<Longrightarrow> sides_ok h L R l r J t"
  by (auto simp: sides_ok_def good_def)

lemma sides_ok_with:
  "sides_ok h L R l r J s \<Longrightarrow> plan_ok h l' \<Longrightarrow> cover l' = L \<Longrightarrow> plan_ok h r' \<Longrightarrow> cover r' = R \<Longrightarrow>
   sides_ok h L R l' r' J s"
  by (simp add: sides_ok_def)

lemma good_addJoinCandidate:
  assumes "sides_ok (graph P) L R l r J s"
  shows "good (graph P) s (addJoinCandidate P l r J p s)"
proof -
  let ?s1 = "snd (budget_consume (budgetCap P) s)"
  let ?entry = "\<lambda>c. JoinOp c l r (js_edge J) (js_type J) (js_reversedAnti J) (js_keyEdges J) (js_filterEdges J) p"
  obtain x t where x: "with_cost ?entry P ?s1 = (x, t)" by fastforce
  obtain c where c: "x = ?entry c" using with_cost_result [OF x] by blast
  have "good (graph P) t (memo_add P (js_combined J) x t)"
    using assms by (intro good_memo_add) (auto simp: c sides_ok_def spec_ok_def combinedCover_def)
  moreover have "good (graph P) s t" by (rule good_trans [OF good_consume good_with_cost [OF x]])
  ultimately show ?thesis
    by (simp add: addJoinCandidate_def Let_def x) (blast intro: good_trans)
qed

lemma good_addDistributed:
  assumes "sides_ok (graph P) L R l r J s" and "addDistributedJoinCandidate P l r J lk rk s = Inr t"
  shows "good (graph P) s t"
  using assms good_addJoinCandidate
  by (auto simp: addDistributedJoinCandidate_def bind_res_Inr_iff)

lemma good_add_if_both:
  assumes "\<And>l r. x = Some l \<Longrightarrow> y = Some r \<Longrightarrow> sides_ok (graph P) L R l r J s"
    and "add_if_both P J lk rk x y s = Inr t"
  shows "good (graph P) s t"
proof (cases "x = None \<or> y = None")
  case True
  then show ?thesis using assms(2) by (auto simp: add_if_both_def split: option.splits)
next
  case False
  then obtain l r where lr: "x = Some l" "y = Some r" by auto
  from assms(2) have "addDistributedJoinCandidate P l r J lk rk s = Inr t" by (simp add: add_if_both_def lr)
  then show ?thesis by (rule good_addDistributed [OF assms(1) [OF lr]])
qed

lemma partitioningsOn_good:
  assumes "partitioningsOn P S keys s = Inr (a, t)" and "edges_ok (graph P)" "memo_ok (graph P) (memo s)"
  shows "good (graph P) s t" and "alternatives_ok (graph P) S a"
proof -
  have "plan_ok (graph P) (LeafOp c i p)" if i: "S = singleton i" "i \<in> ids S" "memo s S \<noteq> None" for c i p
  proof -
    obtain plans where p: "memo s S = Some plans" using i(3) by blast
    then obtain q where "q \<in> set plans" "plan_ok (graph P) q" "cover q = S"
      using assms(3) unfolding memo_ok_def by (metis list.set_intros(1) neq_Nil_conv)
    moreover have "ids S = {i}" using i(1) ids_bound [OF i(2)] by (simp add: ids_singleton)
    ultimately show ?thesis using plan_ok_cover [OF assms(2), of q] by simp
  qed
  from partitioningsOn_ok [OF assms(1) this] assms(3)
  show "good (graph P) s t" "alternatives_ok (graph P) S a" by auto
qed

lemma partitioningOffers_good:
  assumes "partitioningOffers P l keys s = Inr (x, t)" and "edges_ok (graph P)" "memo_ok (graph P) (memo s)"
  shows "good (graph P) s t" and "offers_ok (graph P) (cover l) (offers_hash x)"
    and "offers_ok (graph P) (cover l) (offers_connector x)"
proof -
  obtain a ks hs cs where a: "partitioningsOn P (cover l) keys s = Inr (a, t)"
    and m: "makeOffers (sameOrEqual (exprOps P)) ks (standardHash a) [] = Inr hs"
      "makeOffers (sameOrEqual (exprOps P)) ks (connectorBucketed a) [] = Inr cs"
      "x = \<lparr>offers_hash = hs, offers_connector = cs\<rparr>"
    using assms(1) by (auto simp: partitioningOffers_def bind_res_Inr_iff)
  show "good (graph P) s t" by (rule partitioningsOn_good [OF a assms(2,3)])
  have "alternatives_ok (graph P) (cover l) a" by (rule partitioningsOn_good [OF a assms(2,3)])
  then have "\<forall>p\<in>set (standardHash a). plan_ok (graph P) p \<and> cover p = cover l"
    "\<forall>p\<in>set (connectorBucketed a). plan_ok (graph P) p \<and> cover p = cover l"
    by (auto simp: alternatives_ok_def)
  then show "offers_ok (graph P) (cover l) (offers_hash x)" "offers_ok (graph P) (cover l) (offers_connector x)"
    using m by (auto intro: offers_ok_make)
qed

text \<open>A loop of steps that keep the memo valid.\<close>

lemma good_fold_res:
  assumes "fold_res f xs s = Inr t"
    and "\<And>x u v. x \<in> set xs \<Longrightarrow> good h s u \<Longrightarrow> f x u = Inr v \<Longrightarrow> good h u v"
  shows "good h s t"
  by (rule fold_res_invariant [OF assms(1), of "good h s"]) (auto intro: good_trans assms(2))

lemma good_add_aligned:
  assumes ok: "sides_ok (graph P) L R l r J s"
    and offer: "plan_ok (graph P) (offer_plan x)" "cover (offer_plan x) = (if keepLeft then L else R)"
    and "add_aligned P l r J lk rk keepLeft x s = Inr t"
  shows "good (graph P) s t"
proof -
  let ?S = "if keepLeft then R else L"
  have cov: "cover l = L" "cover r = R" using ok by (simp_all add: sides_ok_def)
  let ?keys = "correspondingKeys (offer_partitioning x) (if keepLeft then rk else lk)"
  let ?moved = "case p_partitionType (outputPartitioning (offer_plan x)) of
    None \<Rightarrow> repartitioned P ?S ?keys False s | Some q \<Rightarrow> repartitionedTo P ?S ?keys q s"
  obtain a u where au: "?moved = Inr (a, u)"
    and rest: "(case a of None \<Rightarrow> Inr u | Some a \<Rightarrow> addDistributedJoinCandidate P
        (if keepLeft then offer_plan x else a) (if keepLeft then a else offer_plan x) J lk rk u) = Inr t"
    using assms(4) unfolding add_aligned_def Let_def cov bind_res_Inr_iff by (auto split: prod.splits)
  have g: "gives (graph P) ?S s (a, u)"
    using au by (cases "p_partitionType (outputPartitioning (offer_plan x))")
      (simp_all add: gives_repartitioned gives_repartitionedTo)
  have u: "good (graph P) s u" by (rule givesD [OF g])
  show ?thesis
  proof (cases a)
    case None
    then show ?thesis using rest u by simp
  next
    case (Some b)
    have "plan_ok (graph P) b" "cover b = ?S" using givesD [OF g] Some sides_ok_memo [OF ok] by auto
    then have "sides_ok (graph P) L R (if keepLeft then offer_plan x else b) (if keepLeft then b else offer_plan x) J u"
      using offer by (intro sides_ok_with [OF sides_ok_later [OF ok u]]) auto
    moreover have "addDistributedJoinCandidate P (if keepLeft then offer_plan x else b)
        (if keepLeft then b else offer_plan x) J lk rk u = Inr t" using rest Some by simp
    ultimately have "good (graph P) u t" by (rule good_addDistributed)
    then show ?thesis by (rule good_trans [OF u])
  qed
qed

lemma good_addCoPartitioned:
  assumes ok: "sides_ok (graph P) L R l r J s"
    and offers: "offers_ok (graph P) L lo" "offers_ok (graph P) R ro"
    and run: "addCoPartitionedCandidate P l r J lk rk lo ro s = Inr t"
  shows "good (graph P) s t"
proof (cases "lo = [] \<and> ro = []")
  case True
  then show ?thesis using run by (auto simp: addCoPartitionedCandidate_def)
next
  case False
  let ?f = "\<lambda>(l, r) s.
      if coPartitionsWith (numPartitions (exprOps P)) (copartitionedType (exprOps P))
           (offer_partitioning l) (offer_partitioning r)
      then addDistributedJoinCandidate P (offer_plan l) (offer_plan r) J lk rk s else Inr s"
  obtain u v where uv: "fold_res ?f (List.product lo ro) s = Inr u"
    "fold_res (\<lambda>x. add_aligned P l r J lk rk True x) lo u = Inr v"
    "fold_res (\<lambda>x. add_aligned P l r J lk rk False x) ro v = Inr t"
    using run False by (auto simp: addCoPartitionedCandidate_def bind_res_Inr_iff)
  have s: "good (graph P) s u"
  proof (rule good_fold_res [OF uv(1)])
    fix x a b
    assume x: "x \<in> set (List.product lo ro)" and a: "good (graph P) s a" and f: "?f x a = Inr b"
    obtain y z where yz: "x = (y, z)" "y \<in> set lo" "z \<in> set ro" using x by auto
    have "sides_ok (graph P) L R (offer_plan y) (offer_plan z) J a"
      using offers yz by (intro sides_ok_with [OF sides_ok_later [OF ok a]]) (auto simp: offers_ok_def)
    then show "good (graph P) a b"
      using f by (auto simp: yz(1) split: if_splits intro: good_addDistributed)
  qed
  have u: "good (graph P) u v"
  proof (rule good_fold_res [OF uv(2)])
    fix x a b
    assume x: "x \<in> set lo" and a: "good (graph P) u a" and f: "add_aligned P l r J lk rk True x a = Inr b"
    show "good (graph P) a b"
      by (rule good_add_aligned [OF sides_ok_later [OF ok good_trans [OF s a]] _ _ f])
        (use offers(1) x in \<open>auto simp: offers_ok_def\<close>)
  qed
  have "good (graph P) v t"
  proof (rule good_fold_res [OF uv(3)])
    fix x a b
    assume x: "x \<in> set ro" and a: "good (graph P) v a" and f: "add_aligned P l r J lk rk False x a = Inr b"
    show "good (graph P) a b"
      by (rule good_add_aligned [OF sides_ok_later [OF ok good_trans [OF good_trans [OF s u] a]] _ _ f])
        (use offers(2) x in \<open>auto simp: offers_ok_def\<close>)
  qed
  then show ?thesis by (rule good_trans [OF good_trans [OF s u]])
qed

lemma good_add_given:
  assumes ok: "sides_ok (graph P) L R l r J s"
    and g: "gives (graph P) L s (x, u)" "gives (graph P) R u (y, v)"
    and run: "add_if_both P J lk rk x y v = Inr t"
  shows "good (graph P) s t"
proof -
  have u: "good (graph P) s u" and v: "good (graph P) u v" using g by (auto dest: givesD)
  have mem: "memo_ok (graph P) (memo s)" "memo_ok (graph P) (memo u)"
    using ok u by (auto simp: sides_ok_def good_def)
  have "good (graph P) v t"
  proof (rule good_add_if_both [OF _ run])
    fix a b
    assume "x = Some a" "y = Some b"
    then show "sides_ok (graph P) L R a b J v"
      using givesD [OF g(1)] givesD [OF g(2)] mem
      by (intro sides_ok_with [OF sides_ok_later [OF ok good_trans [OF u v]]]) auto
  qed
  then show ?thesis by (rule good_trans [OF good_trans [OF u v]])
qed

lemma gives_self: "sides_ok h L R l r J s \<Longrightarrow> gives h L s (Some l, s) \<and> gives h R s (Some r, s)"
  by (simp add: sides_ok_def gives_def)

lemma gives_self_later: "sides_ok h L R l r J s \<Longrightarrow> good h s u \<Longrightarrow> gives h R u (Some r, u)"
  using sides_ok_later gives_self by blast

lemma good_consider_gathered:
  assumes ok: "sides_ok (graph P) L R l r J s" and run: "consider_gathered P l r J lk rk s = Inr t"
  shows "good (graph P) s t"
proof (cases "p_kind (outputPartitioning l) = KGather \<or> p_kind (outputPartitioning r) = KGather")
  case True
  have cov: "cover l = L" "cover r = R" using ok by (simp_all add: sides_ok_def)
  obtain x u where x: "(if p_kind (outputPartitioning l) = KGather then (Some l, s) else gatheredSmall P l s) = (x, u)"
    by fastforce
  obtain y v where y: "(if p_kind (outputPartitioning r) = KGather then (Some r, u) else gatheredSmall P r u) = (y, v)"
    by fastforce
  have gx: "gives (graph P) L s (x, u)"
    using gives_self [OF ok] gives_gatheredSmall [of "graph P" l s P] cov by (simp flip: x)
  have gy: "gives (graph P) R u (y, v)"
    using gives_self_later [OF ok givesD(1) [OF gx]] gives_gatheredSmall [of "graph P" r u P] cov
    by (simp flip: y)
  have "add_if_both P J lk rk x y v = Inr t"
    using run True x y by (simp add: consider_gathered_def Let_def)
  then show ?thesis by (rule good_add_given [OF ok gx gy])
qed (use run in \<open>simp add: consider_gathered_def\<close>)

lemma good_consider_replicated:
  assumes ok: "sides_ok (graph P) L R l r J s" and run: "consider_replicated P l r J lk rk s = Inr t"
  shows "good (graph P) s t"
proof (cases "p_kind (outputPartitioning l) = KBroadcast \<or> p_kind (outputPartitioning r) = KBroadcast")
  case True
  have cov: "cover l = L" "cover r = R" using ok by (simp_all add: sides_ok_def)
  obtain x u where x: "(if p_kind (outputPartitioning l) = KBroadcast then (Some l, s)
      else replicatedChild P (cover l) globalBroadcast s) = (x, u)" by fastforce
  obtain y v where y: "(if p_kind (outputPartitioning r) = KBroadcast then (Some r, u)
      else replicatedChild P (cover r) globalBroadcast u) = (y, v)" by fastforce
  have gx: "gives (graph P) L s (x, u)"
    using gives_self [OF ok] gives_replicatedChild [of "graph P" L s P globalBroadcast] cov by (simp flip: x)
  have gy: "gives (graph P) R u (y, v)"
    using gives_self_later [OF ok givesD(1) [OF gx]] gives_replicatedChild [of "graph P" R u P globalBroadcast] cov
    by (simp flip: y)
  obtain w where w: "add_if_both P J lk rk x y v = Inr w"
    and rest: "(if p_kind (outputPartitioning l) = KBroadcast \<and> p_kind (outputPartitioning r) \<noteq> KBroadcast \<and>
        canBroadcastProbe (js_type J) \<and> \<not> js_reversedAnti J
      then addDistributedJoinCandidate P l r J lk rk w else Inr w) = Inr t"
    using run True x y by (auto simp: consider_replicated_def Let_def bind_res_Inr_iff)
  have "good (graph P) s w" by (rule good_add_given [OF ok gx gy w])
  then show ?thesis
    using rest good_addDistributed [OF sides_ok_later [OF ok]]
    by (auto split: if_splits intro: good_trans)
qed (use run in \<open>simp add: consider_replicated_def\<close>)

lemma good_consider_partitioned:
  assumes ok: "sides_ok (graph P) L R l r J s" and run: "consider_partitioned P l r J lk rk s = Inr t"
  shows "good (graph P) s t"
proof (cases "lk = []")
  case True
  then show ?thesis using run by (simp add: consider_partitioned_def)
next
  case lk: False
  have cov: "cover l = L" "cover r = R" and edges: "edges_ok (graph P)" using ok by (simp_all add: sides_ok_def)
  let ?e = "edges (graph P) ! js_edge J"
  show ?thesis
  proof (cases "nullAware ?e")
    case True
    obtain x u y v where x: "repartitioned P L lk (rs_isSubset (rightEligibility ?e) L) s = Inr (x, u)"
      "repartitioned P R rk (rs_isSubset (rightEligibility ?e) R) u = Inr (y, v)"
      "add_if_both P J lk rk x y v = Inr t"
      using run lk True cov by (auto simp: consider_partitioned_def Let_def bind_res_Inr_iff)
    show ?thesis by (rule good_add_given [OF ok gives_repartitioned [OF x(1)] gives_repartitioned [OF x(2)] x(3)])
  next
    case False
    obtain lo u ro v w z where o: "partitioningOffers P l lk s = Inr (lo, u)"
      "partitioningOffers P r rk u = Inr (ro, v)"
      and c: "addCoPartitionedCandidate P l r J lk rk (offers_hash lo) (offers_hash ro) v = Inr w"
        "addCoPartitionedCandidate P l r J lk rk (offers_connector lo) (offers_connector ro) w = Inr z"
      and rest: "(if offers_hash lo = [] \<and> offers_connector lo = [] \<and> offers_hash ro = [] \<and> offers_connector ro = []
          then bind_res (repartitioned P (cover l) lk False z)
            (\<lambda>(leftPart, s). bind_res (repartitioned P (cover r) rk False s)
              (\<lambda>(rightPart, s). add_if_both P J lk rk leftPart rightPart s))
          else Inr z) = Inr t"
      using run lk False by (auto simp: consider_partitioned_def Let_def bind_res_Inr_iff)
    note lo = partitioningOffers_good [OF o(1) edges sides_ok_memo [OF ok]]
    note oku = sides_ok_later [OF ok lo(1)]
    note ro = partitioningOffers_good [OF o(2) edges sides_ok_memo [OF oku]]
    note okv = sides_ok_later [OF oku ro(1)]
    have w: "good (graph P) v w"
      by (rule good_addCoPartitioned [OF okv _ _ c(1)]) (use lo(2) ro(2) cov in simp_all)
    note okw = sides_ok_later [OF okv w]
    have z: "good (graph P) w z"
      by (rule good_addCoPartitioned [OF okw _ _ c(2)]) (use lo(3) ro(3) cov in simp_all)
    note okz = sides_ok_later [OF okw z]
    have "good (graph P) z t"
    proof (cases "offers_hash lo = [] \<and> offers_connector lo = [] \<and> offers_hash ro = [] \<and> offers_connector ro = []")
      case True
      obtain x a y b where x: "repartitioned P L lk False z = Inr (x, a)" "repartitioned P R rk False a = Inr (y, b)"
        "add_if_both P J lk rk x y b = Inr t"
        using rest True cov by (auto simp: bind_res_Inr_iff)
      show ?thesis by (rule good_add_given [OF okz gives_repartitioned [OF x(1)] gives_repartitioned [OF x(2)] x(3)])
    qed (use rest in auto)
    then show ?thesis
      by (rule good_trans [OF good_trans [OF good_trans [OF good_trans [OF lo(1) ro(1)] w] z]])
  qed
qed

lemma good_consider_broadcast:
  assumes ok: "sides_ok (graph P) L R l r J s" and run: "consider_broadcast P l r J lk rk s = Inr t"
  shows "good (graph P) s t"
proof (cases "canBroadcastBuild (js_type J) \<and> \<not> js_reversedAnti J")
  case True
  have cov: "cover r = R" using ok by (simp add: sides_ok_def)
  obtain y v where y: "replicatedChild P R (outputPartitioning l) s = (y, v)" by fastforce
  have "add_if_both P J lk rk (Some l) y v = Inr t" using run True y cov by (simp add: consider_broadcast_def)
  moreover have "gives (graph P) R s (y, v)" using gives_replicatedChild [of "graph P" R s P] by (simp flip: y)
  ultimately show ?thesis using gives_self [OF ok] good_add_given [OF ok] by blast
qed (use run in \<open>auto simp: consider_broadcast_def\<close>)

lemma good_considerCandidate:
  assumes ok: "sides_ok (graph P) L R l r J s" and run: "considerCandidate P l r J s = Inr t"
  shows "good (graph P) s t"
proof (cases "numWorkers P = 1")
  case True
  then show ?thesis using run good_addJoinCandidate [OF ok] by (auto simp: considerCandidate_def)
next
  case False
  obtain lk rk where keys: "orientedKeys (graph P) l (js_edge J) (js_keyEdges J) = (lk, rk)" by fastforce
  obtain u v w where u: "consider_gathered P l r J lk rk s = Inr u"
    "consider_replicated P l r J lk rk u = Inr v" "consider_partitioned P l r J lk rk v = Inr w"
    "consider_broadcast P l r J lk rk w = Inr t"
    using run False by (auto simp: considerCandidate_def keys bind_res_Inr_iff)
  note gu = good_consider_gathered [OF ok u(1)]
  note oku = sides_ok_later [OF ok gu]
  note gv = good_consider_replicated [OF oku u(2)]
  note okv = sides_ok_later [OF oku gv]
  note gw = good_consider_partitioned [OF okv u(3)]
  note okw = sides_ok_later [OF okv gw]
  show ?thesis
    by (rule good_trans [OF good_trans [OF good_trans [OF gu gv] gw] good_consider_broadcast [OF okw u(4)]])
qed

section \<open>Joining a pair\<close>

lemma swapType_involution: "swapType a = Inr b \<Longrightarrow> swapType b = Inr a"
  by (cases a) auto

lemma crosses_sides_sym: "crosses_sides e R L = crosses_sides e L R"
  by (auto simp: crosses_sides_def)

lemma filters_ok_sym: "filters_ok h fs R L = filters_ok h fs L R"
  by (auto simp: filters_ok_def crosses_sides_sym)

lemma orientation_swap:
  assumes "orientation_ok e L R jt False" and "swapType jt = Inr t"
  shows "orientation_ok e R L t False"
  using assms swapType_involution [of "joinType e" jt] by (auto simp: orientation_ok_def)

lemma rs_unionSet_commute: "rs_unionSet R L = rs_unionSet L R"
  by (simp add: rs_unionSet_def or.commute)

lemma spec_ok_swap:
  assumes "spec_ok h L R J" and "\<not> js_reversedAnti J" and "swapType (js_type J) = Inr t"
  shows "spec_ok h R L (J\<lparr>js_type := t\<rparr>)"
proof -
  have "orientation_ok (edges h ! js_edge J) (ids R) (ids L) t False"
    using assms by (intro orientation_swap [of _ "ids L" "ids R" "js_type J"]) (auto simp: spec_ok_def join_ok_def)
  then show ?thesis
    using assms by (auto simp: spec_ok_def join_ok_def filters_ok_def crosses_sides_sym rs_unionSet_commute)
qed

lemma sides_ok_swap:
  "sides_ok h L R l r J s \<Longrightarrow> spec_ok h R L J' \<Longrightarrow> sides_ok h R L r l J' s"
  by (simp add: sides_ok_def)

lemma good_considerOrientations:
  assumes ok: "sides_ok (graph P) L R l r J s" and "\<not> js_reversedAnti J"
    and run: "considerOrientations P l r J s = Inr t"
  shows "good (graph P) s t"
proof -
  let ?e = "edges (graph P) ! js_edge J"
  let ?inv = "loopInvariantSide (js_type J) (leftKeys ?e \<noteq> []) (nullAsValue ?e)
    (sides (readsState P (cover l)) (readsState P (cover r)))"
  obtain u where u: "(if \<not> side_left ?inv then considerCandidate P l r J s else Inr s) = Inr u"
    and rest: "(if \<not> side_right ?inv
      then case swapType (js_type J) of Inl _ \<Rightarrow> Inl NoSwappedType
        | Inr t \<Rightarrow> considerCandidate P r l (J\<lparr>js_type := t\<rparr>) u
      else Inr u) = Inr t"
    using run unfolding considerOrientations_def Let_def bind_res_Inr_iff by blast
  have gu: "good (graph P) s u"
    using u good_considerCandidate [OF ok] by (auto split: if_splits)
  have "good (graph P) u t"
  proof (cases "side_right ?inv")
    case False
    then obtain j where j: "swapType (js_type J) = Inr j" "considerCandidate P r l (J\<lparr>js_type := j\<rparr>) u = Inr t"
      using rest by (auto split: sum.splits)
    have "spec_ok (graph P) R L (J\<lparr>js_type := j\<rparr>)"
      using ok assms(2) j(1) by (intro spec_ok_swap) (auto simp: sides_ok_def)
    then show ?thesis
      by (rule good_considerCandidate [OF sides_ok_swap [OF sides_ok_later [OF ok gu]] j(2)])
  qed (use rest in auto)
  then show ?thesis by (rule good_trans [OF gu])
qed

text \<open>What is known about an edge between two disjoint sides.\<close>

definition edge_between :: "hypergraph \<Rightarrow> relation_set \<Rightarrow> relation_set \<Rightarrow> nat \<Rightarrow> bool \<Rightarrow> bool" where
  "edge_between h L R i fwd \<longleftrightarrow> ids L \<inter> ids R = {} \<and> i < length (edges h) \<and>
     crosses_sides (edges h ! i) (ids L) (ids R) \<and>
     (if fwd then forward (edges h ! i) L R else forward (edges h ! i) R L)"

lemma edge_between_oriented:
  assumes "edge_between h L R i fwd" and "if fwd then t = joinType (edges h ! i) else swapType (joinType (edges h ! i)) = Inr t"
  shows "orientation_ok (edges h ! i) (ids L) (ids R) t False"
  using assms by (auto simp: edge_between_def forward_def orientation_ok_def set_abs split: if_splits)

lemma good_emitSingleEdge:
  assumes memo: "edges_ok (graph P)" "memo_ok (graph P) (memo s)"
    and plans: "plan_ok (graph P) l" "cover l = L" "plan_ok (graph P) r" "cover r = R"
    and between: "edge_between (graph P) L R i fwd" "\<not> isUnnest (edges (graph P) ! i)"
    and more: "filters_ok (graph P) ks (ids L) (ids R)" "filters_ok (graph P) fs (ids L) (ids R)"
    and run: "emitSingleEdge P i fwd l r (rs_unionSet L R) ks fs s = Inr t"
  shows "good (graph P) s t"
proof -
  let ?e = "edges (graph P) ! i"
  let ?J = "\<lambda>t. \<lparr>js_edge = i, js_type = t, js_combined = rs_unionSet L R, js_reversedAnti = False,
    js_keyEdges = ks, js_filterEdges = fs\<rparr>"
  have chk: "ks = [] \<or> joinType ?e = KInner" "fs = [] \<or> keepsBothInputs (joinType ?e)"
    using run by (auto simp: emitSingleEdge_def Let_def)
  have spec: "spec_ok (graph P) L R (?J j)"
    if "if fwd then j = joinType ?e else swapType (joinType ?e) = Inr j" for j
    using edge_between_oriented [OF between(1) that] between more chk
    by (auto simp: spec_ok_def join_ok_def edge_between_def filterable_def)
  define pl where "pl = (if fwd then l else r)"
  define pr where "pr = (if fwd then r else l)"
  define A where "A = (if fwd then L else R)"
  define B where "B = (if fwd then R else L)"
  have side: "plan_ok (graph P) pl" "plan_ok (graph P) pr" "cover pl = A" "cover pr = B"
    "rs_unionSet L R = rs_unionSet A B" "ids A \<inter> ids B = {}"
    "ids (leftEligibility ?e) \<subseteq> ids A" "ids (rightEligibility ?e) \<subseteq> ids B"
    "crosses_sides ?e (ids A) (ids B)" "filters_ok (graph P) ks (ids A) (ids B)" "filters_ok (graph P) fs (ids A) (ids B)"
    "i < length (edges (graph P))"
    using plans between more
    by (auto simp: pl_def pr_def A_def B_def rs_unionSet_commute [of R L] edge_between_def forward_def set_abs
        crosses_sides_sym [of ?e "ids R" "ids L"] filters_ok_sym [of _ _ "ids R" "ids L"])
  show ?thesis
  proof (cases "joinType ?e = KAnti \<or> joinType ?e = KLeftSemiProject \<and> \<not> hasRightProjectVariant ?e")
    case True
    obtain u where u: "considerCandidate P pl pr (?J (joinType ?e)) s = Inr u"
      and rest: "(if joinType ?e = KAnti \<and> hasRightProjectVariant ?e
        then considerCandidate P pr pl
          ((?J (joinType ?e))\<lparr>js_reversedAnti := True, js_keyEdges := [], js_filterEdges := []\<rparr>) u
        else Inr u) = Inr t"
      using run True chk unfolding emitSingleEdge_def Let_def pl_def pr_def
      by (auto simp: bind_res_Inr_iff simp del: join_spec.update_convs)
    have "spec_ok (graph P) A B (?J (joinType ?e))"
      using side between chk by (auto simp: spec_ok_def join_ok_def orientation_ok_def filterable_def)
    then have ok: "sides_ok (graph P) A B pl pr (?J (joinType ?e)) s"
      using memo side by (simp add: sides_ok_def)
    note gu = good_considerCandidate [OF ok u]
    have "good (graph P) u t"
    proof (cases "joinType ?e = KAnti \<and> hasRightProjectVariant ?e")
      case True
      let ?K = "(?J (joinType ?e))\<lparr>js_reversedAnti := True, js_keyEdges := [], js_filterEdges := []\<rparr>"
      have "spec_ok (graph P) B A ?K"
        using side between True
        by (auto simp: spec_ok_def join_ok_def orientation_ok_def filters_ok_def crosses_sides_sym [of ?e "ids B" "ids A"]
            rs_unionSet_commute [of B A])
      then have "sides_ok (graph P) B A pr pl ?K u" by (rule sides_ok_swap [OF sides_ok_later [OF ok gu]])
      then show ?thesis using rest True good_considerCandidate by auto
    qed (use rest in auto)
    then show ?thesis by (rule good_trans [OF gu])
  next
    case False
    then obtain j where j: "if fwd then j = joinType ?e else swapType (joinType ?e) = Inr j"
      and o: "considerOrientations P l r (?J j) s = Inr t"
      using run chk unfolding emitSingleEdge_def Let_def by (auto split: sum.splits if_splits)
    have "sides_ok (graph P) L R l r (?J j) s"
      using memo plans spec [OF j] by (simp add: sides_ok_def)
    then show ?thesis by (rule good_considerOrientations [OF _ _ o]) simp
  qed
qed

text \<open>
  Each Unnest relation stands alone on the right of its one unnest edge, as the builder of the
  graph makes them.
\<close>

definition unnest_once :: "hypergraph \<Rightarrow> bool" where
  "unnest_once h \<longleftrightarrow>
     (\<forall>e\<in>set (edges h). isUnnest e \<longrightarrow> rightEndpoints e = rightEligibility e \<and> card (ids (rightEligibility e)) = 1) \<and>
     distinct (map rightEligibility (filter isUnnest (edges h)))"

lemma unnest_once_edge:
  assumes "unnest_once h" and "i < length (edges h)" and "isUnnest (edges h ! i)"
  shows "rightEndpoints (edges h ! i) = rightEligibility (edges h ! i)"
    and "\<exists>r. ids (rightEligibility (edges h ! i)) = {r}"
  using assms by (auto simp: unnest_once_def card_1_singleton_iff)

lemma good_emitUnnest:
  assumes once: "unnest_once h" "h = graph P"
    and e: "i < length (edges h)" "isUnnest (edges h ! i)" "ids (leftEligibility (edges h ! i)) \<subseteq> ids S"
      "ids (rightEligibility (edges h ! i)) \<inter> ids S = {}"
    and fs: "filters_ok h fs (ids S) (ids (rightEligibility (edges h ! i)))"
    and T: "T = rs_unionSet S (rightEligibility (edges h ! i))"
  shows "good h s (emitUnnest P S i T fs s)"
proof (cases "cheapestPlan P S s")
  case (Some input)
  let ?s1 = "snd (budget_consume (budgetCap P) s)"
  let ?entry = "\<lambda>c. makeUnnestOp c input i (rightEndpoints (edges (graph P) ! i)) fs"
  obtain x t where x: "with_cost ?entry P ?s1 = (x, t)" by fastforce
  obtain c where c: "x = ?entry c" and t: "memo t = memo s"
    using with_cost_result [OF x] by (metis consume_memo dphyp_state.simps(1) dphyp_state.update_convs(7)
        dphyp_state.ext_inject dphyp_state.surjective)
  have right: "rightEndpoints (edges h ! i) = rightEligibility (edges h ! i)" by (rule unnest_once_edge [OF once(1) e(1,2)])
  have "plan_ok h x \<and> cover x = T" if "memo_ok h (memo t)"
    using cheapestPlan_ok [OF Some, of h] that t e fs right
    by (auto simp: c makeUnnestOp_def expandedCover_def T once(2) [symmetric])
  then have "good h t (memo_add P T x t)" by (intro good_memo_add) auto
  moreover have "good h s t" by (rule good_trans [OF good_consume good_with_cost [OF x]])
  ultimately show ?thesis
    by (simp add: emitUnnest_def Some Let_def x) (blast intro: good_trans)
qed (simp add: emitUnnest_def)

lemma good_applyCrossingEdge:
  assumes memo: "edges_ok (graph P)" "unnest_once (graph P)" "memo_ok (graph P) (memo s)"
    and between: "edge_between (graph P) L R i fwd" and fs: "filters_ok (graph P) fs (ids L) (ids R)"
    and run: "applyCrossingEdge P i fwd L R (rs_unionSet L R) [] fs s = Inr t"
  shows "good (graph P) s t"
proof (cases "isUnnest (edges (graph P) ! i)")
  case True
  let ?e = "edges (graph P) ! i"
  show ?thesis
  proof (cases "R = rightEligibility ?e")
    case R: True
    have "edge_ok ?e" using memo(1) between by (simp add: edge_between_def)
    then have "ids (leftEligibility ?e) \<noteq> {}" "ids (leftEligibility ?e) \<inter> ids (rightEligibility ?e) = {}"
      by (auto simp: edge_ok_def)
    then have "ids (leftEligibility ?e) \<subseteq> ids L"
      using between R by (auto simp: edge_between_def forward_def set_abs split: if_splits)
    moreover have "ids (rightEligibility ?e) \<inter> ids L = {}" using between R by (auto simp: edge_between_def)
    ultimately have "good (graph P) s (emitUnnest P L i (rs_unionSet L R) fs s)"
      using True between fs R by (intro good_emitUnnest [OF memo(2)]) (auto simp: edge_between_def)
    then show ?thesis using run True R by (auto simp: applyCrossingEdge_def)
  qed (use run True in \<open>auto simp: applyCrossingEdge_def\<close>)
next
  case False
  show ?thesis
  proof (cases "cheapestPlan P L s = None \<or> cheapestPlan P R s = None")
    case True
    then show ?thesis using run False by (auto simp: applyCrossingEdge_def split: option.splits)
  next
    case plans: False
    then obtain l r where lr: "cheapestPlan P L s = Some l" "cheapestPlan P R s = Some r" by auto
    have ok: "plan_ok (graph P) l" "cover l = L" "plan_ok (graph P) r" "cover r = R"
      using cheapestPlan_ok [OF lr(1) memo(3)] cheapestPlan_ok [OF lr(2) memo(3)] by auto
    have r: "emitSingleEdge P i fwd l r (rs_unionSet L R) [] fs s = Inr t"
      using run False lr by (simp add: applyCrossingEdge_def)
    show ?thesis
      by (rule good_emitSingleEdge [OF memo(1,3) ok between False _ fs r]) (simp add: filters_ok_def)
  qed
qed

lemma crossingEdges_sound:
  assumes "crossingEdges h L R = Some (js, fs)" and "ids L \<inter> ids R = {}"
  shows "(i, fwd) \<in> set js \<Longrightarrow> edge_between h L R i fwd" and "filters_ok h fs (ids L) (ids R)"
    and "\<forall>(i, fwd)\<in>set js. filterable (edges h ! i) \<Longrightarrow> filters_ok h (map fst js) (ids L) (ids R)"
proof -
  have r: "\<not> (\<exists>e\<in>set (edges h). blocking L R e)"
    "js = map (\<lambda>j. (j, forward (edges h ! j) L R))
       (filter (\<lambda>j. crosses L R (edges h ! j) \<and> aligned L R (edges h ! j)) [0..<length (edges h)])"
    "fs = filter (\<lambda>j. crosses L R (edges h ! j) \<and> \<not> aligned L R (edges h ! j)) [0..<length (edges h)]"
    using assms(1) by (auto simp: crossingEdges_def crossing_loop_result split: if_splits)
  have cr: "crosses L R e \<longleftrightarrow> crosses_sides e (ids L) (ids R)" for e
    by (simp add: crosses_def crosses_sides_def)
  show "(i, fwd) \<in> set js \<Longrightarrow> edge_between h L R i fwd"
    using assms(2) by (auto simp: r(2) cr edge_between_def aligned_def)
  show "filters_ok h fs (ids L) (ids R)"
    using r(1) by (auto simp: r(3) cr filters_ok_def blocking_def)
  show "\<forall>(i, fwd)\<in>set js. filterable (edges h ! i) \<Longrightarrow> filters_ok h (map fst js) (ids L) (ids R)"
    by (auto simp: r(2) cr filters_ok_def)
qed

lemma special_position_result:
  "special_position es js n sp = Some k \<Longrightarrow>
   (if sp = None then n \<le> k \<and> k < n + length js \<and> (\<forall>j<length js. n + j \<noteq> k \<longrightarrow> filterable (es ! fst (js ! j)))
    else sp = Some k \<and> (\<forall>j<length js. filterable (es ! fst (js ! j))))"
proof (induction es js n sp rule: special_position.induct)
  case (2 es e b xs n sp)
  have all: "(\<forall>j<Suc m. Q j) \<longleftrightarrow> Q 0 \<and> (\<forall>j<m. Q (Suc j))" for Q m
    by (auto simp: less_Suc_eq_0_disj)
  show ?case
    using 2 by (auto simp: all split: if_splits)
qed auto

lemma filters_ok_append: "filters_ok h (fs @ gs) L R \<longleftrightarrow> filters_ok h fs L R \<and> filters_ok h gs L R"
  by (auto simp: filters_ok_def)

lemma canonical_hd:
  assumes "canonicalKeyEdges h js = Inr ks" and "js \<noteq> []"
  shows "ks \<noteq> [] \<and> set ks \<subseteq> set js"
proof -
  obtain k rest where j: "sort js = k # rest" using assms(2) by (cases "sort js") (auto dest: arg_cong [where f = set])
  have loop: "canonical_loop (edges h) (k # rest) {} = Inr ks" using assms(1) j by (simp add: canonicalKeyEdges_def)
  have "\<not> covered {} (edges h ! k)"
    using set_edge_classes [of "edges h ! k"] by (auto simp: covered_def edge_classes_def)
  then have "ks \<noteq> []" using loop by (auto simp: canonical_loop_step bind_res_Inr_iff)
  moreover have "set ks \<subseteq> set js"
    using subseq_set [OF canonical_loop_kept(1) [OF loop]] j by (metis set_sort)
  ultimately show ?thesis ..
qed

lemma good_emitInnerEdges:
  assumes memo: "edges_ok (graph P)" "memo_ok (graph P) (memo s)"
    and idx: "js \<noteq> []" "\<And>i. i \<in> set js \<Longrightarrow> \<exists>fwd. edge_between (graph P) L R i fwd"
    and fs: "filters_ok (graph P) fs (ids L) (ids R)"
    and run: "emitInnerEdges P L R js fs s = Inr t"
  shows "good (graph P) s t"
proof -
  have inner: "\<forall>i\<in>set js. filterable (edges (graph P) ! i)"
    using run by (auto simp: emitInnerEdges_def list_all_iff)
  show ?thesis
  proof (cases "cheapestPlan P L s = None \<or> cheapestPlan P R s = None")
    case True
    then show ?thesis using run by (auto simp: emitInnerEdges_def split: option.splits)
  next
    case False
    then obtain l r where lr: "cheapestPlan P L s = Some l" "cheapestPlan P R s = Some r" by auto
    have plans: "plan_ok (graph P) l" "cover l = L" "plan_ok (graph P) r" "cover r = R"
      using cheapestPlan_ok [OF lr(1) memo(2)] cheapestPlan_ok [OF lr(2) memo(2)] by auto
    obtain ks where ks: "canonicalKeyEdges (graph P) js = Inr ks"
      and o: "considerOrientations P l r \<lparr>js_edge = hd ks, js_type = KInner, js_combined = rs_unionSet L R,
        js_reversedAnti = False, js_keyEdges = tl ks, js_filterEdges = fs\<rparr> s = Inr t"
      using run lr by (auto simp: emitInnerEdges_def split: sum.splits)
    have sub: "ks \<noteq> []" "set ks \<subseteq> set js" using canonical_hd [OF ks idx(1)] by auto
    then have h: "hd ks \<in> set js" by (auto simp: subset_iff)
    then obtain fwd where b: "edge_between (graph P) L R (hd ks) fwd" using idx(2) by blast
    have "set (tl ks) \<subseteq> set js" using sub by (cases ks) auto
    then have f: "filters_ok (graph P) (tl ks) (ids L) (ids R)"
      using idx(2) inner by (fastforce simp: filters_ok_def edge_between_def)
    have "orientation_ok (edges (graph P) ! hd ks) (ids L) (ids R) KInner False"
      using h inner by (intro edge_between_oriented [OF b]) (auto simp: filterable_def)
    then have "spec_ok (graph P) L R \<lparr>js_edge = hd ks, js_type = KInner, js_combined = rs_unionSet L R,
        js_reversedAnti = False, js_keyEdges = tl ks, js_filterEdges = fs\<rparr>"
      using b f fs h inner
      by (auto simp: spec_ok_def join_ok_def edge_between_def filterable_def keepsBothInputs_def)
    then have "sides_ok (graph P) L R l r \<lparr>js_edge = hd ks, js_type = KInner, js_combined = rs_unionSet L R,
        js_reversedAnti = False, js_keyEdges = tl ks, js_filterEdges = fs\<rparr> s"
      using memo plans by (simp add: sides_ok_def)
    then show ?thesis by (rule good_considerOrientations [OF _ _ o]) simp
  qed
qed

text \<open>A graph in which the enumeration makes only valid plans.\<close>

definition dphyp_graph :: "hypergraph \<Rightarrow> bool" where
  "dphyp_graph h \<longleftrightarrow> graph_ok h \<and> unnest_once h"

lemma dphyp_graph_edges: "dphyp_graph h \<Longrightarrow> edges_ok h \<and> unnest_once h"
  by (auto simp: dphyp_graph_def graph_ok_def edge_in_def)

lemma good_emitCsgCmp:
  assumes graph: "dphyp_graph (graph P)" and memo: "memo_ok (graph P) (memo s)"
    and disjoint: "ids L \<inter> ids R = {}" and run: "emitCsgCmp P L R s = Inr t"
  shows "good (graph P) s t"
proof -
  let ?h = "graph P"
  note eo = dphyp_graph_edges [OF graph]
  obtain stop s1 where s1: "budget_consume (budgetCap P) s = (stop, s1)" by fastforce
  have g1: "good ?h s s1" using good_consume [of ?h s "budgetCap P"] s1 by simp
  have m1: "memo_ok ?h (memo s1)" using g1 memo by (simp add: good_def)
  have "good ?h s1 t"
  proof (cases "stop \<or> crossingEdges ?h L R = None \<or> (\<exists>fs. crossingEdges ?h L R = Some ([], fs))")
    case True
    then show ?thesis using run s1 by (auto simp: emitCsgCmp_def split: if_splits)
  next
    case False
    then obtain js fs where c: "crossingEdges ?h L R = Some (js, fs)" "js \<noteq> []" and "\<not> stop" by auto
    note snd = crossingEdges_sound [OF c(1) disjoint]
    have single: "\<exists>i fwd. js = [(i, fwd)]" if "length js = 1" using that by (cases js) auto
    consider (one) i fwd where "js = [(i, fwd)]"
      | (special) k where "length js \<noteq> 1" "special_position (edges ?h) js 0 None = Some k"
      | (inner) "length js \<noteq> 1" "special_position (edges ?h) js 0 None = None"
      using single by (cases "special_position (edges ?h) js 0 None") blast+
    then show ?thesis
    proof cases
      case one
      have "t = s1 \<or> applyCrossingEdge P i fwd L R (rs_unionSet L R) [] fs s1 = Inr t"
        using run s1 c \<open>\<not> stop\<close> one by (auto simp: emitCsgCmp_def Let_def split: if_splits)
      then show ?thesis
        using good_applyCrossingEdge [of P s1 L R i fwd fs t] eo m1 snd(1) [of i fwd] snd(2) one by auto
    next
      case special
      obtain i fwd where i: "js ! k = (i, fwd)" by fastforce
      let ?fs = "fs @ map fst (take k js @ drop (Suc k) js)"
      have k: "k < length js" "\<forall>j<length js. j \<noteq> k \<longrightarrow> filterable (edges ?h ! fst (js ! j))"
        using special_position_result [OF special(2)] by auto
      have "(i, fwd) \<in> set js" using k(1) i by (metis nth_mem)
      then have b: "edge_between ?h L R i fwd" by (rule snd(1))
      have "filters_ok ?h (map fst (take k js @ drop (Suc k) js)) (ids L) (ids R)"
      proof -
        have "\<exists>j<length js. j \<noteq> k \<and> x = fst (js ! j)"
          if "x \<in> set (map fst (take k js @ drop (Suc k) js))" for x
        proof -
          have "x \<in> fst ` set (take k js) \<or> x \<in> fst ` set (drop (Suc k) js)" using that by auto
          then show ?thesis
          proof
            assume "x \<in> fst ` set (take k js)"
            then obtain j where "j < k" "x = fst (js ! j)" by (auto simp: in_set_conv_nth)
            then show ?thesis using k(1) by (intro exI [of _ j]) auto
          next
            assume "x \<in> fst ` set (drop (Suc k) js)"
            then obtain j where "j < length js - Suc k" "x = fst (js ! (Suc k + j))"
              by (auto simp: in_set_conv_nth)
            then show ?thesis by (intro exI [of _ "Suc k + j"]) auto
          qed
        qed
        moreover have "edge_between ?h L R (fst (js ! j)) (snd (js ! j))" if "j < length js" for j
          using snd(1) [of "fst (js ! j)" "snd (js ! j)"] that by simp
        ultimately show ?thesis using k(2) unfolding filters_ok_def edge_between_def by blast
      qed
      then have f: "filters_ok ?h ?fs (ids L) (ids R)" using snd(2) by (simp add: filters_ok_append)
      have "t = s1 \<or> applyCrossingEdge P i fwd L R (rs_unionSet L R) [] ?fs s1 = Inr t"
        using run s1 c \<open>\<not> stop\<close> special i by (auto simp: emitCsgCmp_def Let_def split: if_splits)
      then show ?thesis using good_applyCrossingEdge [OF _ _ m1 b f] eo by auto
    next
      case inner
      then have r: "emitInnerEdges P L R (map fst js) fs s1 = Inr t"
        using run s1 c \<open>\<not> stop\<close> by (simp add: emitCsgCmp_def Let_def)
      have b: "\<exists>fwd. edge_between ?h L R i fwd" if "i \<in> set (map fst js)" for i
        using that snd(1) by (metis (no_types, lifting) imageE list.set_map prod.collapse)
      show ?thesis
        by (rule good_emitInnerEdges [OF _ m1 _ b snd(2) r]) (use eo c(2) in auto)
    qed
  qed
  then show ?thesis by (rule good_trans [OF g1])
qed

end
