(* ===== verification/DPhyp_Enumeration.thy ===== *)
theory DPhyp_Enumeration
  imports DPhyp_Plans
begin

text \<open>
  The recursion of the enumerator and its entry points keep the memo valid, so the plan the
  enumerator returns is a plan of the query.
\<close>

section \<open>The recursion\<close>

lemma neighborhood_outside_self: "ids (neighborhood h S F) \<inter> ids S = {}"
proof -
  have "ids (fold (\<lambda>e result. case other_side e S of None \<Rightarrow> result
      | Some other \<Rightarrow> if rs_hasIntersection other F then result else rs_add result (rs_min other))
      es r) \<inter> ids S = {}" if "ids r \<inter> ids S = {}" for es r
    using that
  proof (induction es arbitrary: r)
    case (Cons e es)
    show ?case
    proof (cases "other_side e S")
      case (Some other)
      have o: "ids other \<inter> ids S = {}" using Some by (auto simp: other_side_def set_abs split: if_splits)
      have "ids (rs_add r (rs_min other)) \<inter> ids S = {}"
      proof (cases "rs_min other < 64")
        case True
        then show ?thesis using o Cons.prems rs_min_in [OF True] neighborhood_add [of r other] by blast
      next
        case False
        then have "rs_add r (rs_min other) = r"
          by (intro rs_eqI) (auto simp: rs_add_def ids_def bit_or_iff bit_mask_of)
        then show ?thesis using Cons.prems by simp
      qed
      then show ?thesis using Some Cons by simp
    qed (use Cons in simp)
  qed simp
  from this [of rs_empty_set "edges h"] show ?thesis by (simp add: neighborhood_def set_abs)
qed

lemma subset_loop_bits:
  "w \<in> set (subset_loop n v) \<Longrightarrow> (\<And>i. bit v i \<Longrightarrow> bit n i) \<Longrightarrow> bit w i \<Longrightarrow> bit n i"
proof (induction n v rule: subset_loop.induct)
  case (1 n v)
  then show ?case by (subst (asm) (2) subset_loop.simps) (auto simp: bit_and_iff split: if_splits)
qed

lemma subsetsBySize_bits: "w \<in> set (subsetsBySize n) \<Longrightarrow> bit w i \<Longrightarrow> bit n i"
  using subset_loop_bits [of w n n i] by (simp add: subsetsBySize_def)

lemma ids_grown: "w \<in> set (subsetsBySize (bits N)) \<Longrightarrow> ids (RelationSet (bits S OR w)) \<subseteq> ids S \<union> ids N"
  by (auto simp: ids_def bit_or_iff dest: subsetsBySize_bits)

lemma ids_grown_keeps: "ids S \<subseteq> ids (RelationSet (bits S OR w))"
  by (auto simp: ids_def bit_or_iff)

lemma good_memo_ok: "good h s t \<Longrightarrow> memo_ok h (memo s) \<Longrightarrow> memo_ok h (memo t)"
  by (simp add: good_def)

lemma good_enumerate_rec:
  assumes "enumerate_rec h emit S F s = Inr t"
    and "X \<subseteq> ids F" and "ids S \<inter> X = {}" and "memo_ok g (memo s)"
    and "\<And>T u v. ids T \<inter> X = {} \<Longrightarrow> memo_ok g (memo u) \<Longrightarrow> emit T u = Inr v \<Longrightarrow> good g u v"
  shows "good g s t"
  using assms
proof (induction h emit S F s arbitrary: t rule: enumerate_rec.induct)
  case (1 h emit S F s)
  let ?N = "neighborhood h S F"
  show ?case
  proof (cases "bud_exceeded s \<or> rs_empty ?N")
    case True
    then show ?thesis using "1.prems"(1) by (subst (asm) enumerate_rec.simps) (auto simp: Let_def split: if_splits)
  next
    case False
    have out: "ids (RelationSet (bits S OR w)) \<inter> X = {}" if "w \<in> set (subsetsBySize (bits ?N))" for w
      using ids_grown [OF that, of S] neighborhood_outside [of h S F] "1.prems"(2,3) by blast
    obtain u where u: "fold_res (\<lambda>w s. let T = RelationSet (bits S OR w)
        in if memo s T \<noteq> None then emit T s else Inr s) (subsetsBySize (bits ?N)) s = Inr u"
      and rest: "fold_res (\<lambda>w. enumerate_rec h emit (RelationSet (bits S OR w)) (rs_unionSet F ?N))
        (subsetsBySize (bits ?N)) u = Inr t"
      using "1.prems"(1) False by (subst (asm) enumerate_rec.simps) (auto simp: Let_def bind_res_Inr_iff)
    have su: "good g s u"
    proof (rule good_fold_res [OF u])
      fix w a b
      assume w: "w \<in> set (subsetsBySize (bits ?N))" and a: "good g s a"
        and b: "(let T = RelationSet (bits S OR w) in if memo a T \<noteq> None then emit T a else Inr a) = Inr b"
      show "good g a b"
        using b "1.prems"(5) [OF out [OF w] good_memo_ok [OF a "1.prems"(4)]]
        by (auto simp: Let_def split: if_splits)
    qed
    have "good g u t"
    proof (rule good_fold_res [OF rest])
      fix w a b
      assume w: "w \<in> set (subsetsBySize (bits ?N))" and a: "good g u a"
        and b: "enumerate_rec h emit (RelationSet (bits S OR w)) (rs_unionSet F ?N) a = Inr b"
      have ma: "memo_ok g (memo a)" using good_memo_ok [OF good_trans [OF su a] "1.prems"(4)] .
      show "good g a b"
        by (rule "1.IH" [OF _ refl _ refl u w b _ out [OF w] ma "1.prems"(5)])
          (use False "1.prems"(2) in \<open>auto simp: set_abs\<close>)
    qed
    then show ?thesis by (rule good_trans [OF su])
  qed
qed

lemma good_emitCsg:
  assumes graph: "dphyp_graph (graph P)" and memo: "memo_ok (graph P) (memo s)"
    and run: "emitCsg P S s = Inr t"
  shows "good (graph P) s t"
proof (cases "bud_exceeded s")
  case False
  let ?F = "prefixThrough (rs_min S)" and ?N = "neighborhood (graph P) S (prefixThrough (rs_min S))"
  have "fold_res (\<lambda>v s. bind_res (emitCsgCmp P S (singleton v) s)
      (enumerateCmpRec P S (singleton v)
        (rs_unionSet (rs_unionSet ?F S) (rs_intersect (prefixThrough v) ?N))))
      (rev (visit (bits ?N))) s = Inr t"
    using run False by (simp add: emitCsg_def Let_def)
  then show ?thesis
  proof (rule good_fold_res)
    fix v a b
    assume "v \<in> set (rev (visit (bits ?N)))"
    then have v: "v \<in> ids ?N" by (simp add: set_visit ids_def)
    assume a: "good (graph P) s a" and "bind_res (emitCsgCmp P S (singleton v) a)
        (enumerateCmpRec P S (singleton v)
          (rs_unionSet (rs_unionSet ?F S) (rs_intersect (prefixThrough v) ?N))) = Inr b"
    then obtain c where c: "emitCsgCmp P S (singleton v) a = Inr c"
      "enumerateCmpRec P S (singleton v) (rs_unionSet (rs_unionSet ?F S) (rs_intersect (prefixThrough v) ?N)) c = Inr b"
      by (auto simp: bind_res_Inr_iff)
    have ma: "memo_ok (graph P) (memo a)" by (rule good_memo_ok [OF a memo])
    have d: "ids S \<inter> ids (singleton v) = {}"
      using v neighborhood_outside_self [of "graph P" S ?F] ids_bound [OF v] by (auto simp: set_abs)
    have ac: "good (graph P) a c" by (rule good_emitCsgCmp [OF graph ma d c(1)])
    have "good (graph P) c b"
    proof (rule good_enumerate_rec [OF c(2) [unfolded enumerateCmpRec_def]])
      show "ids S \<subseteq> ids (rs_unionSet (rs_unionSet ?F S) (rs_intersect (prefixThrough v) ?N))"
        by (auto simp: set_abs)
      show "memo_ok (graph P) (memo c)" by (rule good_memo_ok [OF ac ma])
    qed (use d in \<open>auto intro: good_emitCsgCmp [OF graph]\<close>)
    then show "good (graph P) a b" by (rule good_trans [OF ac])
  qed
qed (use run in \<open>simp add: emitCsg_def\<close>)

lemma good_enumerateCsgRec:
  assumes "dphyp_graph (graph P)" and "memo_ok (graph P) (memo s)" and "enumerateCsgRec P S F s = Inr t"
  shows "good (graph P) s t"
  by (rule good_enumerate_rec [where X = "{}", OF assms(3) [unfolded enumerateCsgRec_def]])
    (use assms(2) in \<open>auto intro: good_emitCsg [OF assms(1)]\<close>)

lemma dphyp_graph_relations:
  "dphyp_graph h \<Longrightarrow> ids (relationIds h) = {..<length (relations h)} \<and> length (relations h) \<le> 64 \<and>
     (\<forall>i<length (relations h). rel_id (relations h ! i) = i)"
  by (auto simp: dphyp_graph_def graph_ok_def kMaxRelations_def)

lemma solveComponent_ok:
  assumes graph: "dphyp_graph (graph P)" and memo: "memo_ok (graph P) (memo s)"
    and comp: "ids C \<subseteq> ids (relationIds (graph P))" and run: "solveComponent P C s = Inr (exceeded, t)"
  shows "memo_ok (graph P) (memo t)"
proof -
  let ?s0 = "budget_reset (budgetCap P) s"
  let ?s1 = "initLeaves P C ?s0"
  have "good (graph P) ?s0 ?s1"
    using comp dphyp_graph_relations [OF graph] by (intro good_initLeaves) simp
  moreover have "memo ?s0 = memo s" by (simp add: budget_reset_def)
  ultimately have m1: "memo_ok (graph P) (memo ?s1)" using memo by (simp add: good_def)
  have "fold_res (\<lambda>i s. if rs_contains (expandedRelationIds (graph P)) i then Inr s
      else bind_res (emitCsg P (singleton i) s) (enumerateCsgRec P (singleton i) (prefixThrough i)))
      (rev (visit (bits C))) ?s1 = Inr t"
    using run by (auto simp: solveComponent_def Let_def bind_res_Inr_iff)
  then have "good (graph P) ?s1 t"
  proof (rule good_fold_res)
    fix i a b
    assume a: "good (graph P) ?s1 a" and b: "(if rs_contains (expandedRelationIds (graph P)) i then Inr a
      else bind_res (emitCsg P (singleton i) a) (enumerateCsgRec P (singleton i) (prefixThrough i))) = Inr b"
    have ma: "memo_ok (graph P) (memo a)" by (rule good_memo_ok [OF a m1])
    show "good (graph P) a b"
    proof (cases "rs_contains (expandedRelationIds (graph P)) i")
      case False
      then obtain c where c: "emitCsg P (singleton i) a = Inr c"
        "enumerateCsgRec P (singleton i) (prefixThrough i) c = Inr b"
        using b by (auto simp: bind_res_Inr_iff)
      have ac: "good (graph P) a c" by (rule good_emitCsg [OF graph ma c(1)])
      show ?thesis by (rule good_trans [OF ac good_enumerateCsgRec [OF graph good_memo_ok [OF ac ma] c(2)]])
    qed (use b in auto)
  qed
  then show ?thesis by (rule good_memo_ok [OF _ m1])
qed

section \<open>Greedy ordering\<close>

text \<open>The fragments are disjoint, and hold an expanded relation only with what it expands.\<close>

definition fragment_ok :: "hypergraph \<Rightarrow> relation_set \<Rightarrow> bool" where
  "fragment_ok h S \<longleftrightarrow>
     (\<forall>e\<in>set (edges h). isUnnest e \<and> ids (rightEligibility e) \<inter> ids S \<noteq> {} \<longrightarrow> ids (leftEligibility e) \<subseteq> ids S)"

definition fragments_ok :: "hypergraph \<Rightarrow> relation_set list \<Rightarrow> bool" where
  "fragments_ok h fs \<longleftrightarrow> (\<forall>S\<in>set fs. fragment_ok h S) \<and> sorted_wrt (\<lambda>S T. ids S \<inter> ids T = {}) fs"

lemma unnest_right_unique:
  assumes "unnest_once h" and "i < length (edges h)" "isUnnest (edges h ! i)"
    and "e \<in> set (edges h)" "isUnnest e" "ids (rightEligibility e) \<inter> ids (rightEligibility (edges h ! i)) \<noteq> {}"
  shows "leftEligibility e = leftEligibility (edges h ! i)"
proof -
  let ?e = "edges h ! i"
  have in_i: "?e \<in> set (filter isUnnest (edges h))" and in_e: "e \<in> set (filter isUnnest (edges h))"
    using assms by auto
  have "card (ids (rightEligibility e)) = 1" "card (ids (rightEligibility ?e)) = 1"
    using assms by (auto simp: unnest_once_def)
  then have "rightEligibility e = rightEligibility ?e"
    using assms(6) by (intro rs_eqI) (auto simp: card_1_singleton_iff)
  moreover have "inj_on rightEligibility (set (filter isUnnest (edges h)))"
    using assms(1) by (simp add: unnest_once_def distinct_map)
  ultimately have "e = ?e" using in_e in_i by (blast dest: inj_onD)
  then show ?thesis by simp
qed

text \<open>One expansion, seen from the fragment it grows and from a disjoint one.\<close>

definition unnest_inv ::
  "hypergraph \<Rightarrow> ('c, 'm) dphyp_state \<Rightarrow> relation_set set \<Rightarrow> relation_set \<times> ('c, 'm) dphyp_state \<Rightarrow> bool" where
  "unnest_inv h s others g \<longleftrightarrow> good h s (snd g) \<and> fragment_ok h (fst g) \<and> (\<forall>T\<in>others. ids (fst g) \<inter> ids T = {})"

lemma unnest_step_inv:
  assumes graph: "dphyp_graph (graph P)" and i: "i < length (edges (graph P))"
    and others: "\<forall>T\<in>others. fragment_ok (graph P) T"
    and g: "unnest_inv (graph P) s others (S, u)"
    and r: "unnest_step P i (S, u, b) = (S', v, b')"
  shows "unnest_inv (graph P) s others (S', v)"
proof -
  let ?h = "graph P" and ?e = "edges (graph P) ! i"
  show ?thesis
  proof (cases "\<not> isUnnest ?e \<or> \<not> rs_isSubset (leftEligibility ?e) S \<or> rs_isSubset (rightEligibility ?e) S")
    case True
    then show ?thesis using r g by (auto simp: unnest_step_def Let_def)
  next
    case False
    let ?T = "rs_unionSet S (rightEligibility ?e)"
    note eo = dphyp_graph_edges [OF graph]
    obtain x where x: "ids (rightEligibility ?e) = {x}" using unnest_once_edge(2) [OF _ i] eo False by blast
    have left: "ids (leftEligibility ?e) \<subseteq> ids S" "x \<notin> ids S" using False x by (auto simp: set_abs)
    have "edge_ok ?e" using eo i by simp
    then have nonempty: "ids (leftEligibility ?e) \<noteq> {}" by (auto simp: edge_ok_def)
    have "good ?h u (emitUnnest P S i ?T [] u)"
      using eo i False left x by (intro good_emitUnnest) (auto simp: filters_ok_def)
    moreover have v: "v = emitUnnest P S i ?T [] u" "S' = S \<or> S' = ?T"
      using r False by (clarsimp simp: unnest_step_def Let_def split: if_splits)+
    moreover have "good ?h s u" using g by (simp add: unnest_inv_def)
    ultimately have 1: "good ?h s v" by (blast intro: good_trans)
    note S' = v(2)
    have "fragment_ok ?h ?T"
      unfolding fragment_ok_def
    proof (intro ballI impI, elim conjE)
      fix e assume e: "e \<in> set (edges ?h)" "isUnnest e" "ids (rightEligibility e) \<inter> ids ?T \<noteq> {}"
      show "ids (leftEligibility e) \<subseteq> ids ?T"
      proof (cases "ids (rightEligibility e) \<inter> ids S = {}")
        case True
        then have "ids (rightEligibility e) \<inter> ids (rightEligibility ?e) \<noteq> {}" using e(3) by (auto simp: set_abs)
        then have "leftEligibility e = leftEligibility ?e"
          using False eo by (intro unnest_right_unique [OF _ i _ e(1,2)]) auto
        then show ?thesis using left(1) by (auto simp: set_abs)
      next
        case False
        then show ?thesis using g e by (auto simp: unnest_inv_def fragment_ok_def set_abs)
      qed
    qed
    then have 2: "fragment_ok ?h S'" using S' g by (auto simp: unnest_inv_def)
    have "ids ?T \<inter> ids T = {}" if T: "T \<in> others" for T
    proof -
      have d: "ids S \<inter> ids T = {}" using g T by (simp add: unnest_inv_def)
      have "x \<notin> ids T"
      proof
        assume "x \<in> ids T"
        then have "ids (leftEligibility ?e) \<subseteq> ids T"
          using bspec [OF others T] nth_mem [OF i] False x by (auto simp: fragment_ok_def)
        then show False using left(1) nonempty d by blast
      qed
      then show ?thesis using d x by (auto simp: set_abs)
    qed
    then show ?thesis using 1 2 S' g by (auto simp: unnest_inv_def)
  qed
qed

lemma unnest_pass_inv:
  assumes graph: "dphyp_graph (graph P)" and "\<forall>T\<in>others. fragment_ok (graph P) T"
    and "\<forall>i\<in>set is. i < length (edges (graph P))"
    and "unnest_inv (graph P) s others (S, u)" and "fold (unnest_step P) is (S, u, b) = (S', v, b')"
  shows "unnest_inv (graph P) s others (S', v)"
  using assms(3-)
proof (induction "is" arbitrary: S u b)
  case (Cons i is')
  obtain S1 u1 b1 where 1: "unnest_step P i (S, u, b) = (S1, u1, b1)" by (cases "unnest_step P i (S, u, b)")
  have "unnest_inv (graph P) s others (S1, u1)"
    using Cons.prems by (intro unnest_step_inv [OF graph _ assms(2) _ 1]) auto
  then show ?case using Cons.IH Cons.prems 1 by simp
qed simp

lemma expandThroughUnnests_inv:
  assumes "dphyp_graph (graph P)" and "\<forall>T\<in>others. fragment_ok (graph P) T"
    and "unnest_inv (graph P) s others (S, u)"
  shows "unnest_inv (graph P) s others (expandThroughUnnests P S u)"
  using assms
proof (induction P S u rule: expandThroughUnnests.induct)
  case (1 P S u)
  obtain S1 u1 b1 where f: "fold (unnest_step P) [0..<length (edges (graph P))] (S, u, False) = (S1, u1, b1)"
    by (cases "fold (unnest_step P) [0..<length (edges (graph P))] (S, u, False)")
  have "unnest_inv (graph P) s others (S1, u1)"
    by (rule unnest_pass_inv [OF "1.prems"(1,2) _ "1.prems"(3) f]) auto
  then show ?case using "1.IH" "1.prems" f by (subst expandThroughUnnests.simps) (auto simp: Let_def)
qed

lemma merge_fragments_ok:
  assumes ok: "fragments_ok h fs" and ij: "i < j" "j < length fs"
  shows "fragments_ok h (merge_fragments fs i j (rs_unionSet (fs ! i) (fs ! j)))"
proof -
  let ?c = "rs_unionSet (fs ! i) (fs ! j)"
  let ?gs = "merge_fragments fs i j ?c"
  let ?pos = "\<lambda>k. if k < j then k else Suc k"
  have len: "length ?gs = length fs - 1" using ij by (simp add: merge_fragments_def Let_def)
  have at: "?gs ! k = (if k = i then ?c else fs ! ?pos k)" if "k < length ?gs" for k
    using ij that by (auto simp: merge_fragments_def Let_def nth_append nth_list_update)
  have disj: "ids (fs ! a) \<inter> ids (fs ! b) = {}" if "a \<noteq> b" "a < length fs" "b < length fs" for a b
    using ok that unfolding fragments_ok_def sorted_wrt_iff_nth_less by (metis Int_commute nat_neq_iff)
  have each: "fragment_ok h (fs ! a)" if "a < length fs" for a
    using ok that by (simp add: fragments_ok_def)
  have merged: "fragment_ok h ?c"
    using each [of i] each [of j] ij by (simp add: fragment_ok_def set_abs) blast
  have "fragment_ok h (?gs ! k)" if "k < length ?gs" for k
    using at [OF that] that merged ij len each [of "?pos k"] by (auto split: if_splits)
  then have all: "\<forall>S\<in>set ?gs. fragment_ok h S" by (auto simp: in_set_conv_nth)
  have "ids (?gs ! k) \<inter> ids (?gs ! l) = {}" if "k < l" "l < length ?gs" for k l
  proof -
    have kl: "?pos k < length fs" "?pos l < length fs" "?pos k \<noteq> ?pos l" "?pos k \<noteq> j" "?pos l \<noteq> j"
      using that len ij by auto
    show ?thesis
      using at [of k] at [of l] that kl ij disj [of i "?pos k"] disj [of i "?pos l"] disj [of j "?pos k"]
        disj [of j "?pos l"] disj [of "?pos k" "?pos l"]
      by (auto simp: set_abs split: if_splits)
  qed
  then show ?thesis using all by (simp add: fragments_ok_def sorted_wrt_iff_nth_less)
qed

lemma expandOneFragment_inv:
  assumes graph: "dphyp_graph (graph P)" and run: "expandOneFragment P fs s = (grew, gs, t)"
    and ok: "fragments_ok (graph P) fs" "\<forall>S\<in>set fs. \<forall>T\<in>others. ids S \<inter> ids T = {}"
      "\<forall>T\<in>others. fragment_ok (graph P) T"
  shows "good (graph P) s t \<and> fragments_ok (graph P) gs \<and> (\<forall>S\<in>set gs. \<forall>T\<in>others. ids S \<inter> ids T = {})"
  using run ok
proof (induction fs arbitrary: s grew gs t others)
  case (Cons f fs)
  let ?h = "graph P"
  obtain e u where e: "expandThroughUnnests P f s = (e, u)" by fastforce
  have f: "fragment_ok ?h f" "fragments_ok ?h fs" "\<forall>T\<in>set fs. ids f \<inter> ids T = {}"
    using Cons.prems(2) by (auto simp: fragments_ok_def)
  have "unnest_inv ?h s (others \<union> set fs) (expandThroughUnnests P f s)"
    using Cons.prems(2-4) f
    by (intro expandThroughUnnests_inv [OF graph]) (auto simp: unnest_inv_def fragments_ok_def)
  then have inv: "good ?h s u" "fragment_ok ?h e" "\<forall>T\<in>others \<union> set fs. ids e \<inter> ids T = {}"
    by (auto simp: e unnest_inv_def)
  have rest: "good ?h v t \<and> fragments_ok ?h gs \<and> (\<forall>S\<in>set gs. \<forall>T\<in>others. ids S \<inter> ids T = {})"
    if r: "(let (grew, fs', w) = expandOneFragment P fs v in (grew, f # fs', w)) = (grew, gs, t)" for v
  proof -
    obtain gs' where gs: "expandOneFragment P fs v = (grew, gs', t)" "gs = f # gs'"
      using r by (auto split: prod.splits)
    have "good ?h v t \<and> fragments_ok ?h gs' \<and> (\<forall>S\<in>set gs'. \<forall>T\<in>insert f others. ids S \<inter> ids T = {})"
      using Cons.prems f by (intro Cons.IH [OF gs(1)]) (auto simp: fragments_ok_def)
    then show ?thesis using Cons.prems f gs(2) by (auto simp: fragments_ok_def)
  qed
  show ?case
  proof (cases "rs_empty (expandableRelations ?h f) \<or>
      \<not> list_ex (edge_waits (rs_unionSet f (expandableRelations ?h f)) (expandableRelations ?h f)) (edges ?h)")
    case True
    then show ?thesis
      using Cons.prems(1) by (intro rest) (cases "rs_empty (expandableRelations ?h f)"; simp add: Let_def)
  next
    case False
    show ?thesis
    proof (cases "e = f")
      case True
      then have "good ?h u t \<and> fragments_ok ?h gs \<and> (\<forall>S\<in>set gs. \<forall>T\<in>others. ids S \<inter> ids T = {})"
        using Cons.prems(1) False e by (intro rest) (simp add: Let_def)
      then show ?thesis using inv(1) by (blast intro: good_trans)
    next
      case neq: False
      then have "gs = e # fs" "t = u" using Cons.prems(1) False e by (auto simp: Let_def)
      then show ?thesis using inv f(2) Cons.prems(3) by (auto simp: fragments_ok_def)
    qed
  qed
qed auto

definition best_ok :: "hypergraph \<Rightarrow> ('c, 'm) dphyp_state \<Rightarrow> relation_set list \<Rightarrow>
   'c greedy_best \<times> ('c, 'm) dphyp_state \<Rightarrow> bool" where
  "best_ok h s fs b \<longleftrightarrow> good h s (snd b) \<and>
     (\<forall>n i j c. fst b = Some (n, i, j, c) \<longrightarrow> i < j \<and> j < length fs \<and> c = rs_unionSet (fs ! i) (fs ! j))"

lemma greedy_scan_ok:
  assumes graph: "dphyp_graph (graph P)" and memo: "memo_ok (graph P) (memo s)"
    and ok: "fragments_ok (graph P) fs" and run: "greedy_scan P fs s = Inr b"
  shows "best_ok (graph P) s fs b"
proof (rule fold_res_invariant [OF run [unfolded greedy_scan_def]])
  show "best_ok (graph P) s fs (None, s)" by (simp add: best_ok_def)
next
  fix ij a c
  assume ij: "ij \<in> set (index_pairs (length fs))" and a: "best_ok (graph P) s fs a" and c: "greedy_pair P fs ij a = Inr c"
  obtain i j where p: "ij = (i, j)" "i < j" "j < length fs" using ij by (auto simp: index_pairs_def)
  obtain best u where u: "a = (best, u)" by fastforce
  obtain v where v: "emitCsgCmp P (fs ! i) (fs ! j) u = Inr v"
    using c by (auto simp: greedy_pair_def p u Let_def bind_res_Inr_iff)
  have "ids (fs ! i) \<inter> ids (fs ! j) = {}" using ok p by (simp add: fragments_ok_def sorted_wrt_iff_nth_less)
  then have "good (graph P) u v"
    using a memo u by (intro good_emitCsgCmp [OF graph _ _ v]) (auto simp: best_ok_def good_def)
  moreover have "good (graph P) s u" using a u by (simp add: best_ok_def)
  ultimately have g: "good (graph P) s v" by (blast intro: good_trans)
  have "snd c = v \<and> (fst c = best \<or> (\<exists>n. fst c = Some (n, i, j, rs_unionSet (fs ! i) (fs ! j))))"
    using c v by (auto simp: greedy_pair_def p u Let_def split: option.splits if_splits)
  then show "best_ok (graph P) s fs c" using a g p u by (auto simp: best_ok_def)
qed

lemma greedy_loop_ok:
  assumes "dphyp_graph (graph P)" and "memo_ok (graph P) (memo s)" and "fragments_ok (graph P) fs"
    and "greedy_loop P fs s = Inr (result, t)"
  shows "memo_ok (graph P) (memo t) \<and> (\<forall>gs. result = Some gs \<longrightarrow> fragments_ok (graph P) gs)"
  using assms
proof (induction P fs s arbitrary: result t rule: greedy_loop.induct)
  case (1 P fs s)
  show ?case
  proof (cases "length fs \<le> 1")
    case True
    then show ?thesis using "1.prems" by (subst (asm) greedy_loop.simps) auto
  next
    case False
    obtain best u where b: "greedy_scan P fs s = Inr (best, u)"
      using "1.prems"(4) False by (subst (asm) greedy_loop.simps) (auto simp: bind_res_Inr_iff)
    have ok: "best_ok (graph P) s fs (best, u)" by (rule greedy_scan_ok [OF "1.prems"(1-3) b])
    have mu: "memo_ok (graph P) (memo u)" using ok "1.prems"(2) by (simp add: best_ok_def good_def)
    show ?thesis
    proof (cases best)
      case None
      obtain grew gs v where e: "expandOneFragment P fs u = (grew, gs, v)" by (cases "expandOneFragment P fs u") auto
      have "good (graph P) u v \<and> fragments_ok (graph P) gs"
        using expandOneFragment_inv [OF "1.prems"(1) e "1.prems"(3), of "{}"] by simp
      then have v: "memo_ok (graph P) (memo v)" "fragments_ok (graph P) gs" using mu by (auto simp: good_def)
      show ?thesis
        using "1.prems"(1,4) False b None e v "1.IH"(1) [OF False b]
        by (subst (asm) greedy_loop.simps) (auto split: if_splits)
    next
      case (Some x)
      obtain n i j c where x: "x = (n, i, j, c)" by (cases x)
      have "fragments_ok (graph P) (merge_fragments fs i j c)"
        using ok "1.prems"(3) by (auto simp: best_ok_def Some x intro: merge_fragments_ok)
      moreover have "greedy_loop P (merge_fragments fs i j c) u = Inr (result, t)"
        using "1.prems"(4) False b Some x by (subst (asm) greedy_loop.simps) auto
      ultimately show ?thesis using "1.prems"(1) mu "1.IH"(2) [OF False b] Some x by auto
    qed
  qed
qed

lemma greedy_ok:
  assumes graph: "dphyp_graph (graph P)" and memo: "memo_ok (graph P) (memo s)"
    and comp: "ids C \<subseteq> ids (relationIds (graph P))" and run: "greedy P C s = Inr (plan, t)"
  shows "memo_ok (graph P) (memo t) \<and> (\<forall>p. plan = Some p \<longrightarrow> plan_ok (graph P) p \<and> cover p = C)"
proof -
  let ?h = "graph P" and ?s0 = "budget_disable s"
  let ?s1 = "initLeaves P C ?s0"
  let ?fs = "map singleton (filter (\<lambda>i. \<not> rs_contains (expandedRelationIds ?h) i) (visit (bits C)))"
  have "good ?h ?s0 ?s1" using comp dphyp_graph_relations [OF graph] by (intro good_initLeaves) simp
  then have m1: "memo_ok ?h (memo ?s1)" using memo by (simp add: good_def budget_disable_def)
  show ?thesis
  proof (cases "list_all (greedy_known P ?s1) (visit (bits C))")
    case False
    then show ?thesis using run m1 by (simp add: greedy_def Let_def)
  next
    case True
    then obtain found u where l: "greedy_loop P ?fs ?s1 = Inr (found, u)"
      using run by (auto simp: greedy_def Let_def bind_res_Inr_iff)
    have graph_expanded: "ids (expandedRelationIds ?h) = (\<Union>e\<in>{e \<in> set (edges ?h). isUnnest e}. ids (rightEligibility e))"
      using graph by (auto simp: dphyp_graph_def graph_ok_def unnest_once_def)
    have "fragments_ok ?h ?fs"
    proof -
      have vis: "sorted_wrt (<) (visit (bits C))" "\<forall>i\<in>set (visit (bits C)). i < 64"
        by (auto simp: sorted_visit set_visit dest: bit_u64_less)
      have "sorted_wrt (<) (filter q (visit (bits C)))" for q using vis(1) by (rule sorted_wrt_filter)
      then have "sorted_wrt (\<lambda>S T. ids S \<inter> ids T = {}) ?fs"
        unfolding sorted_wrt_map
        by (rule sorted_wrt_mono_rel [rotated]) (use vis(2) in \<open>auto simp: set_abs\<close>)
      moreover have "fragment_ok ?h S" if "S \<in> set ?fs" for S
        using that vis(2) graph_expanded by (auto simp: fragment_ok_def set_abs)
      ultimately show ?thesis by (simp add: fragments_ok_def)
    qed
    note lo = greedy_loop_ok [OF graph m1 this l]
    show ?thesis
    proof (cases found)
      case None
      then show ?thesis using run True l lo by (auto simp: greedy_def Let_def)
    next
      case (Some fs)
      obtain S v where e: "expandThroughUnnests P (hd fs) u = (S, v)" by fastforce
      have rt: "length fs = 1" "plan = cheapestPlan P C v" "t = v"
        using run True l Some e by (auto simp: greedy_def Let_def)
      then have "fragment_ok ?h (hd fs)" using lo Some by (cases fs) (auto simp: fragments_ok_def)
      then have "unnest_inv ?h u {} (expandThroughUnnests P (hd fs) u)"
        by (intro expandThroughUnnests_inv [OF graph]) (auto simp: unnest_inv_def)
      then have "memo_ok ?h (memo v)" using lo e by (simp add: unnest_inv_def good_def)
      then show ?thesis using rt cheapestPlan_ok [of P C v] by auto
    qed
  qed
qed

section \<open>The plans the enumerator returns\<close>

lemma start_memo [simp]: "memo (start P s) = Map.empty"
  by (simp add: start_def)

lemma memo_ok_empty [simp]: "memo_ok h Map.empty"
  by (simp add: memo_ok_def)

lemma ids_all_relations:
  assumes "dphyp_graph h"
  shows "fold (\<lambda>r S. rs_add S (rel_id r)) (relations h) rs_empty_set = relationIds h"
proof (rule rs_eqI)
  have *: "ids (fold (\<lambda>r S. rs_add S (rel_id r)) rs S) = ids S \<union> rel_id ` set rs"
    if "\<forall>r\<in>set rs. rel_id r < 64" for rs S
    using that by (induction rs arbitrary: S) (auto simp: set_abs)
  note r = dphyp_graph_relations [OF assms]
  have "rel_id ` set (relations h) = {..<length (relations h)}"
    using r by (auto simp: in_set_conv_nth image_iff) (metis nth_mem)
  then show "ids (fold (\<lambda>r S. rs_add S (rel_id r)) (relations h) rs_empty_set) = ids (relationIds h)"
    using r by (subst *) (auto simp: set_abs in_set_conv_nth)
qed

lemma solve_component:
  assumes "dphyp_graph h" and "relations h \<noteq> []"
  shows "prefixThrough (rel_id (last (relations h))) = relationIds h"
proof (rule rs_eqI)
  note r = dphyp_graph_relations [OF assms(1)]
  have "rel_id (last (relations h)) = length (relations h) - 1"
    using r assms(2) by (simp add: last_conv_nth)
  then show "ids (prefixThrough (rel_id (last (relations h)))) = ids (relationIds h)"
    using r assms(2) by (cases "length (relations h)") (auto simp: set_abs)
qed

lemma dphyp_plan_ok:
  assumes graph: "dphyp_graph (graph P)" and "relations (graph P) \<noteq> []"
    and run: "dphyp_enumerate P s = Inr (Some p, t)"
  shows "plan_ok (graph P) p \<and> cover p = relationIds (graph P) \<and>
    checkEdgesEnforced (graph P) (collectAppliedEdges p []) = Some (Inr ())"
proof -
  let ?h = "graph P"
  note all = ids_all_relations [OF graph]
  obtain exceeded u where sv: "solve P (start P s) = Inr (exceeded, u)"
    using run by (auto simp: dphyp_enumerate_def bind_res_Inr_iff)
  have mu: "memo_ok ?h (memo u)"
    using sv solve_component [OF assms(1,2)]
    by (intro solveComponent_ok [OF graph _ _ sv [unfolded solve_def]]) simp_all
  have enforced: "check_plan ?h (Some q) = Inr w \<Longrightarrow> checkEdgesEnforced ?h (collectAppliedEdges q []) = Some (Inr ())" for q w
    by (auto simp: check_plan_def check_enforced_def split: option.splits sum.splits)
  show ?thesis
  proof (cases exceeded)
    case True
    then obtain v w where g: "greedy P (relationIds ?h) (u\<lparr>memo := Map.empty\<rparr>) = Inr (Some p, v)"
      and c: "check_plan ?h (Some p) = Inr w"
      using run sv by (auto simp: dphyp_enumerate_def all bind_res_Inr_iff)
    show ?thesis using greedy_ok [OF graph _ _ g] enforced [OF c] by simp
  next
    case False
    then obtain plans w where m: "memo u (relationIds ?h) = Some plans" "cheapest (joinTypeCode P) plans = Some p"
      and c: "check_plan ?h (Some p) = Inr w"
      using run sv by (auto simp: dphyp_enumerate_def all bind_res_Inr_iff Let_def split: option.splits)
    show ?thesis using memo_ok_plan [OF mu m(1) cheapest_member [OF m(2)]] enforced [OF c] by simp
  qed
qed

lemma component_roots_ok:
  assumes "dphyp_graph (graph P)" and "memo_ok (graph P) (memo s)"
    and "\<forall>C\<in>set components. ids C \<subseteq> ids (relationIds (graph P))"
    and "component_roots P components roots s = Inr (Some plans, t)"
  shows "\<exists>new. plans = roots @ new \<and> map cover new = components \<and> list_all (plan_ok (graph P)) new"
  using assms(2-)
proof (induction components arbitrary: roots s)
  case (Cons C components)
  obtain exceeded u where u: "solveComponent P C s = Inr (exceeded, u)"
    using Cons.prems(3) by (auto simp: bind_res_Inr_iff)
  have mu: "memo_ok (graph P) (memo u)" using Cons.prems by (intro solveComponent_ok [OF assms(1) _ _ u]) auto
  obtain found v where v: "(if exceeded then greedy P C u else Inr (cheapestPlan P C u, u)) = Inr (found, v)"
    and rest: "(case found of None \<Rightarrow> Inr (None, v) | Some p \<Rightarrow> component_roots P components (roots @ [p]) v) = Inr (Some plans, t)"
    using Cons.prems(3) u by (auto simp: bind_res_Inr_iff)
  have found: "memo_ok (graph P) (memo v) \<and> (\<forall>p. found = Some p \<longrightarrow> plan_ok (graph P) p \<and> cover p = C)"
  proof (cases exceeded)
    case True
    then show ?thesis using v Cons.prems(2) by (intro greedy_ok [OF assms(1) mu]) auto
  next
    case False
    then have v: "found = cheapestPlan P C u" "v = u" using v by auto
    then show ?thesis using mu cheapestPlan_ok [of P C u] by auto
  qed
  obtain p where p: "found = Some p" using rest by (cases found) auto
  have "\<exists>new. plans = (roots @ [p]) @ new \<and> map cover new = components \<and> list_all (plan_ok (graph P)) new"
    using Cons.prems(2) rest found p by (intro Cons.IH [of v]) auto
  then obtain new where "plans = roots @ p # new" "map cover new = components" "list_all (plan_ok (graph P)) new"
    by auto
  then show ?case using found p by (intro exI [of _ "p # new"]) simp
qed auto

section \<open>An instance\<close>

text \<open>Equations that let the simplifier run the enumerator on a concrete graph.\<close>

declare chase.simps [code] compress.simps [code]

lemma present_classes_code [code_unfold]:
  "{c. List.member xs (Some c)} = set (concat (map (case_option [] (\<lambda>c. [c])) xs))"
  by (auto split: option.splits)

definition two_way_planner :: "int \<Rightarrow> int \<Rightarrow> (nat, unit) planner" where
  "two_way_planner workers cap = \<lparr>graph = two_way_join,
     costOf = (\<lambda>p m. (\<lparr>cost = Some (length (plan_relations p)), cardinality = Some 1\<rparr>, ())),
     shuffleCostOf = (\<lambda>_. Some 1), broadcastCostOf = (\<lambda>_ n. Some (nat n)), fitsBroadcast = (\<lambda>_. True),
     addCost = (+), joinTypeCode = (\<lambda>_. 0), relationPartitioning = (\<lambda>_. p_unspecified KGlobal),
     groupedPartitioning = (\<lambda>_. p_unspecified KGlobal), readsLoopState = (\<lambda>_. False),
     exprOps = \<lparr>columnsOf = (\<lambda>e. {e}), equivalentColumns = (\<lambda>e. [e]), sameOrEqual = (=),
       typeOf = (\<lambda>_. ColumnType (OtherKind 0) False []), nonDefaultNullBehavior = (\<lambda>_. False),
       substitute = (\<lambda>e _ _. e), canonicalizeCoalesce = (\<lambda>a _. a), numPartitions = (\<lambda>_. 0),
       copartitionedType = (\<lambda>_ _. None)\<rparr>,
     numWorkers = workers, hashStageTasks = workers, budgetCap = cap\<rparr>"

abbreviation two_way_run :: "int \<Rightarrow> int \<Rightarrow> dphyp_error + nat memo_op option \<times> (nat, unit) dphyp_state" where
  "two_way_run workers cap \<equiv>
     dphyp_enumerate (two_way_planner workers cap) (initial_state (two_way_planner workers cap) ())"

text \<open>The exhaustive search on four workers, and the greedy ordering when one pair is all the budget allows.\<close>

lemma two_way_exhaustive:
  "map_sum id (map_option cover \<circ> fst) (two_way_run 4 0) = Inr (Some (RelationSet 3))"
  by code_simp

lemma two_way_greedy:
  "map_sum id (map_option cover \<circ> fst) (two_way_run 4 1) = Inr (Some (RelationSet 3))"
  by code_simp

abbreviation two_way_components :: "dphyp_error + nat memo_op list \<times> (nat, unit) dphyp_state" where
  "two_way_components \<equiv> dphyp_enumerate_components (two_way_planner 1 0) [RelationSet 3]
     (initial_state (two_way_planner 1 0) ())"

lemma two_way_components_run: "map_sum id (map cover \<circ> fst) two_way_components = Inr [RelationSet 3]"
  by code_simp

lemma two_way_graph: "dphyp_graph (graph (two_way_planner workers cap))" "relations two_way_join \<noteq> []"
  using built_graph_ok [OF built_two_way_join]
  by (simp_all add: dphyp_graph_def two_way_planner_def unnest_once_def) (simp add: two_way_join_def)

lemma two_way_graph_eq [simp]: "graph (two_way_planner workers cap) = two_way_join"
  by (simp add: two_way_planner_def)

section \<open>Properties\<close>

text \<open>
  C1: the plan \<^verbatim>\<open>DPhyp::enumerate\<close> returns, whether the exhaustive search found it or the greedy
  ordering that takes over when the budget is spent, is a plan of the query: it reads every
  relation of the graph exactly once; each join step applies edges that cross between its two
  disjoint inputs, in an orientation and with a join type the edge has; each Unnest expands rows
  of an input that holds the columns it reads; edges applied beside the main one may be filters;
  and the edges applied enforce every edge of the graph. This holds for every cost model, number
  of workers and budget.
\<close>

theorem dphyp_plans_valid:
  assumes "dphyp_graph (graph P)" and "relations (graph P) \<noteq> []"
    and "dphyp_enumerate P s = Inr (Some p, t)"
  shows "plan_ok (graph P) p \<and> distinct (plan_relations p) \<and>
    set (plan_relations p) = {..<length (relations (graph P))} \<and>
    checkEdgesEnforced (graph P) (collectAppliedEdges p []) = Some (Inr ())"
  using dphyp_plan_ok [OF assms] plan_reads_cover_once dphyp_graph_relations [OF assms(1)] by metis

theorem dphyp_plans_valid_witness:
  "\<exists>p t. two_way_run 4 1 = Inr (Some p, t) \<and> plan_ok two_way_join p \<and> set (plan_relations p) = {0, 1}"
proof -
  obtain p t where run: "two_way_run 4 1 = Inr (Some p, t)"
    using two_way_greedy by (cases "two_way_run 4 1") auto
  note valid = dphyp_plans_valid [OF two_way_graph(1) _ run]
  have "{..<2} = {0, 1 :: nat}" by auto
  then show ?thesis using run valid two_way_graph(2) by auto
qed

text \<open>
  C21: for a graph of several components \<^verbatim>\<open>DPhyp::enumerate(components)\<close> returns no roots at all or
  one plan per component, in the order of the components, each a plan of exactly its component's
  relations, and the plans together apply or enforce every edge of the graph.
\<close>

theorem dphyp_components_valid:
  assumes "dphyp_graph (graph P)" and "\<forall>C\<in>set components. ids C \<subseteq> ids (relationIds (graph P))"
    and "dphyp_enumerate_components P components s = Inr (roots, t)"
  shows "roots = [] \<or> (map cover roots = components \<and> list_all (plan_ok (graph P)) roots \<and>
    checkEdgesEnforced (graph P) (fold collectAppliedEdges roots []) = Some (Inr ()))"
proof (cases "roots = []")
  case False
  obtain u where u: "component_roots P components [] (start P s) = Inr (Some roots, u)"
    and enf: "check_enforced (graph P) (fold collectAppliedEdges roots []) = Inr ()"
    using assms(3) False by (auto simp: dphyp_enumerate_components_def bind_res_Inr_iff split: option.splits)
  have "map cover roots = components \<and> list_all (plan_ok (graph P)) roots"
    using component_roots_ok [OF assms(1) _ assms(2) u] by simp
  moreover have "checkEdgesEnforced (graph P) (fold collectAppliedEdges roots []) = Some (Inr ())"
    using enf by (auto simp: check_enforced_def split: option.splits sum.splits)
  ultimately show ?thesis by blast
qed simp

theorem dphyp_components_valid_witness:
  "\<exists>p t. two_way_components = Inr ([p], t) \<and> plan_ok two_way_join p \<and> cover p = RelationSet 3"
proof -
  obtain roots t where run: "two_way_components = Inr (roots, t)" "map cover roots = [RelationSet 3]"
    using two_way_components_run by (cases two_way_components) auto
  have "\<forall>C\<in>set [RelationSet 3]. ids C \<subseteq> ids (relationIds (graph (two_way_planner 1 0)))" by simp
  note valid = dphyp_components_valid [OF two_way_graph(1) this run(1)]
  show ?thesis using run valid by (cases roots) auto
qed

end
