(* ===== verification/DPhyp_Complete.thy ===== *)
theory DPhyp_Complete
  imports DPhyp_Enumeration
begin

text \<open>
  The exhaustive search misses nothing. On a graph of plain inner edges between two relations,
  with one worker, no budget and a cost model that always answers, it succeeds and holds a plan
  for every connected set of relations.
\<close>

section \<open>Subsets of the neighbours\<close>

lemma submask_step:
  fixes V W N :: nat
  shows "W > 0 \<Longrightarrow> W AND N = W \<Longrightarrow> V AND N = V \<Longrightarrow> V < W \<Longrightarrow> V \<le> (W - 1) AND N"
proof (induction W arbitrary: V N rule: less_induct)
  case (less W)
  have half: "(A AND B) div 2 = A div 2 AND B div 2" for A B :: nat
    using drop_bit_and [of 1 A B] by (simp add: drop_bit_eq_div)
  have w: "W div 2 AND N div 2 = W div 2" "odd W \<Longrightarrow> odd N"
    using half [of W N] less.prems(2) even_and_iff [of W N] by simp_all
  have v: "V div 2 AND N div 2 = V div 2" "odd V \<Longrightarrow> odd N"
    using half [of V N] less.prems(3) even_and_iff [of V N] by simp_all
  show ?case
  proof (cases "odd W")
    case True
    then have "(W - 1) div 2 = W div 2" "even (W - 1)" by presburger+
    then have "(W - 1) AND N = 2 * (W div 2)" using w True by (simp add: and_rec [of "W - Suc 0" N])
    then show ?thesis using True less.prems(4) by presburger
  next
    case False
    then have W: "W div 2 > 0" "W div 2 < W" "(W - 1) div 2 = W div 2 - 1" "odd (W - 1)"
      using less.prems(1) by presburger+
    have "V div 2 < W div 2" using less.prems(4) False by presburger
    then have "V div 2 \<le> (W div 2 - 1) AND N div 2"
      using less.IH [OF W(2,1) w(1) v(1)] by simp
    moreover have "(W - 1) AND N = of_bool (odd N) + 2 * ((W div 2 - 1) AND N div 2)"
      using W by (simp add: and_rec [of "W - Suc 0" N])
    moreover have "V = V mod 2 + 2 * (V div 2)" by simp
    moreover have "V mod 2 \<le> of_bool (odd N)"
      using v(2) by (cases "odd V") (simp_all add: odd_iff_mod_2_eq_one)
    ultimately show ?thesis by linarith
  qed
qed

lemma subset_loop_complete:
  "w AND n = w \<Longrightarrow> v AND n = v \<Longrightarrow> v \<le> w \<Longrightarrow> v \<noteq> 0 \<Longrightarrow> v \<in> set (subset_loop n w)"
proof (induction n w rule: subset_loop.induct)
  case (1 n w)
  have "w \<noteq> 0" using "1.prems" by auto
  show ?case
  proof (cases "v = w")
    case True
    then show ?thesis using \<open>w \<noteq> 0\<close> by (subst subset_loop.simps) simp
  next
    case False
    then have lt: "unat v < unat w" using "1.prems"(3) by (simp add: word_le_nat_alt word_less_nat_alt le_less unat_arith_simps)
    have "unat v \<le> (unat w - 1) AND unat n"
      using submask_step [of "unat w" "unat n" "unat v"] "1.prems"(1,2) lt
      by (metis gr_zeroI less_nat_zero_code unsigned_and_eq)
    moreover have "unat (w - 1) = unat w - 1" using \<open>w \<noteq> 0\<close> by (simp add: unat_minus_one)
    ultimately have "v \<le> (w - 1) AND n" by (simp add: word_le_nat_alt unsigned_and_eq)
    moreover have "((w - 1) AND n) AND n = (w - 1) AND n" by (simp add: and.assoc)
    ultimately have "v \<in> set (subset_loop n ((w - 1) AND n))"
      using "1.IH" \<open>w \<noteq> 0\<close> "1.prems"(2,4) by simp
    then show ?thesis using \<open>w \<noteq> 0\<close> by (subst subset_loop.simps) simp
  qed
qed

lemma subset_loop_nonzero: "w \<in> set (subset_loop n v) \<Longrightarrow> w \<noteq> 0"
proof (induction n v rule: subset_loop.induct)
  case (1 n v)
  then show ?case by (subst (asm) (2) subset_loop.simps) (auto split: if_splits)
qed

lemma set_subsetsBySize:
  "w \<in> set (subsetsBySize n) \<longleftrightarrow> w \<noteq> 0 \<and> w AND n = w"
proof
  assume w: "w \<in> set (subsetsBySize n)"
  then have "w AND n = w" by (intro bit_eqI) (auto simp: bit_and_iff dest: subsetsBySize_bits)
  then show "w \<noteq> 0 \<and> w AND n = w" using w subset_loop_nonzero by (auto simp: subsetsBySize_def)
next
  assume w: "w \<noteq> 0 \<and> w AND n = w"
  then have "w \<le> n" by (metis word_and_le1)
  then show "w \<in> set (subsetsBySize n)"
    using w subset_loop_complete [of n n w] by (simp add: subsetsBySize_def)
qed

lemma subsetsBySize_order:
  assumes "subsetsBySize n = us @ w # vs" and "v \<in> set (subsetsBySize n)" and "popcount v < popcount w"
  shows "v \<in> set us"
proof -
  have "sorted (map (\<lambda>w. (popcount w, w)) (subsetsBySize n))"
    unfolding subsetsBySize_def by (rule sorted_sort_key)
  then have "sorted (map (\<lambda>w. (popcount w, w)) (us @ w # vs))" unfolding assms(1) .
  then have "\<forall>x\<in>set vs. (popcount w, w) \<le> (popcount x, x)" by (simp add: sorted_append)
  then have "\<forall>x\<in>set vs. popcount w \<le> popcount x" by (fastforce simp: less_eq_prod_def)
  then have "v \<notin> set (w # vs)" using assms(3) by auto
  then show ?thesis using assms(1,2) by auto
qed

section \<open>Simple graphs\<close>

text \<open>Plain inner edges between two relations each.\<close>

definition simple_graph :: "hypergraph \<Rightarrow> bool" where
  "simple_graph h \<longleftrightarrow> dphyp_graph h \<and>
     (\<forall>e\<in>set (edges h). filterable e \<and> rs_size (leftEligibility e) = 1 \<and> rs_size (rightEligibility e) = 1)"

definition adjacent :: "hypergraph \<Rightarrow> nat \<Rightarrow> nat \<Rightarrow> bool" where
  "adjacent h u v \<longleftrightarrow> (\<exists>e\<in>set (edges h).
     ids (leftEligibility e) = {u} \<and> ids (rightEligibility e) = {v} \<or>
     ids (leftEligibility e) = {v} \<and> ids (rightEligibility e) = {u})"

lemma adjacent_sym: "adjacent h u v \<longleftrightarrow> adjacent h v u"
  by (auto simp: adjacent_def)

lemma simple_edge:
  assumes "simple_graph h" and "e \<in> set (edges h)"
  obtains u v where "ids (leftEligibility e) = {u}" "ids (rightEligibility e) = {v}" "u \<noteq> v"
    "adjacent h u v" "leftEligibility e = singleton u" "rightEligibility e = singleton v"
proof -
  have "edge_ok e" using assms by (auto simp: simple_graph_def dphyp_graph_def graph_ok_def edge_in_def)
  then have d: "ids (leftEligibility e) \<inter> ids (rightEligibility e) = {}" by (simp add: edge_ok_def)
  have s: "rs_size (leftEligibility e) = 1" "rs_size (rightEligibility e) = 1"
    using assms by (auto simp: simple_graph_def)
  obtain u v where uv: "ids (leftEligibility e) = {u}" "ids (rightEligibility e) = {v}"
    using s by (auto simp: set_abs card_1_singleton_iff)
  have "u < 64" "v < 64" using uv ids_bound by blast+
  then have "leftEligibility e = singleton u" "rightEligibility e = singleton v"
    using uv by (auto intro!: rs_eqI simp: set_abs)
  moreover have "adjacent h u v" using assms(2) uv by (auto simp: adjacent_def)
  ultimately show thesis using that uv d by blast
qed

lemma rs_min_singleton: "i < 64 \<Longrightarrow> rs_min (singleton i) = i"
  by (simp add: set_abs)

lemma neighborhood_simple:
  assumes "simple_graph h"
  shows "ids (neighborhood h S F) = {v. v \<notin> ids S \<and> v \<notin> ids F \<and> (\<exists>u\<in>ids S. adjacent h u v)}"
proof -
  let ?step = "\<lambda>e result. case other_side e S of None \<Rightarrow> result
      | Some other \<Rightarrow> if rs_hasIntersection other F then result else rs_add result (rs_min other)"
  have step: "ids (fold ?step es r) = ids r \<union> {v. v \<notin> ids F \<and> (\<exists>e\<in>set es. other_side e S = Some (singleton v) \<and> v < 64)}"
    if "set es \<subseteq> set (edges h)" for es r
    using that
  proof (induction es arbitrary: r)
    case (Cons e es)
    then have e: "e \<in> set (edges h)" by simp
    obtain u v where uv: "ids (leftEligibility e) = {u}" "ids (rightEligibility e) = {v}"
      "leftEligibility e = singleton u" "rightEligibility e = singleton v"
      using simple_edge [OF assms e] by metis
    have lt: "u < 64" "v < 64" using uv(1,2) ids_bound by blast+
    have other: "other_side e S = None \<or> (\<exists>w. other_side e S = Some (singleton w) \<and> w < 64)"
      using uv lt by (auto simp: other_side_def)
    show ?case
    proof (cases "other_side e S")
      case None
      then show ?thesis using Cons by simp
    next
      case (Some x)
      then obtain w where w: "x = singleton w" "w < 64" using other by auto
      have inj: "singleton a = singleton w \<longleftrightarrow> a = w" if "a < 64" for a
        using ids_singleton [OF that] ids_singleton [OF w(2)] by (metis singleton_inject)
      have "(\<exists>x\<in>set (e # es). other_side x S = Some (singleton v) \<and> v < 64) \<longleftrightarrow>
          v = w \<or> (\<exists>x\<in>set es. other_side x S = Some (singleton v) \<and> v < 64)" for v
        using Some w inj [of v] by auto
      then show ?thesis
        using Cons Some w by (auto simp: set_abs rs_min_singleton)
    qed
  qed simp
  have side: "(\<exists>e\<in>set (edges h). other_side e S = Some (singleton v) \<and> v < 64) \<longleftrightarrow>
      v \<notin> ids S \<and> (\<exists>u\<in>ids S. adjacent h u v)" for v
  proof
    assume "\<exists>e\<in>set (edges h). other_side e S = Some (singleton v) \<and> v < 64"
    then obtain e where e: "e \<in> set (edges h)" "other_side e S = Some (singleton v)" "v < 64" by blast
    obtain a b where ab: "ids (leftEligibility e) = {a}" "ids (rightEligibility e) = {b}" "adjacent h a b"
      using simple_edge [OF assms e(1)] by metis
    have "ids (singleton v) = {v}" using e(3) by (rule ids_singleton)
    then have "b = v \<and> a \<in> ids S \<and> v \<notin> ids S \<or> a = v \<and> b \<in> ids S \<and> v \<notin> ids S"
      using e(2) ab by (auto simp: other_side_def set_abs split: if_splits)
    then show "v \<notin> ids S \<and> (\<exists>u\<in>ids S. adjacent h u v)" using ab(3) adjacent_sym by metis
  next
    assume r: "v \<notin> ids S \<and> (\<exists>u\<in>ids S. adjacent h u v)"
    then obtain u e where u: "u \<in> ids S" and e: "e \<in> set (edges h)"
      "ids (leftEligibility e) = {u} \<and> ids (rightEligibility e) = {v} \<or>
       ids (leftEligibility e) = {v} \<and> ids (rightEligibility e) = {u}"
      unfolding adjacent_def by blast
    have lt: "v < 64" "u < 64" using e(2) ids_bound by blast+
    have "leftEligibility e = singleton u \<and> rightEligibility e = singleton v \<or>
       leftEligibility e = singleton v \<and> rightEligibility e = singleton u"
      using e(2) lt by (metis ids_singleton rs_eqI)
    then have "other_side e S = Some (singleton v)"
      using u r lt by (auto simp: other_side_def set_abs)
    then show "\<exists>e\<in>set (edges h). other_side e S = Some (singleton v) \<and> v < 64" using e(1) lt by blast
  qed
  have "ids (neighborhood h S F) = {v. v \<notin> ids F \<and> (\<exists>e\<in>set (edges h). other_side e S = Some (singleton v) \<and> v < 64)}"
    unfolding neighborhood_def step [OF order_refl] ids_empty_set by simp
  then show ?thesis unfolding side by auto
qed

section \<open>The sets the recursion visits\<close>

definition grow :: "relation_set \<Rightarrow> u64 \<Rightarrow> relation_set" where
  "grow S w = RelationSet (bits S OR w)"

lemma ids_grow: "ids (grow S w) = ids S \<union> {i. bit w i}"
  by (auto simp: grow_def ids_def bit_or_iff)

function visited :: "hypergraph \<Rightarrow> relation_set \<Rightarrow> relation_set \<Rightarrow> relation_set list" where
  "visited h S F =
     (let N = neighborhood h S F in
      if rs_empty N then []
      else map (grow S) (subsetsBySize (bits N)) @
        concat (map (\<lambda>w. visited h (grow S w) (rs_unionSet F N)) (subsetsBySize (bits N))))"
  by pat_completeness auto
termination
  by (relation "measure (\<lambda>(h, S, F). 64 - card (ids F))") (auto intro: forbidden_grows)

declare visited.simps [simp del]

lemma visited_empty: "ids (neighborhood h S F) = {} \<Longrightarrow> visited h S F = []"
  by (subst visited.simps) (simp add: Let_def set_abs)

lemma visited_step:
  "ids (neighborhood h S F) \<noteq> {} \<Longrightarrow> N = neighborhood h S F \<Longrightarrow>
   visited h S F = map (grow S) (subsetsBySize (bits N)) @
     concat (map (\<lambda>w. visited h (grow S w) (rs_unionSet F N)) (subsetsBySize (bits N)))"
  by (subst visited.simps) (simp add: Let_def set_abs)

lemma subset_ids: "w \<in> set (subsetsBySize (bits N)) \<Longrightarrow> {i. bit w i} \<subseteq> ids N \<and> {i. bit w i} \<noteq> {}"
  using subsetsBySize_bits [of w "bits N"] set_subsetsBySize [of w "bits N"]
  by (auto simp: ids_def word_eq_0_iff_bits)

lemma visited_between:
  "T \<in> set (visited h S F) \<Longrightarrow> ids S \<subset> ids T \<and> ids T \<inter> ids F \<subseteq> ids S"
proof (induction h S F rule: visited.induct)
  case (1 h S F)
  let ?N = "neighborhood h S F"
  have ne: "ids ?N \<noteq> {}" using "1.prems" visited_empty by fastforce
  have base: "ids S \<subset> ids (grow S w) \<and> ids (grow S w) \<inter> ids F \<subseteq> ids S"
    if "w \<in> set (subsetsBySize (bits ?N))" for w
    using subset_ids [OF that] neighborhood_outside [of h S F] neighborhood_outside_self [of h S F]
    by (auto simp: ids_grow)
  from "1.prems" consider (first) w where "w \<in> set (subsetsBySize (bits ?N))" "T = grow S w"
    | (later) w where "w \<in> set (subsetsBySize (bits ?N))" "T \<in> set (visited h (grow S w) (rs_unionSet F ?N))"
    unfolding visited_step [OF ne refl] by auto
  then show ?case
  proof cases
    case first
    then show ?thesis using base by simp
  next
    case (later w)
    have "ids (grow S w) \<subset> ids T \<and> ids T \<inter> ids (rs_unionSet F ?N) \<subseteq> ids (grow S w)"
      by (rule "1.IH" [OF refl _ later]) (use ne in \<open>simp add: set_abs\<close>)
    then show ?thesis using base [OF later(1)] by (auto simp: set_abs)
  qed
qed

lemma visited_block:
  assumes "w \<in> set (subsetsBySize (bits N))" and "N = neighborhood h S F"
    and "T = grow S w \<or> T \<in> set (visited h (grow S w) (rs_unionSet F N))"
  shows "ids T \<inter> ids N = {i. bit w i}"
proof -
  have "ids (grow S w) \<inter> ids N = {i. bit w i}"
    using subset_ids [OF assms(1)] neighborhood_outside_self [of h S F] assms(2) by (auto simp: ids_grow)
  then show ?thesis
    using assms(3) visited_between [of T h "grow S w" "rs_unionSet F N"] by (auto simp: set_abs)
qed

text \<open>Connectedness inside a set.\<close>

definition spans :: "hypergraph \<Rightarrow> nat set \<Rightarrow> nat set \<Rightarrow> bool" where
  "spans h A T \<longleftrightarrow> A \<subseteq> T \<and> (\<forall>v\<in>T. reaches (edges h) T A v)"

lemma reach_boundary:
  assumes "simple_graph h" and "reaches (edges h) T A v" and "A \<subseteq> X" and "v \<notin> X"
  shows "\<exists>a\<in>X. \<exists>b\<in>T - X. adjacent h a b"
  using assms(2,4)
proof (induction rule: reaches.induct)
  case (reaches_edge i e j)
  show ?case
  proof (cases "i \<in> X")
    case True
    obtain u v where "ids (leftEligibility e) = {u}" "ids (rightEligibility e) = {v}" "adjacent h u v"
      using simple_edge [OF assms(1) reaches_edge.hyps(2)] by metis
    moreover have "i \<noteq> j" using True reaches_edge.prems by auto
    ultimately have "adjacent h i j" "j \<in> T"
      using reaches_edge.hyps(3-5) adjacent_sym by (auto simp: set_abs)
    then show ?thesis using True reaches_edge.prems by blast
  qed (use reaches_edge.IH in blast)
qed (use assms(3) in blast)

lemma reaches_seeds: "reaches es T A v \<Longrightarrow> A \<subseteq> B \<Longrightarrow> reaches es T B v"
  by (induction rule: reaches.induct) (blast intro: reaches.intros)+

lemma rs_exists: "\<forall>i\<in>A. i < 64 \<Longrightarrow> \<exists>S. ids S = A"
proof -
  assume A: "\<forall>i\<in>A. i < 64"
  then have fin: "finite A" by (intro finite_subset [of A "{..<64}"]) auto
  have "ids (fold (\<lambda>i S. rs_add S i) xs S) = set xs \<union> ids S" if "\<forall>i\<in>set xs. i < 64" for xs S
    using that by (induction xs arbitrary: S) (auto simp: set_abs)
  then have "ids (fold (\<lambda>i S. rs_add S i) (sorted_list_of_set A) rs_empty_set) = A"
    using A fin by (simp add: set_abs)
  then show ?thesis ..
qed

lemma rs_of_set: "A \<subseteq> ids N \<Longrightarrow> A \<noteq> {} \<Longrightarrow> \<exists>w\<in>set (subsetsBySize (bits N)). {i. bit w i} = A"
proof -
  assume A: "A \<subseteq> ids N" "A \<noteq> {}"
  obtain S where S: "ids S = A" using rs_exists [of A] A(1) ids_bound by blast
  then have bits: "{i. bit (bits S) i} = A" by (simp add: ids_def)
  have "bits S AND bits N = bits S"
    by (rule bit_eqI) (use bits A(1) in \<open>auto simp: bit_and_iff ids_def\<close>)
  moreover have "bits S \<noteq> 0" using bits A(2) by (auto simp: word_eq_0_iff_bits)
  ultimately show ?thesis using bits by (auto simp: set_subsetsBySize)
qed

lemma visited_complete:
  assumes "simple_graph h" and "spans h (ids S) (ids T)" and "ids S \<noteq> ids T" and "ids T \<inter> ids F \<subseteq> ids S"
  shows "T \<in> set (visited h S F)"
  using assms
proof (induction h S F rule: visited.induct)
  case (1 h S F)
  let ?N = "neighborhood h S F"
  have sub: "ids S \<subseteq> ids T" using "1.prems"(2) by (simp add: spans_def)
  then obtain v where v: "v \<in> ids T" "v \<notin> ids S" using "1.prems"(3) by blast
  then have "reaches (edges h) (ids T) (ids S) v" using "1.prems"(2) by (simp add: spans_def)
  then obtain a b where ab: "a \<in> ids S" "b \<in> ids T - ids S" "adjacent h a b"
    using reach_boundary [OF "1.prems"(1) _ order_refl v(2)] by blast
  have bN: "b \<in> ids ?N" using ab "1.prems"(4) by (auto simp: neighborhood_simple [OF "1.prems"(1)])
  then obtain w where w: "w \<in> set (subsetsBySize (bits ?N))" "{i. bit w i} = ids T \<inter> ids ?N"
    using rs_of_set [of "ids T \<inter> ids ?N" ?N] ab by auto
  have ne: "ids ?N \<noteq> {}" using bN by auto
  show ?case
  proof (cases "ids (grow S w) = ids T")
    case True
    then have "T = grow S w" by (intro rs_eqI) simp
    then show ?thesis using w(1) unfolding visited_step [OF ne refl] by auto
  next
    case False
    have "T \<in> set (visited h (grow S w) (rs_unionSet F ?N))"
    proof (rule "1.IH" [OF refl _ w(1) "1.prems"(1) _ False])
      show "\<not> rs_empty ?N" using ne by (simp add: set_abs)
      show "spans h (ids (grow S w)) (ids T)"
        using "1.prems"(2) w(2) by (auto simp: spans_def ids_grow intro: reaches_seeds)
      show "ids T \<inter> ids (rs_unionSet F ?N) \<subseteq> ids (grow S w)"
        using "1.prems"(4) w(2) by (auto simp: set_abs ids_grow)
    qed
    then show ?thesis using w(1) unfolding visited_step [OF ne refl] by auto
  qed
qed

text \<open>The order of the visits: a set comes after any set it extends among the first neighbours.\<close>

lemma append_split:
  assumes "as @ bs = ys @ t # zs"
  shows "(\<exists>q. as = ys @ t # q) \<or> (\<exists>ys'. ys = as @ ys' \<and> bs = ys' @ t # zs)"
proof -
  obtain us where "as = ys @ us \<and> us @ bs = t # zs \<or> as @ us = ys \<and> bs = us @ t # zs"
    using assms by (auto simp: append_eq_append_conv2)
  then show ?thesis by (cases us) auto
qed

lemma concat_split:
  "concat (map f xs) = ys @ t # zs \<Longrightarrow>
   \<exists>us w vs p q. xs = us @ w # vs \<and> f w = p @ t # q \<and> ys = concat (map f us) @ p"
proof (induction xs arbitrary: ys)
  case (Cons x xs)
  from Cons.prems consider (left) q where "f x = ys @ t # q"
    | (right) ys' where "ys = f x @ ys'" "concat (map f xs) = ys' @ t # zs"
    using append_split [of "f x" "concat (map f xs)" ys t zs] by auto
  then show ?case
  proof cases
    case left
    then have "x # xs = [] @ x # xs \<and> f x = ys @ t # q \<and> ys = concat (map f []) @ ys" by simp
    then show ?thesis by blast
  next
    case right
    then obtain us w vs p q where "xs = us @ w # vs" "f w = p @ t # q" "ys' = concat (map f us) @ p"
      using Cons.IH by blast
    then have "x # xs = (x # us) @ w # vs \<and> f w = p @ t # q \<and> ys = concat (map f (x # us)) @ p"
      using right(1) by simp
    then show ?thesis by blast
  qed
qed simp

lemma map_split: "map f xs = ys @ t # zs \<Longrightarrow> \<exists>us w vs. xs = us @ w # vs \<and> t = f w \<and> ys = map f us"
  by (auto simp: map_eq_append_conv map_eq_Cons_conv)

lemma popcount_card: "popcount w = card {i. bit w i}"
  using ids_size [of "RelationSet w"] by (simp add: rs_size_def ids_def)

lemma visited_order:
  assumes at: "visited h S F = ys @ T # zs" and T': "T' \<in> set (visited h S F)"
    and sub: "ids T' \<subseteq> ids T" "ids T' \<inter> ids (neighborhood h S F) \<noteq> ids T \<inter> ids (neighborhood h S F)"
  shows "T' \<in> set ys"
proof -
  let ?N = "neighborhood h S F"
  let ?subs = "subsetsBySize (bits ?N)" and ?blk = "\<lambda>w. visited h (grow S w) (rs_unionSet F ?N)"
  have ne: "ids ?N \<noteq> {}" using T' visited_empty by fastforce
  note step = visited_step [OF ne refl]
  have earlier: "w' \<in> set us"
    if "?subs = us @ w # vs" "w' \<in> set ?subs" "T' = grow S w' \<or> T' \<in> set (?blk w')" "T = grow S w \<or> T \<in> set (?blk w)"
    for w w' us vs
  proof (rule subsetsBySize_order [OF that(1,2)])
    have "w \<in> set ?subs" using that(1) by simp
    then have "{i. bit w' i} = ids T' \<inter> ids ?N" "{i. bit w i} = ids T \<inter> ids ?N"
      using visited_block [OF that(2) refl that(3)] visited_block [OF _ refl that(4)] by auto
    then have "{i. bit w' i} \<subset> {i. bit w i}" using sub by auto
    moreover have "finite {i. bit w i}" by (rule finite_subset [of _ "{..<64}"]) (auto dest: bit_u64_less)
    ultimately show "popcount w' < popcount w" by (simp add: popcount_card psubset_card_mono)
  qed
  obtain w' where w': "w' \<in> set ?subs" "T' = grow S w' \<or> T' \<in> set (?blk w')"
    using T' unfolding step by auto
  consider (first) q where "map (grow S) ?subs = ys @ T # q"
    | (later) ys' where "ys = map (grow S) ?subs @ ys'" "concat (map ?blk ?subs) = ys' @ T # zs"
    using append_split [OF at [unfolded step]] by blast
  then show ?thesis
  proof cases
    case first
    then obtain us w vs where w: "?subs = us @ w # vs" "T = grow S w" "ys = map (grow S) us"
      using map_split [OF first] by blast
    have "ids T \<subseteq> ids S \<union> ids ?N" using w subset_ids [of w ?N] by (auto simp: ids_grow)
    moreover have "{i. bit w' i} = ids T' \<inter> ids ?N" using visited_block [OF w'(1) refl w'(2)] by simp
    moreover have "ids S \<subseteq> ids T'" using visited_between [OF T'] by blast
    ultimately have "T' = grow S w'" using sub(1) by (intro rs_eqI) (auto simp: ids_grow)
    then show ?thesis using earlier [OF w(1) w'] w(2,3) by auto
  next
    case later
    then obtain us w vs p q where w: "?subs = us @ w # vs" "?blk w = p @ T # q" "ys' = concat (map ?blk us) @ p"
      using concat_split [OF later(2)] by blast
    have "w' \<in> set us" using w(2) by (intro earlier [OF w(1) w']) auto
    then show ?thesis using w' w(3) later(1) by auto
  qed
qed

section \<open>The recursion as a loop\<close>

text \<open>Without a budget the recursion is one pass over the sets it visits.\<close>

definition emit_known :: "(relation_set \<Rightarrow> ('c, 'm) planner_step) \<Rightarrow> relation_set \<Rightarrow> ('c, 'm) planner_step" where
  "emit_known emit T s = (if memo s T \<noteq> None then emit T s else Inr s)"

lemma fold_res_append: "fold_res f (xs @ ys) s = bind_res (fold_res f xs s) (fold_res f ys)"
proof (induction xs arbitrary: s)
  case (Cons x xs)
  then show ?case by (cases "f x s") auto
qed simp

lemma fold_res_map: "fold_res f (map g xs) s = fold_res (\<lambda>x. f (g x)) xs s"
proof (induction xs arbitrary: s)
  case (Cons x xs)
  then show ?case by (cases "f (g x) s") auto
qed simp

lemma fold_res_concat: "fold_res f (concat (map g xs)) s = fold_res (\<lambda>x. fold_res f (g x)) xs s"
proof (induction xs arbitrary: s)
  case (Cons x xs)
  then show ?case by (cases "fold_res f (g x) s") (auto simp: fold_res_append)
qed simp

lemma fold_res_same:
  assumes "I s" and "\<And>x s. x \<in> set xs \<Longrightarrow> I s \<Longrightarrow> f x s = g x s"
    and "\<And>x s t. x \<in> set xs \<Longrightarrow> I s \<Longrightarrow> g x s = Inr t \<Longrightarrow> I t"
  shows "fold_res f xs s = fold_res g xs s"
  using assms
proof (induction xs arbitrary: s)
  case (Cons x xs)
  have "f x s = g x s" using Cons.prems by simp
  then show ?case
  proof (cases "g x s")
    case (Inr t)
    then have "I t" using Cons.prems(1) Cons.prems(3) [of x s t] by simp
    then have "fold_res f xs t = fold_res g xs t"
    proof (rule Cons.IH)
      show "f y a = g y a" if "y \<in> set xs" "I a" for y a
        using that by (intro Cons.prems(2)) auto
      show "I b" if "y \<in> set xs" "I a" "g y a = Inr b" for y a b
        using that by (intro Cons.prems(3) [of y a b]) auto
    qed
    then show ?thesis using \<open>f x s = g x s\<close> Inr by simp
  qed simp
qed simp

lemma fold_known_invariant:
  assumes "fold_res (emit_known emit) Ts s = Inr t" and "I s"
    and "\<And>T s t. T \<in> set Ts \<Longrightarrow> I s \<Longrightarrow> emit T s = Inr t \<Longrightarrow> I t"
  shows "I t"
  by (rule fold_res_invariant [OF assms(1), of I, OF assms(2)])
    (auto simp: emit_known_def split: if_splits intro: assms(3))

lemma enumerate_rec_visited:
  assumes "I s" and "\<And>s. I s \<Longrightarrow> \<not> bud_exceeded s"
    and "\<And>T s t. T \<in> set (visited h S F) \<Longrightarrow> I s \<Longrightarrow> emit T s = Inr t \<Longrightarrow> I t"
  shows "enumerate_rec h emit S F s = fold_res (emit_known emit) (visited h S F) s"
  using assms
proof (induction h emit S F s rule: enumerate_rec.induct)
  case (1 h emit S F s)
  let ?N = "neighborhood h S F"
  let ?subs = "subsetsBySize (bits ?N)" and ?blk = "\<lambda>w. visited h (grow S w) (rs_unionSet F ?N)"
  have nb: "\<not> bud_exceeded s" using "1.prems"(1,2) by blast
  show ?case
  proof (cases "ids ?N = {}")
    case True
    then show ?thesis using nb by (subst enumerate_rec.simps) (simp add: visited_empty Let_def set_abs)
  next
    case False
    note step = visited_step [OF False refl]
    have blk: "set (?blk w) \<subseteq> set (visited h S F)" if "w \<in> set ?subs" for w using that by (auto simp: step)
    have first: "fold_res (emit_known emit) (map (grow S) ?subs) s =
        fold_res (\<lambda>w s. let T = RelationSet (bits S OR w) in if memo s T \<noteq> None then emit T s else Inr s) ?subs s"
      by (simp add: fold_res_map emit_known_def [abs_def] grow_def [abs_def] Let_def)
    have rest: "fold_res (\<lambda>w. enumerate_rec h emit (grow S w) (rs_unionSet F ?N)) ?subs u =
        fold_res (emit_known emit) (concat (map ?blk ?subs)) u"
      if u: "fold_res (emit_known emit) (map (grow S) ?subs) s = Inr u" for u
      unfolding fold_res_concat
    proof (rule fold_res_same [where I = I])
      show "I u"
        by (rule fold_known_invariant [OF u, of I, OF "1.prems"(1)], rule "1.prems"(3)) (auto simp: step)
    next
      fix w a assume w: "w \<in> set ?subs" and a: "I a"
      have "\<not> rs_empty ?N" using False by (simp add: set_abs)
      note IH = "1.IH" [OF nb refl this refl u [unfolded first] w a "1.prems"(2), folded grow_def]
      show "enumerate_rec h emit (grow S w) (rs_unionSet F ?N) a = fold_res (emit_known emit) (?blk w) a"
        by (rule IH) (use blk [OF w] "1.prems"(3) in blast)+
    next
      fix w a b assume w: "w \<in> set ?subs" and a: "I a" and b: "fold_res (emit_known emit) (?blk w) a = Inr b"
      show "I b"
        by (rule fold_known_invariant [OF b, of I, OF a], rule "1.prems"(3)) (use w in \<open>auto simp: step\<close>)
    qed
    show ?thesis
      unfolding step fold_res_append
      using False nb rest
      by (subst enumerate_rec.simps)
        (cases "fold_res (emit_known emit) (map (grow S) ?subs) s"; simp add: Let_def set_abs first [unfolded Let_def] grow_def)
  qed
qed

section \<open>Joining a pair\<close>

definition simple_planner :: "('c :: linorder, 'm) planner \<Rightarrow> bool" where
  "simple_planner P \<longleftrightarrow> simple_graph (graph P) \<and> numWorkers P = 1 \<and> budgetCap P \<le> 0 \<and>
     (\<forall>p m. cost (fst (costOf P p m)) \<noteq> None)"

text \<open>A step that succeeds, keeps the sets that have a plan, and gives a plan to \<open>S\<close>.\<close>

definition plans_for :: "relation_set set \<Rightarrow> ('c, 'm) dphyp_state \<Rightarrow> dphyp_error + ('c, 'm) dphyp_state \<Rightarrow> bool" where
  "plans_for new s r \<longleftrightarrow> (\<exists>t. r = Inr t \<and> new \<union> dom (memo s) \<subseteq> dom (memo t))"

lemma plans_for_Inr [simp]: "plans_for {} s (Inr s)"
  by (simp add: plans_for_def)

lemma plans_for_less: "plans_for new s r \<Longrightarrow> old \<subseteq> new \<Longrightarrow> plans_for old s r"
  by (auto simp: plans_for_def)

lemma plans_for_trans: "plans_for new s (Inr t) \<Longrightarrow> plans_for new2 t r \<Longrightarrow> plans_for (new \<union> new2) s r"
  unfolding plans_for_def by blast

lemma addJoinCandidate_plans:
  assumes "simple_planner P"
  shows "plans_for {js_combined J} s (Inr (addJoinCandidate P l r J p s))"
proof -
  let ?entry = "\<lambda>c. JoinOp c l r (js_edge J) (js_type J) (js_reversedAnti J) (js_keyEdges J) (js_filterEdges J) p"
  let ?s1 = "snd (budget_consume (budgetCap P) s)"
  obtain c m where cm: "costOf P (?entry no_cost) (costModel ?s1) = (c, m)" by fastforce
  then have "cost c \<noteq> None" using assms unfolding simple_planner_def by (metis fst_conv)
  then show ?thesis
    using cm by (auto simp: plans_for_def addJoinCandidate_def with_cost_def memo_add_def Let_def)
qed

lemma considerCandidate_plans:
  "simple_planner P \<Longrightarrow> plans_for {js_combined J} s (considerCandidate P l r J s)"
  using addJoinCandidate_plans [of P J s l r "p_unspecified KGlobal"]
  by (simp add: considerCandidate_def simple_planner_def)

lemma considerOrientations_plans:
  assumes P: "simple_planner P" and J: "js_type J = KInner"
  shows "plans_for {js_combined J} s (considerOrientations P l r J s)"
proof -
  let ?e = "edges (graph P) ! js_edge J"
  let ?side = "loopInvariantSide (js_type J) (leftKeys ?e \<noteq> []) (nullAsValue ?e)
    (sides (readsState P (cover l)) (readsState P (cover r)))"
  obtain a where a: "considerCandidate P l r J s = Inr a" "plans_for {js_combined J} s (Inr a)"
    using considerCandidate_plans [OF P, of J s l r] unfolding plans_for_def by blast
  have b: "plans_for {js_combined J} u (considerCandidate P r l (J\<lparr>js_type := KInner\<rparr>) u)" for u
    using considerCandidate_plans [OF P, of "J\<lparr>js_type := KInner\<rparr>"] by simp
  have ab: "plans_for {js_combined J} s (considerCandidate P r l (J\<lparr>js_type := KInner\<rparr>) a)"
    using plans_for_trans [OF a(2) b [of a]] by simp
  have "\<not> (side_left ?side \<and> side_right ?side)" by (auto simp: loopInvariantSide_def)
  then show ?thesis
    using a ab b [of s] by (auto simp: considerOrientations_def J Let_def)
qed

lemma emitSingleEdge_plans:
  assumes P: "simple_planner P" and e: "i < length (edges (graph P))"
  shows "plans_for {T} s (emitSingleEdge P i fwd l r T [] fs s)"
proof -
  have "joinType (edges (graph P) ! i) = KInner"
    using P e by (auto simp: simple_planner_def simple_graph_def filterable_def)
  then show ?thesis
    using considerOrientations_plans [OF P, of "\<lparr>js_edge = i, js_type = KInner, js_combined = T,
      js_reversedAnti = False, js_keyEdges = [], js_filterEdges = fs\<rparr>"]
    by (simp add: emitSingleEdge_def Let_def keepsBothInputs_def)
qed

lemma special_position_none:
  "\<forall>(i, f)\<in>set js. filterable (es ! i) \<Longrightarrow> special_position es js n None = None"
  by (induction js arbitrary: n) auto

lemma cheapestPlan_known: "memo_ok h (memo s) \<Longrightarrow> memo s S \<noteq> None \<Longrightarrow> cheapestPlan P S s \<noteq> None"
  by (cases "memo s S") (simp_all add: cheapestPlan_def memo_ok_def cheapest_some del: not_None_eq)

lemma crossing_simple:
  assumes h: "simple_graph h" and d: "ids L \<inter> ids R = {}"
  shows "\<exists>js fs. crossingEdges h L R = Some (js, fs) \<and> (\<forall>(i, f)\<in>set js. i < length (edges h)) \<and>
    ((\<exists>u\<in>ids L. \<exists>v\<in>ids R. adjacent h u v) \<longrightarrow> js \<noteq> [])"
proof -
  let ?ok = "\<lambda>i. crosses L R (edges h ! i) \<and> aligned L R (edges h ! i)"
  have nb: "\<not> (\<exists>e\<in>set (edges h). blocking L R e)"
    using h by (auto simp: simple_graph_def blocking_def)
  have "\<exists>i<length (edges h). ?ok i" if uv: "u \<in> ids L" "v \<in> ids R" "adjacent h u v" for u v
  proof -
    obtain i where i: "i < length (edges h)"
      "ids (leftEligibility (edges h ! i)) = {u} \<and> ids (rightEligibility (edges h ! i)) = {v} \<or>
       ids (leftEligibility (edges h ! i)) = {v} \<and> ids (rightEligibility (edges h ! i)) = {u}"
      using uv(3) unfolding adjacent_def by (metis in_set_conv_nth)
    have "?ok i" using i(2) uv(1,2) d by (auto simp: crosses_def aligned_def forward_def set_abs)
    then show ?thesis using i(1) by blast
  qed
  then have "filter ?ok [0..<length (edges h)] \<noteq> []" if "\<exists>u\<in>ids L. \<exists>v\<in>ids R. adjacent h u v"
    using that by (fastforce simp: filter_empty_conv)
  then show ?thesis using nb by (auto simp: crossingEdges_def crossing_loop_result)
qed

lemma emitCsgCmp_plans:
  assumes P: "simple_planner P" and memo: "memo_ok (graph P) (memo s)"
    and d: "ids L \<inter> ids R = {}" and s: "\<not> bud_enforced s"
  shows "plans_for (if memo s L \<noteq> None \<and> memo s R \<noteq> None \<and> (\<exists>u\<in>ids L. \<exists>v\<in>ids R. adjacent (graph P) u v)
    then {rs_unionSet L R} else {}) s (emitCsgCmp P L R s)"
proof -
  let ?h = "graph P" and ?T = "rs_unionSet L R"
  have h: "simple_graph ?h" using P by (simp add: simple_planner_def)
  obtain js fs where c: "crossingEdges ?h L R = Some (js, fs)" "\<forall>(i, f)\<in>set js. i < length (edges ?h)"
    "(\<exists>u\<in>ids L. \<exists>v\<in>ids R. adjacent ?h u v) \<longrightarrow> js \<noteq> []"
    using crossing_simple [OF h d] by blast
  have inner: "\<forall>(i, f)\<in>set js. filterable (edges ?h ! i)" using c(2) h by (auto simp: simple_graph_def)
  then have all: "list_all (\<lambda>i. filterable (edges ?h ! i)) (map fst js)" by (auto simp: list_all_iff)
  show ?thesis
  proof (cases "js = [] \<or> cheapestPlan P L s = None \<or> cheapestPlan P R s = None")
    case True
    then have none: "\<not> (memo s L \<noteq> None \<and> memo s R \<noteq> None \<and> (\<exists>u\<in>ids L. \<exists>v\<in>ids R. adjacent ?h u v))"
      using c(3) cheapestPlan_known [OF memo, of L P] cheapestPlan_known [OF memo, of R P] by blast
    have "emitCsgCmp P L R s = Inr s"
    proof (cases "length js = 1")
      case one: True
      then obtain i f where js: "js = [(i, f)]" by (cases js) auto
      have "joinType (edges ?h ! i) = KInner" "\<not> isUnnest (edges ?h ! i)" using inner js by (auto simp: filterable_def)
      then show ?thesis
        using c s js True by (auto simp: emitCsgCmp_def budget_consume_def applyCrossingEdge_def canApplyFilterEdges_def
            keepsBothInputs_def Let_def split: option.splits)
    next
      case False
      then show ?thesis
        using c s True all special_position_none [OF inner]
        by (auto simp: emitCsgCmp_def budget_consume_def emitInnerEdges_def Let_def split: option.splits)
    qed
    then show ?thesis by (simp only: none if_False plans_for_Inr)
  next
    case False
    then obtain l r where lr: "cheapestPlan P L s = Some l" "cheapestPlan P R s = Some r" "js \<noteq> []" by auto
    have "plans_for {?T} s (emitCsgCmp P L R s)"
    proof (cases "length js = 1")
      case True
      then obtain i f where js: "js = [(i, f)]" by (cases js) auto
      have "joinType (edges ?h ! i) = KInner" "\<not> isUnnest (edges ?h ! i)" using inner js by (auto simp: filterable_def)
      then have "emitCsgCmp P L R s = emitSingleEdge P i f l r ?T [] fs s"
        using c s lr js by (simp add: emitCsgCmp_def budget_consume_def applyCrossingEdge_def canApplyFilterEdges_def
            keepsBothInputs_def Let_def)
      then show ?thesis using emitSingleEdge_plans [OF P] c(2) js by simp
    next
      case many: False
      obtain ks where ks: "canonicalKeyEdges ?h (map fst js) = Inr ks"
        using inner canonical_loop_inner [of "edges ?h" "sort (map fst js)" "{}"] by (auto simp: canonicalKeyEdges_def)
      then have "emitCsgCmp P L R s = considerOrientations P l r
          \<lparr>js_edge = hd ks, js_type = KInner, js_combined = ?T, js_reversedAnti = False,
           js_keyEdges = tl ks, js_filterEdges = fs\<rparr> s"
        using c s lr many all special_position_none [OF inner]
        by (simp add: emitCsgCmp_def budget_consume_def emitInnerEdges_def Let_def)
      then show ?thesis using considerOrientations_plans [OF P, of "\<lparr>js_edge = hd ks, js_type = KInner, js_combined = ?T,
          js_reversedAnti = False, js_keyEdges = tl ks, js_filterEdges = fs\<rparr>"] by simp
    qed
    then show ?thesis by (rule plans_for_less) simp
  qed
qed

section \<open>Connected sets\<close>

definition connected :: "hypergraph \<Rightarrow> nat set \<Rightarrow> bool" where
  "connected h T \<longleftrightarrow> T \<noteq> {} \<and> (\<forall>i\<in>T. spans h {i} T)"

lemma spans_singleton: "simple_graph h \<Longrightarrow> spans h {i} T \<Longrightarrow> connected h T"
  unfolding connected_def spans_def by (blast intro: reaches_sym reaches_compose)

lemma reaches_mono: "reaches es T A v \<Longrightarrow> T \<subseteq> U \<Longrightarrow> reaches es U A v"
  by (induction rule: reaches.induct) (blast intro: reaches.intros)+

text \<open>The state between two steps of the search.\<close>

definition searching :: "('c :: linorder, 'm) planner \<Rightarrow> ('c, 'm) dphyp_state \<Rightarrow> bool" where
  "searching P s \<longleftrightarrow> memo_ok (graph P) (memo s) \<and> \<not> bud_enforced s \<and> \<not> bud_exceeded s"

lemma searching_good: "searching P s \<Longrightarrow> good (graph P) s t \<Longrightarrow> searching P t"
  by (auto simp: searching_def good_def)

lemma good_dom: "good h s t \<Longrightarrow> memo s S \<noteq> None \<Longrightarrow> memo t S \<noteq> None"
  by (auto simp: good_def)

lemma simple_dphyp: "simple_planner P \<Longrightarrow> dphyp_graph (graph P)"
  by (simp add: simple_planner_def simple_graph_def)

lemma emitCsgCmp_search:
  assumes P: "simple_planner P" and s: "searching P s" and d: "ids L \<inter> ids R = {}"
  obtains t where "emitCsgCmp P L R s = Inr t" "good (graph P) s t"
    "memo s L \<noteq> None \<Longrightarrow> memo s R \<noteq> None \<Longrightarrow> u \<in> ids L \<Longrightarrow> v \<in> ids R \<Longrightarrow> adjacent (graph P) u v \<Longrightarrow>
      memo t (rs_unionSet L R) \<noteq> None"
proof -
  have m: "memo_ok (graph P) (memo s)" "\<not> bud_enforced s" using s by (auto simp: searching_def)
  let ?all = "memo s L \<noteq> None \<and> memo s R \<noteq> None \<and> (\<exists>u\<in>ids L. \<exists>v\<in>ids R. adjacent (graph P) u v)"
  obtain t where t: "emitCsgCmp P L R s = Inr t" "(if ?all then {rs_unionSet L R} else {}) \<subseteq> dom (memo t)"
    using emitCsgCmp_plans [OF P m(1) d m(2)] unfolding plans_for_def by blast
  have g: "good (graph P) s t" by (rule good_emitCsgCmp [OF simple_dphyp [OF P] m(1) d t(1)])
  have "memo t (rs_unionSet L R) \<noteq> None"
    if "memo s L \<noteq> None" "memo s R \<noteq> None" "u \<in> ids L" "v \<in> ids R" "adjacent (graph P) u v"
  proof -
    have ?all using that by blast
    then show ?thesis using t(2) by auto
  qed
  then show thesis using that [OF t(1) g] by blast
qed

lemma fold_res_total:
  assumes "I s" and "\<And>x s. x \<in> set xs \<Longrightarrow> I s \<Longrightarrow> \<exists>t. f x s = Inr t \<and> I t"
  shows "\<exists>t. fold_res f xs s = Inr t \<and> I t"
  using assms
proof (induction xs arbitrary: s)
  case (Cons x xs)
  obtain t where "f x s = Inr t" "I t" using Cons.prems(1) Cons.prems(2) [of x s] by auto
  moreover have "\<exists>u. fold_res f xs t = Inr u \<and> I u"
    by (rule Cons.IH [OF \<open>I t\<close>]) (rule Cons.prems(2), auto)
  ultimately show ?case by auto
qed simp

text \<open>The recursion over complements as a loop.\<close>

definition cmpForbidden :: "hypergraph \<Rightarrow> relation_set \<Rightarrow> nat \<Rightarrow> relation_set" where
  "cmpForbidden h S v =
     rs_unionSet (rs_unionSet (prefixThrough (rs_min S)) S)
       (rs_intersect (prefixThrough v) (neighborhood h S (prefixThrough (rs_min S))))"

lemma cmp_loop:
  assumes P: "simple_planner P" and s: "searching P s" and d: "ids C \<inter> ids S = {}" and F: "ids S \<subseteq> ids F"
  shows "enumerateCmpRec P S C F s = fold_res (emit_known (emitCsgCmp P S)) (visited (graph P) C F) s" (is ?eq)
    and "\<exists>t. enumerateCmpRec P S C F s = Inr t \<and> good (graph P) s t"
proof -
  have out: "ids S \<inter> ids T = {}" if "T \<in> set (visited (graph P) C F)" for T
    using visited_between [OF that] d F by blast
  show eq: ?eq
    unfolding enumerateCmpRec_def
  proof (rule enumerate_rec_visited [where I = "searching P"])
    fix T a b assume T: "T \<in> set (visited (graph P) C F)" and a: "searching P a" and b: "emitCsgCmp P S T a = Inr b"
    have "memo_ok (graph P) (memo a)" using a by (simp add: searching_def)
    then have "good (graph P) a b" by (rule good_emitCsgCmp [OF simple_dphyp [OF P] _ out [OF T] b])
    then show "searching P b" by (rule searching_good [OF a])
  qed (use s in \<open>auto simp: searching_def\<close>)
  have "\<exists>t. fold_res (emit_known (emitCsgCmp P S)) (visited (graph P) C F) s = Inr t \<and> (good (graph P) s t \<and> searching P t)"
  proof (rule fold_res_total)
    fix T a assume T: "T \<in> set (visited (graph P) C F)" and a: "good (graph P) s a \<and> searching P a"
    obtain t where "emitCsgCmp P S T a = Inr t" "good (graph P) a t"
      using emitCsgCmp_search [OF P conjunct2 [OF a] out [OF T]] by metis
    then show "\<exists>t. emit_known (emitCsgCmp P S) T a = Inr t \<and> (good (graph P) s t \<and> searching P t)"
      using a searching_good good_trans by (fastforce simp: emit_known_def)
  qed (use s in simp)
  then show "\<exists>t. enumerateCmpRec P S C F s = Inr t \<and> good (graph P) s t" using eq by auto
qed

lemma fold_search:
  assumes "\<And>x s. x \<in> set xs \<Longrightarrow> searching P s \<Longrightarrow> \<exists>t. f x s = Inr t \<and> good (graph P) s t"
    and "searching P s"
  shows "\<exists>t. fold_res f xs s = Inr t \<and> good (graph P) s t \<and> searching P t"
proof (rule fold_res_total)
  show "good (graph P) s s \<and> searching P s" using assms(2) by simp
  show "\<exists>t. f x a = Inr t \<and> good (graph P) s t \<and> searching P t"
    if "x \<in> set xs" "good (graph P) s a \<and> searching P a" for x a
    using assms(1) [OF that(1)] that(2) by (meson good_trans searching_good)
qed

lemma fold_search_at:
  assumes "fold_res f xs s = Inr t" and "xs = ys @ x # zs"
    and "\<And>x s. x \<in> set xs \<Longrightarrow> searching P s \<Longrightarrow> \<exists>t. f x s = Inr t \<and> good (graph P) s t"
    and "searching P s"
  obtains a b where "fold_res f ys s = Inr a" "good (graph P) s a" "searching P a" "f x a = Inr b" "good (graph P) b t"
proof -
  obtain a where a: "fold_res f ys s = Inr a" "good (graph P) s a" "searching P a"
    using fold_search [of ys P f s] assms(2-4) by auto
  obtain b where b: "f x a = Inr b" "good (graph P) a b" using assms(3) [of x a] assms(2) a(3) by auto
  have sb: "searching P b" by (rule searching_good [OF a(3) b(2)])
  obtain c where "fold_res f zs b = Inr c" "good (graph P) b c"
    using fold_search [of zs P f b] assms(2,3) sb by auto
  then show thesis using that [OF a b(1)] assms(1,2) a(1) b(1) by (simp add: fold_res_append)
qed

definition cmp_both :: "('c :: linorder, 'm) planner \<Rightarrow> relation_set \<Rightarrow> nat \<Rightarrow> ('c, 'm) planner_step" where
  "cmp_both P S v s = bind_res (emitCsgCmp P S (singleton v) s)
     (enumerateCmpRec P S (singleton v) (cmpForbidden (graph P) S v))"

lemma emitCsg_loop:
  assumes P: "simple_planner P" and s: "searching P s"
  shows "emitCsg P S s =
    fold_res (cmp_both P S) (rev (visit (bits (neighborhood (graph P) S (prefixThrough (rs_min S)))))) s"
  using s by (simp add: emitCsg_def cmp_both_def [abs_def] cmpForbidden_def searching_def Let_def)

lemma cmp_step:
  assumes P: "simple_planner P" and s: "searching P s"
    and v: "v \<in> ids (neighborhood (graph P) S (prefixThrough (rs_min S)))"
  obtains a b where "emitCsgCmp P S (singleton v) s = Inr a" "good (graph P) s a" "searching P a"
    "enumerateCmpRec P S (singleton v) (cmpForbidden (graph P) S v) a = Inr b" "good (graph P) a b"
    "cmp_both P S v s = Inr b" "good (graph P) s b"
proof -
  have d: "ids S \<inter> ids (singleton v) = {}"
    using v neighborhood_outside_self [of "graph P" S] ids_bound [OF v] by (auto simp: set_abs)
  obtain a where a: "emitCsgCmp P S (singleton v) s = Inr a" "good (graph P) s a"
    using emitCsgCmp_search [OF P s d] by metis
  have sa: "searching P a" by (rule searching_good [OF s a(2)])
  have F: "ids S \<subseteq> ids (cmpForbidden (graph P) S v)" by (auto simp: cmpForbidden_def set_abs)
  have "ids (singleton v) \<inter> ids S = {}" using d by blast
  then obtain b where "enumerateCmpRec P S (singleton v) (cmpForbidden (graph P) S v) a = Inr b" "good (graph P) a b"
    using cmp_loop(2) [OF P sa _ F] by blast
  then show thesis using that [of a b] a sa good_trans [OF a(2)] by (simp add: cmp_both_def)
qed

lemma emitCsg_good:
  assumes P: "simple_planner P" and s: "searching P s"
  shows "\<exists>t. emitCsg P S s = Inr t \<and> good (graph P) s t"
proof -
  have "\<exists>t. cmp_both P S v a = Inr t \<and> good (graph P) a t"
    if "v \<in> set (rev (visit (bits (neighborhood (graph P) S (prefixThrough (rs_min S))))))" "searching P a" for v a
  proof -
    have "v \<in> ids (neighborhood (graph P) S (prefixThrough (rs_min S)))"
      using that(1) by (simp add: set_visit ids_def)
    from cmp_step [OF P that(2) this] show ?thesis by blast
  qed
  then show ?thesis unfolding emitCsg_loop [OF P s] using fold_search [OF _ s] by meson
qed

text \<open>A connected set beside \<open>S\<close> is joined to it, if its connected parts have plans.\<close>

lemma emitCsg_joins:
  assumes P: "simple_planner P" and s: "searching P s" and run: "emitCsg P S s = Inr t"
    and S: "memo s S \<noteq> None" "ids S \<noteq> {}"
    and C: "connected (graph P) (ids C)" "ids C \<inter> ids S = {}" "\<forall>i\<in>ids C. rs_min S < i"
    and near: "u \<in> ids S" "c \<in> ids C" "adjacent (graph P) u c"
    and parts: "\<And>D. connected (graph P) (ids D) \<Longrightarrow> ids D \<subseteq> ids C \<Longrightarrow> memo s D \<noteq> None"
  shows "memo t (rs_unionSet S C) \<noteq> None"
proof -
  let ?h = "graph P" and ?N = "neighborhood (graph P) S (prefixThrough (rs_min S))"
  have h: "simple_graph ?h" using P by (simp add: simple_planner_def)
  have min: "rs_min S < 64" using ids_min [OF S(2)] ids_bound [OF Min_in [OF ids_finite S(2)]] by simp
  have N: "ids ?N = {v. v \<notin> ids S \<and> rs_min S < v \<and> (\<exists>u\<in>ids S. adjacent ?h u v)}"
    using min by (auto simp: neighborhood_simple [OF h] set_abs)
  let ?v = "Min (ids C \<inter> ids ?N)"
  have "c \<in> ids C \<inter> ids ?N" using near C unfolding N by blast
  then have v: "?v \<in> ids C" "?v \<in> ids ?N" "\<And>w. w \<in> ids C \<Longrightarrow> w \<in> ids ?N \<Longrightarrow> ?v \<le> w"
    using Min_in [of "ids C \<inter> ids ?N"] by auto
  have lt: "?v < 64" by (rule ids_bound [OF v(1)])
  let ?f = "cmp_both P S"
  have "?v \<in> set (rev (visit (bits ?N)))" using v(2) by (simp add: set_visit ids_def)
  then obtain ys zs where split: "rev (visit (bits ?N)) = ys @ ?v # zs" by (meson split_list)
  have step: "\<exists>t. ?f v a = Inr t \<and> good ?h a t" if "v \<in> set (rev (visit (bits ?N)))" "searching P a" for v a
  proof -
    have "v \<in> ids ?N" using that(1) by (simp add: set_visit ids_def)
    from cmp_step [OF P that(2) this] show ?thesis by blast
  qed
  obtain a b where a: "good ?h s a" "searching P a" "?f ?v a = Inr b" "good ?h b t"
    using fold_search_at [OF run [unfolded emitCsg_loop [OF P s]] split step s] by blast
  obtain x where x: "emitCsgCmp P S (singleton ?v) a = Inr x" "good ?h a x" "searching P x"
    "enumerateCmpRec P S (singleton ?v) (cmpForbidden ?h S ?v) x = Inr b" "good ?h x b"
    using cmp_step [OF P a(2) v(2)] a(3) by (metis sum.inject(2))
  have d: "ids S \<inter> ids (singleton ?v) = {}" using v C(2) lt by (auto simp: set_abs)
  have one: "connected ?h (ids (singleton ?v))"
    using lt by (auto simp: connected_def spans_def set_abs intro: reaches_seed)
  have "memo x (rs_unionSet S C) \<noteq> None \<or> memo b (rs_unionSet S C) \<noteq> None"
  proof (cases "ids C = {?v}")
    case True
    then have CV: "C = singleton ?v" using lt by (intro rs_eqI) (simp add: set_abs)
    have "memo a S \<noteq> None" "memo a (singleton ?v) \<noteq> None"
      using good_dom [OF a(1) S(1)] good_dom [OF a(1) parts [OF one]] v(1) lt by (simp_all add: set_abs)
    moreover obtain w where "w \<in> ids S" "adjacent ?h w ?v" using v(2) unfolding N by blast
    moreover have "?v \<in> ids (singleton ?v)" using lt by (simp add: set_abs)
    ultimately have "memo x (rs_unionSet S (singleton ?v)) \<noteq> None"
      using emitCsgCmp_search [OF P a(2) d] x(1) by (metis sum.inject(2))
    then show ?thesis using CV by simp
  next
    case False
    let ?F = "cmpForbidden ?h S ?v"
    have "C \<in> set (visited ?h (singleton ?v) ?F)"
    proof (rule visited_complete [OF h])
      show "spans ?h (ids (singleton ?v)) (ids C)" using C(1) v(1) lt by (simp add: connected_def set_abs)
      show "ids (singleton ?v) \<noteq> ids C" using False lt by (auto simp: set_abs)
      show "ids C \<inter> ids ?F \<subseteq> ids (singleton ?v)"
        using C(2,3) v(3) min lt by (fastforce simp: cmpForbidden_def set_abs)
    qed
    then obtain ys zs where sp: "visited ?h (singleton ?v) ?F = ys @ C # zs" by (meson split_list)
    have F: "ids S \<subseteq> ids ?F" by (auto simp: cmpForbidden_def set_abs)
    have out: "ids S \<inter> ids T = {}" if "T \<in> set (visited ?h (singleton ?v) ?F)" for T
      using visited_between [OF that] d F by blast
    have each: "\<exists>t. emit_known (emitCsgCmp P S) T q = Inr t \<and> good ?h q t"
      if T: "T \<in> set (visited ?h (singleton ?v) ?F)" and q: "searching P q" for T q
    proof -
      obtain t where "emitCsgCmp P S T q = Inr t" "good ?h q t"
        using emitCsgCmp_search [OF P q out [OF T]] by metis
      then show ?thesis by (auto simp: emit_known_def)
    qed
    have d': "ids (singleton ?v) \<inter> ids S = {}" using d by blast
    obtain p q where p: "good ?h x p" "searching P p" "emit_known (emitCsgCmp P S) C p = Inr q" "good ?h q b"
      using fold_search_at [OF x(4) [unfolded cmp_loop(1) [OF P x(3) d' F]] sp each x(3)] by metis
    have mem: "memo p S \<noteq> None" "memo p C \<noteq> None"
      using S(1) parts [OF C(1) order_refl] good_dom [OF good_trans [OF good_trans [OF a(1) x(2)] p(1)]] by blast+
    have "ids S \<inter> ids C = {}" using C(2) by blast
    then have "memo q (rs_unionSet S C) \<noteq> None"
      using emitCsgCmp_search [OF P p(2), of S C u c] mem p(3) near by (simp add: emit_known_def) (metis sum.inject(2))
    then show ?thesis using good_dom [OF p(4)] by blast
  qed
  then show ?thesis using good_dom [OF a(4)] good_dom [OF x(5)] by blast
qed

section \<open>Splitting a connected set\<close>

lemma reaches_adjacent:
  assumes "simple_graph h" and "reaches (edges h) U A a" and "adjacent h a b" and "a \<in> U" "b \<in> U"
  shows "reaches (edges h) U A b"
proof -
  obtain e where e: "e \<in> set (edges h)" "ids (totalEligibility e) = {a, b}"
    using assms(3) by (auto simp: adjacent_def set_abs)
  show ?thesis by (rule reaches_edge [OF assms(2) e(1)]) (use e(2) assms(4,5) in auto)
qed

text \<open>
  Without its least relation a connected set falls into parts; one of them, taken away, leaves a
  connected set, and touches the least relation.
\<close>

lemma connected_split:
  assumes h: "simple_graph h" and T: "connected h (ids T)" "m \<in> ids T" "ids T \<noteq> {m}"
  obtains C T' c where "connected h (ids C)" "ids C \<subseteq> ids T - {m}" "c \<in> ids C" "adjacent h m c"
    "ids T' = ids T - ids C" "connected h (ids T')"
proof -
  have sp: "spans h {m} (ids T)" using T by (simp add: connected_def)
  obtain v where v: "v \<in> ids T" "v \<noteq> m" using T(2,3) by blast
  then have "reaches (edges h) (ids T) {m} v" using sp by (simp add: spans_def)
  then obtain c where c: "c \<in> ids T - {m}" "adjacent h m c"
    using reach_boundary [OF h _ order_refl, of "ids T" "{m}" v] v(2) by auto
  let ?U = "ids T - {m}"
  obtain C where C: "ids C = {x. reaches (edges h) ?U {c} x}"
  proof -
    have "\<forall>x\<in>{x. reaches (edges h) ?U {c} x}. x < 64"
      using reaches_within [of "edges h" ?U "{c}"] c(1) ids_bound [of _ T] by auto
    then show thesis using that rs_exists by blast
  qed
  have CU: "ids C \<subseteq> ?U" using reaches_within [of "edges h" ?U "{c}"] c(1) by (auto simp: C)
  have cC: "c \<in> ids C" by (simp add: C reaches_seed)
  have "reaches (edges h) (ids C) {c} x" if "x \<in> ids C" for x
  proof -
    have "reaches (edges h) ?U {c} x" using that by (simp add: C)
    then show ?thesis
    proof (induction rule: reaches.induct)
      case (reaches_edge i e j)
      have "ids (totalEligibility e) \<subseteq> ids C"
        using reaches.reaches_edge [OF reaches_edge.hyps(1-4)] by (auto simp: C)
      then show ?case using reaches_edge by (blast intro: reaches.reaches_edge)
    qed (auto intro: reaches_seed)
  qed
  then have conC: "connected h (ids C)" using spans_singleton [OF h, of c "ids C"] cC by (auto simp: spans_def)
  have "\<forall>x\<in>ids T - ids C. x < 64" using ids_bound by blast
  then obtain T' where T': "ids T' = ids T - ids C" using rs_exists by blast
  let ?X = "{x. reaches (edges h) (ids T') {m} x}"
  have mX: "m \<in> ?X" "m \<in> ids T'" using CU T(2) T' by (auto intro: reaches_seed)
  have X: "?X \<subseteq> ids T'" using reaches_within [of "edges h" "ids T'" "{m}"] mX(2) by auto
  have "ids T \<subseteq> ?X \<union> ids C"
  proof (rule ccontr)
    assume "\<not> ids T \<subseteq> ?X \<union> ids C"
    then obtain w where w: "w \<in> ids T" "w \<notin> ?X \<union> ids C" by blast
    have "reaches (edges h) (ids T) {m} w" using sp w(1) by (simp add: spans_def)
    then obtain a b where ab: "a \<in> ?X \<union> ids C" "b \<in> ids T - (?X \<union> ids C)" "adjacent h a b"
      using reach_boundary [OF h, of "ids T" "{m}" w "?X \<union> ids C"] mX(1) w(2) by blast
    show False
    proof (cases "a \<in> ?X")
      case True
      then have "reaches (edges h) (ids T') {m} b"
        using reaches_adjacent [OF h _ ab(3), of "ids T'" "{m}"] X ab(2) T' by blast
      then show False using ab(2) by blast
    next
      case False
      then have "a \<in> ids C" using ab(1) by blast
      moreover have "b \<in> ?U" using ab(2) mX(1) by blast
      ultimately have "reaches (edges h) ?U {c} b"
        using reaches_adjacent [OF h _ ab(3), of ?U "{c}"] CU by (auto simp: C)
      then show False using ab(2) by (simp add: C)
    qed
  qed
  then have "spans h {m} (ids T')" using X mX T' by (auto simp: spans_def)
  then have "connected h (ids T')" by (rule spans_singleton [OF h])
  then show thesis using that conC CU cC c(2) T' by blast
qed

section \<open>The search\<close>

lemma csg_loop:
  assumes P: "simple_planner P" and s: "searching P s"
  shows "enumerateCsgRec P S F s = fold_res (emit_known (emitCsg P)) (visited (graph P) S F) s"
  unfolding enumerateCsgRec_def
proof (rule enumerate_rec_visited [where I = "searching P"])
  fix T a b assume a: "searching P a" and b: "emitCsg P T a = Inr b"
  then show "searching P b" using emitCsg_good [OF P a, of T] searching_good [OF a] by auto
qed (use s in \<open>auto simp: searching_def\<close>)

lemma emit_known_good:
  assumes P: "simple_planner P" and s: "searching P s"
  shows "\<exists>t. emit_known (emitCsg P) T s = Inr t \<and> good (graph P) s t"
  using emitCsg_good [OF P s, of T] by (auto simp: emit_known_def)

text \<open>All connected sets with the least relation \<open>m\<close> get a plan, once those above have one.\<close>

definition planned_from :: "('c :: linorder, 'm) planner \<Rightarrow> nat \<Rightarrow> ('c, 'm) dphyp_state \<Rightarrow> bool" where
  "planned_from P k s \<longleftrightarrow> (\<forall>D. connected (graph P) (ids D) \<longrightarrow>
     ids D \<subseteq> ids (relationIds (graph P)) \<longrightarrow> (\<forall>i\<in>ids D. k \<le> i) \<longrightarrow> memo s D \<noteq> None)"

lemma planned_good: "planned_from P k s \<Longrightarrow> good (graph P) s t \<Longrightarrow> planned_from P k t"
  unfolding planned_from_def using good_dom by blast

lemma joins_split:
  assumes P: "simple_planner P" and s: "searching P s" and run: "emitCsg P T' s = Inr t"
    and T: "ids T' = ids T - ids C" "memo s T' \<noteq> None" "ids C \<subseteq> ids T - {m}" "connected (graph P) (ids C)"
    and m: "m \<in> ids T" "\<forall>i\<in>ids T. m \<le> i" "c \<in> ids C" "adjacent (graph P) m c"
    and V: "ids T \<subseteq> ids (relationIds (graph P))" and above: "planned_from P (Suc m) s"
  shows "memo t T \<noteq> None"
proof -
  have mT': "m \<in> ids T'" using T(1,3) m(1) by blast
  have "rs_min T' = m" using mT' m(2) T(1) by (subst ids_min) (auto intro: Min_eqI)
  then have low: "\<forall>i\<in>ids C. rs_min T' < i" using T(3) m(2) by (metis DiffE insertI1 le_neq_implies_less subsetD)
  have "memo t (rs_unionSet T' C) \<noteq> None"
  proof (rule emitCsg_joins [OF P s run T(2) _ T(4) _ low mT' m(3,4)])
    show "ids T' \<noteq> {}" "ids C \<inter> ids T' = {}" using mT' T(1) by auto
    show "memo s D \<noteq> None" if "connected (graph P) (ids D)" "ids D \<subseteq> ids C" for D
    proof -
      have "\<forall>i\<in>ids D. Suc m \<le> i" using that(2) T(3) m(2) by (metis DiffE Suc_leI insertI1 le_neq_implies_less subsetD)
      then show ?thesis using above that T(3) V unfolding planned_from_def by blast
    qed
  qed
  moreover have "rs_unionSet T' C = T" using T(1,3) by (intro rs_eqI) (auto simp: set_abs)
  ultimately show ?thesis by simp
qed

lemma planned_step:
  assumes P: "simple_planner P" and s: "searching P s" and m: "m < 64" "memo s (singleton m) \<noteq> None"
    and above: "planned_from P (Suc m) s"
  shows "\<exists>t. bind_res (emitCsg P (singleton m) s) (enumerateCsgRec P (singleton m) (prefixThrough m)) = Inr t \<and>
    good (graph P) s t \<and> planned_from P m t"
proof -
  let ?h = "graph P" and ?xs = "visited (graph P) (singleton m) (prefixThrough m)"
  have h: "simple_graph ?h" using P by (simp add: simple_planner_def)
  obtain s0 where s0: "emitCsg P (singleton m) s = Inr s0" "good ?h s s0" using emitCsg_good [OF P s] by blast
  have sr0: "searching P s0" by (rule searching_good [OF s s0(2)])
  note each = emit_known_good [OF P]
  obtain t where t: "fold_res (emit_known (emitCsg P)) ?xs s0 = Inr t" "good ?h s0 t"
    using fold_search [of ?xs P "emit_known (emitCsg P)" s0] each sr0 by blast
  have before: "memo a T \<noteq> None"
    if "?xs = ys @ T # zs" "fold_res (emit_known (emitCsg P)) ys s0 = Inr a"
      "connected ?h (ids T)" "ids T \<subseteq> ids (relationIds ?h)" "m \<in> ids T" "\<forall>i\<in>ids T. m \<le> i" for ys T zs a
    using that
  proof (induction "card (ids T)" arbitrary: ys T zs a rule: less_induct)
    case less
    have ga: "good ?h s0 a" "searching P a"
      using fold_search [of ys P "emit_known (emitCsg P)" s0] each sr0 less.prems(2) by auto
    have Tm: "ids T \<noteq> {m}" using visited_between [of T ?h "singleton m" "prefixThrough m"] less.prems(1) m(1)
      by (auto simp: set_abs)
    obtain C T' c where split: "connected ?h (ids C)" "ids C \<subseteq> ids T - {m}" "c \<in> ids C" "adjacent ?h m c"
      "ids T' = ids T - ids C" "connected ?h (ids T')"
      using connected_split [OF h less.prems(3,5) Tm] by metis
    note joins = joins_split [OF P _ _ split(5) _ split(2,1) less.prems(5,6) split(3,4) less.prems(4)]
    show ?case
    proof (cases "ids T' = {m}")
      case True
      then have "T' = singleton m" using m(1) by (intro rs_eqI) (simp add: set_abs)
      then have "memo s0 T \<noteq> None" using joins [OF s _ _ above] s0(1) m(2) by blast
      then show ?thesis by (rule good_dom [OF ga(1)])
    next
      case False
      have mT': "m \<in> ids T'" using split(2,5) less.prems(5) by blast
      have "T' \<in> set ?xs"
      proof (rule visited_complete [OF h])
        show "spans ?h (ids (singleton m)) (ids T')" using split(6) mT' m(1) by (simp add: connected_def set_abs)
        show "ids (singleton m) \<noteq> ids T'" using False m(1) by (auto simp: set_abs)
        show "ids T' \<inter> ids (prefixThrough m) \<subseteq> ids (singleton m)"
          using split(5) less.prems(6) m(1) by (auto simp: set_abs intro: antisym)
      qed
      moreover have "c \<in> ids (neighborhood ?h (singleton m) (prefixThrough m))"
        using split(2-4) less.prems(6) m(1)
        by (auto simp: neighborhood_simple [OF h] set_abs not_le intro!: le_neq_implies_less)
      ultimately have "T' \<in> set ys"
        using split(2,3,5) by (intro visited_order [OF less.prems(1)]) auto
      then obtain us vs where us: "ys = us @ T' # vs" by (meson split_list)
      obtain p q where p: "fold_res (emit_known (emitCsg P)) us s0 = Inr p" "good ?h s0 p" "searching P p"
        "emit_known (emitCsg P) T' p = Inr q" "good ?h q a"
        using fold_search_at [OF less.prems(2) us each sr0] by blast
      have mem: "memo p T' \<noteq> None"
      proof (rule less.hyps [of T' us "vs @ T # zs" p])
        have "ids T' \<subset> ids T" using split(2,3,5) by blast
        then show "card (ids T') < card (ids T)" by (simp add: psubset_card_mono)
      qed (use us less.prems split(5,6) p(1) mT' in auto)
      then have "emitCsg P T' p = Inr q" using p(4) by (simp add: emit_known_def)
      then have "memo q T \<noteq> None"
        using joins [OF p(3) _ mem] planned_good [OF above good_trans [OF s0(2) p(2)]] by blast
      then show ?thesis by (rule good_dom [OF p(5)])
    qed
  qed
  have "planned_from P m t"
    unfolding planned_from_def
  proof (intro allI impI)
    fix D assume D: "connected ?h (ids D)" "ids D \<subseteq> ids (relationIds ?h)" "\<forall>i\<in>ids D. m \<le> i"
    show "memo t D \<noteq> None"
    proof (cases "m \<in> ids D \<and> ids D \<noteq> {m}")
      case True
      have "D \<in> set ?xs"
      proof (rule visited_complete [OF h])
        show "spans ?h (ids (singleton m)) (ids D)" using D(1) True m(1) by (simp add: connected_def set_abs)
        show "ids (singleton m) \<noteq> ids D" using True m(1) by (auto simp: set_abs)
        show "ids D \<inter> ids (prefixThrough m) \<subseteq> ids (singleton m)" using D(3) m(1) by (auto simp: set_abs intro: antisym)
      qed
      then obtain ys zs where split: "?xs = ys @ D # zs" by (meson split_list)
      obtain a b where a: "fold_res (emit_known (emitCsg P)) ys s0 = Inr a" "emit_known (emitCsg P) D a = Inr b" "good ?h b t"
        "searching P a"
        using fold_search_at [OF t(1) split each sr0] by blast
      have "memo a D \<noteq> None" using before [OF split a(1) D(1,2)] True D(3) by blast
      moreover have "good ?h a b" using each [OF a(4), of D] a(2) by auto
      ultimately show ?thesis using good_dom a(3) by blast
    next
      case False
      have "good ?h s t" by (rule good_trans [OF s0(2) t(2)])
      moreover have "memo s D \<noteq> None"
      proof (cases "m \<in> ids D")
        case True
        then have "D = singleton m" using False m(1) by (intro rs_eqI) (simp add: set_abs)
        then show ?thesis using m(2) by simp
      next
        case False
        then have "\<forall>i\<in>ids D. Suc m \<le> i" using D(3) by (metis Suc_leI le_neq_implies_less)
        then show ?thesis using above D by (simp add: planned_from_def)
      qed
      ultimately show ?thesis using good_dom by blast
    qed
  qed
  moreover have "good ?h s t" by (rule good_trans [OF s0(2) t(2)])
  ultimately show ?thesis using s0(1) t(1) csg_loop [OF P sr0] by simp
qed

lemma simple_not_expanded: "simple_graph h \<Longrightarrow> ids (expandedRelationIds h) = {}"
  by (auto simp: simple_graph_def dphyp_graph_def graph_ok_def filterable_def)

lemma init_leaf_known:
  "ids (expandedRelationIds (graph P)) = {} \<Longrightarrow> memo (init_leaf P i s) (singleton i) \<noteq> None"
  by (auto simp: init_leaf_def memo_add_def set_abs Let_def split: prod.splits)

lemma initLeaves_known:
  assumes "simple_graph (graph P)" and "ids C \<subseteq> ids (relationIds (graph P))" and "i \<in> ids C"
  shows "memo (initLeaves P C s) (singleton i) \<noteq> None"
proof -
  have no: "ids (expandedRelationIds (graph P)) = {}" by (rule simple_not_expanded [OF assms(1)])
  have lt: "\<forall>j\<in>ids C. j < length (relations (graph P)) \<and> j < 64"
    using assms dphyp_graph_relations [of "graph P"] ids_bound by (auto simp: simple_graph_def)
  have "memo (fold (init_leaf P) xs s) (singleton i) \<noteq> None"
    if "i \<in> set xs" "set xs \<subseteq> ids C" for xs s
    using that
  proof (induction xs arbitrary: s)
    case (Cons x xs)
    have g: "good (graph P) u (fold (init_leaf P) xs u)" for u
      using Cons.prems(2) lt by (intro good_fold good_init_leaf) auto
    show ?case
    proof (cases "i = x")
      case True
      then show ?thesis using good_dom [OF g init_leaf_known [OF no]] by simp
    next
      case False
      then show ?thesis using Cons by simp
    qed
  qed simp
  then show ?thesis unfolding initLeaves_def ids_forEach using assms(3) by simp
qed

lemma solve_planned:
  assumes P: "simple_planner P" and ne: "relations (graph P) \<noteq> []"
  shows "\<exists>t. solve P (start P s) = Inr (False, t) \<and> searching P t \<and> planned_from P 0 t"
proof -
  let ?h = "graph P" and ?s0 = "budget_reset (budgetCap P) (start P s)" and ?n = "length (relations (graph P))"
  let ?s1 = "initLeaves P (relationIds ?h) ?s0"
  have h: "simple_graph ?h" using P by (simp add: simple_planner_def)
  note graph = simple_dphyp [OF P]
  note rel = dphyp_graph_relations [OF graph]
  have "searching P ?s0" using P by (simp add: searching_def budget_reset_def simple_planner_def)
  moreover have g1: "good ?h ?s0 ?s1" using rel by (intro good_initLeaves) simp
  ultimately have s1: "searching P ?s1" by (rule searching_good)
  let ?f = "\<lambda>i s. if rs_contains (expandedRelationIds ?h) i then Inr s
    else bind_res (emitCsg P (singleton i) s) (enumerateCsgRec P (singleton i) (prefixThrough i))"
  have f: "?f i s = bind_res (emitCsg P (singleton i) s) (enumerateCsgRec P (singleton i) (prefixThrough i))" for i s
    using simple_not_expanded [OF h] by (simp add: set_abs)
  have "\<exists>t. fold_res ?f (rev [k..<?n]) ?s1 = Inr t \<and> good ?h ?s1 t \<and> planned_from P k t" if "k \<le> ?n" for k
    using that
  proof (induction k rule: inc_induct)
    case base
    have "planned_from P ?n ?s1"
      unfolding planned_from_def
    proof (intro allI impI)
      fix D assume D: "connected ?h (ids D)" "ids D \<subseteq> ids (relationIds ?h)" "\<forall>i\<in>ids D. ?n \<le> i"
      then obtain i where "i \<in> ids D" by (auto simp: connected_def)
      then have "i < ?n" "?n \<le> i" using D rel by auto
      then show "memo ?s1 D \<noteq> None" by simp
    qed
    then show ?case by simp
  next
    case (step k)
    then obtain t where t: "fold_res ?f (rev [Suc k..<?n]) ?s1 = Inr t" "good ?h ?s1 t" "planned_from P (Suc k) t"
      by blast
    have k: "k \<in> ids (relationIds ?h)" "k < 64" using step rel by auto
    have "memo t (singleton k) \<noteq> None"
      using good_dom [OF t(2) initLeaves_known [OF h order_refl k(1)]] .
    then obtain u where u: "?f k t = Inr u" "good ?h t u" "planned_from P k u"
      using planned_step [OF P searching_good [OF s1 t(2)] k(2) _ t(3)] unfolding f by blast
    have "rev [k..<?n] = rev [Suc k..<?n] @ [k]" using step.hyps by (simp add: upt_conv_Cons)
    then have "fold_res ?f (rev [k..<?n]) ?s1 = Inr u" using t(1) u(1) by (simp add: fold_res_append)
    then show ?case using u good_trans [OF t(2)] by blast
  qed
  from this [of 0] obtain t where t: "fold_res ?f (rev [0..<?n]) ?s1 = Inr t" "good ?h ?s1 t" "planned_from P 0 t"
    by auto
  have "visit (bits (relationIds ?h)) = [0..<?n]"
    using rel by (simp add: visit_ids lessThan_atLeast0)
  then have "solve P (start P s) = Inr (bud_exceeded t, t)"
    using t(1) solve_component [OF graph ne] by (simp add: solve_def solveComponent_def Let_def)
  moreover have "searching P t" by (rule searching_good [OF s1 t(2)])
  ultimately show ?thesis using t(3) by (simp add: searching_def)
qed

section \<open>Completeness\<close>

text \<open>
  C2: the exhaustive search succeeds and is complete. On a graph of plain inner edges, each between
  two relations, with one worker, no budget and a cost model that gives every plan a cost, the
  search ends without an error, without exceeding the budget, and holds a valid plan for every
  connected set of relations: \<open>connectedComponent\<close> of its least relation within the set is the
  whole set. In particular a connected graph gets a plan.
\<close>

theorem dphyp_complete:
  assumes "simple_planner P" and "relations (graph P) \<noteq> []"
  shows "\<exists>t. solve P (start P s) = Inr (False, t) \<and>
    (\<forall>S. \<not> rs_empty S \<and> rs_isSubset S (relationIds (graph P)) \<and>
         connectedComponent (graph P) (singleton (rs_min S)) S = S \<longrightarrow>
       (\<exists>p. cheapestPlan P S t = Some p \<and> plan_ok (graph P) p \<and> cover p = S))"
proof -
  obtain t where t: "solve P (start P s) = Inr (False, t)" "searching P t" "planned_from P 0 t"
    using solve_planned [OF assms] by blast
  have memo: "memo_ok (graph P) (memo t)" using t(2) by (simp add: searching_def)
  have "\<exists>p. cheapestPlan P S t = Some p \<and> plan_ok (graph P) p \<and> cover p = S"
    if S: "\<not> rs_empty S" "rs_isSubset S (relationIds (graph P))"
      "connectedComponent (graph P) (singleton (rs_min S)) S = S" for S
  proof -
    have ne: "ids S \<noteq> {}" using S(1) by (simp add: set_abs)
    have m: "rs_min S \<in> ids S" using ids_min [OF ne] Min_in [OF ids_finite ne] by simp
    have "ids S = {i. reaches (edges (graph P)) (ids S) {rs_min S} i}"
      using arg_cong [OF S(3), of ids] ids_bound [OF m] by (simp add: connectedComponent_reaches set_abs)
    then have "spans (graph P) {rs_min S} (ids S)" using m by (auto simp: spans_def)
    then have "connected (graph P) (ids S)"
      using assms(1) by (intro spans_singleton) (simp_all add: simple_planner_def)
    then have "memo t S \<noteq> None" using t(3) S(2) by (simp add: planned_from_def set_abs)
    then obtain p where "cheapestPlan P S t = Some p" using cheapestPlan_known [OF memo, of S P] by blast
    then show ?thesis using cheapestPlan_ok [OF _ memo] by blast
  qed
  then show ?thesis using t(1) by blast
qed

lemma two_way_simple: "simple_planner (two_way_planner 1 0)"
proof -
  have "rs_size (leftEligibility two_way_edge) = 1 \<and> rs_size (rightEligibility two_way_edge) = 1" by code_simp
  then show ?thesis
    using two_way_graph(1) [of 1 0]
    by (simp add: simple_planner_def simple_graph_def filterable_def two_way_planner_def)
qed

theorem dphyp_complete_witness:
  "\<exists>t p. solve (two_way_planner 1 0) (start (two_way_planner 1 0) (initial_state (two_way_planner 1 0) ())) = Inr (False, t) \<and>
     cheapestPlan (two_way_planner 1 0) (RelationSet 3) t = Some p \<and> cover p = RelationSet 3"
proof -
  have "\<not> rs_empty (RelationSet 3) \<and> rs_isSubset (RelationSet 3) (relationIds two_way_join) \<and>
      connectedComponent two_way_join (singleton (rs_min (RelationSet 3))) (RelationSet 3) = RelationSet 3"
    by code_simp
  then show ?thesis
    using dphyp_complete [OF two_way_simple, of "initial_state (two_way_planner 1 0) ()"] two_way_graph(2) by auto
qed

end
