(* ===== verification/Query_Expr.thy ===== *)
theory Query_Expr
  imports Expr_Domain
begin

text \<open>
  The interned expressions of the second optimizer (\<^verbatim>\<open>optimizer/QueryGraph.h\<close>), the part of its
  \<open>Builder\<close> that interns them (\<^verbatim>\<open>optimizer/v2/Builder.h\<close> and \<^verbatim>\<open>.cpp\<close>) and the constructors of
  \<^verbatim>\<open>optimizer/v2/ExprFactory.h\<close> and \<^verbatim>\<open>.cpp\<close>. An expression carries the id of its object, so equality
  of expressions is the code's equality of pointers. Every operation that may intern takes the
  builder and returns it changed, or an error.
\<close>

section \<open>Types, values and expressions\<close>

text \<open>
  Velox types as far as the code looks into them. \<open>PrimitiveT\<close> and \<open>ComplexT\<close> stand for the
  other primitive types and for the other types with parts (maps, functions, opaque types).
\<close>

datatype vtype =
  BooleanT | BigintT | DoubleT | PrimitiveT nat | ArrayT vtype | RowT "(string \<times> vtype) list" | ComplexT nat

datatype variant =
  VNull | VBool bool | VInt int | VScalar nat | VRow "variant list" | VArray "variant list"

datatype qexpr =
  Column nat vtype
| Literal nat vtype variant
| Call nat string vtype function_set "qexpr list"
| Field nat vtype qexpr "string + nat"
| Lambda nat vtype "(nat \<times> vtype) list" qexpr
| OtherExpr nat vtype "nat list" function_set

fun qe_id :: "qexpr \<Rightarrow> nat" where
  "qe_id (Column i t) = i"
| "qe_id (Literal i t v) = i"
| "qe_id (Call i n t fs args) = i"
| "qe_id (Field i t base sel) = i"
| "qe_id (Lambda i t bound body) = i"
| "qe_id (OtherExpr i t cs fs) = i"

fun qe_type :: "qexpr \<Rightarrow> vtype" where
  "qe_type (Column i t) = t"
| "qe_type (Literal i t v) = t"
| "qe_type (Call i n t fs args) = t"
| "qe_type (Field i t base sel) = t"
| "qe_type (Lambda i t bound body) = t"
| "qe_type (OtherExpr i t cs fs) = t"

fun qe_functions :: "qexpr \<Rightarrow> function_set" where
  "qe_functions (Call i n t fs args) = fs"
| "qe_functions (Field i t base sel) = qe_functions base"
| "qe_functions (Lambda i t bound body) = qe_functions body"
| "qe_functions (OtherExpr i t cs fs) = fs"
| "qe_functions _ = FunctionSet 0"

fun qe_columns :: "qexpr \<Rightarrow> nat set" where
  "qe_columns (Column i t) = {i}"
| "qe_columns (Literal i t v) = {}"
| "qe_columns (Call i n t fs args) = (\<Union>a\<in>set args. qe_columns a)"
| "qe_columns (Field i t base sel) = qe_columns base"
| "qe_columns (Lambda i t bound body) = qe_columns body - set (map fst bound)"
| "qe_columns (OtherExpr i t cs fs) = set cs"

definition containsFunction :: "qexpr \<Rightarrow> u64 \<Rightarrow> bool" where
  "containsFunction e bits = fs_contains (qe_functions e) bits"

definition containsNonDeterministic :: "qexpr \<Rightarrow> bool" where
  "containsNonDeterministic e = containsFunction e kNonDeterministic"

fun is_literal :: "qexpr \<Rightarrow> bool" where
  "is_literal (Literal i t v) = True"
| "is_literal _ = False"

fun is_call :: "string \<Rightarrow> qexpr \<Rightarrow> bool" where
  "is_call name (Call i n t fs args) = (n = name)"
| "is_call name _ = False"

fun isConstantNull :: "qexpr \<Rightarrow> bool" where
  "isConstantNull (Literal i t v) = (v = VNull)"
| "isConstantNull _ = False"

text \<open>The set of the properties of a call: its own ones and those of its arguments.\<close>

definition unionArgFunctions :: "function_set \<Rightarrow> qexpr list \<Rightarrow> function_set" where
  "unionArgFunctions base args = foldl (\<lambda>fs a. fs_or fs (qe_functions a)) base args"

section \<open>Special forms\<close>

definition kTry :: string where "kTry = ''__try''"
definition kCoalesce :: string where "kCoalesce = ''__coalesce''"
definition kIf :: string where "kIf = ''__if''"
definition kSwitch :: string where "kSwitch = ''__switch''"
definition kNullIf :: string where "kNullIf = ''__nullif''"
definition kDereference :: string where "kDereference = ''__dereference''"
definition kRowConstructor :: string where "kRowConstructor = ''__row_constructor''"

lemmas form_names = kAnd_def kOr_def kCast_def kTryCast_def kTry_def kCoalesce_def kIf_def
  kSwitch_def kIn_def kNullIf_def kDereference_def kRowConstructor_def

fun toCallName :: "special_form \<Rightarrow> string option" where
  "toCallName KAnd = Some kAnd"
| "toCallName KOr = Some kOr"
| "toCallName KCast = Some kCast"
| "toCallName KTryCast = Some kTryCast"
| "toCallName KTry = Some kTry"
| "toCallName KCoalesce = Some kCoalesce"
| "toCallName KIf = Some kIf"
| "toCallName KSwitch = Some kSwitch"
| "toCallName KIn = Some kIn"
| "toCallName KInArray = Some kIn"
| "toCallName KNullIf = Some kNullIf"
| "toCallName KDereference = Some kDereference"
| "toCallName KRowConstructor = Some kRowConstructor"
| "toCallName _ = None"

definition tryFromCallName :: "string \<Rightarrow> special_form option" where
  "tryFromCallName name =
     (if name = kAnd then Some KAnd
      else if name = kOr then Some KOr
      else if name = kCast then Some KCast
      else if name = kTryCast then Some KTryCast
      else if name = kTry then Some KTry
      else if name = kCoalesce then Some KCoalesce
      else if name = kIf then Some KIf
      else if name = kSwitch then Some KSwitch
      else if name = kIn then Some KIn
      else if name = kNullIf then Some KNullIf
      else if name = kDereference then Some KDereference
      else if name = kRowConstructor then Some KRowConstructor
      else None)"

definition isSpecialForm :: "string \<Rightarrow> bool" where
  "isSpecialForm name = (tryFromCallName name \<noteq> None)"

definition isRowConstructor :: "string \<Rightarrow> bool" where
  "isRowConstructor name = (name = kRowConstructor)"

text \<open>
  \<open>Call::constantInList\<close>: the values of \<open>__in(value, array literal)\<close>. The equivalence of Velox
  types is a parameter. The check on the literal's variant is the one \<open>Variant::array()\<close> makes.
\<close>

fun in_list_literal :: "(vtype \<Rightarrow> vtype \<Rightarrow> bool) \<Rightarrow> string \<Rightarrow> qexpr list \<Rightarrow> variant list option" where
  "in_list_literal eqv name [v, Literal i (ArrayT t) (VArray xs)] =
     (if name \<noteq> kIn then None else if \<not> eqv t (qe_type v) then None else Some xs)"
| "in_list_literal eqv name _ = None"

section \<open>The builder\<close>

text \<open>\<open>OutOfFuel\<close> is no error of the code: it ends the recursions the model bounds.\<close>

datatype expr_error =
  NotRegistered | CheckFailed | NotSupported | Conflict | UnknownFunction registry_error | OutOfFuel

text \<open>What a builder reads of its query context, and the state that interning changes.\<close>

record dialect =
  d_names :: function_names
  d_internal :: internal_function_names
  d_reversible :: "string \<rightharpoonup> string"
  d_bits :: "string \<Rightarrow> bool \<Rightarrow> registry_error + function_set"

record builder =
  b_next :: nat
  b_literals :: "vtype \<times> variant \<rightharpoonup> qexpr"
  b_calls :: "string \<times> vtype \<times> qexpr list \<rightharpoonup> qexpr"

type_synonym 'a build = "builder \<Rightarrow> expr_error + 'a \<times> builder"

definition ret :: "'a \<Rightarrow> 'a build" where
  "ret x b = Inr (x, b)"

definition throw :: "expr_error \<Rightarrow> 'a build" where
  "throw e b = Inl e"

definition andThen :: "'a build \<Rightarrow> ('a \<Rightarrow> 'c build) \<Rightarrow> 'c build" where
  "andThen act k b = (case act b of Inl e \<Rightarrow> Inl e | Inr (x, b') \<Rightarrow> k x b')"

definition require :: "bool \<Rightarrow> 'a build \<Rightarrow> 'a build" where
  "require c act = (if c then act else throw CheckFailed)"

definition with_name :: "string option \<Rightarrow> (string \<Rightarrow> 'a build) \<Rightarrow> 'a build" where
  "with_name name k = (case name of None \<Rightarrow> throw NotRegistered | Some n \<Rightarrow> k n)"

text \<open>
  The constructor \<open>Builder::Builder\<close> records both directions of each reversible pair, in the
  order the registry lists them; a name that is already present keeps its reverse.
\<close>

definition add_reverse :: "string \<times> string \<Rightarrow> (string \<rightharpoonup> string) \<Rightarrow> (string \<rightharpoonup> string)" where
  "add_reverse p m =
     (let m = snd (emplace m (fst p) (snd p)) in snd (emplace m (snd p) (fst p)))"

definition new_dialect ::
  "function_names \<Rightarrow> internal_function_names \<Rightarrow> (string \<times> string) list \<Rightarrow>
   (string \<Rightarrow> bool \<Rightarrow> registry_error + function_set) \<Rightarrow> dialect" where
  "new_dialect names internal reversibles bits =
     \<lparr>d_names = names, d_internal = internal,
      d_reversible = fold add_reverse reversibles Map.empty, d_bits = bits\<rparr>"

definition new_builder :: builder where
  "new_builder = \<lparr>b_next = 0, b_literals = Map.empty, b_calls = Map.empty\<rparr>"

definition shouldInvert :: "qexpr \<Rightarrow> qexpr \<Rightarrow> bool" where
  "shouldInvert l r =
     (if qe_type l \<noteq> qe_type r then False
      else if is_literal l \<and> \<not> is_literal r then True
      else \<not> is_literal l \<and> \<not> is_literal r \<and> qe_id l > qe_id r)"

fun canonicalizeCall :: "dialect \<Rightarrow> string \<Rightarrow> qexpr list \<Rightarrow> string \<times> qexpr list" where
  "canonicalizeCall D name [x, y] =
     (case d_reversible D name of
        None \<Rightarrow> (name, [x, y])
      | Some reversed \<Rightarrow> if \<not> shouldInvert x y then (name, [x, y]) else (reversed, [y, x]))"
| "canonicalizeCall D name args = (name, args)"

definition make_object :: "(nat \<Rightarrow> qexpr) \<Rightarrow> qexpr build" where
  "make_object mk b = Inr (mk (b_next b), b\<lparr>b_next := b_next b + 1\<rparr>)"

definition makeLiteral :: "variant \<Rightarrow> vtype \<Rightarrow> qexpr build" where
  "makeLiteral v t b =
     (case b_literals b (t, v) of
        Some l \<Rightarrow> Inr (l, b)
      | None \<Rightarrow>
          (let l = Literal (b_next b) t v
           in Inr (l, b\<lparr>b_next := b_next b + 1, b_literals := (b_literals b)((t, v) \<mapsto> l)\<rparr>)))"

definition builder_makeCall :: "dialect \<Rightarrow> string \<Rightarrow> vtype \<Rightarrow> qexpr list \<Rightarrow> function_set \<Rightarrow> qexpr build" where
  "builder_makeCall D name t args functions b =
     (if fs_contains functions kNonDeterministic
      then make_object (\<lambda>i. Call i name t functions args) b
      else let (name, args) = canonicalizeCall D name args in
        case b_calls b (name, t, args) of
          Some c \<Rightarrow> Inr (c, b)
        | None \<Rightarrow>
            (let c = Call (b_next b) name t functions args
             in Inr (c, b\<lparr>b_next := b_next b + 1, b_calls := (b_calls b)((name, t, args) \<mapsto> c)\<rparr>)))"

definition makeBoolean :: "bool \<Rightarrow> qexpr build" where
  "makeBoolean v = makeLiteral (VBool v) BooleanT"

definition makeNull :: "vtype \<Rightarrow> qexpr build" where
  "makeNull t = makeLiteral VNull t"

definition makeEmptyArray :: "vtype \<Rightarrow> qexpr build" where
  "makeEmptyArray t = makeLiteral (VArray []) t"

section \<open>The factory\<close>

definition factory_makeCall :: "dialect \<Rightarrow> string \<Rightarrow> vtype \<Rightarrow> qexpr list \<Rightarrow> bool \<Rightarrow> qexpr build" where
  "factory_makeCall D name t args special =
     (case d_bits D name special of
        Inl e \<Rightarrow> throw (UnknownFunction e)
      | Inr bits \<Rightarrow> builder_makeCall D name t args (unionArgFunctions bits args))"

definition makeBooleanCall :: "dialect \<Rightarrow> string \<Rightarrow> qexpr list \<Rightarrow> bool \<Rightarrow> qexpr build" where
  "makeBooleanCall D name args special = factory_makeCall D name BooleanT args special"

definition makeAnd :: "dialect \<Rightarrow> qexpr \<Rightarrow> qexpr \<Rightarrow> qexpr build" where
  "makeAnd D l r =
     (if l = r \<and> \<not> containsNonDeterministic l then ret l
      else makeBooleanCall D kAnd [l, r] True)"

definition makeOr :: "dialect \<Rightarrow> qexpr \<Rightarrow> qexpr \<Rightarrow> qexpr build" where
  "makeOr D l r = makeBooleanCall D kOr [l, r] True"

fun flattenInto :: "string \<Rightarrow> qexpr \<Rightarrow> qexpr list" where
  "flattenInto name (Call i n t fs args) =
     (if n = name then concat (map (flattenInto name) args) else [Call i n t fs args])"
| "flattenInto name e = [e]"

definition flattenAnd :: "qexpr \<Rightarrow> qexpr list" where
  "flattenAnd e = flattenInto kAnd e"

definition flattenOr :: "qexpr \<Rightarrow> qexpr list" where
  "flattenOr e = flattenInto kOr e"

fun chain_with :: "(qexpr \<Rightarrow> qexpr \<Rightarrow> qexpr build) \<Rightarrow> qexpr \<Rightarrow> qexpr list \<Rightarrow> qexpr build" where
  "chain_with combine acc [] = ret acc"
| "chain_with combine acc (p # ps) = andThen (combine acc p) (\<lambda>r. chain_with combine r ps)"

fun andAll :: "dialect \<Rightarrow> qexpr list \<Rightarrow> qexpr build" where
  "andAll D [] = throw CheckFailed"
| "andAll D (p # ps) = chain_with (makeAnd D) p ps"

fun orAll :: "dialect \<Rightarrow> qexpr list \<Rightarrow> qexpr build" where
  "orAll D [] = throw CheckFailed"
| "orAll D (p # ps) = chain_with (makeOr D) p ps"

definition makeNot :: "dialect \<Rightarrow> qexpr \<Rightarrow> qexpr build" where
  "makeNot D x = with_name (fn_negation (d_names D)) (\<lambda>n. makeBooleanCall D n [x] False)"

definition makeEq :: "dialect \<Rightarrow> qexpr \<Rightarrow> qexpr \<Rightarrow> qexpr build" where
  "makeEq D l r = with_name (fn_equality (d_names D)) (\<lambda>n. makeBooleanCall D n [l, r] False)"

definition makeNotDistinctFrom :: "dialect \<Rightarrow> qexpr \<Rightarrow> qexpr \<Rightarrow> qexpr build" where
  "makeNotDistinctFrom D l r =
     with_name (fn_distinctFrom (d_names D))
       (\<lambda>n. andThen (makeBooleanCall D n [l, r] False) (makeNot D))"

fun literalEquality :: "dialect \<Rightarrow> qexpr \<Rightarrow> (qexpr \<times> qexpr) option" where
  "literalEquality D (Call i n t fs (x # y # args)) =
     (if Some n \<noteq> fn_equality (d_names D) \<or> \<not> is_literal y then None else Some (x, y))"
| "literalEquality D e = None"

definition makeLessThan :: "dialect \<Rightarrow> qexpr \<Rightarrow> qexpr \<Rightarrow> qexpr build" where
  "makeLessThan D l r = with_name (fn_lt (d_names D)) (\<lambda>n. makeBooleanCall D n [l, r] False)"

definition makeLessThanOrEqual :: "dialect \<Rightarrow> qexpr \<Rightarrow> qexpr \<Rightarrow> qexpr build" where
  "makeLessThanOrEqual D l r = with_name (fn_lte (d_names D)) (\<lambda>n. makeBooleanCall D n [l, r] False)"

definition makeGreaterThan :: "dialect \<Rightarrow> qexpr \<Rightarrow> qexpr \<Rightarrow> qexpr build" where
  "makeGreaterThan D l r = with_name (fn_gt (d_names D)) (\<lambda>n. makeBooleanCall D n [l, r] False)"

definition makeGreaterThanOrEqual :: "dialect \<Rightarrow> qexpr \<Rightarrow> qexpr \<Rightarrow> qexpr build" where
  "makeGreaterThanOrEqual D l r = with_name (fn_gte (d_names D)) (\<lambda>n. makeBooleanCall D n [l, r] False)"

definition makeBetween :: "dialect \<Rightarrow> qexpr \<Rightarrow> qexpr \<Rightarrow> qexpr \<Rightarrow> qexpr build" where
  "makeBetween D v l r = with_name (fn_between (d_names D)) (\<lambda>n. makeBooleanCall D n [v, l, r] False)"

definition makeIsNull :: "dialect \<Rightarrow> qexpr \<Rightarrow> qexpr build" where
  "makeIsNull D x = with_name (fn_isNull (d_names D)) (\<lambda>n. makeBooleanCall D n [x] False)"

definition makeInternalCall :: "dialect \<Rightarrow> string option \<Rightarrow> vtype \<Rightarrow> qexpr list \<Rightarrow> qexpr build" where
  "makeInternalCall D name t args = with_name name (\<lambda>n. factory_makeCall D n t args False)"

definition makeBigintAdd :: "dialect \<Rightarrow> qexpr \<Rightarrow> qexpr \<Rightarrow> qexpr build" where
  "makeBigintAdd D l r =
     require (qe_type l = BigintT) (require (qe_type r = BigintT)
       (makeInternalCall D (in_bigintAdd (d_internal D)) (qe_type l) [l, r]))"

definition makeArrayAppend :: "dialect \<Rightarrow> qexpr \<Rightarrow> qexpr \<Rightarrow> qexpr build" where
  "makeArrayAppend D arr x = makeInternalCall D (in_arrayAppend (d_internal D)) (qe_type arr) [arr, x]"

definition makeArrayPrepend :: "dialect \<Rightarrow> qexpr \<Rightarrow> qexpr \<Rightarrow> qexpr build" where
  "makeArrayPrepend D x arr = makeInternalCall D (in_arrayPrepend (d_internal D)) (qe_type arr) [x, arr]"

fun first_occurrences :: "'a list \<Rightarrow> 'a list \<Rightarrow> 'a list" where
  "first_occurrences seen [] = []"
| "first_occurrences seen (x # xs) =
     (if x \<in> set seen then first_occurrences seen xs
      else x # first_occurrences (x # seen) xs)"

definition makeIn :: "dialect \<Rightarrow> qexpr \<Rightarrow> variant list \<Rightarrow> qexpr build" where
  "makeIn D v vs =
     require (vs \<noteq> [])
       (let vs = first_occurrences [] vs in
        if length vs > 1
        then andThen (makeLiteral (VArray vs) (ArrayT (qe_type v)))
               (\<lambda>l. makeBooleanCall D kIn [v, l] True)
        else andThen (makeLiteral (hd vs) (qe_type v)) (makeEq D v))"

definition makeCardinality :: "dialect \<Rightarrow> qexpr \<Rightarrow> qexpr build" where
  "makeCardinality D v =
     with_name (fn_cardinality (d_names D)) (\<lambda>n. factory_makeCall D n BigintT [v] False)"

definition makeRowNumber :: "dialect \<Rightarrow> qexpr build" where
  "makeRowNumber D =
     with_name (fn_rowNumber (d_names D)) (\<lambda>n. builder_makeCall D n BigintT []
       (fs_or_bits (fs_or_bits (FunctionSet 0) kNonDeterministic) kNonDefaultNullBehavior))"

definition makeRowConstructor :: "dialect \<Rightarrow> qexpr list \<Rightarrow> vtype \<Rightarrow> qexpr build" where
  "makeRowConstructor D args t = factory_makeCall D kRowConstructor t args True"

definition makeSamplePredicate :: "dialect \<Rightarrow> variant \<Rightarrow> qexpr build" where
  "makeSamplePredicate D fraction =
     with_name (fn_random (d_names D)) (\<lambda>rand. with_name (fn_lt (d_names D)) (\<lambda>lt.
       case d_bits D rand False of
         Inl e \<Rightarrow> throw (UnknownFunction e)
       | Inr bits \<Rightarrow>
           andThen (builder_makeCall D rand DoubleT [] bits) (\<lambda>call.
           andThen (makeLiteral fraction DoubleT) (\<lambda>threshold.
           makeBooleanCall D lt [call, threshold] False))))"

definition makeCoalesce :: "dialect \<Rightarrow> qexpr \<Rightarrow> qexpr \<Rightarrow> qexpr build" where
  "makeCoalesce D v fallback = factory_makeCall D kCoalesce (qe_type v) [v, fallback] True"

definition canonicalizeCoalesce :: "dialect \<Rightarrow> qexpr \<Rightarrow> qexpr \<Rightarrow> qexpr build" where
  "canonicalizeCoalesce D x y =
     (let (x, y) = (if shouldInvert x y then (y, x) else (x, y)) in makeCoalesce D x y)"

definition makeIf :: "dialect \<Rightarrow> qexpr \<Rightarrow> qexpr \<Rightarrow> qexpr \<Rightarrow> qexpr build" where
  "makeIf D c x y = factory_makeCall D kIf (qe_type x) [c, x, y] True"

definition makeSwitch :: "dialect \<Rightarrow> (qexpr \<times> qexpr) list \<Rightarrow> qexpr \<Rightarrow> qexpr build" where
  "makeSwitch D whens otherwise =
     require (whens \<noteq> [])
       (factory_makeCall D kSwitch (qe_type (snd (hd whens)))
          (concat (map (\<lambda>(c, r). [c, r]) whens) @ [otherwise]) True)"

fun rebuildCall :: "dialect \<Rightarrow> qexpr \<Rightarrow> qexpr list \<Rightarrow> qexpr build" where
  "rebuildCall D (Call i n t fs args0) args =
     builder_makeCall D n t args (unionArgFunctions fs args)"
| "rebuildCall D e args = throw CheckFailed"

fun rebuildField :: "qexpr \<Rightarrow> qexpr \<Rightarrow> qexpr build" where
  "rebuildField (Field i t base0 sel) base = make_object (\<lambda>j. Field j t base sel)"
| "rebuildField e base = throw CheckFailed"

fun rebuildLambda :: "qexpr \<Rightarrow> qexpr \<Rightarrow> qexpr build" where
  "rebuildLambda (Lambda i t bound body0) body = make_object (\<lambda>j. Lambda j t bound body)"
| "rebuildLambda e body = throw CheckFailed"

end
