(* ===== verification/Expr_Semantics.thy ===== *)
theory Expr_Semantics
  imports Query_Expr
begin

text \<open>
  What expressions mean. Velox evaluates them, so its functions are a parameter (a \<open>runtime\<close>),
  with the documented behaviour of the special forms and of the functions the optimizer names as
  hypotheses (\<open>runtime_ok\<close>). Evaluation of a row may fail, and a failed evaluation is \<open>None\<close>. A call
  gets a seed per object, which only functions that are not deterministic read.
\<close>

section \<open>Evaluation\<close>

datatype rvalue = Val "variant option" | Fun "variant list \<Rightarrow> variant option"

fun sval :: "rvalue \<Rightarrow> variant option" where
  "sval (Val r) = r"
| "sval (Fun f) = None"

record 'w runtime =
  run :: "'w \<Rightarrow> string \<Rightarrow> vtype \<Rightarrow> (vtype \<times> rvalue) list \<Rightarrow> variant option"
  select_field :: "vtype \<Rightarrow> string + nat \<Rightarrow> variant \<Rightarrow> variant option"
  other_value :: "'w option \<Rightarrow> nat \<Rightarrow> vtype \<Rightarrow> (nat \<Rightarrow> variant) \<Rightarrow> variant option"
  type_equivalent :: "vtype \<Rightarrow> vtype \<Rightarrow> bool"

type_synonym env = "nat \<Rightarrow> variant"

fun has_type :: "variant \<Rightarrow> vtype \<Rightarrow> bool" and have_types :: "variant list \<Rightarrow> vtype list \<Rightarrow> bool" where
  "has_type VNull t = True"
| "has_type (VBool x) t = (t = BooleanT)"
| "has_type (VInt x) t = (case t of BigintT \<Rightarrow> True | PrimitiveT k \<Rightarrow> True | _ \<Rightarrow> False)"
| "has_type (VScalar x) t = (case t of DoubleT \<Rightarrow> True | PrimitiveT k \<Rightarrow> True | ComplexT k \<Rightarrow> True | _ \<Rightarrow> False)"
| "has_type (VRow vs) t = (case t of RowT fs \<Rightarrow> have_types vs (map snd fs) | _ \<Rightarrow> False)"
| "has_type (VArray vs) t = (case t of ArrayT u \<Rightarrow> have_types vs (replicate (length vs) u) | _ \<Rightarrow> False)"
| "have_types [] ts = (ts = [])"
| "have_types (v # vs) ts = (case ts of [] \<Rightarrow> False | t # ts \<Rightarrow> has_type v t \<and> have_types vs ts)"

fun bind_args :: "nat list \<Rightarrow> variant list \<Rightarrow> env \<Rightarrow> env" where
  "bind_args (i # is) (v # vs) \<rho> = (bind_args is vs \<rho>)(i := v)"
| "bind_args (i # is) [] \<rho> = (bind_args is [] \<rho>)(i := VNull)"
| "bind_args [] vs \<rho> = \<rho>"

definition nondet :: "function_set \<Rightarrow> bool" where
  "nondet fs = fs_contains fs kNonDeterministic"

fun qeval :: "'w runtime \<Rightarrow> (nat \<Rightarrow> 'w) \<Rightarrow> qexpr \<Rightarrow> env \<Rightarrow> rvalue" where
  "qeval R w (Column i t) \<rho> = Val (Some (\<rho> i))"
| "qeval R w (Literal i t v) \<rho> = Val (Some v)"
| "qeval R w (Call i n t fs args) \<rho> =
     Val (run R (w i) n t (map (\<lambda>a. (qe_type a, qeval R w a \<rho>)) args))"
| "qeval R w (Field i t base sel) \<rho> =
     Val (case sval (qeval R w base \<rho>) of None \<Rightarrow> None | Some v \<Rightarrow> select_field R t sel v)"
| "qeval R w (Lambda i t bound body) \<rho> =
     Fun (\<lambda>vs. if have_types vs (map snd bound)
       then sval (qeval R w body (bind_args (map fst bound) vs \<rho>)) else None)"
| "qeval R w (OtherExpr i t cs fs) \<rho> =
     Val (other_value R (if nondet fs then Some (w i) else None) i t
       (\<lambda>c. if c \<in> set cs then \<rho> c else VNull))"

definition holds :: "'w runtime \<Rightarrow> (nat \<Rightarrow> 'w) \<Rightarrow> env \<Rightarrow> qexpr \<Rightarrow> bool" where
  "holds R w \<rho> e = (sval (qeval R w e \<rho>) = Some (VBool True))"

section \<open>Values of the special forms\<close>

definition and_result :: "variant option list \<Rightarrow> variant option" where
  "and_result rs =
     (if Some (VBool False) \<in> set rs then Some (VBool False)
      else if None \<in> set rs then None
      else if Some VNull \<in> set rs then Some VNull
      else Some (VBool True))"

definition or_result :: "variant option list \<Rightarrow> variant option" where
  "or_result rs =
     (if Some (VBool True) \<in> set rs then Some (VBool True)
      else if None \<in> set rs then None
      else if Some VNull \<in> set rs then Some VNull
      else Some (VBool False))"

fun coalesce_result :: "variant option list \<Rightarrow> variant option" where
  "coalesce_result [] = Some VNull"
| "coalesce_result (r # rs) = (if r = Some VNull then coalesce_result rs else r)"

fun switch_result :: "variant option list \<Rightarrow> variant option" where
  "switch_result [] = Some VNull"
| "switch_result [r] = r"
| "switch_result (c # r # rs) =
     (case c of None \<Rightarrow> None | Some v \<Rightarrow> if v = VBool True then r else switch_result rs)"

definition row_result :: "variant option list \<Rightarrow> variant option" where
  "row_result rs = (if None \<in> set rs then None else Some (VRow (map the rs)))"

definition in_result :: "(variant \<Rightarrow> variant \<Rightarrow> variant option) \<Rightarrow> variant \<Rightarrow> variant list \<Rightarrow> variant option" where
  "in_result eq x vs =
     (if x = VNull then Some VNull else or_result (map (eq x) vs))"

definition sql_eq :: "'w runtime \<Rightarrow> string \<Rightarrow> 'w \<Rightarrow> vtype \<Rightarrow> variant \<Rightarrow> variant \<Rightarrow> variant option" where
  "sql_eq R n s t x y = run R s n BooleanT [(t, Val (Some x)), (t, Val (Some y))]"

definition isPrimitiveType :: "vtype \<Rightarrow> bool" where
  "isPrimitiveType t = (case t of ArrayT u \<Rightarrow> False | RowT fs \<Rightarrow> False | ComplexT k \<Rightarrow> False | _ \<Rightarrow> True)"

section \<open>When a result refines another\<close>

text \<open>Simplification may remove a failure, and never changes a value.\<close>

definition res_le :: "variant option \<Rightarrow> variant option \<Rightarrow> bool" where
  "res_le x y = (x = None \<or> x = y)"

fun refines :: "rvalue \<Rightarrow> rvalue \<Rightarrow> bool" where
  "refines (Val x) (Val y) = res_le x y"
| "refines (Fun f) (Fun g) = (\<forall>vs. res_le (f vs) (g vs))"
| "refines _ _ = False"

lemma res_le_refl [simp]: "res_le x x" and res_le_None [simp]: "res_le None x"
  by (simp_all add: res_le_def)

lemma res_le_trans: "res_le x y \<Longrightarrow> res_le y z \<Longrightarrow> res_le x z"
  by (auto simp: res_le_def)

lemma res_le_Some [simp]: "res_le (Some v) y \<longleftrightarrow> y = Some v"
  by (auto simp: res_le_def)

lemma refines_refl [simp]: "refines x x"
  by (cases x) auto

lemma refines_trans: "refines x y \<Longrightarrow> refines y z \<Longrightarrow> refines x z"
  by (cases x; cases y; cases z) (auto intro: res_le_trans)

lemma refines_sval: "refines x y \<Longrightarrow> res_le (sval x) (sval y)"
  by (cases x; cases y) auto

section \<open>The contracts\<close>

definition det_name :: "dialect \<Rightarrow> string \<Rightarrow> bool" where
  "det_name D n = (\<exists>bs. d_bits D n (isSpecialForm n) = Inr bs \<and> \<not> nondet bs)"

text \<open>
  The dialect: the functions the factory names are deterministic and no special forms, and a
  reversible function, its reverse and the equality keep apart from the special forms.
\<close>

definition plain_names :: "dialect \<Rightarrow> string set" where
  "plain_names D = set (List.map_filter (\<lambda>x. x)
     [fn_equality (d_names D), fn_negation (d_names D), fn_isNull (d_names D)])"

definition dialect_ok :: "dialect \<Rightarrow> bool" where
  "dialect_ok D \<longleftrightarrow>
     (\<forall>n\<in>plain_names D. \<not> isSpecialForm n \<and> det_name D n) \<and>
     fn_equality (d_names D) \<noteq> None \<and> fn_negation (d_names D) \<noteq> None \<and>
     distinct [fn_equality (d_names D), fn_negation (d_names D), fn_isNull (d_names D)] \<and>
     (\<forall>n. isSpecialForm n \<longrightarrow> d_bits D n True = Inr (FunctionSet kNonDefaultNullBehavior)) \<and>
     (\<forall>n n'. d_reversible D n = Some n' \<longrightarrow> \<not> isSpecialForm n \<and> \<not> isSpecialForm n' \<and>
        (det_name D n \<longrightarrow> det_name D n') \<and> Some n' \<notin> {fn_negation (d_names D), fn_isNull (d_names D)} \<and>
        (Some n = fn_equality (d_names D) \<longleftrightarrow> Some n' = fn_equality (d_names D)))"

definition args_values :: "(vtype \<times> rvalue) list \<Rightarrow> variant option list" where
  "args_values xs = map (\<lambda>x. sval (snd x)) xs"

text \<open>Functions whose determinism the registry records, monotone in failures, and typed.\<close>

definition functions_ok :: "dialect \<Rightarrow> 'w runtime \<Rightarrow> bool" where
  "functions_ok D R \<longleftrightarrow>
     (\<forall>n s s' t xs. det_name D n \<longrightarrow> run R s n t xs = run R s' n t xs) \<and>
     (\<forall>n n' s t x y. d_reversible D n = Some n' \<longrightarrow> run R s n' t [y, x] = run R s n t [x, y]) \<and>
     (\<forall>n s t xs ys. n \<noteq> kTry \<longrightarrow> map fst xs = map fst ys \<longrightarrow>
        list_all2 refines (map snd xs) (map snd ys) \<longrightarrow> res_le (run R s n t xs) (run R s n t ys)) \<and>
     (\<forall>n s t xs v. n \<notin> {kCoalesce, kIf, kSwitch, kDereference, kRowConstructor} \<longrightarrow>
        run R s n t xs = Some v \<longrightarrow> has_type v t) \<and>
     (\<forall>n bs s t xs v. \<not> isSpecialForm n \<longrightarrow> d_bits D n False = Inr bs \<longrightarrow>
        \<not> fs_contains bs kNonDefaultNullBehavior \<longrightarrow> Some VNull \<in> set (args_values xs) \<longrightarrow>
        run R s n t xs = Some v \<longrightarrow> v = VNull) \<and>
     (\<forall>t sel v u. select_field R t sel v = Some u \<longrightarrow> has_type u t) \<and>
     (\<forall>s i t \<rho> u. other_value R s i t \<rho> = Some u \<longrightarrow> has_type u t)"

text \<open>The special forms.\<close>

definition forms_ok :: "dialect \<Rightarrow> 'w runtime \<Rightarrow> bool" where
  "forms_ok D R \<longleftrightarrow>
     (\<forall>s xs. run R s kAnd BooleanT xs = and_result (args_values xs)) \<and>
     (\<forall>s xs. run R s kOr BooleanT xs = or_result (args_values xs)) \<and>
     (\<forall>s t xs. run R s kCoalesce t xs = coalesce_result (args_values xs)) \<and>
     (\<forall>s t xs. run R s kIf t xs = switch_result (args_values xs)) \<and>
     (\<forall>s t xs. run R s kSwitch t xs = switch_result (args_values xs)) \<and>
     (\<forall>s t xs. run R s kRowConstructor t xs = row_result (args_values xs)) \<and>
     (\<forall>s t rt it vs k. k < length vs \<longrightarrow>
        run R s kDereference t [(rt, Val (Some (VRow vs))), (it, Val (Some (VInt (int k))))] = Some (vs ! k)) \<and>
     (\<forall>s t rt r ix. sval r = None \<longrightarrow> run R s kDereference t [(rt, r), ix] = None) \<and>
     (\<forall>s t rt it k. run R s kDereference t [(rt, Val (Some VNull)), (it, Val (Some (VInt k)))] = Some VNull) \<and>
     (\<forall>s t x te vs eqn. fn_equality (d_names D) = Some eqn \<longrightarrow> type_equivalent R te t \<longrightarrow>
        run R s kIn BooleanT [(t, Val (Some x)), (ArrayT te, Val (Some (VArray vs)))] =
          in_result (sql_eq R eqn s t) x vs) \<and>
     (\<forall>s t x ts vs eqn. fn_equality (d_names D) = Some eqn \<longrightarrow> (\<forall>u\<in>set ts. type_equivalent R u t) \<longrightarrow>
        length ts = length vs \<longrightarrow> vs \<noteq> [] \<longrightarrow>
        run R s kIn BooleanT ((t, Val (Some x)) # zip ts (map (\<lambda>v. Val (Some v)) vs)) =
          in_result (sql_eq R eqn s t) x vs) \<and>
     (\<forall>s t u r xs. sval r = None \<longrightarrow> run R s kIn t ((u, r) # xs) = None)"

text \<open>The functions with a role: equality, negation and \<open>is_null\<close>.\<close>

definition roles_ok :: "dialect \<Rightarrow> 'w runtime \<Rightarrow> bool" where
  "roles_ok D R \<longleftrightarrow>
     (\<forall>n s t y. fn_equality (d_names D) = Some n \<longrightarrow> run R s n BooleanT [(t, Val None), (t, Val y)] = None) \<and>
     (\<forall>n s t x. fn_equality (d_names D) = Some n \<longrightarrow> run R s n BooleanT [(t, Val x), (t, Val None)] = None) \<and>
     (\<forall>n s t x y. fn_equality (d_names D) = Some n \<longrightarrow> sql_eq R n s t x y \<noteq> None) \<and>
     (\<forall>n s t y. fn_equality (d_names D) = Some n \<longrightarrow> sql_eq R n s t VNull y = Some VNull) \<and>
     (\<forall>n s t x. fn_equality (d_names D) = Some n \<longrightarrow> sql_eq R n s t x VNull = Some VNull) \<and>
     (\<forall>n s t v. fn_equality (d_names D) = Some n \<longrightarrow> isPrimitiveType t \<longrightarrow> v \<noteq> VNull \<longrightarrow> has_type v t \<longrightarrow>
        sql_eq R n s t v v = Some (VBool True)) \<and>
     (\<forall>n s t x y. fn_equality (d_names D) = Some n \<longrightarrow>
        sql_eq R n s t x y = Some (VBool True) \<longrightarrow> sql_eq R n s t y x = Some (VBool True)) \<and>
     (\<forall>n s t x y z. fn_equality (d_names D) = Some n \<longrightarrow> sql_eq R n s t x y = Some (VBool True) \<longrightarrow>
        sql_eq R n s t y z = Some (VBool True) \<longrightarrow> sql_eq R n s t x z = Some (VBool True)) \<and>
     (\<forall>n s fs xs ys. fn_equality (d_names D) = Some n \<longrightarrow> length xs = length fs \<longrightarrow> length ys = length fs \<longrightarrow>
        sql_eq R n s (RowT fs) (VRow xs) (VRow ys) =
          and_result (map (\<lambda>(t, x, y). sql_eq R n s t x y) (zip (map snd fs) (zip xs ys)))) \<and>
     (\<forall>n s v. fn_negation (d_names D) = Some n \<longrightarrow>
        run R s n BooleanT [(BooleanT, Val (Some v))] =
          (case v of VBool x \<Rightarrow> Some (VBool (\<not> x)) | _ \<Rightarrow> Some VNull)) \<and>
     (\<forall>n s t v. fn_isNull (d_names D) = Some n \<longrightarrow>
        run R s n BooleanT [(t, Val (Some v))] = Some (VBool (v = VNull)))"

definition runtime_ok :: "dialect \<Rightarrow> 'w runtime \<Rightarrow> bool" where
  "runtime_ok D R \<longleftrightarrow> functions_ok D R \<and> forms_ok D R \<and> roles_ok D R \<and>
     (\<forall>t. type_equivalent R t t) \<and>
     (\<forall>t u v. type_equivalent R t u \<longrightarrow> has_type v t \<longrightarrow> has_type v u)"

lemma equivalent_types: "runtime_ok D R \<Longrightarrow> type_equivalent R t u \<Longrightarrow> has_type v t \<Longrightarrow> has_type v u"
  unfolding runtime_ok_def by blast

section \<open>Reading the contracts\<close>

lemmas ok_defs = runtime_ok_def functions_ok_def forms_ok_def roles_ok_def

lemma run_det: "runtime_ok D R \<Longrightarrow> det_name D n \<Longrightarrow> run R s n t xs = run R s' n t xs"
  unfolding runtime_ok_def functions_ok_def by (elim conjE) (meson | iprover | blast)

lemma run_reverse: "runtime_ok D R \<Longrightarrow> d_reversible D n = Some n' \<Longrightarrow> run R s n' t [y, x] = run R s n t [x, y]"
  unfolding runtime_ok_def functions_ok_def by (elim conjE) (meson | iprover | blast)

lemma run_monotone:
  assumes "runtime_ok D R" "n \<noteq> kTry" "map fst xs = map fst ys" "list_all2 refines (map snd xs) (map snd ys)"
  shows "res_le (run R s n t xs) (run R s n t ys)"
  using assms unfolding runtime_ok_def functions_ok_def by (elim conjE) (meson | iprover | blast)

lemma run_typed:
  assumes "runtime_ok D R" "n \<notin> {kCoalesce, kIf, kSwitch, kDereference, kRowConstructor}"
    "run R s n t xs = Some v"
  shows "has_type v t"
  using assms unfolding runtime_ok_def functions_ok_def by (elim conjE) (meson | iprover | blast)

lemma run_default_null:
  assumes "runtime_ok D R" "\<not> isSpecialForm n" "d_bits D n False = Inr bs"
    "\<not> fs_contains bs kNonDefaultNullBehavior" "Some VNull \<in> set (args_values xs)"
  shows "res_le (run R s n t xs) (Some VNull)"
proof (cases "run R s n t xs")
  case (Some v)
  then show ?thesis
    using assms unfolding runtime_ok_def functions_ok_def by (elim conjE) (metis res_le_refl)
qed simp

lemma run_and: "runtime_ok D R \<Longrightarrow> run R s kAnd BooleanT xs = and_result (args_values xs)"
  and run_or: "runtime_ok D R \<Longrightarrow> run R s kOr BooleanT xs = or_result (args_values xs)"
  and run_coalesce: "runtime_ok D R \<Longrightarrow> run R s kCoalesce t xs = coalesce_result (args_values xs)"
  and run_if: "runtime_ok D R \<Longrightarrow> run R s kIf t xs = switch_result (args_values xs)"
  and run_switch: "runtime_ok D R \<Longrightarrow> run R s kSwitch t xs = switch_result (args_values xs)"
  and run_row: "runtime_ok D R \<Longrightarrow> run R s kRowConstructor t xs = row_result (args_values xs)"
  and run_in_None: "runtime_ok D R \<Longrightarrow> sval r = None \<Longrightarrow> run R s kIn t ((u, r) # xs) = None"
  by (simp_all add: runtime_ok_def forms_ok_def)

lemma run_in_array:
  assumes "runtime_ok D R" "fn_equality (d_names D) = Some eqn" "type_equivalent R te t"
  shows "run R s kIn BooleanT [(t, Val (Some x)), (ArrayT te, Val (Some (VArray vs)))] =
    in_result (sql_eq R eqn s t) x vs"
  using assms unfolding runtime_ok_def forms_ok_def by (elim conjE) (meson | iprover | blast)

lemma run_in_list:
  assumes "runtime_ok D R" "fn_equality (d_names D) = Some eqn" "\<forall>u\<in>set ts. type_equivalent R u t"
    "length ts = length vs" "vs \<noteq> []"
  shows "run R s kIn BooleanT ((t, Val (Some x)) # zip ts (map (\<lambda>v. Val (Some v)) vs)) =
    in_result (sql_eq R eqn s t) x vs"
  using assms unfolding runtime_ok_def forms_ok_def by (elim conjE) (meson | iprover | blast)

lemma run_dereference:
  assumes "runtime_ok D R" "k < length vs"
  shows "run R s kDereference t [(rt, Val (Some (VRow vs))), (it, Val (Some (VInt (int k))))] = Some (vs ! k)"
  using assms unfolding runtime_ok_def forms_ok_def by (elim conjE) (meson | iprover | blast)

lemma run_dereference_None:
  "runtime_ok D R \<Longrightarrow> sval r = None \<Longrightarrow> run R s kDereference t [(rt, r), ix] = None"
  by (cases ix) (simp add: runtime_ok_def forms_ok_def)

lemma run_dereference_null:
  "runtime_ok D R \<Longrightarrow>
   run R s kDereference t [(rt, Val (Some VNull)), (it, Val (Some (VInt k)))] = Some VNull"
  by (simp add: runtime_ok_def forms_ok_def)

lemma run_eq_None:
  assumes "runtime_ok D R" "fn_equality (d_names D) = Some n" "x = None \<or> y = None"
  shows "run R s n BooleanT [(t, Val x), (t, Val y)] = None"
proof (cases "x = None")
  case True
  show ?thesis unfolding True using assms(1,2) unfolding runtime_ok_def roles_ok_def
    by (elim conjE) (meson | iprover | metis)
next
  case False
  then have y: "y = None" using assms(3) False by simp
  show ?thesis unfolding y using assms(1,2) unfolding runtime_ok_def roles_ok_def
    by (elim conjE) (meson | iprover | metis)
qed

lemma sql_eq_total:
  assumes "runtime_ok D R" "fn_equality (d_names D) = Some n"
  shows "sql_eq R n s t x y \<noteq> None"
  using assms unfolding runtime_ok_def roles_ok_def by (elim conjE) (meson | iprover | blast)

lemma sql_eq_null:
  assumes "runtime_ok D R" "fn_equality (d_names D) = Some n" "x = VNull \<or> y = VNull"
  shows "sql_eq R n s t x y = Some VNull"
proof (cases "x = VNull")
  case True
  show ?thesis unfolding True using assms(1,2) unfolding runtime_ok_def roles_ok_def
    by (elim conjE) (meson | iprover | metis)
next
  case False
  then have y: "y = VNull" using assms(3) False by simp
  show ?thesis unfolding y using assms(1,2) unfolding runtime_ok_def roles_ok_def
    by (elim conjE) (meson | iprover | metis)
qed

lemma sql_eq_refl:
  assumes "runtime_ok D R" "fn_equality (d_names D) = Some n" "isPrimitiveType t" "v \<noteq> VNull" "has_type v t"
  shows "sql_eq R n s t v v = Some (VBool True)"
  using assms unfolding runtime_ok_def roles_ok_def by (elim conjE) (meson | iprover | blast)

lemma sql_eq_sym:
  assumes "runtime_ok D R" "fn_equality (d_names D) = Some n" "sql_eq R n s t x y = Some (VBool True)"
  shows "sql_eq R n s t y x = Some (VBool True)"
  using assms unfolding runtime_ok_def roles_ok_def by (elim conjE) (meson | iprover | blast)

lemma sql_eq_trans:
  assumes "runtime_ok D R" "fn_equality (d_names D) = Some n" "sql_eq R n s t x y = Some (VBool True)"
    "sql_eq R n s t y z = Some (VBool True)"
  shows "sql_eq R n s t x z = Some (VBool True)"
  using assms unfolding runtime_ok_def roles_ok_def by (elim conjE) (meson | iprover | blast)

lemma sql_eq_row:
  assumes "runtime_ok D R" "fn_equality (d_names D) = Some n" "length xs = length fs" "length ys = length fs"
  shows "sql_eq R n s (RowT fs) (VRow xs) (VRow ys) =
    and_result (map (\<lambda>(t, x, y). sql_eq R n s t x y) (zip (map snd fs) (zip xs ys)))"
  using assms unfolding runtime_ok_def roles_ok_def by (elim conjE) (meson | iprover | blast)

lemma run_not:
  assumes "runtime_ok D R" "fn_negation (d_names D) = Some n"
  shows "run R s n BooleanT [(BooleanT, Val (Some v))] =
    (case v of VBool x \<Rightarrow> Some (VBool (\<not> x)) | _ \<Rightarrow> Some VNull)"
  using assms unfolding runtime_ok_def roles_ok_def by (elim conjE) (meson | iprover | blast)

lemma run_is_null:
  assumes "runtime_ok D R" "fn_isNull (d_names D) = Some n"
  shows "run R s n BooleanT [(t, Val (Some v))] = Some (VBool (v = VNull))"
  using assms unfolding runtime_ok_def roles_ok_def by (elim conjE) (meson | iprover | blast)

lemma args_values_simps [simp]:
  "args_values [] = []" "args_values (x # xs) = sval (snd x) # args_values xs"
  "args_values (xs @ ys) = args_values xs @ args_values ys"
  by (simp_all add: args_values_def)

lemma args_values_map: "args_values (map (\<lambda>a. (f a, g a)) xs) = map (\<lambda>a. sval (g a)) xs"
  by (simp add: args_values_def)

lemma and_true_iff:
  "and_result rs = Some (VBool True) \<longleftrightarrow>
   Some (VBool False) \<notin> set rs \<and> None \<notin> set rs \<and> Some VNull \<notin> set rs"
  by (simp add: and_result_def)

lemma or_true_iff: "or_result rs = Some (VBool True) \<longleftrightarrow> Some (VBool True) \<in> set rs"
  by (auto simp: or_result_def)

section \<open>Well-formed expressions\<close>

text \<open>
  The rules for the arguments of a call: which types the special forms and the functions with a
  role take, that a field of a row the expression builds itself exists, that a row has fields,
  and that lambdas are arguments of ordinary functions only.
\<close>

fun deref_ok :: "vtype \<Rightarrow> qexpr list \<Rightarrow> bool" where
  "deref_ok t [base, Literal i it (VInt k)] =
     (case qe_type base of
        RowT fs \<Rightarrow> 0 \<le> k \<and> k < int (length fs) \<and> snd (fs ! nat k) = t
      | _ \<Rightarrow> False)"
| "deref_ok t args = False"

definition conditions_ok :: "vtype \<Rightarrow> qexpr list \<Rightarrow> bool" where
  "conditions_ok t args \<longleftrightarrow>
     2 \<le> length args \<and>
     (\<forall>i < length args. if even i \<and> i + 1 < length args then qe_type (args ! i) = BooleanT
        else qe_type (args ! i) = t)"

fun is_lambda :: "qexpr \<Rightarrow> bool" where
  "is_lambda (Lambda i t bound body) = True"
| "is_lambda _ = False"

definition form_ok :: "dialect \<Rightarrow> string \<Rightarrow> vtype \<Rightarrow> qexpr list \<Rightarrow> bool" where
  "form_ok D n t args \<longleftrightarrow>
     (n = kAnd \<or> n = kOr \<longrightarrow> t = BooleanT \<and> (\<forall>a\<in>set args. qe_type a = BooleanT)) \<and>
     (n = kCoalesce \<longrightarrow> (\<forall>a\<in>set args. qe_type a = t)) \<and>
     (n = kIf \<or> n = kSwitch \<longrightarrow> conditions_ok t args) \<and>
     (isSpecialForm n \<longrightarrow> (\<forall>a\<in>set args. \<not> is_lambda a)) \<and>
     (n = kRowConstructor \<longrightarrow> args \<noteq> [] \<and> (\<exists>fs. t = RowT fs \<and> map qe_type args = map snd fs)) \<and>
     (n = kDereference \<longrightarrow> deref_ok t args) \<and>
     (n = kIn \<longrightarrow> t = BooleanT \<and> args \<noteq> []) \<and>
     (Some n = fn_equality (d_names D) \<longrightarrow> t = BooleanT \<and>
        (\<exists>x y. args = [x, y] \<and> qe_type x = qe_type y \<and> \<not> is_lambda x \<and> \<not> is_lambda y)) \<and>
     (Some n = fn_isNull (d_names D) \<longrightarrow> t = BooleanT \<and> (\<exists>x. args = [x])) \<and>
     (Some n = fn_negation (d_names D) \<longrightarrow> t = BooleanT \<and> (\<exists>x. args = [x] \<and> qe_type x = BooleanT))"

text \<open>
  An expression is well-formed under the types of the columns when its literals have their types, its calls obey these rules,
  and a call without the non-determinism bit calls a deterministic function on arguments without
  the bit.
\<close>

fun well_formed :: "dialect \<Rightarrow> (nat \<Rightarrow> vtype) \<Rightarrow> qexpr \<Rightarrow> bool" where
  "well_formed D \<Gamma> (Column i t) = (\<Gamma> i = t)"
| "well_formed D \<Gamma> (Literal i t v) = has_type v t"
| "well_formed D \<Gamma> (Call i n t fs args) \<longleftrightarrow>
     (\<forall>a\<in>set args. well_formed D \<Gamma> a) \<and> form_ok D n t args \<and>
     (\<not> nondet fs \<longrightarrow> det_name D n \<and> (\<forall>a\<in>set args. \<not> nondet (qe_functions a)))"
| "well_formed D \<Gamma> (Field i t base sel) = well_formed D \<Gamma> base"
| "well_formed D \<Gamma> (Lambda i t bound body) \<longleftrightarrow>
     (\<forall>(c, u)\<in>set bound. \<Gamma> c = u) \<and> well_formed D \<Gamma> body"
| "well_formed D \<Gamma> (OtherExpr i t cs fs) = True"

definition env_ok :: "(nat \<Rightarrow> vtype) \<Rightarrow> env \<Rightarrow> bool" where
  "env_ok \<Gamma> \<rho> \<longleftrightarrow> (\<forall>i. has_type (\<rho> i) (\<Gamma> i))"

definition deterministic :: "qexpr \<Rightarrow> bool" where
  "deterministic e = (\<not> nondet (qe_functions e))"

lemma containsNonDeterministic_iff [simp]: "containsNonDeterministic e \<longleftrightarrow> \<not> deterministic e"
  by (simp add: containsNonDeterministic_def containsFunction_def deterministic_def nondet_def)

lemma deterministic_simps [simp]:
  "deterministic (Column i t)" "deterministic (Literal i t v)"
  "deterministic (Call i n t fs args) \<longleftrightarrow> \<not> nondet fs"
  "deterministic (Field i t base sel) \<longleftrightarrow> deterministic base"
  "deterministic (Lambda i t bound body) \<longleftrightarrow> deterministic body"
  "deterministic (OtherExpr i t cs fs) \<longleftrightarrow> \<not> nondet fs"
  by (simp_all add: deterministic_def nondet_def fs_contains_def)

lemma nondet_fs_or [simp]: "nondet (fs_or x y) \<longleftrightarrow> nondet x \<or> nondet y"
proof -
  have "(x OR y) AND k = 0 \<longleftrightarrow> x AND k = 0 \<and> y AND k = 0" for x y k :: u64
    by (auto simp: bit_eq_iff bit_simps)
  then show ?thesis by (cases x; cases y) (auto simp: nondet_def fs_contains_def fs_or_def)
qed

lemma nondet_union [simp]:
  "nondet (unionArgFunctions fs args) \<longleftrightarrow> nondet fs \<or> (\<exists>a\<in>set args. \<not> deterministic a)"
proof (induction args arbitrary: fs)
  case (Cons a args)
  have "unionArgFunctions fs (a # args) = unionArgFunctions (fs_or fs (qe_functions a)) args"
    by (simp add: unionArgFunctions_def)
  then show ?case using Cons by (auto simp: deterministic_def)
qed (simp add: unionArgFunctions_def)

lemma well_formed_call_det:
  "well_formed D \<Gamma> (Call i n t fs args) \<Longrightarrow> \<not> nondet fs \<Longrightarrow>
   det_name D n \<and> (\<forall>a\<in>set args. well_formed D \<Gamma> a \<and> deterministic a)"
  by (auto simp: deterministic_def)

text \<open>A deterministic expression means the same for every draw.\<close>

lemma qeval_det:
  assumes "runtime_ok D R" "well_formed D \<Gamma> e" "deterministic e"
  shows "qeval R w e \<rho> = qeval R w' e \<rho>"
  using assms
proof (induction R w e \<rho> rule: qeval.induct)
  case (3 R w i n t fs args \<rho>)
  have d: "det_name D n" "\<And>a. a \<in> set args \<Longrightarrow> well_formed D \<Gamma> a \<and> deterministic a"
    using well_formed_call_det[OF 3(3)] 3(4) by auto
  have "map (\<lambda>a. (qe_type a, qeval R w a \<rho>)) args = map (\<lambda>a. (qe_type a, qeval R w' a \<rho>)) args"
    using 3(1) 3(2) d(2) by simp
  then show ?case using run_det[OF 3(2) d(1), of "w i" _ _ "w' i"]
    by (simp del: map_eq_conv)
next
  case (4 R w i t base sel \<rho>)
  have "qeval R w base \<rho> = qeval R w' base \<rho>" by (rule 4(1)) (use 4(2-4) in auto)
  then show ?case by simp
next
  case (5 R w i t bound body \<rho>)
  have "qeval R w body (bind_args (map fst bound) vs \<rho>) = qeval R w' body (bind_args (map fst bound) vs \<rho>)"
    if "have_types vs (map snd bound)" for vs
    by (rule 5(1)[OF that]) (use 5(2-4) in auto)
  then show ?case by (simp cong: if_cong)
qed simp_all

text \<open>An expression reads only its columns.\<close>

lemma bind_args_agree:
  "(\<And>c. c \<in> C - set is \<Longrightarrow> \<rho> c = \<sigma> c) \<Longrightarrow> c \<in> C \<Longrightarrow> bind_args is vs \<rho> c = bind_args is vs \<sigma> c"
proof (induction "is" vs \<rho> arbitrary: C \<sigma> rule: bind_args.induct)
  case (1 i "is" v vs \<rho>)
  show ?case
  proof (cases "c = i")
    case False
    have "bind_args is vs \<rho> c = bind_args is vs \<sigma> c"
      by (rule 1(1)[of "C - {i}"]) (use 1(2,3) False in auto)
    then show ?thesis using False by simp
  qed simp
next
  case (2 i "is" \<rho>)
  show ?case
  proof (cases "c = i")
    case False
    have "bind_args is [] \<rho> c = bind_args is [] \<sigma> c"
      by (rule 2(1)[of "C - {i}"]) (use 2(2,3) False in auto)
    then show ?thesis using False by simp
  qed simp
qed simp

lemma qeval_columns:
  "(\<And>c. c \<in> qe_columns e \<Longrightarrow> \<rho> c = \<sigma> c) \<Longrightarrow> qeval R w e \<rho> = qeval R w e \<sigma>"
proof (induction R w e \<rho> arbitrary: \<sigma> rule: qeval.induct)
  case (3 R w i n t fs args \<rho>)
  have "qeval R w a \<rho> = qeval R w a \<sigma>" if "a \<in> set args" for a
    by (rule 3(1)[OF that], rule 3(2)) (use that in auto)
  then have "map (\<lambda>a. (qe_type a, qeval R w a \<rho>)) args = map (\<lambda>a. (qe_type a, qeval R w a \<sigma>)) args"
    by simp
  then show ?case by (simp del: map_eq_conv)
next
  case (5 R w i t bound body \<rho>)
  have "qeval R w body (bind_args (map fst bound) vs \<rho>) = qeval R w body (bind_args (map fst bound) vs \<sigma>)"
    if "have_types vs (map snd bound)" for vs
    by (rule 5(1)[OF that], rule bind_args_agree[of "qe_columns body"], rule 5(2)) auto
  then show ?case by (simp cong: if_cong)
next
  case (4 R w i t base sel \<rho>)
  have "qeval R w base \<rho> = qeval R w base \<sigma>" by (rule 4(1), rule 4(2)) simp
  then show ?case by simp
next
  case (6 R w i t cs fs \<rho>)
  have "(\<lambda>c. if c \<in> set cs then \<rho> c else VNull) = (\<lambda>c. if c \<in> set cs then \<sigma> c else VNull)"
    using 6 by auto
  then show ?case by simp
qed simp_all

section \<open>What the operations of the builder give\<close>

definition builder_ok :: "builder \<Rightarrow> bool" where
  "builder_ok b \<longleftrightarrow>
     (\<forall>t v l. b_literals b (t, v) = Some l \<longrightarrow> (\<exists>i < b_next b. l = Literal i t v)) \<and>
     (\<forall>n t args c. b_calls b (n, t, args) = Some c \<longrightarrow>
        (\<exists>i fs. i < b_next b \<and> c = Call i n t fs args \<and> \<not> nondet fs))"

definition gives :: "'a build \<Rightarrow> ('a \<Rightarrow> bool) \<Rightarrow> bool" where
  "gives act Q \<longleftrightarrow>
     (\<forall>b. builder_ok b \<longrightarrow> (\<exists>x b'. act b = Inr (x, b') \<and> builder_ok b' \<and> Q x))"

lemma gives_elim:
  assumes "gives act Q" "builder_ok b"
  obtains x b' where "act b = Inr (x, b')" "builder_ok b'" "Q x"
  using assms unfolding gives_def by blast

lemma gives_result: "gives act Q \<Longrightarrow> builder_ok b \<Longrightarrow> act b = Inr (x, b') \<Longrightarrow> builder_ok b' \<and> Q x"
  by (auto elim!: gives_elim)

lemma givesI:
  assumes "\<And>b. builder_ok b \<Longrightarrow> \<exists>x b'. act b = Inr (x, b') \<and> builder_ok b' \<and> Q x"
  shows "gives act Q"
  using assms by (simp add: gives_def)

lemma gives_weaken: "gives act P \<Longrightarrow> (\<And>x. P x \<Longrightarrow> Q x) \<Longrightarrow> gives act Q"
  unfolding gives_def by blast

lemma gives_also:
  assumes "gives act Q" "\<And>b x b'. act b = Inr (x, b') \<Longrightarrow> P x"
  shows "gives act (\<lambda>x. Q x \<and> P x)"
  using assms unfolding gives_def by blast

lemma gives_both:
  assumes "gives act P" "gives act Q"
  shows "gives act (\<lambda>x. P x \<and> Q x)"
proof (rule givesI)
  fix b assume b: "builder_ok b"
  obtain x b' where "act b = Inr (x, b')" "builder_ok b'" "P x" by (rule gives_elim[OF assms(1) b])
  then show "\<exists>x b'. act b = Inr (x, b') \<and> builder_ok b' \<and> P x \<and> Q x"
    using gives_result[OF assms(2) b] by blast
qed

lemma gives_ret: "Q x \<Longrightarrow> gives (ret x) Q"
  by (simp add: gives_def ret_def)

lemma gives_andThen:
  assumes "gives act P" "\<And>x. P x \<Longrightarrow> gives (k x) Q"
  shows "gives (andThen act k) Q"
proof (rule givesI)
  fix b assume "builder_ok b"
  then obtain x b1 where x: "act b = Inr (x, b1)" "builder_ok b1" "P x"
    by (rule gives_elim[OF assms(1)])
  obtain y b2 where "k x b1 = Inr (y, b2)" "builder_ok b2" "Q y"
    by (rule gives_elim[OF assms(2)[OF x(3)] x(2)])
  then show "\<exists>y b'. andThen act k b = Inr (y, b') \<and> builder_ok b' \<and> Q y"
    using x(1) by (simp add: andThen_def)
qed

lemma gives_require: "c \<Longrightarrow> gives act Q \<Longrightarrow> gives (require c act) Q"
  by (simp add: require_def)

lemma gives_with_name: "name = Some n \<Longrightarrow> gives (k n) Q \<Longrightarrow> gives (with_name name k) Q"
  by (simp add: with_name_def)

lemma new_builder_ok: "builder_ok new_builder"
  by (simp add: builder_ok_def new_builder_def)

lemma builder_ok_literalD:
  "builder_ok b \<Longrightarrow> b_literals b (t, v) = Some l \<Longrightarrow> \<exists>i < b_next b. l = Literal i t v"
  by (simp add: builder_ok_def)

lemma builder_ok_callD:
  "builder_ok b \<Longrightarrow> b_calls b (n, t, args) = Some c \<Longrightarrow>
   \<exists>i fs. i < b_next b \<and> c = Call i n t fs args \<and> \<not> nondet fs"
  by (simp add: builder_ok_def)

lemma builder_okI:
  assumes "\<And>t v l. b_literals b (t, v) = Some l \<Longrightarrow> \<exists>i < b_next b. l = Literal i t v"
    "\<And>n t args c. b_calls b (n, t, args) = Some c \<Longrightarrow>
       \<exists>i fs. i < b_next b \<and> c = Call i n t fs args \<and> \<not> nondet fs"
  shows "builder_ok b"
  using assms unfolding builder_ok_def by blast

lemma builder_ok_next:
  assumes "builder_ok b"
  shows "builder_ok (b\<lparr>b_next := b_next b + 1\<rparr>)"
  by (rule builder_okI) (use builder_ok_literalD[OF assms] builder_ok_callD[OF assms] in \<open>fastforce intro: less_SucI\<close>)+

lemma builder_ok_literal:
  assumes "builder_ok b"
  shows "builder_ok (b\<lparr>b_next := b_next b + 1, b_literals := (b_literals b)((t, v) \<mapsto> Literal (b_next b) t v)\<rparr>)"
  by (rule builder_okI)
    (use builder_ok_literalD[OF assms] builder_ok_callD[OF assms] in \<open>fastforce intro: less_SucI split: if_splits\<close>)+

lemma builder_ok_call:
  assumes "builder_ok b" "\<not> nondet fs"
  shows "builder_ok (b\<lparr>b_next := b_next b + 1,
    b_calls := (b_calls b)((n, t, args) \<mapsto> Call (b_next b) n t fs args)\<rparr>)"
  by (rule builder_okI)
    (use builder_ok_literalD[OF assms(1)] builder_ok_callD[OF assms(1)] assms(2) in
      \<open>fastforce intro: less_SucI split: if_splits\<close>)+

lemma gives_make_object: "(\<And>i. Q (mk i)) \<Longrightarrow> gives (make_object mk) Q"
  using builder_ok_next by (force intro!: givesI simp: make_object_def)

lemma gives_makeLiteral: "gives (makeLiteral v t) (\<lambda>l. \<exists>i. l = Literal i t v)"
proof (rule givesI)
  fix b
  assume b: "builder_ok b"
  show "\<exists>l b'. makeLiteral v t b = Inr (l, b') \<and> builder_ok b' \<and> (\<exists>i. l = Literal i t v)"
  proof (cases "b_literals b (t, v)")
    case None
    then show ?thesis using builder_ok_literal[OF b, of t v] by (auto simp: makeLiteral_def Let_def)
  next
    case (Some l')
    then show ?thesis using b builder_ok_literalD[OF b Some] by (auto simp: makeLiteral_def)
  qed
qed

text \<open>
  A call the builder returns means its function applied to the arguments that were asked for,
  whether it is new, found, or the reverse of the call that was asked for.
\<close>

definition means :: "'w runtime \<Rightarrow> qexpr \<Rightarrow> string \<Rightarrow> vtype \<Rightarrow> qexpr list \<Rightarrow> bool" where
  "means R c n t args \<longleftrightarrow>
     (\<forall>w s \<rho>. qeval R w c \<rho> = Val (run R s n t (map (\<lambda>a. (qe_type a, qeval R w a \<rho>)) args)))"

lemma means_cong:
  assumes "runtime_ok D R" "det_name D n"
  shows "means R (Call i n t fs args) n t args"
  unfolding means_def using run_det[OF assms] by simp

lemma canonicalizeCall_cases:
  "canonicalizeCall D n args = (n, args) \<or>
   (\<exists>x y n'. args = [x, y] \<and> d_reversible D n = Some n' \<and> qe_type x = qe_type y \<and>
      canonicalizeCall D n args = (n', [y, x]))"
  by (cases "(D, n, args)" rule: canonicalizeCall.cases)
    (auto simp: shouldInvert_def split: option.splits)

definition call_spec :: "dialect \<Rightarrow> string \<Rightarrow> vtype \<Rightarrow> qexpr list \<Rightarrow> bool \<Rightarrow> qexpr \<Rightarrow> bool" where
  "call_spec D n t args nd c \<longleftrightarrow>
     (\<exists>i fs n' args'. c = Call i n' t fs args' \<and> (nondet fs \<longleftrightarrow> nd) \<and>
        (n' = n \<and> args' = args \<or>
         (\<exists>x y. args = [x, y] \<and> args' = [y, x] \<and> d_reversible D n = Some n' \<and> qe_type x = qe_type y)))"

lemma gives_builder_makeCall: "gives (builder_makeCall D n t args fs) (call_spec D n t args (nondet fs))"
proof (rule givesI)
  fix b
  assume b: "builder_ok b"
  show "\<exists>c b'. builder_makeCall D n t args fs b = Inr (c, b') \<and> builder_ok b' \<and>
      call_spec D n t args (nondet fs) c"
  proof (cases "nondet fs")
    case True
    then have "builder_makeCall D n t args fs b =
        Inr (Call (b_next b) n t fs args, b\<lparr>b_next := b_next b + 1\<rparr>)"
      by (simp add: builder_makeCall_def make_object_def nondet_def)
    then show ?thesis using builder_ok_next[OF b] True by (auto simp: call_spec_def)
  next
    case False
    obtain n' args' where k: "canonicalizeCall D n args = (n', args')" by fastforce
    have c: "n' = n \<and> args' = args \<or>
        (\<exists>x y. args = [x, y] \<and> args' = [y, x] \<and> d_reversible D n = Some n' \<and> qe_type x = qe_type y)"
      using canonicalizeCall_cases[of D n args] k by auto
    show ?thesis
    proof (cases "b_calls b (n', t, args')")
      case None
      let ?c = "Call (b_next b) n' t fs args'"
      have "builder_makeCall D n t args fs b =
          Inr (?c, b\<lparr>b_next := b_next b + 1, b_calls := (b_calls b)((n', t, args') \<mapsto> ?c)\<rparr>)"
        using None k False by (simp add: builder_makeCall_def Let_def nondet_def)
      moreover have "call_spec D n t args (nondet fs) ?c" using c by (auto simp: call_spec_def)
      ultimately show ?thesis using builder_ok_call[OF b False, of n' t args'] by blast
    next
      case (Some c')
      then have "builder_makeCall D n t args fs b = Inr (c', b)"
        using k False by (simp add: builder_makeCall_def nondet_def)
      moreover have "call_spec D n t args (nondet fs) c'"
        using builder_ok_callD[OF b Some] c False by (auto simp: call_spec_def)
      ultimately show ?thesis using b by blast
    qed
  qed
qed

lemma call_spec_type [simp]: "call_spec D n t args nd c \<Longrightarrow> qe_type c = t"
  and call_spec_det: "call_spec D n t args nd c \<Longrightarrow> deterministic c \<longleftrightarrow> \<not> nd"
  and call_spec_lambda: "call_spec D n t args nd c \<Longrightarrow> \<not> is_lambda c"
  and call_spec_columns: "call_spec D n t args nd c \<Longrightarrow> qe_columns c = (\<Union>a\<in>set args. qe_columns a)"
  by (auto simp: call_spec_def)

lemma call_spec_means:
  assumes "runtime_ok D R" "dialect_ok D" "call_spec D n t args nd c" "det_name D n"
  shows "means R c n t args"
proof -
  obtain i fs n' args' where c: "c = Call i n' t fs args'"
    and o: "n' = n \<and> args' = args \<or>
      (\<exists>x y. args = [x, y] \<and> args' = [y, x] \<and> d_reversible D n = Some n' \<and> qe_type x = qe_type y)"
    using assms(3) unfolding call_spec_def by blast
  from o show ?thesis
  proof (elim disjE exE conjE)
    assume "n' = n" "args' = args"
    then show ?thesis using means_cong[OF assms(1,4)] c by simp
  next
    fix x y
    assume xy: "args = [x, y]" "args' = [y, x]" and rev: "d_reversible D n = Some n'"
    have d: "det_name D n'" using assms(2,4) rev unfolding dialect_ok_def by blast
    show ?thesis
      unfolding means_def xy c
      using run_reverse[OF assms(1) rev] run_det[OF assms(1) d] by (auto simp del: prod.inject) metis
  qed
qed

lemma special_names: "isSpecialForm kAnd" "isSpecialForm kOr" "isSpecialForm kCoalesce" "isSpecialForm kIf"
  "isSpecialForm kSwitch" "isSpecialForm kRowConstructor" "isSpecialForm kDereference" "isSpecialForm kIn"
  "isSpecialForm kTry"
  by (simp_all add: isSpecialForm_def tryFromCallName_def)

lemma dialect_reverseD:
  assumes "dialect_ok D" "d_reversible D n = Some n'"
  shows "\<not> isSpecialForm n" "\<not> isSpecialForm n'"
    "Some n = fn_equality (d_names D) \<longleftrightarrow> Some n' = fn_equality (d_names D)"
    "det_name D n \<Longrightarrow> det_name D n'"
  using assms unfolding dialect_ok_def by blast+

lemma not_special: "\<not> isSpecialForm n \<Longrightarrow>
    n \<noteq> kAnd \<and> n \<noteq> kOr \<and> n \<noteq> kCoalesce \<and> n \<noteq> kIf \<and> n \<noteq> kSwitch \<and> n \<noteq> kRowConstructor \<and>
    n \<noteq> kDereference \<and> n \<noteq> kIn \<and> n \<noteq> kTry"
  using special_names by blast

lemma form_ok_plain:
  assumes "\<not> isSpecialForm n"
  shows "form_ok D n t args \<longleftrightarrow>
     (Some n = fn_equality (d_names D) \<longrightarrow> t = BooleanT \<and>
        (\<exists>x y. args = [x, y] \<and> qe_type x = qe_type y \<and> \<not> is_lambda x \<and> \<not> is_lambda y)) \<and>
     (Some n = fn_isNull (d_names D) \<longrightarrow> t = BooleanT \<and> (\<exists>x. args = [x])) \<and>
     (Some n = fn_negation (d_names D) \<longrightarrow> t = BooleanT \<and> (\<exists>x. args = [x] \<and> qe_type x = BooleanT))"
  using assms not_special[OF assms] unfolding form_ok_def by simp

lemma call_spec_wf:
  assumes "dialect_ok D" "call_spec D n t args nd c" "form_ok D n t args"
    "\<forall>a\<in>set args. well_formed D \<Gamma> a"
    "\<not> nd \<Longrightarrow> det_name D n \<and> (\<forall>a\<in>set args. deterministic a)"
  shows "well_formed D \<Gamma> c"
proof -
  obtain i fs n' args' where c: "c = Call i n' t fs args'" "nondet fs \<longleftrightarrow> nd"
    and o: "n' = n \<and> args' = args \<or>
      (\<exists>x y. args = [x, y] \<and> args' = [y, x] \<and> d_reversible D n = Some n' \<and> qe_type x = qe_type y)"
    using assms(2) unfolding call_spec_def by blast
  from o show ?thesis
  proof (elim disjE exE conjE)
    assume "n' = n" "args' = args"
    then show ?thesis using c assms(3-5) by (auto simp: deterministic_def)
  next
    fix x y
    assume xy: "args = [x, y]" "args' = [y, x]" and rev: "d_reversible D n = Some n'"
      and t: "qe_type x = qe_type y"
    note r = dialect_reverseD[OF assms(1) rev]
    have "Some n' \<noteq> fn_isNull (d_names D)" "Some n' \<noteq> fn_negation (d_names D)"
      using assms(1) rev unfolding dialect_ok_def by blast+
    then have "form_ok D n' t args'"
      using assms(3) r t xy by (auto simp: form_ok_plain)
    then show ?thesis using c assms(4,5) r(4) xy by (auto simp: deterministic_def)
  qed
qed

text \<open>Values have the types of their expressions.\<close>

lemma have_types_nth:
  "have_types vs ts \<longleftrightarrow> length vs = length ts \<and> (\<forall>i < length vs. has_type (vs ! i) (ts ! i))"
proof (induction vs arbitrary: ts)
  case (Cons v vs)
  show ?case
  proof (cases ts)
    case (Cons t ts')
    then show ?thesis using Cons.IH[of ts'] by (auto simp: nth_Cons split: nat.splits)
  qed simp
qed auto

lemma env_ok_bind:
  assumes "env_ok \<Gamma> \<rho>" "have_types vs (map snd bound)" "\<forall>(c, u)\<in>set bound. \<Gamma> c = u"
  shows "env_ok \<Gamma> (bind_args (map fst bound) vs \<rho>)"
  using assms(2,3)
proof (induction bound arbitrary: vs)
  case Nil
  then show ?case using assms(1) by simp
next
  case (Cons b bound)
  obtain i t where b: "b = (i, t)" by fastforce
  obtain v vs' where vs: "vs = v # vs'" using Cons.prems(1) by (cases vs) auto
  have "env_ok \<Gamma> (bind_args (map fst bound) vs' \<rho>)"
    by (rule Cons.IH) (use Cons.prems vs in auto)
  then show ?case using Cons.prems b vs by (auto simp: env_ok_def)
qed

lemma coalesce_typed:
  "coalesce_result rs = Some v \<Longrightarrow> \<forall>r\<in>set rs. \<forall>u. r = Some u \<longrightarrow> has_type u t \<Longrightarrow> has_type v t"
  by (induction rs) (auto split: if_splits)

lemma switch_typed:
  assumes "switch_result rs = Some v"
    "\<forall>i < length rs. \<not> (even i \<and> i + 1 < length rs) \<longrightarrow> (\<forall>u. rs ! i = Some u \<longrightarrow> has_type u t)"
  shows "has_type v t"
  using assms
proof (induction rs rule: switch_result.induct)
  case (2 r)
  then show ?case by simp
next
  case (3 c r rs)
  have r: "\<forall>u. r = Some u \<longrightarrow> has_type u t" using 3(3)[rule_format, of 1] by auto
  obtain x where x: "c = Some x" using 3(2) by (cases c) auto
  show ?case
  proof (cases "x = VBool True")
    case False
    have "\<forall>i < length rs. \<not> (even i \<and> i + 1 < length rs) \<longrightarrow> (\<forall>u. rs ! i = Some u \<longrightarrow> has_type u t)"
    proof (intro allI impI)
      fix i u
      assume i: "i < length rs" "\<not> (even i \<and> i + 1 < length rs)" "rs ! i = Some u"
      show "has_type u t" using 3(3)[rule_format, of "Suc (Suc i)" u] i by simp
    qed
    then show ?thesis using 3(1)[OF x False] 3(2) x False by simp
  qed (use r 3(2) x in auto)
qed simp

lemma qeval_typed:
  assumes "runtime_ok D R" "well_formed D \<Gamma> e" "env_ok \<Gamma> \<rho>" "sval (qeval R w e \<rho>) = Some v"
  shows "has_type v (qe_type e)"
  using assms
proof (induction R w e \<rho> arbitrary: v rule: qeval.induct)
  case (3 R w i n t fs args \<rho>)
  let ?xs = "map (\<lambda>a. (qe_type a, qeval R w a \<rho>)) args"
  let ?rs = "map (\<lambda>a. sval (qeval R w a \<rho>)) args"
  have IH: "a \<in> set args \<Longrightarrow> sval (qeval R w a \<rho>) = Some u \<Longrightarrow> has_type u (qe_type a)" for a u
    using 3(1) 3(2-4) by auto
  have form: "form_ok D n t args" using 3(3) by simp
  have vals: "args_values ?xs = ?rs" by (rule args_values_map)
  have r: "run R (w i) n t ?xs = Some v" using 3(5) by simp
  consider (coalesce) "n = kCoalesce" | (switch) "n = kIf \<or> n = kSwitch" | (row) "n = kRowConstructor"
    | (deref) "n = kDereference" | (fn) "n \<notin> {kCoalesce, kIf, kSwitch, kDereference, kRowConstructor}"
    by blast
  then have "has_type v t"
  proof cases
    case coalesce
    have "\<forall>a\<in>set args. qe_type a = t" using form coalesce by (simp add: form_ok_def)
    then show ?thesis
      using coalesce_typed[of ?rs v t] r run_coalesce[OF 3(2)] coalesce vals IH by fastforce
  next
    case switch
    have c: "conditions_ok t args" using form switch by (auto simp: form_ok_def)
    have "switch_result ?rs = Some v"
      using switch r run_if[OF 3(2)] run_switch[OF 3(2)] vals by auto
    then show ?thesis
    proof (rule switch_typed)
      show "\<forall>i < length ?rs. \<not> (even i \<and> i + 1 < length ?rs) \<longrightarrow>
          (\<forall>u. ?rs ! i = Some u \<longrightarrow> has_type u t)"
      proof (intro allI impI)
        fix i u
        assume i: "i < length ?rs" "\<not> (even i \<and> i + 1 < length ?rs)" "?rs ! i = Some u"
        have "qe_type (args ! i) = t" using c i by (auto simp: conditions_ok_def)
        then show "has_type u t" using IH[of "args ! i" u] i by simp
      qed
    qed
  next
    case row
    obtain gs where gs: "t = RowT gs" "map qe_type args = map snd gs"
      using form row by (auto simp: form_ok_def)
    have v: "None \<notin> set ?rs" "v = VRow (map the ?rs)"
      using r row run_row[OF 3(2)] vals by (auto simp: row_result_def split: if_splits)
    have "have_types (map the ?rs) (map snd gs)"
      unfolding have_types_nth
    proof (intro conjI allI impI)
      show "length (map the ?rs) = length (map snd gs)" using gs(2) by (metis length_map)
      fix i assume i: "i < length (map the ?rs)"
      have "sval (qeval R w (args ! i) \<rho>) \<noteq> None" using v(1) i by (force simp: in_set_conv_nth)
      then obtain u where u: "sval (qeval R w (args ! i) \<rho>) = Some u" by auto
      have "qe_type (args ! i) = map snd gs ! i" using gs(2) i by (metis length_map nth_map)
      then show "has_type (map the ?rs ! i) (map snd gs ! i)" using IH[of "args ! i" u] u i by simp
    qed
    then show ?thesis using v gs by simp
  next
    case deref
    have "deref_ok t args" using form deref by (simp add: form_ok_def)
    then obtain base j it k gs where args: "args = [base, Literal j it (VInt k)]"
      and k: "qe_type base = RowT gs" "0 \<le> k" "k < int (length gs)" "snd (gs ! nat k) = t"
      by (cases "(t, args)" rule: deref_ok.cases) (auto split: vtype.splits)
    have r': "run R (w i) kDereference t [(qe_type base, qeval R w base \<rho>), (it, Val (Some (VInt k)))] = Some v"
      using r deref args by simp
    have "sval (qeval R w base \<rho>) \<noteq> None"
      using run_dereference_None[OF 3(2)] r' by fastforce
    then obtain u where u: "qeval R w base \<rho> = Val (Some u)" by (cases "qeval R w base \<rho>") auto
    have "has_type u (RowT gs)" using IH[of base u] u args k(1) by simp
    then consider "u = VNull" | vs where "u = VRow vs" "have_types vs (map snd gs)"
      by (cases u) auto
    then show ?thesis
    proof cases
      case 1
      then show ?thesis using run_dereference_null[OF 3(2)] r' u by simp
    next
      case (2 vs)
      have l: "length vs = length gs" "\<And>i. i < length gs \<Longrightarrow> has_type (vs ! i) (snd (gs ! i))"
        using 2(2) unfolding have_types_nth by auto
      have "v = vs ! nat k"
        using run_dereference[OF 3(2), of "nat k" vs] r' u 2(1) k l(1) by simp
      then show ?thesis using l(2)[of "nat k"] k by auto
    qed
  next
    case fn
    then show ?thesis using run_typed[OF 3(2) _ r] by simp
  qed
  then show ?case by simp
next
  case (4 R w i t base sel \<rho>)
  then have "\<exists>u. select_field R t sel u = Some v" by (auto split: option.splits)
  then show ?case using 4(2) unfolding runtime_ok_def functions_ok_def by auto
next
  case (6 R w i t cs fs \<rho>)
  then show ?case unfolding runtime_ok_def functions_ok_def by auto
qed (auto simp: env_ok_def)

section \<open>What the factory builds\<close>

definition built :: "dialect \<Rightarrow> (nat \<Rightarrow> vtype) \<Rightarrow> 'w runtime \<Rightarrow> string \<Rightarrow> vtype \<Rightarrow> qexpr list \<Rightarrow> qexpr \<Rightarrow> bool" where
  "built D \<Gamma> R n t args c \<longleftrightarrow>
     qe_type c = t \<and> \<not> is_lambda c \<and> qe_columns c = (\<Union>a\<in>set args. qe_columns a) \<and>
     (deterministic c \<longleftrightarrow> (\<forall>a\<in>set args. deterministic a)) \<and> means R c n t args \<and>
     (form_ok D n t args \<longrightarrow> (\<forall>a\<in>set args. well_formed D \<Gamma> a) \<longrightarrow> well_formed D \<Gamma> c)"

lemma builtD:
  assumes "built D \<Gamma> R n t args c"
  shows "qe_type c = t" "qe_columns c = (\<Union>a\<in>set args. qe_columns a)"
    "deterministic c \<longleftrightarrow> (\<forall>a\<in>set args. deterministic a)" "means R c n t args"
    "form_ok D n t args \<Longrightarrow> \<forall>a\<in>set args. well_formed D \<Gamma> a \<Longrightarrow> well_formed D \<Gamma> c"
    "\<not> is_lambda c"
  using assms by (auto simp: built_def)

lemma call_spec_built:
  assumes "dialect_ok D" "runtime_ok D R" "det_name D n"
    "call_spec D n t args nd c" "nd \<longleftrightarrow> (\<exists>a\<in>set args. \<not> deterministic a)"
  shows "built D \<Gamma> R n t args c"
  unfolding built_def
  using call_spec_type[OF assms(4)] call_spec_lambda[OF assms(4)] call_spec_columns[OF assms(4)] call_spec_det[OF assms(4)]
    call_spec_means[OF assms(2,1,4,3)] call_spec_wf[OF assms(1,4)] assms(3,5) by auto

lemma gives_factory_makeCall:
  assumes "dialect_ok D" "runtime_ok D R" "det_name D n" "sp \<longleftrightarrow> isSpecialForm n"
  shows "gives (factory_makeCall D n t args sp) (built D \<Gamma> R n t args)"
proof -
  obtain bs where bs: "d_bits D n sp = Inr bs" "\<not> nondet bs"
    using assms(3,4) by (auto simp: det_name_def)
  show ?thesis
    unfolding factory_makeCall_def bs(1) sum.case
    by (rule gives_weaken[OF gives_builder_makeCall], rule call_spec_built[OF assms(1-3)]) (auto simp: bs)
qed

lemma det_special: "dialect_ok D \<Longrightarrow> isSpecialForm n \<Longrightarrow> det_name D n"
  by (auto simp: dialect_ok_def det_name_def nondet_def fs_contains_def kNonDeterministic_def
      kNonDefaultNullBehavior_def)

lemma plain_name:
  assumes "dialect_ok D"
    "fn_equality (d_names D) = Some n \<or> fn_negation (d_names D) = Some n \<or> fn_isNull (d_names D) = Some n"
  shows "\<not> isSpecialForm n \<and> det_name D n"
proof -
  have "n \<in> plain_names D" using assms(2) by (auto simp: plain_names_def List.map_filter_def)
  then show ?thesis using assms(1) by (simp add: dialect_ok_def)
qed

lemma gives_makeAnd:
  assumes "dialect_ok D" "runtime_ok D R"
  shows "gives (makeAnd D l r) (\<lambda>c. l = r \<and> c = l \<or> built D \<Gamma> R kAnd BooleanT [l, r] c)"
  unfolding makeAnd_def makeBooleanCall_def
  by (auto intro!: gives_ret gives_weaken[OF gives_factory_makeCall[OF assms]]
      simp: special_names det_special[OF assms(1)])

lemma gives_makeOr:
  assumes "dialect_ok D" "runtime_ok D R"
  shows "gives (makeOr D l r) (built D \<Gamma> R kOr BooleanT [l, r])"
  unfolding makeOr_def makeBooleanCall_def
  by (rule gives_factory_makeCall[OF assms]) (auto simp: special_names det_special[OF assms(1)])

lemma gives_role:
  assumes "dialect_ok D" "runtime_ok D R" "name = Some n"
    "fn_equality (d_names D) = Some n \<or> fn_negation (d_names D) = Some n \<or> fn_isNull (d_names D) = Some n"
  shows "gives (with_name name (\<lambda>n. makeBooleanCall D n args False)) (built D \<Gamma> R n BooleanT args)"
  unfolding makeBooleanCall_def
  by (rule gives_with_name[OF assms(3)], rule gives_factory_makeCall[OF assms(1,2)])
    (use plain_name[OF assms(1,4)] in auto)

lemma gives_makeEq:
  assumes "dialect_ok D" "runtime_ok D R" "fn_equality (d_names D) = Some n"
  shows "gives (makeEq D l r) (built D \<Gamma> R n BooleanT [l, r])"
  unfolding makeEq_def by (rule gives_role[OF assms]) (simp add: assms)

lemma gives_makeNot:
  assumes "dialect_ok D" "runtime_ok D R" "fn_negation (d_names D) = Some n"
  shows "gives (makeNot D x) (built D \<Gamma> R n BooleanT [x])"
  unfolding makeNot_def by (rule gives_role[OF assms]) (simp add: assms)

lemma gives_makeIsNull:
  assumes "dialect_ok D" "runtime_ok D R" "fn_isNull (d_names D) = Some n"
  shows "gives (makeIsNull D x) (built D \<Gamma> R n BooleanT [x])"
  unfolding makeIsNull_def by (rule gives_role[OF assms]) (simp add: assms)

lemma equality_registered: "dialect_ok D \<Longrightarrow> \<exists>n. fn_equality (d_names D) = Some n"
  unfolding dialect_ok_def by auto

lemma meansD:
  "means R c n t args \<Longrightarrow>
   qeval R w c \<rho> = Val (run R s n t (map (\<lambda>a. (qe_type a, qeval R w a \<rho>)) args))"
  unfolding means_def by blast

lemma means_sval:
  "means R c n t args \<Longrightarrow>
   sval (qeval R w c \<rho>) = run R s n t (map (\<lambda>a. (qe_type a, qeval R w a \<rho>)) args)"
  using meansD[of R c n t args w \<rho> s] by simp

section \<open>Truth of conjunctions and disjunctions\<close>

definition pred :: "dialect \<Rightarrow> (nat \<Rightarrow> vtype) \<Rightarrow> qexpr \<Rightarrow> bool" where
  "pred D \<Gamma> e \<longleftrightarrow> well_formed D \<Gamma> e \<and> qe_type e = BooleanT \<and> \<not> is_lambda e"

lemma boolean_value:
  assumes "runtime_ok D R" "pred D \<Gamma> e" "env_ok \<Gamma> \<rho>"
  shows "sval (qeval R w e \<rho>) \<in> {None, Some VNull, Some (VBool True), Some (VBool False)}"
proof (cases "sval (qeval R w e \<rho>)")
  case (Some v)
  then have "has_type v BooleanT" using qeval_typed[OF assms(1) _ assms(3) Some] assms(2) by (auto simp: pred_def)
  then show ?thesis using Some by (cases v) auto
qed simp

lemma holds_and:
  assumes "runtime_ok D R" "means R c kAnd BooleanT args" "\<forall>a\<in>set args. pred D \<Gamma> a" "env_ok \<Gamma> \<rho>"
  shows "holds R w \<rho> c \<longleftrightarrow> (\<forall>a\<in>set args. holds R w \<rho> a)"
proof -
  have b: "sval (qeval R w a \<rho>) \<in> {None, Some VNull, Some (VBool True), Some (VBool False)}"
    if "a \<in> set args" for a
    using boolean_value[OF assms(1) _ assms(4)] assms(3) that by blast
  have "sval (qeval R w c \<rho>) = and_result (map (\<lambda>a. sval (qeval R w a \<rho>)) args)"
    using means_sval[OF assms(2)] run_and[OF assms(1)] args_values_map by metis
  moreover have "Some (VBool True) = and_result (map (\<lambda>a. sval (qeval R w a \<rho>)) args) \<longleftrightarrow>
      (\<forall>a\<in>set args. sval (qeval R w a \<rho>) = Some (VBool True))"
    using b by (auto simp: and_true_iff eq_commute[of "Some (VBool True)"] image_iff) force+
  ultimately show ?thesis unfolding holds_def by auto
qed

lemma holds_or:
  assumes "runtime_ok D R" "means R c kOr BooleanT args"
  shows "holds R w \<rho> c \<longleftrightarrow> (\<exists>a\<in>set args. holds R w \<rho> a)"
proof -
  have "sval (qeval R w c \<rho>) = or_result (map (\<lambda>a. sval (qeval R w a \<rho>)) args)"
    using means_sval[OF assms(2)] run_or[OF assms(1)] args_values_map by metis
  moreover have "or_result (map (\<lambda>a. sval (qeval R w a \<rho>)) args) = Some (VBool True) \<longleftrightarrow>
      (\<exists>a\<in>set args. sval (qeval R w a \<rho>) = Some (VBool True))"
    unfolding or_true_iff by (auto simp: image_iff) force+
  ultimately show ?thesis unfolding holds_def by simp
qed

lemma forms_distinct:
  "kAnd \<noteq> kOr" "kAnd \<noteq> kCoalesce" "kAnd \<noteq> kIf" "kAnd \<noteq> kSwitch" "kAnd \<noteq> kRowConstructor" "kAnd \<noteq> kDereference"
  "kAnd \<noteq> kIn" "kOr \<noteq> kAnd" "kOr \<noteq> kCoalesce" "kOr \<noteq> kIf" "kOr \<noteq> kSwitch" "kOr \<noteq> kRowConstructor"
  "kOr \<noteq> kDereference" "kOr \<noteq> kIn" "kIn \<noteq> kAnd" "kIn \<noteq> kOr" "kIn \<noteq> kCoalesce" "kIn \<noteq> kIf" "kIn \<noteq> kSwitch"
  "kIn \<noteq> kRowConstructor" "kIn \<noteq> kDereference" "kCoalesce \<noteq> kIf" "kCoalesce \<noteq> kSwitch" "kCoalesce \<noteq> kRowConstructor"
  "kCoalesce \<noteq> kDereference" "kIf \<noteq> kRowConstructor" "kIf \<noteq> kDereference" "kSwitch \<noteq> kRowConstructor"
  "kSwitch \<noteq> kDereference" "kRowConstructor \<noteq> kDereference" "kIf \<noteq> kSwitch" "kCoalesce \<noteq> kIn" "kIf \<noteq> kIn"
  "kSwitch \<noteq> kIn" "kRowConstructor \<noteq> kIn" "kDereference \<noteq> kIn"
  by (simp_all add: form_names)

lemma special_form_ok:
  assumes "isSpecialForm n" "dialect_ok D"
  shows "form_ok D n t args \<longleftrightarrow>
     (n = kAnd \<or> n = kOr \<longrightarrow> t = BooleanT \<and> (\<forall>a\<in>set args. qe_type a = BooleanT)) \<and>
     (n = kCoalesce \<longrightarrow> (\<forall>a\<in>set args. qe_type a = t)) \<and>
     (n = kIf \<or> n = kSwitch \<longrightarrow> conditions_ok t args) \<and>
     (\<forall>a\<in>set args. \<not> is_lambda a) \<and>
     (n = kRowConstructor \<longrightarrow> args \<noteq> [] \<and> (\<exists>fs. t = RowT fs \<and> map qe_type args = map snd fs)) \<and>
     (n = kDereference \<longrightarrow> deref_ok t args) \<and>
     (n = kIn \<longrightarrow> t = BooleanT \<and> args \<noteq> [])"
proof -
  have "Some n \<noteq> fn_equality (d_names D)" "Some n \<noteq> fn_isNull (d_names D)" "Some n \<noteq> fn_negation (d_names D)"
    using plain_name[OF assms(2), of n] assms(1) by auto
  then show ?thesis unfolding form_ok_def using assms(1) by simp
qed

lemma form_ok_row:
  assumes "form_ok D kRowConstructor t args"
  shows "args \<noteq> []" "\<exists>fs. t = RowT fs \<and> map qe_type args = map snd fs" "\<forall>a\<in>set args. \<not> is_lambda a"
  using assms special_names(6) unfolding form_ok_def by (metis, metis, metis)

lemma form_ok_connective:
  assumes "n = kAnd \<or> n = kOr" "dialect_ok D"
  shows "form_ok D n t args \<longleftrightarrow> t = BooleanT \<and> (\<forall>a\<in>set args. qe_type a = BooleanT \<and> \<not> is_lambda a)"
  using assms(1)
proof
  assume n: "n = kAnd"
  show ?thesis unfolding n special_form_ok[OF special_names(1) assms(2)] by (auto simp: forms_distinct)
next
  assume n: "n = kOr"
  show ?thesis unfolding n special_form_ok[OF special_names(2) assms(2)] by (auto simp: forms_distinct)
qed

text \<open>
  What a tree of conjunctions, or of disjunctions, over a list of predicates is: the factory, the
  balanced trees of the derived filters and the flattening of trees all give such junctions.
\<close>

definition junction_result :: "bool \<Rightarrow> variant option list \<Rightarrow> variant option" where
  "junction_result cj rs = (if cj then and_result rs else or_result rs)"

definition kJunction :: "bool \<Rightarrow> string" where
  "kJunction cj = (if cj then kAnd else kOr)"

definition junction :: "dialect \<Rightarrow> (nat \<Rightarrow> vtype) \<Rightarrow> 'w runtime \<Rightarrow> bool \<Rightarrow> qexpr list \<Rightarrow> qexpr \<Rightarrow> bool" where
  "junction D \<Gamma> R cj es c \<longleftrightarrow>
     pred D \<Gamma> c \<and> qe_columns c = (\<Union>e\<in>set es. qe_columns e) \<and>
     (deterministic c \<longrightarrow> (\<forall>e\<in>set es. deterministic e)) \<and>
     (\<forall>w \<rho>. env_ok \<Gamma> \<rho> \<longrightarrow>
        sval (qeval R w c \<rho>) = junction_result cj (map (\<lambda>e. sval (qeval R w e \<rho>)) es))"

text \<open>A junction the factory makes adds no non-determinism of its own.\<close>

definition new_junction :: "dialect \<Rightarrow> (nat \<Rightarrow> vtype) \<Rightarrow> 'w runtime \<Rightarrow> bool \<Rightarrow> qexpr list \<Rightarrow> qexpr \<Rightarrow> bool" where
  "new_junction D \<Gamma> R cj es c \<longleftrightarrow>
     junction D \<Gamma> R cj es c \<and> ((\<forall>e\<in>set es. deterministic e) \<longrightarrow> deterministic c)"

lemma junctionD:
  assumes "junction D \<Gamma> R cj es c"
  shows "pred D \<Gamma> c" "qe_columns c = (\<Union>e\<in>set es. qe_columns e)"
    "deterministic c \<Longrightarrow> e \<in> set es \<Longrightarrow> deterministic e"
    "env_ok \<Gamma> \<rho> \<Longrightarrow> sval (qeval R w c \<rho>) = junction_result cj (map (\<lambda>e. sval (qeval R w e \<rho>)) es)"
  using assms unfolding junction_def by blast+

lemma junctionI:
  assumes "pred D \<Gamma> c" "qe_columns c = (\<Union>e\<in>set es. qe_columns e)"
    "\<And>e. deterministic c \<Longrightarrow> e \<in> set es \<Longrightarrow> deterministic e"
    "\<And>w \<rho>. env_ok \<Gamma> \<rho> \<Longrightarrow> sval (qeval R w c \<rho>) = junction_result cj (map (\<lambda>e. sval (qeval R w e \<rho>)) es)"
  shows "junction D \<Gamma> R cj es c"
  using assms unfolding junction_def by blast

lemma new_junctionD:
  assumes "new_junction D \<Gamma> R cj es c"
  shows "junction D \<Gamma> R cj es c" "(\<And>e. e \<in> set es \<Longrightarrow> deterministic e) \<Longrightarrow> deterministic c"
  using assms unfolding new_junction_def by blast+

abbreviation truth_values :: "variant option set" where
  "truth_values \<equiv> {None, Some VNull, Some (VBool True), Some (VBool False)}"

lemma junction_single: "x \<in> truth_values \<Longrightarrow> junction_result cj [x] = x"
  by (auto simp: junction_result_def and_result_def or_result_def)

lemma junction_twice: "x \<in> truth_values \<Longrightarrow> junction_result cj [x, x] = x"
  by (auto simp: junction_result_def and_result_def or_result_def)

lemma junction_append:
  "junction_result cj [junction_result cj xs, junction_result cj ys] = junction_result cj (xs @ ys)"
  by (auto simp: junction_result_def and_result_def or_result_def)

lemma junction_self:
  assumes "runtime_ok D R" "pred D \<Gamma> e"
  shows "new_junction D \<Gamma> R cj [e] e" "new_junction D \<Gamma> R cj [e, e] e"
  unfolding new_junction_def junction_def
  using assms boolean_value[OF assms] by (auto simp: junction_single junction_twice)

lemma junction_built:
  assumes "dialect_ok D" "runtime_ok D R" "built D \<Gamma> R (kJunction cj) BooleanT es c" "\<forall>e\<in>set es. pred D \<Gamma> e"
  shows "new_junction D \<Gamma> R cj es c"
proof -
  note b = builtD[OF assms(3)]
  have "sval (qeval R w c \<rho>) = junction_result cj (map (\<lambda>e. sval (qeval R w e \<rho>)) es)" for w \<rho>
    using means_sval[OF b(4)] run_and[OF assms(2)] run_or[OF assms(2)]
    by (auto simp: junction_result_def kJunction_def args_values_map)
  moreover have "well_formed D \<Gamma> c"
    using b(5) assms(1,4) form_ok_connective[of "kJunction cj" D] by (auto simp: pred_def kJunction_def)
  ultimately show ?thesis using b by (simp add: new_junction_def junction_def pred_def)
qed

lemma junction_join:
  assumes "new_junction D \<Gamma> R cj xs x" "new_junction D \<Gamma> R cj ys y" "new_junction D \<Gamma> R cj [x, y] c"
  shows "new_junction D \<Gamma> R cj (xs @ ys) c"
proof -
  note jx = new_junctionD[OF assms(1)] and jy = new_junctionD[OF assms(2)] and jc = new_junctionD[OF assms(3)]
  have "junction D \<Gamma> R cj (xs @ ys) c"
  proof (rule junctionI)
    show "pred D \<Gamma> c" by (rule junctionD(1)[OF jc(1)])
    show "qe_columns c = (\<Union>e\<in>set (xs @ ys). qe_columns e)"
      using junctionD(2)[OF jx(1)] junctionD(2)[OF jy(1)] junctionD(2)[OF jc(1)] by auto
    show "deterministic e" if "deterministic c" "e \<in> set (xs @ ys)" for e
      using junctionD(3)[OF jx(1)] junctionD(3)[OF jy(1)] junctionD(3)[OF jc(1)] that by auto
    show "sval (qeval R w c \<rho>) = junction_result cj (map (\<lambda>e. sval (qeval R w e \<rho>)) (xs @ ys))"
      if r: "env_ok \<Gamma> \<rho>" for w \<rho>
      using junctionD(4)[OF jx(1) r, of w] junctionD(4)[OF jy(1) r, of w] junctionD(4)[OF jc(1) r, of w]
        junction_append[of cj "map (\<lambda>e. sval (qeval R w e \<rho>)) xs" "map (\<lambda>e. sval (qeval R w e \<rho>)) ys"]
      by simp
  qed
  moreover have "deterministic c" if "\<forall>e\<in>set (xs @ ys). deterministic e"
    using jx(2) jy(2) jc(2) that by auto
  ultimately show ?thesis by (simp add: new_junction_def)
qed

definition makeJunction :: "dialect \<Rightarrow> bool \<Rightarrow> qexpr \<Rightarrow> qexpr \<Rightarrow> qexpr build" where
  "makeJunction D cj = (if cj then makeAnd D else makeOr D)"

lemma gives_junction:
  assumes "dialect_ok D" "runtime_ok D R" "pred D \<Gamma> x" "pred D \<Gamma> y"
  shows "gives (makeJunction D cj x y) (new_junction D \<Gamma> R cj [x, y])"
proof (cases cj)
  case True
  have "new_junction D \<Gamma> R True [x, y] c"
    if "x = y \<and> c = x \<or> built D \<Gamma> R kAnd BooleanT [x, y] c" for c
    using that junction_self(2)[OF assms(2,3), of True]
      junction_built[OF assms(1,2), of \<Gamma> True "[x, y]" c] assms(3,4) by (auto simp: kJunction_def)
  then show ?thesis
    using gives_weaken[OF gives_makeAnd[OF assms(1,2), of x y \<Gamma>]] True by (simp add: makeJunction_def)
next
  case False
  have "new_junction D \<Gamma> R False [x, y] c" if "built D \<Gamma> R kOr BooleanT [x, y] c" for c
    using that junction_built[OF assms(1,2), of \<Gamma> False "[x, y]" c] assms(3,4) by (auto simp: kJunction_def)
  then show ?thesis
    using gives_weaken[OF gives_makeOr[OF assms(1,2), of x y \<Gamma>]] False by (simp add: makeJunction_def)
qed

lemma gives_chain:
  assumes "dialect_ok D" "runtime_ok D R" "new_junction D \<Gamma> R cj es acc" "\<forall>p\<in>set ps. pred D \<Gamma> p"
  shows "gives (chain_with (makeJunction D cj) acc ps) (new_junction D \<Gamma> R cj (es @ ps))"
  using assms(3,4)
proof (induction ps arbitrary: es acc)
  case Nil
  then show ?case by (auto intro: gives_ret)
next
  case (Cons p ps)
  have a: "pred D \<Gamma> acc" using Cons.prems(1) by (simp add: new_junction_def junction_def)
  have p: "pred D \<Gamma> p" using Cons.prems(2) by simp
  have "gives (chain_with (makeJunction D cj) r ps) (new_junction D \<Gamma> R cj ((es @ [p]) @ ps))"
    if "new_junction D \<Gamma> R cj [acc, p] r" for r
    using Cons.IH[of "es @ [p]" r] junction_join[OF Cons.prems(1) junction_self(1)[OF assms(2) p] that]
      Cons.prems(2) by simp
  then have "gives (andThen (makeJunction D cj acc p) (\<lambda>r. chain_with (makeJunction D cj) r ps))
      (new_junction D \<Gamma> R cj ((es @ [p]) @ ps))"
    by (rule gives_andThen[OF gives_junction[OF assms(1,2) a p]])
  then show ?case by simp
qed

lemma gives_andAll:
  assumes "dialect_ok D" "runtime_ok D R" "\<forall>p\<in>set ps. pred D \<Gamma> p" "ps \<noteq> []"
  shows "gives (andAll D ps) (new_junction D \<Gamma> R True ps)"
proof (cases ps)
  case (Cons p qs)
  then show ?thesis
    using gives_chain[OF assms(1,2) junction_self(1)[OF assms(2), of \<Gamma> p], of qs True] assms(3)
    by (simp add: makeJunction_def)
qed (simp add: assms)

lemma gives_orAll:
  assumes "dialect_ok D" "runtime_ok D R" "\<forall>p\<in>set ps. pred D \<Gamma> p" "ps \<noteq> []"
  shows "gives (orAll D ps) (new_junction D \<Gamma> R False ps)"
proof (cases ps)
  case (Cons p qs)
  then show ?thesis
    using gives_chain[OF assms(1,2) junction_self(1)[OF assms(2), of \<Gamma> p], of qs False] assms(3)
    by (simp add: makeJunction_def)
qed (simp add: assms)

text \<open>Flattening a tree gives a list of which the tree is a junction.\<close>

lemma junction_nested:
  assumes "\<forall>x\<in>set xs. v x = junction_result cj (map u (f x))"
  shows "junction_result cj (map v xs) = junction_result cj (map u (concat (map f xs)))"
  using assms
  by (cases cj) (auto simp: junction_result_def and_result_def or_result_def image_iff split: if_splits)

lemma flatten_junction:
  assumes "dialect_ok D" "runtime_ok D R" "pred D \<Gamma> e"
  shows "junction D \<Gamma> R cj (flattenInto (kJunction cj) e) e"
    and "\<forall>x\<in>set (flattenInto (kJunction cj) e). pred D \<Gamma> x"
proof -
  have "junction D \<Gamma> R cj (flattenInto (kJunction cj) e) e \<and>
    (\<forall>x\<in>set (flattenInto (kJunction cj) e). pred D \<Gamma> x)"
    using assms(3)
  proof (induction "kJunction cj" e rule: flattenInto.induct)
    case (1 i n t fs args)
    show ?case
    proof (cases "n = kJunction cj")
      case True
      have c: "n = kAnd \<or> n = kOr" using True by (auto simp: kJunction_def)
      have a: "\<forall>a\<in>set args. pred D \<Gamma> a" and t: "t = BooleanT"
        using 1(2) form_ok_connective[OF c assms(1)] by (auto simp: pred_def)
      have IH: "junction D \<Gamma> R cj (flattenInto n a) a \<and> (\<forall>x\<in>set (flattenInto n a). pred D \<Gamma> x)"
        if "a \<in> set args" for a
        using 1(1)[OF True that] a that True by simp
      have "means R (Call i n t fs args) n t args"
        by (rule means_cong[OF assms(2)], rule det_special[OF assms(1)]) (use c special_names in auto)
      then have v: "sval (qeval R w (Call i n t fs args) \<rho>) =
          junction_result cj (map (\<lambda>a. sval (qeval R w a \<rho>)) args)" for w \<rho>
        using means_sval run_and[OF assms(2)] run_or[OF assms(2)] True t
        by (auto simp: junction_result_def kJunction_def args_values_map)
      have "junction_result cj (map (\<lambda>a. sval (qeval R w a \<rho>)) args) =
          junction_result cj (map (\<lambda>a. sval (qeval R w a \<rho>)) (concat (map (flattenInto n) args)))"
        if "env_ok \<Gamma> \<rho>" for w \<rho>
        by (rule junction_nested) (use IH that in \<open>auto simp: junction_def\<close>)
      moreover have "deterministic (Call i n t fs args) \<Longrightarrow> a \<in> set args \<Longrightarrow> deterministic a" for a
        using 1(2) by (auto simp: pred_def deterministic_def)
      ultimately show ?thesis
        using IH True 1(2) v unfolding junction_def by auto
    next
      case False
      then show ?thesis using junction_self(1)[OF assms(2) 1(2)] 1(2) by (simp add: new_junction_def)
    qed
  qed (use junction_self(1)[OF assms(2)] in \<open>simp_all add: new_junction_def\<close>)
  then show "junction D \<Gamma> R cj (flattenInto (kJunction cj) e) e"
    and "\<forall>x\<in>set (flattenInto (kJunction cj) e). pred D \<Gamma> x" by auto
qed

section \<open>Equality and membership\<close>

lemma dialect_distinct:
  "dialect_ok D \<Longrightarrow> fn_equality (d_names D) = Some n \<Longrightarrow>
   Some n \<noteq> fn_isNull (d_names D) \<and> Some n \<noteq> fn_negation (d_names D)"
  "dialect_ok D \<Longrightarrow> fn_isNull (d_names D) = Some n \<Longrightarrow>
   Some n \<noteq> fn_equality (d_names D) \<and> Some n \<noteq> fn_negation (d_names D)"
  "dialect_ok D \<Longrightarrow> fn_negation (d_names D) = Some n \<Longrightarrow>
   Some n \<noteq> fn_equality (d_names D) \<and> Some n \<noteq> fn_isNull (d_names D)"
  by (auto simp: dialect_ok_def)

lemma form_ok_equality:
  "dialect_ok D \<Longrightarrow> fn_equality (d_names D) = Some n \<Longrightarrow> qe_type x = qe_type y \<Longrightarrow>
   \<not> is_lambda x \<Longrightarrow> \<not> is_lambda y \<Longrightarrow> form_ok D n BooleanT [x, y]"
  using plain_name[of D n] dialect_distinct(1)[of D n] by (auto simp: form_ok_plain)

lemma form_ok_isNull:
  "dialect_ok D \<Longrightarrow> fn_isNull (d_names D) = Some n \<Longrightarrow> form_ok D n BooleanT [x]"
  using plain_name[of D n] dialect_distinct(2)[of D n] by (auto simp: form_ok_plain)

lemma form_ok_negation:
  "dialect_ok D \<Longrightarrow> fn_negation (d_names D) = Some n \<Longrightarrow> qe_type x = BooleanT \<Longrightarrow>
   form_ok D n BooleanT [x]"
  using plain_name[of D n] dialect_distinct(3)[of D n] by (auto simp: form_ok_plain)

lemma form_ok_in:
  assumes "dialect_ok D" "args \<noteq> []" "\<forall>a\<in>set args. \<not> is_lambda a"
  shows "form_ok D kIn BooleanT args"
  unfolding special_form_ok[OF special_names(8) assms(1)] using assms(2,3) by (simp add: forms_distinct)

lemma sql_eq_truth:
  assumes "runtime_ok D R" "fn_equality (d_names D) = Some n" "dialect_ok D"
  shows "sql_eq R n s t x y \<in> {Some VNull, Some (VBool True), Some (VBool False)}"
proof -
  obtain v where v: "sql_eq R n s t x y = Some v" using sql_eq_total[OF assms(1,2)] by fast
  have "n \<notin> {kCoalesce, kIf, kSwitch, kDereference, kRowConstructor}"
    using plain_name[OF assms(3)] assms(2) special_names by auto
  then have "has_type v BooleanT" using run_typed[OF assms(1)] v unfolding sql_eq_def by blast
  then show ?thesis using v by (cases v) auto
qed

lemma run_eq:
  assumes "runtime_ok D R" "fn_equality (d_names D) = Some n"
  shows "run R s n BooleanT [(t, Val x), (t, Val y)] =
    (case (x, y) of (Some u, Some v) \<Rightarrow> sql_eq R n s t u v | _ \<Rightarrow> None)"
  using run_eq_None[OF assms] by (auto simp: sql_eq_def split: option.splits)

text \<open>What an equality the factory made means, on operands that are no lambdas.\<close>

definition eq_value :: "'w runtime \<Rightarrow> string \<Rightarrow> 'w \<Rightarrow> vtype \<Rightarrow> variant option \<Rightarrow> variant option \<Rightarrow> variant option" where
  "eq_value R n s t x y = (case (x, y) of (Some u, Some v) \<Rightarrow> sql_eq R n s t u v | _ \<Rightarrow> None)"

lemma qeval_Val: "\<not> is_lambda e \<Longrightarrow> qeval R w e \<rho> = Val (sval (qeval R w e \<rho>))"
  by (cases e) simp_all

definition equality_of :: "dialect \<Rightarrow> (nat \<Rightarrow> vtype) \<Rightarrow> 'w runtime \<Rightarrow> qexpr \<Rightarrow> qexpr \<Rightarrow> qexpr \<Rightarrow> bool" where
  "equality_of D \<Gamma> R x y c \<longleftrightarrow> pred D \<Gamma> c \<and> qe_columns c = qe_columns x \<union> qe_columns y \<and>
     (deterministic c \<longleftrightarrow> deterministic x \<and> deterministic y) \<and>
     (\<exists>n. fn_equality (d_names D) = Some n \<and> (\<forall>w s \<rho>. sval (qeval R w c \<rho>) =
        eq_value R n s (qe_type x) (sval (qeval R w x \<rho>)) (sval (qeval R w y \<rho>))))"

lemma built_equality:
  assumes "dialect_ok D" "runtime_ok D R" "fn_equality (d_names D) = Some n"
    "built D \<Gamma> R n BooleanT [x, y] c" "qe_type x = qe_type y" "\<not> is_lambda x" "\<not> is_lambda y"
    "well_formed D \<Gamma> x" "well_formed D \<Gamma> y"
  shows "equality_of D \<Gamma> R x y c"
proof -
  note b = builtD[OF assms(4)]
  have "sval (qeval R w c \<rho>) = eq_value R n s (qe_type x) (sval (qeval R w x \<rho>)) (sval (qeval R w y \<rho>))"
    for w s \<rho>
  proof -
    obtain u v where u: "qeval R w x \<rho> = Val u" and v: "qeval R w y \<rho> = Val v"
      using qeval_Val[OF assms(6)] qeval_Val[OF assms(7)] by blast
    show ?thesis
      using means_sval[OF b(4), of w \<rho> s] run_eq[OF assms(2,3), of s "qe_type y" u v] u v assms(5)
      by (simp add: eq_value_def)
  qed
  then show ?thesis
    using b form_ok_equality[OF assms(1,3,5-7)] assms(3,8,9) by (auto simp: equality_of_def pred_def)
qed

lemma gives_equality:
  assumes "dialect_ok D" "runtime_ok D R" "qe_type x = qe_type y" "\<not> is_lambda x" "\<not> is_lambda y"
    "well_formed D \<Gamma> x" "well_formed D \<Gamma> y"
  shows "gives (makeEq D x y) (equality_of D \<Gamma> R x y)"
proof -
  obtain n where n: "fn_equality (d_names D) = Some n" using equality_registered[OF assms(1)] by blast
  show ?thesis
    by (rule gives_weaken[OF gives_makeEq[OF assms(1,2) n, of x y \<Gamma>]])
      (use built_equality[OF assms(1,2) n] assms(3-7) in blast)
qed

lemma first_occurrences_set: "set (first_occurrences seen xs) = set xs - set seen"
  by (induction seen xs rule: first_occurrences.induct) auto

lemma in_result_set: "set xs = set ys \<Longrightarrow> in_result eq v xs = in_result eq v ys"
  by (simp add: in_result_def or_result_def)

definition membership_of :: "dialect \<Rightarrow> (nat \<Rightarrow> vtype) \<Rightarrow> 'w runtime \<Rightarrow> qexpr \<Rightarrow> variant list \<Rightarrow> qexpr \<Rightarrow> bool" where
  "membership_of D \<Gamma> R x vs c \<longleftrightarrow> pred D \<Gamma> c \<and> qe_columns c = qe_columns x \<and>
     (deterministic c \<longleftrightarrow> deterministic x) \<and>
     (\<forall>n w s \<rho>. fn_equality (d_names D) = Some n \<longrightarrow> sval (qeval R w c \<rho>) =
        (case sval (qeval R w x \<rho>) of None \<Rightarrow> None | Some v \<Rightarrow> in_result (sql_eq R n s (qe_type x)) v vs))"

lemma gives_makeIn:
  assumes ok: "dialect_ok D" "runtime_ok D R" and x: "\<not> is_lambda x" "well_formed D \<Gamma> x"
    and vs: "\<forall>v\<in>set vs. has_type v (qe_type x)" and ne: "vs \<noteq> []"
  shows "gives (makeIn D x vs) (membership_of D \<Gamma> R x vs)"
  unfolding makeIn_def Let_def
proof (rule gives_require[OF ne])
  let ?vs = "first_occurrences [] vs"
  have set: "set ?vs = set vs" by (simp add: first_occurrences_set)
  have xv: "qeval R w x \<rho> = Val (sval (qeval R w x \<rho>))" for w \<rho> by (rule qeval_Val[OF x(1)])
  show "gives (if 1 < length ?vs
      then andThen (makeLiteral (VArray ?vs) (ArrayT (qe_type x))) (\<lambda>l. makeBooleanCall D kIn [x, l] True)
      else andThen (makeLiteral (hd ?vs) (qe_type x)) (makeEq D x)) (membership_of D \<Gamma> R x vs)"
  proof (cases "1 < length ?vs")
    case True
    have "membership_of D \<Gamma> R x vs c"
      if l: "l = Literal i (ArrayT (qe_type x)) (VArray ?vs)" and b: "built D \<Gamma> R kIn BooleanT [x, l] c" for l i c
    proof -
      note bD = builtD[OF b]
      have "sval (qeval R w c \<rho>) =
          (case sval (qeval R w x \<rho>) of None \<Rightarrow> None | Some v \<Rightarrow> in_result (sql_eq R n s (qe_type x)) v vs)"
        if n: "fn_equality (d_names D) = Some n" for n w s \<rho>
      proof (cases "sval (qeval R w x \<rho>)")
        case None
        then show ?thesis
          using means_sval[OF bD(4), of w \<rho> s] run_in_None[OF ok(2) None] by simp
      next
        case (Some v)
        have "type_equivalent R (qe_type x) (qe_type x)" using ok(2) by (simp add: runtime_ok_def)
        from run_in_array[OF ok(2) n this, of s v ?vs]
        show ?thesis
          using means_sval[OF bD(4), of w \<rho> s] xv[of w \<rho>] Some l in_result_set[OF set, of _ v] by simp
      qed
      moreover have "well_formed D \<Gamma> l"
        using vs set by (auto simp: l have_types_nth)
      ultimately show ?thesis
        using bD form_ok_in[OF ok(1), of "[x, l]"] x l by (auto simp: membership_of_def pred_def)
    qed
    then have "gives (andThen (makeLiteral (VArray ?vs) (ArrayT (qe_type x))) (\<lambda>l. makeBooleanCall D kIn [x, l] True))
        (membership_of D \<Gamma> R x vs)"
      unfolding makeBooleanCall_def
      by (intro gives_andThen[OF gives_makeLiteral] gives_weaken[OF gives_factory_makeCall[OF ok det_special[OF ok(1)]]])
        (use special_names in blast)+
    then show ?thesis using True by simp
  next
    case False
    then obtain v where v: "?vs = [v]" using set ne by (cases ?vs; cases "tl ?vs") auto
    have "membership_of D \<Gamma> R x vs c" if l: "l = Literal i (qe_type x) v" and e: "equality_of D \<Gamma> R x l c" for l i c
    proof -
      have "sval (qeval R w c \<rho>) =
          (case sval (qeval R w x \<rho>) of None \<Rightarrow> None | Some u \<Rightarrow> in_result (sql_eq R n s (qe_type x)) u vs)"
        if n: "fn_equality (d_names D) = Some n" for n w s \<rho>
      proof -
        have "sval (qeval R w c \<rho>) = eq_value R n s (qe_type x) (sval (qeval R w x \<rho>)) (Some v)"
          using e n l unfolding equality_of_def by auto
        moreover have "in_result (sql_eq R n s (qe_type x)) u vs = sql_eq R n s (qe_type x) u v" for u
        proof -
          let ?q = "sql_eq R n s (qe_type x) u v"
          have "in_result (sql_eq R n s (qe_type x)) u vs = in_result (sql_eq R n s (qe_type x)) u [v]"
            by (rule in_result_set) (use set v in simp)
          also have "\<dots> = (if u = VNull then Some VNull else or_result [?q])" by (simp add: in_result_def)
          also have "or_result [?q] = ?q"
            using sql_eq_truth[OF ok(2) n ok(1), of s "qe_type x" u v]
              junction_single[of ?q False] by (simp add: junction_result_def)
          finally show ?thesis using sql_eq_null[OF ok(2) n, of u v s "qe_type x"] by (cases "u = VNull") auto
        qed
        ultimately show ?thesis by (simp add: eq_value_def split: option.splits)
      qed
      then show ?thesis using e l unfolding membership_of_def equality_of_def by auto
    qed
    moreover have "has_type v (qe_type x)" using vs set v by auto
    ultimately have "gives (andThen (makeLiteral (hd ?vs) (qe_type x)) (makeEq D x)) (membership_of D \<Gamma> R x vs)"
      using x v by (intro gives_andThen[OF gives_makeLiteral])
        (auto intro!: gives_weaken[OF gives_equality[OF ok, of x _ \<Gamma>]])
    then show ?thesis using False by simp
  qed
qed

end
