(* ===== verification/Implied_Filters.thy ===== *)
theory Implied_Filters
  imports Expr_Semantics
begin

text \<open>
  Filters implied by other filters (\<^verbatim>\<open>optimizer/v2/ImpliedFilters.h\<close> and \<^verbatim>\<open>.cpp\<close>): for one column,
  for one input of a join, and the equalities that the keys of a join imply within one input.
\<close>

section \<open>Balanced trees\<close>

fun pair_up :: "(qexpr \<Rightarrow> qexpr \<Rightarrow> qexpr build) \<Rightarrow> qexpr list \<Rightarrow> qexpr list build" where
  "pair_up combine (x # y # es) =
     andThen (combine x y) (\<lambda>z. andThen (pair_up combine es) (\<lambda>zs. ret (z # zs)))"
| "pair_up combine es = ret es"

lemma pair_up_length:
  "pair_up combine es b = Inr (zs, b') \<Longrightarrow> 2 \<le> length es \<Longrightarrow> length zs < length es"
proof -
  have "pair_up combine es b = Inr (zs, b') \<Longrightarrow> length zs = (length es + 1) div 2"
    by (induction combine es arbitrary: b zs b' rule: pair_up.induct)
      (auto simp: andThen_def ret_def split: sum.splits)
  then show "pair_up combine es b = Inr (zs, b') \<Longrightarrow> 2 \<le> length es \<Longrightarrow> length zs < length es" by simp
qed

function combineBalanced :: "(qexpr \<Rightarrow> qexpr \<Rightarrow> qexpr build) \<Rightarrow> qexpr list \<Rightarrow> qexpr build" where
  "combineBalanced combine es b =
     (if es = [] then throw CheckFailed b
      else if length es = 1 then ret (hd es) b
      else case pair_up combine es b of
        Inl e \<Rightarrow> Inl e
      | Inr r \<Rightarrow> combineBalanced combine (fst r) (snd r))"
  by pat_completeness auto
termination
proof (relation "measure (\<lambda>(combine, es, b). length es)", goal_cases)
  case (2 combine es b r)
  then show ?case using pair_up_length[of combine es b "fst r" "snd r"] by (cases es; cases r) (auto simp: Suc_le_eq)
qed simp

declare combineBalanced.simps [simp del]

section \<open>Projection of a boolean expression onto groups\<close>

record 'g projection =
  p_group :: 'g
  p_filter :: qexpr
  p_matches :: bool

record 'g accumulator =
  a_group :: 'g
  a_filters :: "qexpr list"
  a_matched :: nat
  a_children_match :: bool

text \<open>
  One projection of operand number \<open>k\<close>: it goes to the accumulator of its group, which is made on
  first sight, for an OR only from the first operand.
\<close>

definition accumulate ::
  "bool \<Rightarrow> nat \<Rightarrow> 'g projection \<Rightarrow> 'g accumulator list \<Rightarrow> 'g accumulator list" where
  "accumulate isOr k p accs =
     (let accs' = (if p_group p \<in> set (map a_group accs) then accs
                   else if isOr \<and> k > 0 then accs
                   else accs @ [\<lparr>a_group = p_group p, a_filters = [], a_matched = 0, a_children_match = True\<rparr>])
      in map (\<lambda>acc. if a_group acc = p_group p
               then acc\<lparr>a_filters := a_filters acc @ [p_filter p], a_matched := a_matched acc + 1,
                        a_children_match := a_children_match acc \<and> p_matches p\<rparr>
               else acc) accs')"

fun finish_groups ::
  "dialect \<Rightarrow> bool \<Rightarrow> nat \<Rightarrow> 'g accumulator list \<Rightarrow> 'g projection list build" where
  "finish_groups D isOr n [] = ret []"
| "finish_groups D isOr n (acc # accs) =
     (if isOr \<and> a_matched acc \<noteq> n then finish_groups D isOr n accs
      else andThen (combineBalanced (if isOr then makeOr D else makeAnd D) (a_filters acc))
        (\<lambda>f. andThen (finish_groups D isOr n accs)
        (\<lambda>ps. ret (\<lparr>p_group = a_group acc, p_filter = f,
            p_matches = (a_matched acc = n \<and> a_children_match acc)\<rparr> # ps))))"

lemma flattenInto_size:
  "(\<Sum>x\<leftarrow>flattenInto name e. 2 * size x + 1) \<le> 2 * size e + 1"
proof (induction name e rule: flattenInto.induct)
  case (1 name i n t fs args)
  have "(\<Sum>x\<leftarrow>concat (map (flattenInto name) args). 2 * size x + 1) \<le> (\<Sum>a\<leftarrow>args. 2 * size a + 1)"
    if "n = name"
    using 1[OF that]
  proof (induction args)
    case (Cons a args)
    then have "(\<Sum>x\<leftarrow>concat (map (flattenInto name) args). 2 * size x + 1) \<le> (\<Sum>a\<leftarrow>args. 2 * size a + 1)"
      and "(\<Sum>x\<leftarrow>flattenInto name a. 2 * size x + 1) \<le> 2 * size a + 1" by auto
    then show ?case by simp
  qed simp
  moreover have "(\<Sum>a\<leftarrow>args. 2 * size a + 1) \<le> 2 * size_list size args"
    by (induction args) auto
  ultimately show ?case by force
qed simp_all

lemma flattenInto_size_call:
  assumes "is_call name e"
  shows "(\<Sum>x\<leftarrow>flattenInto name e. 2 * size x + 1) < 2 * size e"
proof (cases e)
  case (Call i n t fs args)
  have "(\<Sum>x\<leftarrow>concat (map (flattenInto name) args). 2 * size x + 1) \<le> (\<Sum>a\<leftarrow>args. 2 * size a + 1)"
  proof (induction args)
    case (Cons a args)
    then show ?case using flattenInto_size[of name a] by simp
  qed simp
  moreover have "(\<Sum>a\<leftarrow>args. 2 * size a + 1) \<le> 2 * size_list size args"
    by (induction args) auto
  ultimately show ?thesis using assms Call by simp
qed (use assms in simp_all)

function projectLogicalExpression ::
    "dialect \<Rightarrow> (nat set \<Rightarrow> 'g option) \<Rightarrow> qexpr \<Rightarrow> 'g projection list build"
  and project_operands ::
    "dialect \<Rightarrow> (nat set \<Rightarrow> 'g option) \<Rightarrow> bool \<Rightarrow> nat \<Rightarrow> qexpr list \<Rightarrow> 'g accumulator list \<Rightarrow>
     'g accumulator list build" where
  "projectLogicalExpression D groupFor e =
     (if is_call kAnd e \<or> is_call kOr e
      then let isOr = \<not> is_call kAnd e;
               operands = flattenInto (if isOr then kOr else kAnd) e
           in andThen (project_operands D groupFor isOr 0 operands [])
                (finish_groups D isOr (length operands))
      else case groupFor (qe_columns e) of
        None \<Rightarrow> ret []
      | Some g \<Rightarrow> ret [\<lparr>p_group = g, p_filter = e, p_matches = True\<rparr>])"
| "project_operands D groupFor isOr k [] accs = ret accs"
| "project_operands D groupFor isOr k (e # es) accs =
     andThen (projectLogicalExpression D groupFor e)
       (\<lambda>ps. project_operands D groupFor isOr (k + 1) es (fold (accumulate isOr k) ps accs))"
  by pat_completeness auto
termination
proof (relation "measure (\<lambda>x. case x of
    Inl (D, gf, e) \<Rightarrow> 2 * size e
  | Inr (D, gf, isOr, k, es, accs) \<Rightarrow> (\<Sum>e\<leftarrow>es. 2 * size e + 1))", goal_cases)
  case (2 D gf e isOr operands)
  then show ?case using flattenInto_size_call[of kAnd e] flattenInto_size_call[of kOr e] by auto
qed auto

declare projectLogicalExpression.simps [simp del]

section \<open>Filters from disjunctions\<close>

definition deriveGroupedFiltersFromOr ::
  "dialect \<Rightarrow> (nat set \<Rightarrow> 'g option) \<Rightarrow> qexpr \<Rightarrow> ('g \<times> qexpr) list build" where
  "deriveGroupedFiltersFromOr D groupFor e =
     (if \<not> is_call kOr e \<or> containsNonDeterministic e then ret []
      else andThen (projectLogicalExpression D groupFor e)
        (\<lambda>ps. ret (map (\<lambda>p. (p_group p, if p_matches p then e else p_filter p)) ps)))"

section \<open>Filters from row-valued IN\<close>

fun row_fields :: "nat \<Rightarrow> variant list \<Rightarrow> variant list list build" where
  "row_fields n [] = ret []"
| "row_fields n (VNull # rows) = row_fields n rows"
| "row_fields n (VRow cells # rows) =
     require (length cells = n) (andThen (row_fields n rows) (\<lambda>rs. ret (cells # rs)))"
| "row_fields n (v # rows) = throw CheckFailed"

definition field_values :: "variant list list \<Rightarrow> nat \<Rightarrow> variant list" where
  "field_values rows k = filter (\<lambda>v. v \<noteq> VNull) (map (\<lambda>r. r ! k) rows)"

fun row_in_filters ::
  "dialect \<Rightarrow> variant list list \<Rightarrow> nat \<Rightarrow> qexpr list \<Rightarrow> (nat \<times> qexpr) list build" where
  "row_in_filters D rows k [] = ret []"
| "row_in_filters D rows k (e # es) =
     (if containsNonDeterministic e \<or> card (qe_columns e) \<noteq> 1 \<or> field_values rows k = []
      then row_in_filters D rows (k + 1) es
      else andThen (makeIn D e (field_values rows k))
        (\<lambda>f. andThen (row_in_filters D rows (k + 1) es)
        (\<lambda>fs. ret ((the_elem (qe_columns e), f) # fs))))"

fun deriveColumnFiltersFromRowIn ::
  "(vtype \<Rightarrow> vtype \<Rightarrow> bool) \<Rightarrow> dialect \<Rightarrow> qexpr \<Rightarrow> (nat \<times> qexpr) list build" where
  "deriveColumnFiltersFromRowIn eqv D (Call i n t fs args) =
     (case in_list_literal eqv n args of
        None \<Rightarrow> ret []
      | Some rows \<Rightarrow>
          (case hd args of
             Call j m u gs cells \<Rightarrow>
               if \<not> isRowConstructor m then ret []
               else if length cells < 2 then ret []
               else andThen (row_fields (length cells) rows)
                      (\<lambda>rs. row_in_filters D rs 0 cells)
           | _ \<Rightarrow> ret []))"
| "deriveColumnFiltersFromRowIn eqv D e = ret []"

section \<open>Equality up to nesting\<close>

fun call_name :: "qexpr \<Rightarrow> string option" where
  "call_name (Call i n t fs args) = Some n"
| "call_name e = None"

lemma flattenInto_member_size:
  assumes "is_call name e" "x \<in> set (flattenInto name e)"
  shows "size x < size e"
proof -
  have "2 * size x + 1 \<le> (\<Sum>x\<leftarrow>flattenInto name e. 2 * size x + 1)"
    by (rule member_le_sum_list) (use assms(2) in auto)
  then show ?thesis using flattenInto_size_call[OF assms(1)] by simp
qed

function equivalentModuloLogicalAssociativity :: "qexpr \<Rightarrow> qexpr \<Rightarrow> bool" where
  "equivalentModuloLogicalAssociativity l r =
     (if l = r then True
      else if call_name l = None \<or> call_name l \<noteq> call_name r then False
      else if is_call kAnd l
        then length (flattenInto kAnd l) = length (flattenInto kAnd r) \<and>
          (\<forall>p\<in>set (zip (flattenInto kAnd l) (flattenInto kAnd r)).
             equivalentModuloLogicalAssociativity (fst p) (snd p))
      else if is_call kOr l
        then length (flattenInto kOr l) = length (flattenInto kOr r) \<and>
          (\<forall>p\<in>set (zip (flattenInto kOr l) (flattenInto kOr r)).
             equivalentModuloLogicalAssociativity (fst p) (snd p))
      else False)"
  by pat_completeness auto
termination
proof (relation "measure (\<lambda>(l, r). size l)", goal_cases)
  case (2 l r p)
  then show ?case using flattenInto_member_size[of kAnd l "fst p"] by (cases p) (auto dest: set_zip_leftD)
next
  case (3 l r p)
  then show ?case using flattenInto_member_size[of kOr l "fst p"] by (cases p) (auto dest: set_zip_leftD)
qed simp

declare equivalentModuloLogicalAssociativity.simps [simp del]

section \<open>The three derivations\<close>

datatype input_side = LeftInput | RightInput

definition side_for :: "nat set \<Rightarrow> nat set \<Rightarrow> nat set \<Rightarrow> input_side option" where
  "side_for leftColumns rightColumns columns =
     (if columns = {} then None
      else if columns \<subseteq> leftColumns then Some LeftInput
      else if columns \<subseteq> rightColumns then Some RightInput
      else None)"

fun deriveForJoinInputs ::
  "dialect \<Rightarrow> nat set \<Rightarrow> nat set \<Rightarrow> qexpr list \<Rightarrow> (qexpr list \<times> qexpr list) build" where
  "deriveForJoinInputs D leftColumns rightColumns [] = ret ([], [])"
| "deriveForJoinInputs D leftColumns rightColumns (c # cs) =
     andThen (deriveGroupedFiltersFromOr D (side_for leftColumns rightColumns) c) (\<lambda>gs.
     andThen (deriveForJoinInputs D leftColumns rightColumns cs) (\<lambda>rest.
       ret (map snd (filter (\<lambda>g. fst g = LeftInput) gs) @ fst rest,
            map snd (filter (\<lambda>g. fst g = RightInput) gs) @ snd rest)))"

definition column_for :: "nat set \<Rightarrow> nat option" where
  "column_for columns = (if card columns \<noteq> 1 then None else Some (the_elem columns))"

definition originals_for :: "qexpr list \<Rightarrow> nat \<Rightarrow> qexpr list" where
  "originals_for filters c = filter (\<lambda>f. column_for (qe_columns f) = Some c) filters"

text \<open>The filters to add, with the set of those seen so far.\<close>

fun new_filters :: "qexpr list \<Rightarrow> (nat \<times> qexpr) list \<Rightarrow> qexpr set \<Rightarrow> qexpr list \<times> qexpr set" where
  "new_filters filters [] seen = ([], seen)"
| "new_filters filters ((c, f) # ds) seen =
     (if f \<in> seen then new_filters filters ds seen
      else let (rest, seen') = new_filters filters ds (insert f seen)
           in (if \<exists>original\<in>set (originals_for filters c). equivalentModuloLogicalAssociativity original f
               then rest else f # rest, seen'))"

fun derive_each ::
  "(vtype \<Rightarrow> vtype \<Rightarrow> bool) \<Rightarrow> dialect \<Rightarrow> qexpr list \<Rightarrow> qexpr list \<Rightarrow> qexpr set \<Rightarrow> qexpr list build" where
  "derive_each eqv D filters [] seen = ret []"
| "derive_each eqv D filters (e # es) seen =
     andThen (deriveGroupedFiltersFromOr D column_for e) (\<lambda>derived.
     andThen (deriveColumnFiltersFromRowIn eqv D e) (\<lambda>rowIn.
       let (fs, seen') = new_filters filters (derived @ rowIn) seen in
       andThen (derive_each eqv D filters es seen') (\<lambda>rest. ret (fs @ rest))))"

definition deriveForColumns ::
  "(vtype \<Rightarrow> vtype \<Rightarrow> bool) \<Rightarrow> dialect \<Rightarrow> qexpr list \<Rightarrow> qexpr list build" where
  "deriveForColumns eqv D filters = derive_each eqv D filters filters (set filters)"

section \<open>Equalities between the keys of a join\<close>

record key_equalities =
  k_left :: "qexpr list"
  k_right :: "qexpr list"
  k_redundant :: "bool list"

definition addOnce :: "qexpr \<Rightarrow> qexpr list \<Rightarrow> qexpr list" where
  "addOnce e es = (if e \<in> set es then es else es @ [e])"

definition key_step ::
  "dialect \<Rightarrow> qexpr list \<Rightarrow> qexpr list \<Rightarrow> nat \<Rightarrow> nat list \<times> key_equalities \<Rightarrow>
   (nat list \<times> key_equalities) build" where
  "key_step D ls rs i st =
     (let (kept, res) = st in
      if containsNonDeterministic (ls ! i) \<or> containsNonDeterministic (rs ! i) then ret st
      else case List.find (\<lambda>j. ls ! j = ls ! i \<or> rs ! j = rs ! i) kept of
        None \<Rightarrow> ret (kept @ [i], res)
      | Some j \<Rightarrow>
          if ls ! j \<noteq> ls ! i
          then andThen (makeEq D (ls ! j) (ls ! i)) (\<lambda>e.
            ret (kept, res\<lparr>k_left := addOnce e (k_left res), k_redundant := (k_redundant res)[i := True]\<rparr>))
          else if rs ! j \<noteq> rs ! i
          then andThen (makeEq D (rs ! j) (rs ! i)) (\<lambda>e.
            ret (kept, res\<lparr>k_right := addOnce e (k_right res), k_redundant := (k_redundant res)[i := True]\<rparr>))
          else ret (kept, res\<lparr>k_redundant := (k_redundant res)[i := True]\<rparr>))"

fun key_loop ::
  "dialect \<Rightarrow> qexpr list \<Rightarrow> qexpr list \<Rightarrow> nat list \<Rightarrow> nat list \<times> key_equalities \<Rightarrow>
   (nat list \<times> key_equalities) build" where
  "key_loop D ls rs [] st = ret st"
| "key_loop D ls rs (i # is) st = andThen (key_step D ls rs i st) (key_loop D ls rs is)"

definition deriveForJoinKeys :: "dialect \<Rightarrow> qexpr list \<Rightarrow> qexpr list \<Rightarrow> key_equalities build" where
  "deriveForJoinKeys D ls rs =
     require (length ls = length rs)
       (andThen (key_loop D ls rs [0..<length ls]
          ([], \<lparr>k_left = [], k_right = [], k_redundant = replicate (length ls) False\<rparr>))
         (\<lambda>st. ret (snd st)))"

section \<open>Balanced trees are junctions\<close>

definition junctions ::
  "dialect \<Rightarrow> (nat \<Rightarrow> vtype) \<Rightarrow> 'w runtime \<Rightarrow> bool \<Rightarrow> qexpr list \<Rightarrow> qexpr list \<Rightarrow> bool" where
  "junctions D \<Gamma> R cj es cs \<longleftrightarrow> (\<exists>ess. concat ess = es \<and> list_all2 (new_junction D \<Gamma> R cj) ess cs)"

lemma junctions_Nil [simp]: "junctions D \<Gamma> R cj es [] \<longleftrightarrow> es = []"
  by (auto simp: junctions_def)

lemma junctions_Cons:
  "junctions D \<Gamma> R cj es (c # cs) \<longleftrightarrow>
   (\<exists>xs ys. es = xs @ ys \<and> new_junction D \<Gamma> R cj xs c \<and> junctions D \<Gamma> R cj ys cs)"
proof
  assume "junctions D \<Gamma> R cj es (c # cs)"
  then obtain ess where e: "concat ess = es" "list_all2 (new_junction D \<Gamma> R cj) ess (c # cs)"
    unfolding junctions_def by blast
  then obtain xs yss where "ess = xs # yss" "new_junction D \<Gamma> R cj xs c" "list_all2 (new_junction D \<Gamma> R cj) yss cs"
    unfolding list_all2_Cons2 by blast
  then show "\<exists>xs ys. es = xs @ ys \<and> new_junction D \<Gamma> R cj xs c \<and> junctions D \<Gamma> R cj ys cs"
    using e(1) unfolding junctions_def by (intro exI[of _ xs] exI[of _ "concat yss"]) auto
next
  assume "\<exists>xs ys. es = xs @ ys \<and> new_junction D \<Gamma> R cj xs c \<and> junctions D \<Gamma> R cj ys cs"
  then obtain xs yss where "es = xs @ concat yss" "new_junction D \<Gamma> R cj xs c"
    "list_all2 (new_junction D \<Gamma> R cj) yss cs"
    unfolding junctions_def by blast
  then show "junctions D \<Gamma> R cj es (c # cs)"
    unfolding junctions_def by (intro exI[of _ "xs # yss"]) simp
qed

lemma junctions_ConsI:
  "new_junction D \<Gamma> R cj xs c \<Longrightarrow> junctions D \<Gamma> R cj ys cs \<Longrightarrow> junctions D \<Gamma> R cj (xs @ ys) (c # cs)"
  unfolding junctions_Cons by blast

lemma new_junction_pred: "new_junction D \<Gamma> R cj es c \<Longrightarrow> pred D \<Gamma> c"
  using new_junctionD(1) junctionD(1) by blast

lemma gives_pair_up:
  assumes "dialect_ok D" "runtime_ok D R" "junctions D \<Gamma> R cj es cs"
  shows "gives (pair_up (makeJunction D cj) cs) (\<lambda>ds. junctions D \<Gamma> R cj es ds \<and> (ds = [] \<longleftrightarrow> cs = []))"
  using assms(3)
proof (induction "makeJunction D cj" cs arbitrary: es rule: pair_up.induct)
  case (1 x y cs)
  obtain xs ys zs where e: "es = (xs @ ys) @ zs" and x: "new_junction D \<Gamma> R cj xs x"
    and y: "new_junction D \<Gamma> R cj ys y" and z: "junctions D \<Gamma> R cj zs cs"
    using 1(2) by (auto simp: junctions_Cons)
  show ?case
    unfolding pair_up.simps
  proof (rule gives_andThen[OF gives_junction[OF assms(1,2) new_junction_pred[OF x] new_junction_pred[OF y]]])
    fix c assume c: "new_junction D \<Gamma> R cj [x, y] c"
    have xy: "new_junction D \<Gamma> R cj (xs @ ys) c" by (rule junction_join[OF x y c])
    show "gives (andThen (pair_up (makeJunction D cj) cs) (\<lambda>zs. ret (c # zs)))
        (\<lambda>ds. junctions D \<Gamma> R cj es ds \<and> (ds = [] \<longleftrightarrow> x # y # cs = []))"
      by (rule gives_andThen[OF 1(1)[OF z]], rule gives_ret) (use junctions_ConsI[OF xy] e in auto)
  qed
qed (auto intro: gives_ret)

lemma gives_combineBalanced:
  assumes "dialect_ok D" "runtime_ok D R" "junctions D \<Gamma> R cj es cs" "cs \<noteq> []"
  shows "gives (combineBalanced (makeJunction D cj) cs) (new_junction D \<Gamma> R cj es)"
proof (rule givesI)
  fix b
  assume "builder_ok b"
  then show "\<exists>x b'. combineBalanced (makeJunction D cj) cs b = Inr (x, b') \<and> builder_ok b' \<and>
      new_junction D \<Gamma> R cj es x"
    using assms(3,4)
  proof (induction "makeJunction D cj" cs b rule: combineBalanced.induct)
    case (1 cs b)
    consider c where "cs = [c]" | "2 \<le> length cs" using "1.prems"(3) by (cases cs; cases "tl cs") auto
    then show ?case
    proof cases
      case (1 c)
      then show ?thesis using "1.prems" by (auto simp: combineBalanced.simps ret_def junctions_Cons)
    next
      case 2
      obtain ds b1 where d: "pair_up (makeJunction D cj) cs b = Inr (ds, b1)" "builder_ok b1"
        "junctions D \<Gamma> R cj es ds \<and> (ds = [] \<longleftrightarrow> cs = [])"
        by (rule gives_elim[OF gives_pair_up[OF assms(1,2) "1.prems"(2)] "1.prems"(1)])
      have "\<exists>x b'. combineBalanced (makeJunction D cj) ds b1 = Inr (x, b') \<and> builder_ok b' \<and>
          new_junction D \<Gamma> R cj es x"
        using "1.hyps"[of "(ds, b1)"] d 2 "1.prems"(3) by force
      then show ?thesis using d(1) 2 combineBalanced.simps[of "makeJunction D cj" cs b] by auto
    qed
  qed
qed

lemma junctions_self:
  assumes "runtime_ok D R" "\<forall>e\<in>set es. pred D \<Gamma> e"
  shows "junctions D \<Gamma> R cj es es"
  using assms(2)
proof (induction es)
  case (Cons e es)
  then show ?case
    using junctions_ConsI[OF junction_self(1)[OF assms(1), of \<Gamma> e cj], of es es] by simp
qed simp

lemma gives_balanced:
  assumes "dialect_ok D" "runtime_ok D R" "\<forall>e\<in>set es. pred D \<Gamma> e" "es \<noteq> []"
  shows "gives (combineBalanced (if isOr then makeOr D else makeAnd D) es) (new_junction D \<Gamma> R (\<not> isOr) es)"
  using gives_combineBalanced[OF assms(1,2) junctions_self[OF assms(2,3)] assms(4), of "\<not> isOr"]
  by (cases isOr) (simp_all add: makeJunction_def)

lemma holds_junction:
  assumes "runtime_ok D R" "junction D \<Gamma> R cj es c" "\<forall>e\<in>set es. pred D \<Gamma> e" "env_ok \<Gamma> \<rho>"
  shows "holds R w \<rho> c \<longleftrightarrow> (if cj then \<forall>e\<in>set es. holds R w \<rho> e else \<exists>e\<in>set es. holds R w \<rho> e)"
proof -
  let ?v = "\<lambda>e. sval (qeval R w e \<rho>)"
  have b: "?v e \<in> truth_values" if "e \<in> set es" for e
    using boolean_value[OF assms(1) _ assms(4)] assms(3) that by blast
  have "and_result (map ?v es) = Some (VBool True) \<longleftrightarrow> (\<forall>e\<in>set es. ?v e = Some (VBool True))"
    using b unfolding and_true_iff by (auto simp: image_iff) force+
  moreover have "or_result (map ?v es) = Some (VBool True) \<longleftrightarrow> (\<exists>e\<in>set es. ?v e = Some (VBool True))"
    unfolding or_true_iff by (auto simp: image_iff) force+
  ultimately show ?thesis
    using junctionD(4)[OF assms(2,4), of w] by (simp add: holds_def junction_result_def)
qed

section \<open>Projections are implied\<close>

text \<open>Every row that an operand accepts is accepted by its filter for a group.\<close>

definition implied ::
  "dialect \<Rightarrow> (nat \<Rightarrow> vtype) \<Rightarrow> 'w runtime \<Rightarrow> (nat set \<Rightarrow> 'g option) \<Rightarrow> 'g \<Rightarrow> qexpr \<Rightarrow> qexpr \<Rightarrow> bool" where
  "implied D \<Gamma> R gf g e f \<longleftrightarrow>
     pred D \<Gamma> f \<and> gf (qe_columns f) = Some g \<and> (deterministic e \<longrightarrow> deterministic f) \<and>
     (\<forall>w \<rho>. env_ok \<Gamma> \<rho> \<longrightarrow> holds R w \<rho> e \<longrightarrow> holds R w \<rho> f)"

definition same_filter :: "(nat \<Rightarrow> vtype) \<Rightarrow> 'w runtime \<Rightarrow> qexpr \<Rightarrow> qexpr \<Rightarrow> bool" where
  "same_filter \<Gamma> R e f \<longleftrightarrow>
     qe_columns f = qe_columns e \<and>
     (\<forall>w \<rho>. env_ok \<Gamma> \<rho> \<longrightarrow> sval (qeval R w f \<rho>) = sval (qeval R w e \<rho>))"

definition proj_ok ::
  "dialect \<Rightarrow> (nat \<Rightarrow> vtype) \<Rightarrow> 'w runtime \<Rightarrow> (nat set \<Rightarrow> 'g option) \<Rightarrow> 
   qexpr \<Rightarrow> 'g projection \<Rightarrow> bool" where
  "proj_ok D \<Gamma> R gf e p \<longleftrightarrow>
     implied D \<Gamma> R gf (p_group p) e (p_filter p) \<and> (p_matches p \<longrightarrow> same_filter \<Gamma> R e (p_filter p))"

definition acc_ok ::
  "dialect \<Rightarrow> (nat \<Rightarrow> vtype) \<Rightarrow> 'w runtime \<Rightarrow> (nat set \<Rightarrow> 'g option) \<Rightarrow> 
   qexpr list \<Rightarrow> 'g accumulator \<Rightarrow> bool" where
  "acc_ok D \<Gamma> R gf ops acc \<longleftrightarrow>
     a_matched acc = length (a_filters acc) \<and> a_filters acc \<noteq> [] \<and> length (a_filters acc) \<le> length ops \<and>
     (\<forall>f\<in>set (a_filters acc). \<exists>e\<in>set ops. implied D \<Gamma> R gf (a_group acc) e f) \<and>
     (length (a_filters acc) = length ops \<longrightarrow>
        list_all2 (implied D \<Gamma> R gf (a_group acc)) ops (a_filters acc) \<and>
        (a_children_match acc \<longrightarrow> list_all2 (same_filter \<Gamma> R) ops (a_filters acc)))"

lemma acc_ok_later: "acc_ok D \<Gamma> R gf ops acc \<Longrightarrow> acc_ok D \<Gamma> R gf (ops @ [e]) acc"
  by (auto simp: acc_ok_def)

lemma acc_ok_add:
  assumes "acc_ok D \<Gamma> R gf ops acc \<or> a_filters acc = [] \<and> a_matched acc = 0"
    "proj_ok D \<Gamma> R gf e p" "a_group acc = p_group p"
  shows "acc_ok D \<Gamma> R gf (ops @ [e]) (acc\<lparr>a_filters := a_filters acc @ [p_filter p],
    a_matched := a_matched acc + 1, a_children_match := a_children_match acc \<and> p_matches p\<rparr>)"
proof -
  have f: "implied D \<Gamma> R gf (a_group acc) e (p_filter p)" "p_matches p \<Longrightarrow> same_filter \<Gamma> R e (p_filter p)"
    using assms(2,3) by (simp_all add: proj_ok_def)
  from assms(1) show ?thesis
  proof
    assume "acc_ok D \<Gamma> R gf ops acc"
    then show ?thesis using f by (auto simp: acc_ok_def list_all2_appendI)
  next
    assume "a_filters acc = [] \<and> a_matched acc = 0"
    then show ?thesis using f by (auto simp: acc_ok_def)
  qed
qed

definition accs_mid ::
  "dialect \<Rightarrow> (nat \<Rightarrow> vtype) \<Rightarrow> 'w runtime \<Rightarrow> (nat set \<Rightarrow> 'g option) \<Rightarrow> 
   qexpr list \<Rightarrow> qexpr \<Rightarrow> 'g set \<Rightarrow> 'g accumulator list \<Rightarrow> bool" where
  "accs_mid D \<Gamma> R gf ops e seen accs \<longleftrightarrow> distinct (map a_group accs) \<and>
     (\<forall>acc\<in>set accs. acc_ok D \<Gamma> R gf (if a_group acc \<in> seen then ops @ [e] else ops) acc)"

lemma accumulate_mid:
  assumes "accs_mid D \<Gamma> R gf ops e seen accs" "proj_ok D \<Gamma> R gf e p" "p_group p \<notin> seen"
  shows "accs_mid D \<Gamma> R gf ops e (insert (p_group p) seen) (accumulate isOr k p accs)"
proof -
  let ?new = "\<lparr>a_group = p_group p, a_filters = [], a_matched = 0, a_children_match = True\<rparr>"
  let ?upd = "\<lambda>acc. if a_group acc = p_group p
    then acc\<lparr>a_filters := a_filters acc @ [p_filter p], a_matched := a_matched acc + 1,
      a_children_match := a_children_match acc \<and> p_matches p\<rparr> else acc"
  define accs' where "accs' = (if p_group p \<in> set (map a_group accs) then accs
    else if isOr \<and> k > 0 then accs else accs @ [?new])"
  have r: "accumulate isOr k p accs = map ?upd accs'"
    unfolding accumulate_def accs'_def by (simp add: Let_def)
  have g: "map a_group (map ?upd accs') = map a_group accs'" by simp
  have d: "distinct (map a_group accs')" using assms(1) by (auto simp: accs_mid_def accs'_def)
  have a: "acc_ok D \<Gamma> R gf (if a_group acc \<in> seen then ops @ [e] else ops) acc \<or> acc = ?new"
    if "acc \<in> set accs'" for acc
    using that assms(1) by (auto simp: accs_mid_def accs'_def split: if_splits)
  have "acc_ok D \<Gamma> R gf (if a_group (?upd acc) \<in> insert (p_group p) seen then ops @ [e] else ops) (?upd acc)"
    if m: "acc \<in> set accs'" for acc
  proof (cases "a_group acc = p_group p")
    case True
    have "acc_ok D \<Gamma> R gf ops acc \<or> a_filters acc = [] \<and> a_matched acc = 0"
      using a[OF m] assms(3) True by auto
    then show ?thesis using acc_ok_add[OF _ assms(2) True] True by simp
  next
    case False
    then show ?thesis using a[OF m] by auto
  qed
  note each = this
  show ?thesis
    unfolding accs_mid_def r g
  proof (intro conjI ballI d)
    fix x assume "x \<in> set (map ?upd accs')"
    then obtain acc where "acc \<in> set accs'" "x = ?upd acc" unfolding set_map by (rule imageE)
    then show "acc_ok D \<Gamma> R gf (if a_group x \<in> insert (p_group p) seen then ops @ [e] else ops) x"
      using each by simp
  qed
qed

lemma accumulate_all:
  assumes "accs_mid D \<Gamma> R gf ops e seen accs" "\<forall>p\<in>set ps. proj_ok D \<Gamma> R gf e p"
    "distinct (map p_group ps)" "set (map p_group ps) \<inter> seen = {}"
  shows "accs_mid D \<Gamma> R gf ops e (set (map p_group ps) \<union> seen) (fold (accumulate isOr k) ps accs)"
  using assms
proof (induction ps arbitrary: seen accs)
  case (Cons p ps)
  have "accs_mid D \<Gamma> R gf ops e (insert (p_group p) seen) (accumulate isOr k p accs)"
    by (rule accumulate_mid[OF Cons.prems(1)]) (use Cons.prems in auto)
  then have "accs_mid D \<Gamma> R gf ops e (set (map p_group ps) \<union> insert (p_group p) seen)
      (fold (accumulate isOr k) ps (accumulate isOr k p accs))"
    by (rule Cons.IH) (use Cons.prems in auto)
  then show ?case by simp
qed simp

definition accs_ok ::
  "dialect \<Rightarrow> (nat \<Rightarrow> vtype) \<Rightarrow> 'w runtime \<Rightarrow> (nat set \<Rightarrow> 'g option) \<Rightarrow> 
   qexpr list \<Rightarrow> 'g accumulator list \<Rightarrow> bool" where
  "accs_ok D \<Gamma> R gf ops accs \<longleftrightarrow> distinct (map a_group accs) \<and> (\<forall>acc\<in>set accs. acc_ok D \<Gamma> R gf ops acc)"

lemma accs_ok_step:
  assumes "accs_ok D \<Gamma> R gf ops accs" "\<forall>p\<in>set ps. proj_ok D \<Gamma> R gf e p" "distinct (map p_group ps)"
  shows "accs_ok D \<Gamma> R gf (ops @ [e]) (fold (accumulate isOr k) ps accs)"
proof -
  have "accs_mid D \<Gamma> R gf ops e {} accs" using assms(1) by (simp add: accs_mid_def accs_ok_def)
  from accumulate_all[OF this assms(2,3)]
  have "accs_mid D \<Gamma> R gf ops e (set (map p_group ps)) (fold (accumulate isOr k) ps accs)" by simp
  then have d: "distinct (map a_group (fold (accumulate isOr k) ps accs))"
    and a: "acc \<in> set (fold (accumulate isOr k) ps accs) \<Longrightarrow>
      acc_ok D \<Gamma> R gf (if a_group acc \<in> set (map p_group ps) then ops @ [e] else ops) acc" for acc
    unfolding accs_mid_def by blast+
  have "acc_ok D \<Gamma> R gf (ops @ [e]) acc" if "acc \<in> set (fold (accumulate isOr k) ps accs)" for acc
    using a[OF that] acc_ok_later[of D \<Gamma> R gf ops acc e]
    by (cases "a_group acc \<in> set (map p_group ps)") simp_all
  then show ?thesis using d unfolding accs_ok_def by blast
qed

text \<open>The filter made for a group is implied by the expression.\<close>

definition unites :: "(nat set \<Rightarrow> 'g option) \<Rightarrow> bool" where
  "unites gf \<longleftrightarrow> (\<forall>X Y g. gf X = Some g \<longrightarrow> gf Y = Some g \<longrightarrow> gf (X \<union> Y) = Some g)"

lemma unites_Union:
  assumes "unites gf" "fs \<noteq> []" "\<forall>f\<in>set fs. gf (h f) = Some g"
  shows "gf (\<Union>f\<in>set fs. h f) = Some g"
  using assms(2,3)
proof (induction fs rule: list_nonempty_induct)
  case (cons f fs)
  have "gf (h f) = Some g" "gf (\<Union>f\<in>set fs. h f) = Some g" using cons by simp_all
  then have "gf (h f \<union> (\<Union>f\<in>set fs. h f)) = Some g"
    by (rule assms(1)[unfolded unites_def, rule_format])
  then show ?case by simp
qed simp

lemma list_all2_values:
  assumes "list_all2 (same_filter \<Gamma> R) es fs"
  shows "env_ok \<Gamma> \<rho> \<Longrightarrow> map (\<lambda>e. sval (qeval R w e \<rho>)) fs = map (\<lambda>e. sval (qeval R w e \<rho>)) es"
    and "(\<Union>f\<in>set fs. qe_columns f) = (\<Union>e\<in>set es. qe_columns e)"
proof -
  show "map (\<lambda>e. sval (qeval R w e \<rho>)) fs = map (\<lambda>e. sval (qeval R w e \<rho>)) es" if "env_ok \<Gamma> \<rho>"
    using assms
  proof (induction rule: list_all2_induct)
    case (Cons e es f fs)
    have "sval (qeval R w f \<rho>) = sval (qeval R w e \<rho>)"
      using Cons(1) that unfolding same_filter_def by blast
    then show ?case using Cons(3) by (simp del: map_eq_conv)
  qed simp
  show "(\<Union>f\<in>set fs. qe_columns f) = (\<Union>e\<in>set es. qe_columns e)"
    using assms
  proof (induction rule: list_all2_induct)
    case (Cons e es f fs)
    then show ?case by (simp add: same_filter_def)
  qed simp
qed

lemma group_filter_ok:
  assumes ok: "runtime_ok D R" and gf: "unites gf"
    and e: "junction D \<Gamma> R (\<not> isOr) ops e" "\<forall>x\<in>set ops. pred D \<Gamma> x"
    and acc: "acc_ok D \<Gamma> R gf ops acc" and all: "isOr \<Longrightarrow> a_matched acc = length ops"
    and f: "new_junction D \<Gamma> R (\<not> isOr) (a_filters acc) f"
  shows "proj_ok D \<Gamma> R gf e \<lparr>p_group = a_group acc, p_filter = f,
    p_matches = (a_matched acc = length ops \<and> a_children_match acc)\<rparr>"
proof -
  note j = new_junctionD[OF f] and jD = junctionD[OF new_junctionD(1)[OF f]]
  have len: "a_matched acc = length (a_filters acc)" "a_filters acc \<noteq> []"
    and from_op: "\<And>x. x \<in> set (a_filters acc) \<Longrightarrow> \<exists>y\<in>set ops. implied D \<Gamma> R gf (a_group acc) y x"
    and full: "length (a_filters acc) = length ops \<Longrightarrow>
      list_all2 (implied D \<Gamma> R gf (a_group acc)) ops (a_filters acc)"
    and fullm: "length (a_filters acc) = length ops \<Longrightarrow> a_children_match acc \<Longrightarrow>
      list_all2 (same_filter \<Gamma> R) ops (a_filters acc)"
    using acc by (auto simp: acc_ok_def)
  have fp: "\<forall>x\<in>set (a_filters acc). pred D \<Gamma> x \<and> gf (qe_columns x) = Some (a_group acc)"
    using from_op unfolding implied_def by blast
  have cols: "gf (qe_columns f) = Some (a_group acc)"
    unfolding jD(2) by (rule unites_Union[OF gf len(2)]) (use fp in auto)
  have det: "deterministic f" if "deterministic e"
    by (rule j(2)) (use from_op junctionD(3)[OF e(1) that] in \<open>auto simp: implied_def\<close>)
  have imp: "holds R w \<rho> f" if r: "env_ok \<Gamma> \<rho>" and h: "holds R w \<rho> e" for w \<rho>
  proof -
    note he = holds_junction[OF ok e r, of w]
    have hf: "holds R w \<rho> f \<longleftrightarrow> (if \<not> isOr then \<forall>x\<in>set (a_filters acc). holds R w \<rho> x
        else \<exists>x\<in>set (a_filters acc). holds R w \<rho> x)"
      by (rule holds_junction[OF ok j(1) _ r]) (use fp in simp)
    show ?thesis
    proof (cases isOr)
      case True
      then obtain i where i: "i < length ops" "holds R w \<rho> (ops ! i)"
        using he h by (auto simp: in_set_conv_nth)
      have l: "list_all2 (implied D \<Gamma> R gf (a_group acc)) ops (a_filters acc)"
        using full all[OF True] len by simp
      then have "holds R w \<rho> (a_filters acc ! i)" "i < length (a_filters acc)"
        using list_all2_nthD[OF l i(1)] i r list_all2_lengthD[OF l] by (auto simp: implied_def)
      then show ?thesis using hf True nth_mem by auto
    next
      case False
      have "holds R w \<rho> x" if "x \<in> set (a_filters acc)" for x
        using from_op[OF that] he h r False by (auto simp: implied_def)
      then show ?thesis using hf False by simp
    qed
  qed
  have same: "same_filter \<Gamma> R e f" if "a_matched acc = length ops" "a_children_match acc"
  proof -
    have l: "list_all2 (same_filter \<Gamma> R) ops (a_filters acc)" using fullm that len by simp
    have "sval (qeval R w f \<rho>) = sval (qeval R w e \<rho>)" if "env_ok \<Gamma> \<rho>" for w \<rho>
      using jD(4)[OF that, of w] junctionD(4)[OF e(1) that, of w] list_all2_values(1)[OF l that, of w] by simp
    then show ?thesis
      using jD(2) junctionD(2)[OF e(1)] list_all2_values(2)[OF l] by (simp add: same_filter_def)
  qed
  show ?thesis
    using imp same det cols jD(1) by (auto simp: proj_ok_def implied_def)
qed

lemma gives_finish_groups:
  assumes ok: "dialect_ok D" "runtime_ok D R" and gf: "unites gf"
    and e: "junction D \<Gamma> R (\<not> isOr) ops e" "\<forall>x\<in>set ops. pred D \<Gamma> x"
    and accs: "accs_ok D \<Gamma> R gf ops accs"
  shows "gives (finish_groups D isOr (length ops) accs) (\<lambda>ps. (\<forall>p\<in>set ps. proj_ok D \<Gamma> R gf e p) \<and>
    distinct (map p_group ps) \<and> set (map p_group ps) \<subseteq> set (map a_group accs))"
  using accs
proof (induction accs)
  case (Cons acc accs)
  have IH: "gives (finish_groups D isOr (length ops) accs) (\<lambda>ps. (\<forall>p\<in>set ps. proj_ok D \<Gamma> R gf e p) \<and>
      distinct (map p_group ps) \<and> set (map p_group ps) \<subseteq> set (map a_group accs))"
    and a: "acc_ok D \<Gamma> R gf ops acc" "a_group acc \<notin> set (map a_group accs)"
    using Cons by (auto simp: accs_ok_def)
  show ?case
  proof (cases "isOr \<and> a_matched acc \<noteq> length ops")
    case True
    show ?thesis
      unfolding finish_groups.simps if_P[OF True] by (rule gives_weaken[OF IH]) auto
  next
    case False
    have "\<forall>f\<in>set (a_filters acc). pred D \<Gamma> f" "a_filters acc \<noteq> []"
      using a(1) by (auto simp: acc_ok_def implied_def)
    note f = gives_balanced[OF ok this, of isOr]
    show ?thesis
      unfolding finish_groups.simps if_not_P[OF False]
    proof (rule gives_andThen[OF f], rule gives_andThen[OF IH], rule gives_ret)
      fix f ps
      assume "new_junction D \<Gamma> R (\<not> isOr) (a_filters acc) f"
        and ps: "(\<forall>p\<in>set ps. proj_ok D \<Gamma> R gf e p) \<and>
          distinct (map p_group ps) \<and> set (map p_group ps) \<subseteq> set (map a_group accs)"
      from group_filter_ok[OF ok(2) gf e a(1) _ this(1)] ps a(2) False
      show "(\<forall>p\<in>set (\<lparr>p_group = a_group acc, p_filter = f,
            p_matches = (a_matched acc = length ops \<and> a_children_match acc)\<rparr> # ps). proj_ok D \<Gamma> R gf e p) \<and>
          distinct (map p_group (\<lparr>p_group = a_group acc, p_filter = f,
            p_matches = (a_matched acc = length ops \<and> a_children_match acc)\<rparr> # ps)) \<and>
          set (map p_group (\<lparr>p_group = a_group acc, p_filter = f,
            p_matches = (a_matched acc = length ops \<and> a_children_match acc)\<rparr> # ps))
            \<subseteq> set (map a_group (acc # accs))"
        by auto
    qed
  qed
qed (auto intro: gives_ret)

lemma gives_projections:
  assumes ok: "dialect_ok D" "runtime_ok D R" and gf: "unites gf"
  shows "pred D \<Gamma> e \<Longrightarrow> gives (projectLogicalExpression D gf e)
      (\<lambda>ps. (\<forall>p\<in>set ps. proj_ok D \<Gamma> R gf e p) \<and> distinct (map p_group ps))"
    and "\<And>ops. \<forall>x\<in>set es. pred D \<Gamma> x \<Longrightarrow> k = length ops \<Longrightarrow> accs_ok D \<Gamma> R gf ops accs \<Longrightarrow>
      gives (project_operands D gf isOr k es accs) (\<lambda>accs'. accs_ok D \<Gamma> R gf (ops @ es) accs')"
  using ok gf
proof (induction D gf e and D gf isOr k es accs rule: projectLogicalExpression_project_operands.induct)
  case (1 D gf e)
  note ok = 1(3,4) and gf = 1(5)
  show ?case
  proof (cases "is_call kAnd e \<or> is_call kOr e")
    case True
    define isOr where "isOr = (\<not> is_call kAnd e)"
    define ops where "ops = flattenInto (if isOr then kOr else kAnd) e"
    have j: "junction D \<Gamma> R (\<not> isOr) ops e" "\<forall>x\<in>set ops. pred D \<Gamma> x"
      using flatten_junction[OF ok 1(2), of "\<not> isOr"] by (auto simp: ops_def kJunction_def)
    have "gives (project_operands D gf isOr 0 ops []) (\<lambda>accs'. accs_ok D \<Gamma> R gf ([] @ ops) accs')"
      by (rule 1(1)[OF True isOr_def ops_def j(2) _ _ ok gf]) (simp_all add: accs_ok_def)
    then have p: "gives (project_operands D gf isOr 0 ops []) (accs_ok D \<Gamma> R gf ops)" by simp
    have r: "projectLogicalExpression D gf e =
        andThen (project_operands D gf isOr 0 ops []) (finish_groups D isOr (length ops))"
      by (subst projectLogicalExpression.simps) (simp only: if_P[OF True] Let_def isOr_def ops_def)
    show ?thesis
      unfolding r
    proof (rule gives_andThen[OF p])
      fix accs assume "accs_ok D \<Gamma> R gf ops accs"
      from gives_finish_groups[OF ok gf j this]
      show "gives (finish_groups D isOr (length ops) accs)
          (\<lambda>ps. (\<forall>p\<in>set ps. proj_ok D \<Gamma> R gf e p) \<and> distinct (map p_group ps))"
        by (rule gives_weaken) blast
    qed
  next
    case False
    have r: "projectLogicalExpression D gf e = (case gf (qe_columns e) of None \<Rightarrow> ret []
        | Some g \<Rightarrow> ret [\<lparr>p_group = g, p_filter = e, p_matches = True\<rparr>])"
      by (subst projectLogicalExpression.simps) (simp only: if_not_P[OF False])
    show ?thesis
      unfolding r using 1(2)
      by (auto split: option.splits intro!: gives_ret simp: proj_ok_def implied_def same_filter_def)
  qed
next
  case (2 D gf isOr k accs)
  then show ?case by (auto intro: gives_ret)
next
  case (3 D gf isOr k e es accs)
  note ok = 3(6,7) and gf = 3(8)
  have e: "pred D \<Gamma> e" and es: "\<forall>x\<in>set es. pred D \<Gamma> x" using 3(3) by auto
  show ?case
    unfolding project_operands.simps
  proof (rule gives_andThen[OF 3(1)[OF e ok gf]])
    fix ps assume ps: "(\<forall>p\<in>set ps. proj_ok D \<Gamma> R gf e p) \<and> distinct (map p_group ps)"
    have a: "accs_ok D \<Gamma> R gf (ops @ [e]) (fold (accumulate isOr k) ps accs)"
      by (rule accs_ok_step[OF 3(5)]) (use ps in auto)
    have "gives (project_operands D gf isOr (k + 1) es (fold (accumulate isOr k) ps accs))
        (accs_ok D \<Gamma> R gf ((ops @ [e]) @ es))"
      by (rule 3(2)[OF es _ a ok gf]) (use 3(4) in simp)
    then show "gives (project_operands D gf isOr (k + 1) es (fold (accumulate isOr k) ps accs))
        (accs_ok D \<Gamma> R gf (ops @ e # es))" by simp
  qed
qed

section \<open>Derived filters\<close>

text \<open>
  A derived filter is a deterministic predicate of the group that accepts every row its source
  accepts, whatever the source and the filter draw.
\<close>

definition derived ::
  "dialect \<Rightarrow> (nat \<Rightarrow> vtype) \<Rightarrow> 'w runtime \<Rightarrow> (nat set \<Rightarrow> 'g option) \<Rightarrow> 'g \<Rightarrow> qexpr \<Rightarrow> qexpr \<Rightarrow> bool" where
  "derived D \<Gamma> R gf g e f \<longleftrightarrow>
     pred D \<Gamma> f \<and> gf (qe_columns f) = Some g \<and> deterministic f \<and>
     (\<forall>w w' \<rho>. env_ok \<Gamma> \<rho> \<longrightarrow> holds R w \<rho> e \<longrightarrow> holds R w' \<rho> f)"

lemma holds_det:
  assumes "runtime_ok D R" "pred D \<Gamma> f" "deterministic f"
  shows "holds R w \<rho> f = holds R w' \<rho> f"
  using qeval_det[OF assms(1) _ assms(3), of \<Gamma> w \<rho> w'] assms(2) by (simp add: holds_def pred_def)

lemma gives_grouped:
  assumes ok: "dialect_ok D" "runtime_ok D R" and gf: "unites gf" and e: "pred D \<Gamma> e"
  shows "gives (deriveGroupedFiltersFromOr D gf e) (\<lambda>ds. \<forall>(g, f)\<in>set ds. derived D \<Gamma> R gf g e f)"
proof (cases "\<not> is_call kOr e \<or> containsNonDeterministic e")
  case True
  then show ?thesis by (auto simp: deriveGroupedFiltersFromOr_def intro: gives_ret)
next
  case False
  then have det: "deterministic e" by simp
  have "derived D \<Gamma> R gf (p_group p) e (if p_matches p then e else p_filter p)" if p: "proj_ok D \<Gamma> R gf e p" for p
  proof (cases "p_matches p")
    case True
    then have "qe_columns (p_filter p) = qe_columns e" "gf (qe_columns (p_filter p)) = Some (p_group p)"
      using p unfolding proj_ok_def implied_def same_filter_def by blast+
    then have "gf (qe_columns e) = Some (p_group p)" by simp
    then show ?thesis
      using True e det holds_det[OF ok(2) e det] by (auto simp: derived_def)
  next
    case False
    have f: "pred D \<Gamma> (p_filter p)" "deterministic (p_filter p)" using p det by (auto simp: proj_ok_def implied_def)
    have "holds R w' \<rho> (p_filter p)" if "env_ok \<Gamma> \<rho>" "holds R w \<rho> e" for w w' \<rho>
      using p that holds_det[OF ok(2) f, of w \<rho> w'] unfolding proj_ok_def implied_def by blast
    then show ?thesis
      using False p f unfolding derived_def proj_ok_def implied_def by auto
  qed
  then show ?thesis
    unfolding deriveGroupedFiltersFromOr_def if_not_P[OF False]
    by (intro gives_andThen[OF gives_projections(1)[OF ok gf e]] gives_ret) auto
qed

lemma unites_column_for: "unites column_for"
  unfolding unites_def column_for_def by (auto simp: card_1_singleton_iff split: if_splits)

lemma unites_side_for: "unites (side_for L S)"
  unfolding unites_def side_for_def by (auto split: if_splits)

text \<open>Row-valued membership.\<close>

lemma gives_row_fields:
  "\<forall>v\<in>set rows. v = VNull \<or> (\<exists>cs. v = VRow cs \<and> length cs = n) \<Longrightarrow>
   gives (row_fields n rows) (\<lambda>rs. (\<forall>r\<in>set rs. length r = n) \<and>
     (\<forall>v\<in>set rows. v = VNull \<or> (\<exists>cs\<in>set rs. v = VRow cs)) \<and> (\<forall>r\<in>set rs. VRow r \<in> set rows))"
proof (induction n rows rule: row_fields.induct)
  case (3 n cells rows)
  have l: "length cells = n" and IH: "gives (row_fields n rows) (\<lambda>rs. (\<forall>r\<in>set rs. length r = n) \<and>
     (\<forall>v\<in>set rows. v = VNull \<or> (\<exists>cs\<in>set rs. v = VRow cs)) \<and> (\<forall>r\<in>set rs. VRow r \<in> set rows))"
    using 3 by auto
  show ?case
    unfolding row_fields.simps
    by (rule gives_require[OF l], rule gives_andThen[OF IH], rule gives_ret) (use l in auto)
next
  case (2 n rows)
  have IH: "gives (row_fields n rows) (\<lambda>rs. (\<forall>r\<in>set rs. length r = n) \<and>
     (\<forall>v\<in>set rows. v = VNull \<or> (\<exists>cs\<in>set rs. v = VRow cs)) \<and> (\<forall>r\<in>set rs. VRow r \<in> set rows))"
    using 2 by auto
  show ?case unfolding row_fields.simps by (rule gives_weaken[OF IH]) auto
qed (auto intro: gives_ret)

lemma in_result_true:
  "in_result eq x vs = Some (VBool True) \<longleftrightarrow> x \<noteq> VNull \<and> (\<exists>v\<in>set vs. eq x v = Some (VBool True))"
  by (auto simp: in_result_def or_true_iff image_iff eq_commute[of "Some (VBool True)"])

lemma row_in_filter_derived:
  assumes ok: "dialect_ok D" "runtime_ok D R" and eqn: "fn_equality (d_names D) = Some eqn"
    and row: "\<And>w \<rho>. env_ok \<Gamma> \<rho> \<Longrightarrow> holds R w \<rho> e \<Longrightarrow>
      \<exists>r\<in>set rows. \<exists>x. sval (qeval R w f \<rho>) = Some x \<and>
        sql_eq R eqn (w 0) (qe_type f) x (r ! k) = Some (VBool True)"
    and f: "deterministic f" "well_formed D \<Gamma> f" "card (qe_columns f) = 1" "\<not> is_lambda f"
    and c: "membership_of D \<Gamma> R f (field_values rows k) c"
  shows "derived D \<Gamma> R column_for (the_elem (qe_columns f)) e c"
proof -
  have "holds R w' \<rho> c" if r: "env_ok \<Gamma> \<rho>" and h: "holds R w \<rho> e" for w w' \<rho>
  proof -
    obtain r x where x: "r \<in> set rows" "sval (qeval R w f \<rho>) = Some x"
      "sql_eq R eqn (w 0) (qe_type f) x (r ! k) = Some (VBool True)"
      using row[OF r h] by blast
    have nn: "r ! k \<noteq> VNull" "x \<noteq> VNull"
      using x(3) sql_eq_null[OF ok(2) eqn, of x "r ! k" "w 0" "qe_type f"] by auto
    have "r ! k \<in> set (field_values rows k)" using x(1) nn by (auto simp: field_values_def)
    then have "in_result (sql_eq R eqn (w 0) (qe_type f)) x (field_values rows k) = Some (VBool True)"
      unfolding in_result_true using nn x(3) by blast
    moreover have "sval (qeval R w' f \<rho>) = Some x"
      using qeval_det[OF ok(2) f(2,1), of w' \<rho> w] x(2) by simp
    moreover have "sval (qeval R w' c \<rho>) = (case sval (qeval R w' f \<rho>) of None \<Rightarrow> None
        | Some v \<Rightarrow> in_result (sql_eq R eqn (w 0) (qe_type f)) v (field_values rows k))"
      using c eqn unfolding membership_of_def by blast
    ultimately show ?thesis by (simp add: holds_def)
  qed
  moreover have "column_for (qe_columns c) = Some (the_elem (qe_columns f))"
    using c f(3) by (simp add: membership_of_def column_for_def)
  ultimately show ?thesis using c f(1) unfolding derived_def membership_of_def by blast
qed

lemma and_true_member:
  "and_result rs = Some (VBool True) \<Longrightarrow> x \<in> set rs \<Longrightarrow>
   x \<in> {Some VNull, Some (VBool True), Some (VBool False)} \<Longrightarrow> x = Some (VBool True)"
  unfolding and_true_iff by auto

text \<open>Why a field of a row that is in a list of rows is in the list of fields.\<close>

lemma row_in_member:
  assumes ok: "dialect_ok D" "runtime_ok D R" and eqn: "fn_equality (d_names D) = Some eqn"
    and wf: "well_formed D \<Gamma> (Call i n t fs args)" and rows: "in_list_literal (type_equivalent R) n args = Some vs"
    and row: "hd args = Call j kRowConstructor u gs ms"
    and rs: "\<forall>r\<in>set rs. length r = length ms" "\<forall>v\<in>set vs. v = VNull \<or> (\<exists>cs\<in>set rs. v = VRow cs)"
    and env: "env_ok \<Gamma> \<rho>" and h: "holds R w \<rho> (Call i n t fs args)" and k: "k < length ms"
  shows "\<exists>r\<in>set rs. \<exists>x. sval (qeval R w (ms ! k) \<rho>) = Some x \<and>
    sql_eq R eqn (w 0) (qe_type (ms ! k)) x (r ! k) = Some (VBool True)"
proof -
  obtain v l te where a: "args = [v, Literal l (ArrayT te) (VArray vs)]" "n = kIn" "type_equivalent R te (qe_type v)"
    using rows by (cases "(type_equivalent R, n, args)" rule: in_list_literal.cases) (auto split: if_splits)
  have v: "v = Call j kRowConstructor u gs ms" using row a(1) by simp
  have t: "t = BooleanT" using wf a(2) by (simp add: form_ok_def)
  have "form_ok D kRowConstructor u ms" using wf a(1) v by simp
  then obtain fts where u: "u = RowT fts" "map qe_type ms = map snd fts"
    using form_ok_row(2) by blast
  let ?vals = "map (\<lambda>m. sval (qeval R w m \<rho>)) ms"
  have vv: "qeval R w v \<rho> = Val (row_result ?vals)"
    using run_row[OF ok(2)] v by (simp add: args_values_map)
  have det: "det_name D kIn" by (rule det_special[OF ok(1)]) (rule special_names)
  have "run R (w i) kIn BooleanT [(u, Val (row_result ?vals)), (ArrayT te, Val (Some (VArray vs)))] = Some (VBool True)"
    using h a t v vv by (simp add: holds_def)
  then have r: "run R (w 0) kIn BooleanT [(u, Val (row_result ?vals)), (ArrayT te, Val (Some (VArray vs)))] = Some (VBool True)"
    using run_det[OF ok(2) det, of "w i" _ _ "w 0"] by simp
  then have "row_result ?vals \<noteq> None"
    using run_in_None[OF ok(2), of "Val None"] by (cases "row_result ?vals") simp_all
  then have nn: "None \<notin> set ?vals" and val: "row_result ?vals = Some (VRow (map the ?vals))"
    by (auto simp: row_result_def split: if_splits)
  have "in_result (sql_eq R eqn (w 0) u) (VRow (map the ?vals)) vs = Some (VBool True)"
    using run_in_array[OF ok(2) eqn, of te u "w 0"] a(3) v r val by simp
  then obtain y where y: "y \<in> set vs" "sql_eq R eqn (w 0) u (VRow (map the ?vals)) y = Some (VBool True)"
    unfolding in_result_true by blast
  have "y \<noteq> VNull" using y(2) sql_eq_null[OF ok(2) eqn, of _ y] by auto
  then obtain r where r: "r \<in> set rs" "y = VRow r" using rs(2) y(1) by auto
  have len: "length ms = length fts" using u(2) by (metis length_map)
  have "sql_eq R eqn (w 0) u (VRow (map the ?vals)) (VRow r) =
      and_result (map (\<lambda>(t, x, y). sql_eq R eqn (w 0) t x y) (zip (map snd fts) (zip (map the ?vals) r)))"
    unfolding u(1) by (rule sql_eq_row[OF ok(2) eqn]) (use len rs(1) r in auto)
  then have all: "and_result (map (\<lambda>(t, x, y). sql_eq R eqn (w 0) t x y) (zip (map snd fts) (zip (map the ?vals) r))) =
      Some (VBool True)" using y(2) r(2) by simp
  have lr: "length r = length ms" using rs(1) r(1) by blast
  have "sval (qeval R w (ms ! k) \<rho>) \<in> set ?vals" using k by simp
  then have "sval (qeval R w (ms ! k) \<rho>) \<noteq> None" using nn by metis
  then obtain x where x: "sval (qeval R w (ms ! k) \<rho>) = Some x" by blast
  let ?z = "zip (map snd fts) (zip (map the ?vals) r)"
  have "?z ! k \<in> set ?z" by (rule nth_mem) (use k len lr in simp)
  moreover have "?z ! k = (map snd fts ! k, x, r ! k)" using k len lr x by simp
  ultimately have "sql_eq R eqn (w 0) (map snd fts ! k) x (r ! k) \<in>
      set (map (\<lambda>(t, x, y). sql_eq R eqn (w 0) t x y) ?z)"
    unfolding set_map by (metis (mono_tags, lifting) case_prod_conv image_eqI)
  then have "sql_eq R eqn (w 0) (map snd fts ! k) x (r ! k) = Some (VBool True)"
    using and_true_member[OF all _ sql_eq_truth[OF ok(2) eqn ok(1)]] by blast
  moreover have "map snd fts ! k = qe_type (ms ! k)" using u(2) k by (metis nth_map)
  ultimately show ?thesis using r(1) x by auto
qed

lemma gives_row_in_filters:
  assumes ok: "dialect_ok D" "runtime_ok D R" and eqn: "fn_equality (d_names D) = Some eqn"
    and member: "\<And>k w \<rho>. k < length es \<Longrightarrow> env_ok \<Gamma> \<rho> \<Longrightarrow> holds R w \<rho> e \<Longrightarrow>
      \<exists>r\<in>set rows. \<exists>x. sval (qeval R w (es ! k) \<rho>) = Some x \<and>
        sql_eq R eqn (w 0) (qe_type (es ! k)) x (r ! (m + k)) = Some (VBool True)"
    and wf: "\<forall>x\<in>set es. well_formed D \<Gamma> x" "\<forall>x\<in>set es. \<not> is_lambda x"
    and typed: "\<And>k r. k < length es \<Longrightarrow> r \<in> set rows \<Longrightarrow> has_type (r ! (m + k)) (qe_type (es ! k))"
  shows "gives (row_in_filters D rows m es) (\<lambda>ds. \<forall>(g, f)\<in>set ds. derived D \<Gamma> R column_for g e f)"
  using member wf typed
proof (induction es arbitrary: m)
  case (Cons x es)
  have IH: "gives (row_in_filters D rows (m + 1) es) (\<lambda>ds. \<forall>(g, f)\<in>set ds. derived D \<Gamma> R column_for g e f)"
  proof (rule Cons.IH)
    fix k w \<rho> assume "k < length es" "env_ok \<Gamma> \<rho>" "holds R w \<rho> e"
    then show "\<exists>r\<in>set rows. \<exists>y. sval (qeval R w (es ! k) \<rho>) = Some y \<and>
        sql_eq R eqn (w 0) (qe_type (es ! k)) y (r ! (m + 1 + k)) = Some (VBool True)"
      using Cons.prems(1)[of "Suc k" \<rho> w] by simp
  next
    fix k r assume "k < length es" "r \<in> set rows"
    then show "has_type (r ! (m + 1 + k)) (qe_type (es ! k))" using Cons.prems(4)[of "Suc k" r] by simp
  qed (use Cons.prems in auto)
  show ?case
  proof (cases "containsNonDeterministic x \<or> card (qe_columns x) \<noteq> 1 \<or> field_values rows m = []")
    case True
    then show ?thesis using IH by (simp only: row_in_filters.simps if_P)
  next
    case False
    have x: "deterministic x" "well_formed D \<Gamma> x" "card (qe_columns x) = 1" "\<not> is_lambda x"
      using False Cons.prems by auto
    have ty: "\<forall>v\<in>set (field_values rows m). has_type v (qe_type x)"
      using Cons.prems(4)[of 0] by (auto simp: field_values_def)
    have d: "derived D \<Gamma> R column_for (the_elem (qe_columns x)) e c"
      if "membership_of D \<Gamma> R x (field_values rows m) c" for c
      by (rule row_in_filter_derived[OF ok eqn _ x that]) (use Cons.prems(1)[of 0] in simp)
    have ne: "field_values rows m \<noteq> []" using False by simp
    show ?thesis
      unfolding row_in_filters.simps if_not_P[OF False]
      by (rule gives_andThen[OF gives_makeIn[OF ok x(4,2) ty ne]], rule gives_andThen[OF IH], rule gives_ret)
        (use d in auto)
  qed
qed (auto intro: gives_ret)

lemma gives_column_row_in:
  assumes ok: "dialect_ok D" "runtime_ok D R" and eqn: "fn_equality (d_names D) = Some eqn"
    and e: "pred D \<Gamma> e"
  shows "gives (deriveColumnFiltersFromRowIn (type_equivalent R) D e)
    (\<lambda>ds. \<forall>(g, f)\<in>set ds. derived D \<Gamma> R column_for g e f)"
proof (cases "deriveColumnFiltersFromRowIn (type_equivalent R) D e = ret []")
  case True
  then show ?thesis by (auto intro: gives_ret)
next
  case False
  obtain i n t fs args where call: "e = Call i n t fs args" using False by (cases e) auto
  obtain vs where vs: "in_list_literal (type_equivalent R) n args = Some vs"
    using False call by (auto split: option.splits)
  obtain j u gs ms where hd: "hd args = Call j kRowConstructor u gs ms" "2 \<le> length ms"
    using False call vs by (auto simp: isRowConstructor_def split: qexpr.splits if_splits)
  have wf: "well_formed D \<Gamma> (Call i n t fs args)" using e unfolding call pred_def by blast
  obtain v l te where a: "args = [v, Literal l (ArrayT te) (VArray vs)]" "type_equivalent R te (qe_type v)"
    using vs by (cases "(type_equivalent R, n, args)" rule: in_list_literal.cases) (auto split: if_splits)
  have v: "v = Call j kRowConstructor u gs ms" using hd(1) a(1) by simp
  have wv: "well_formed D \<Gamma> v" using wf unfolding a(1) by simp
  have form: "form_ok D kRowConstructor u ms" using wv v by simp
  obtain fts where fts: "u = RowT fts" "map qe_type ms = map snd fts" using form_ok_row(2)[OF form] by blast
  have nl: "\<forall>m\<in>set ms. \<not> is_lambda m" by (rule form_ok_row(3)[OF form])
  have r: "deriveColumnFiltersFromRowIn (type_equivalent R) D e =
      andThen (row_fields (length ms) vs) (\<lambda>rs. row_in_filters D rs 0 ms)"
    using call vs hd by (simp add: isRowConstructor_def)
  have at: "has_type (VArray vs) (ArrayT te)" using wf a(1) by simp
  have rt: "has_type x u" if mem: "x \<in> set vs" for x
  proof -
    obtain q where "q < length vs" "vs ! q = x" using mem by (auto simp: in_set_conv_nth)
    then have "has_type x te" using at by (auto simp: have_types_nth)
    then have "has_type x (qe_type v)" by (rule equivalent_types[OF ok(2) a(2)])
    then show ?thesis unfolding v by (simp only: qe_type.simps)
  qed
  have shape: "\<forall>x\<in>set vs. x = VNull \<or> (\<exists>cs. x = VRow cs \<and> length cs = length ms)"
  proof
    fix x assume "x \<in> set vs"
    then have "has_type x (RowT fts)" using rt fts(1) by simp
    then show "x = VNull \<or> (\<exists>cs. x = VRow cs \<and> length cs = length ms)"
      using arg_cong[OF fts(2), of length] by (cases x) (auto simp: have_types_nth)
  qed
  show ?thesis
    unfolding r
  proof (rule gives_andThen[OF gives_row_fields[OF shape]])
    fix rs assume rs: "(\<forall>r\<in>set rs. length r = length ms) \<and>
      (\<forall>v\<in>set vs. v = VNull \<or> (\<exists>cs\<in>set rs. v = VRow cs)) \<and> (\<forall>r\<in>set rs. VRow r \<in> set vs)"
    show "gives (row_in_filters D rs 0 ms) (\<lambda>ds. \<forall>(g, f)\<in>set ds. derived D \<Gamma> R column_for g e f)"
    proof (rule gives_row_in_filters[OF ok eqn])
      fix k w \<rho> assume k: "k < length ms" "env_ok \<Gamma> \<rho>" "holds R w \<rho> e"
      show "\<exists>r\<in>set rs. \<exists>x. sval (qeval R w (ms ! k) \<rho>) = Some x \<and>
          sql_eq R eqn (w 0) (qe_type (ms ! k)) x (r ! (0 + k)) = Some (VBool True)"
        using row_in_member[OF ok eqn wf vs hd(1) _ _ k(2) _ k(1), of rs w] rs k(3) call by simp
    next
      fix k r assume k: "k < length ms" "r \<in> set rs"
      have "has_type (VRow r) u" using rt rs k(2) by blast
      then have "has_type (r ! k) (map snd fts ! k)" using fts(1) k rs by (auto simp: have_types_nth)
      then show "has_type (r ! (0 + k)) (qe_type (ms ! k))" using fts(2) k(1) by (metis add_0 nth_map)
    qed (use wv v nl in auto)
  qed
qed

section \<open>The derivations are sound\<close>

text \<open>What holds of filters derived from a list: each comes from a member of the list.\<close>

definition derived_from ::
  "dialect \<Rightarrow> (nat \<Rightarrow> vtype) \<Rightarrow> 'w runtime \<Rightarrow> qexpr list \<Rightarrow> (nat set \<Rightarrow> bool) \<Rightarrow> qexpr \<Rightarrow> bool" where
  "derived_from D \<Gamma> R es C f \<longleftrightarrow> pred D \<Gamma> f \<and> deterministic f \<and> C (qe_columns f) \<and>
     (\<forall>w w' \<rho>. env_ok \<Gamma> \<rho> \<longrightarrow> (\<forall>e\<in>set es. holds R w \<rho> e) \<longrightarrow> holds R w' \<rho> f)"

lemma derived_fromI:
  "derived D \<Gamma> R gf g e f \<Longrightarrow> e \<in> set es \<Longrightarrow> (gf (qe_columns f) = Some g \<Longrightarrow> C (qe_columns f)) \<Longrightarrow>
   derived_from D \<Gamma> R es C f"
  unfolding derived_def derived_from_def by blast

lemma derived_from_more:
  "derived_from D \<Gamma> R es C f \<Longrightarrow> set es \<subseteq> set es' \<Longrightarrow> derived_from D \<Gamma> R es' C f"
  unfolding derived_from_def by blast

lemma derived_from_Cons: "derived_from D \<Gamma> R es C f \<Longrightarrow> derived_from D \<Gamma> R (e # es) C f"
  by (erule derived_from_more) auto

lemma gives_join_inputs:
  assumes ok: "dialect_ok D" "runtime_ok D R" and es: "\<forall>e\<in>set es. pred D \<Gamma> e"
  shows "gives (deriveForJoinInputs D L S es) (\<lambda>(ls, rs).
    (\<forall>f\<in>set ls. derived_from D \<Gamma> R es (\<lambda>C. C \<noteq> {} \<and> C \<subseteq> L) f) \<and>
    (\<forall>f\<in>set rs. derived_from D \<Gamma> R es (\<lambda>C. C \<noteq> {} \<and> C \<subseteq> S) f))"
  using es
proof (induction es)
  case (Cons e es)
  have e: "pred D \<Gamma> e" using Cons.prems by simp
  have IH: "gives (deriveForJoinInputs D L S es) (\<lambda>(ls, rs).
    (\<forall>f\<in>set ls. derived_from D \<Gamma> R es (\<lambda>C. C \<noteq> {} \<and> C \<subseteq> L) f) \<and>
    (\<forall>f\<in>set rs. derived_from D \<Gamma> R es (\<lambda>C. C \<noteq> {} \<and> C \<subseteq> S) f))" using Cons by simp
  show ?case
    unfolding deriveForJoinInputs.simps
  proof (rule gives_andThen[OF gives_grouped[OF ok unites_side_for e]], rule gives_andThen[OF IH], rule gives_ret)
    fix ds rest
    assume ds: "\<forall>(g, f)\<in>set ds. derived D \<Gamma> R (side_for L S) g e f"
      and rest: "case rest of (ls, rs) \<Rightarrow>
        (\<forall>f\<in>set ls. derived_from D \<Gamma> R es (\<lambda>C. C \<noteq> {} \<and> C \<subseteq> L) f) \<and>
        (\<forall>f\<in>set rs. derived_from D \<Gamma> R es (\<lambda>C. C \<noteq> {} \<and> C \<subseteq> S) f)"
    have l: "derived_from D \<Gamma> R (e # es) (\<lambda>C. C \<noteq> {} \<and> C \<subseteq> L) f" if "(LeftInput, f) \<in> set ds" for f
      by (rule derived_fromI[of _ _ _ "side_for L S" LeftInput e])
        (use ds that in \<open>auto simp: side_for_def split: if_splits\<close>)
    have r: "derived_from D \<Gamma> R (e # es) (\<lambda>C. C \<noteq> {} \<and> C \<subseteq> S) f" if "(RightInput, f) \<in> set ds" for f
      by (rule derived_fromI[of _ _ _ "side_for L S" RightInput e])
        (use ds that in \<open>auto simp: side_for_def split: if_splits\<close>)
    show "case (map snd (filter (\<lambda>g. fst g = LeftInput) ds) @ fst rest,
          map snd (filter (\<lambda>g. fst g = RightInput) ds) @ snd rest) of (ls, rs) \<Rightarrow>
        (\<forall>f\<in>set ls. derived_from D \<Gamma> R (e # es) (\<lambda>C. C \<noteq> {} \<and> C \<subseteq> L) f) \<and>
        (\<forall>f\<in>set rs. derived_from D \<Gamma> R (e # es) (\<lambda>C. C \<noteq> {} \<and> C \<subseteq> S) f)"
      using l r rest derived_from_Cons[of D \<Gamma> R es _ _ e] by (auto split: prod.splits)
  qed
qed (auto intro: gives_ret)

lemma new_filters_subset: "set (fst (new_filters filters ds seen)) \<subseteq> set (map snd ds)"
  by (induction filters ds seen rule: new_filters.induct) (auto simp: Let_def split: prod.splits)

lemma gives_derive_each:
  assumes ok: "dialect_ok D" "runtime_ok D R" and eqn: "fn_equality (d_names D) = Some eqn"
    and es: "\<forall>e\<in>set es. pred D \<Gamma> e"
  shows "gives (derive_each (type_equivalent R) D filters es seen)
    (\<lambda>fs. \<forall>f\<in>set fs. derived_from D \<Gamma> R es (\<lambda>C. card C = 1) f)"
  using es
proof (induction es arbitrary: seen)
  case (Cons e es)
  have e: "pred D \<Gamma> e" using Cons.prems by simp
  show ?case
    unfolding derive_each.simps
  proof (rule gives_andThen[OF gives_grouped[OF ok unites_column_for e]],
      rule gives_andThen[OF gives_column_row_in[OF ok eqn e]])
    fix ds rs
    assume ds: "\<forall>(g, f)\<in>set ds. derived D \<Gamma> R column_for g e f" "\<forall>(g, f)\<in>set rs. derived D \<Gamma> R column_for g e f"
    obtain fs seen' where nf: "new_filters filters (ds @ rs) seen = (fs, seen')" by fastforce
    have "derived_from D \<Gamma> R (e # es) (\<lambda>C. card C = 1) f" if "f \<in> set fs" for f
    proof -
      have "f \<in> snd ` set (ds @ rs)"
        using new_filters_subset[of filters "ds @ rs" seen] nf that by auto
      then obtain g where "(g, f) \<in> set (ds @ rs)" by force
      then show ?thesis
        by (intro derived_fromI[of _ _ _ column_for g e]) (use ds in \<open>auto simp: column_for_def split: if_splits\<close>)
    qed
    moreover have "gives (derive_each (type_equivalent R) D filters es seen')
        (\<lambda>fs. \<forall>f\<in>set fs. derived_from D \<Gamma> R es (\<lambda>C. card C = 1) f)"
      by (rule Cons.IH) (use Cons.prems in simp)
    ultimately show "gives (let (fs, seen') = new_filters filters (ds @ rs) seen in
          andThen (derive_each (type_equivalent R) D filters es seen') (\<lambda>rest. ret (fs @ rest)))
        (\<lambda>fs. \<forall>f\<in>set fs. derived_from D \<Gamma> R (e # es) (\<lambda>C. card C = 1) f)"
      unfolding nf Let_def prod.case
      by (elim gives_andThen, intro gives_ret) (auto dest: derived_from_Cons)
  qed
qed (auto intro: gives_ret)

section \<open>Key equalities are equivalent\<close>

text \<open>Two keys are equal on a row when their values are equal and neither is NULL.\<close>

definition keys_equal :: "dialect \<Rightarrow> 'w runtime \<Rightarrow> (nat \<Rightarrow> 'w) \<Rightarrow> env \<Rightarrow> qexpr \<Rightarrow> qexpr \<Rightarrow> bool" where
  "keys_equal D R w \<rho> x y \<longleftrightarrow>
     (\<exists>n. fn_equality (d_names D) = Some n \<and>
        eq_value R n (w 0) (qe_type x) (sval (qeval R w x \<rho>)) (sval (qeval R w y \<rho>)) = Some (VBool True))"

definition key_ok :: "dialect \<Rightarrow> (nat \<Rightarrow> vtype) \<Rightarrow> qexpr \<Rightarrow> bool" where
  "key_ok D \<Gamma> e \<longleftrightarrow> well_formed D \<Gamma> e \<and> \<not> is_lambda e"

lemma eq_value_true:
  "eq_value R n s t x y = Some (VBool True) \<longleftrightarrow>
   (\<exists>u v. x = Some u \<and> y = Some v \<and> sql_eq R n s t u v = Some (VBool True))"
  by (auto simp: eq_value_def split: option.splits)

lemma equality_of_holds:
  "equality_of D \<Gamma> R x y c \<Longrightarrow> holds R w \<rho> c \<longleftrightarrow> keys_equal D R w \<rho> x y"
  unfolding equality_of_def keys_equal_def holds_def by (metis option.inject)

lemma keys_equal_sym:
  assumes "runtime_ok D R" "qe_type x = qe_type y" "keys_equal D R w \<rho> x y"
  shows "keys_equal D R w \<rho> y x"
  using assms(3) unfolding keys_equal_def eq_value_true assms(2) by (blast intro: sql_eq_sym[OF assms(1)])

lemma keys_equal_trans:
  assumes "runtime_ok D R" "qe_type x = qe_type y" "keys_equal D R w \<rho> x y" "keys_equal D R w \<rho> y z"
  shows "keys_equal D R w \<rho> x z"
proof -
  obtain n u v where n: "fn_equality (d_names D) = Some n" and u: "sval (qeval R w x \<rho>) = Some u"
    "sval (qeval R w y \<rho>) = Some v" "sql_eq R n (w 0) (qe_type y) u v = Some (VBool True)"
    using assms(3) unfolding keys_equal_def eq_value_true assms(2) by blast
  obtain z' where z: "sval (qeval R w z \<rho>) = Some z'" "sql_eq R n (w 0) (qe_type y) v z' = Some (VBool True)"
    using assms(4) n u(2) unfolding keys_equal_def eq_value_true by auto
  show ?thesis
    unfolding keys_equal_def eq_value_true assms(2)
    using n u(1) z(1) sql_eq_trans[OF assms(1) n u(3) z(2)] by blast
qed

lemma keys_equal_same_right:
  assumes "runtime_ok D R" "qe_type x = qe_type z" "qe_type y = qe_type z" "keys_equal D R w \<rho> x z"
  shows "keys_equal D R w \<rho> y z \<longleftrightarrow> keys_equal D R w \<rho> x y"
  using assms keys_equal_sym[OF assms(1)] keys_equal_trans[OF assms(1)] by metis

lemma keys_equal_same_left:
  assumes "runtime_ok D R" "qe_type x = qe_type z" "qe_type y = qe_type z" "keys_equal D R w \<rho> z x"
  shows "keys_equal D R w \<rho> z y \<longleftrightarrow> keys_equal D R w \<rho> x y"
  using assms keys_equal_sym[OF assms(1)] keys_equal_trans[OF assms(1)] by metis

definition key_eqv ::
  "dialect \<Rightarrow> 'w runtime \<Rightarrow> qexpr list \<Rightarrow> qexpr list \<Rightarrow> nat \<Rightarrow> key_equalities \<Rightarrow> bool" where
  "key_eqv D R ls rs m res \<longleftrightarrow> (\<forall>w \<rho>. (\<forall>i < m. keys_equal D R w \<rho> (ls ! i) (rs ! i)) \<longleftrightarrow>
     (\<forall>i < m. \<not> k_redundant res ! i \<longrightarrow> keys_equal D R w \<rho> (ls ! i) (rs ! i)) \<and>
     (\<forall>e\<in>set (k_left res) \<union> set (k_right res). holds R w \<rho> e))"

definition equalities_ok :: "dialect \<Rightarrow> (nat \<Rightarrow> vtype) \<Rightarrow> qexpr list \<Rightarrow> qexpr list \<Rightarrow> bool" where
  "equalities_ok D \<Gamma> keys es \<longleftrightarrow>
     (\<forall>e\<in>set es. pred D \<Gamma> e \<and> deterministic e \<and> qe_columns e \<subseteq> (\<Union>x\<in>set keys. qe_columns x))"

definition key_inv ::
  "dialect \<Rightarrow> (nat \<Rightarrow> vtype) \<Rightarrow> 'w runtime \<Rightarrow> qexpr list \<Rightarrow> qexpr list \<Rightarrow> nat \<Rightarrow>
   nat list \<times> key_equalities \<Rightarrow> bool" where
  "key_inv D \<Gamma> R ls rs m st \<longleftrightarrow> (case st of (kept, res) \<Rightarrow>
     length (k_redundant res) = length ls \<and>
     (\<forall>j\<in>set kept. j < m \<and> \<not> k_redundant res ! j \<and> deterministic (ls ! j) \<and> deterministic (rs ! j)) \<and>
     (\<forall>i. m \<le> i \<longrightarrow> i < length ls \<longrightarrow> \<not> k_redundant res ! i) \<and>
     equalities_ok D \<Gamma> ls (k_left res) \<and> equalities_ok D \<Gamma> rs (k_right res) \<and> key_eqv D R ls rs m res)"

lemma key_invD:
  assumes "key_inv D \<Gamma> R ls rs m (kept, res)"
  shows "length (k_redundant res) = length ls"
    "j \<in> set kept \<Longrightarrow> j < m \<and> \<not> k_redundant res ! j \<and> deterministic (ls ! j) \<and> deterministic (rs ! j)"
    "m \<le> i \<Longrightarrow> i < length ls \<Longrightarrow> \<not> k_redundant res ! i"
    "equalities_ok D \<Gamma> ls (k_left res)"
    "equalities_ok D \<Gamma> rs (k_right res)"
    "key_eqv D R ls rs m res"
  using assms unfolding key_inv_def prod.case by blast+

lemma key_invI:
  assumes "length (k_redundant res) = length ls"
    "\<And>j. j \<in> set kept \<Longrightarrow> j < m \<and> \<not> k_redundant res ! j \<and> deterministic (ls ! j) \<and> deterministic (rs ! j)"
    "\<And>i. m \<le> i \<Longrightarrow> i < length ls \<Longrightarrow> \<not> k_redundant res ! i"
    "equalities_ok D \<Gamma> ls (k_left res)"
    "equalities_ok D \<Gamma> rs (k_right res)"
    "key_eqv D R ls rs m res"
  shows "key_inv D \<Gamma> R ls rs m (kept, res)"
  using assms unfolding key_inv_def prod.case by blast

lemma key_inv_redundant:
  assumes inv: "key_inv D \<Gamma> R ls rs i (kept, res)" and i: "i < length ls" and j: "j \<in> set kept"
    and res': "k_redundant res' = (k_redundant res)[i := True]"
    and left: "equalities_ok D \<Gamma> ls (k_left res')"
    and right: "equalities_ok D \<Gamma> rs (k_right res')"
    and new: "\<And>w \<rho>. keys_equal D R w \<rho> (ls ! j) (rs ! j) \<Longrightarrow>
      (\<forall>e\<in>set (k_left res') \<union> set (k_right res'). holds R w \<rho> e) \<longleftrightarrow>
      keys_equal D R w \<rho> (ls ! i) (rs ! i) \<and> (\<forall>e\<in>set (k_left res) \<union> set (k_right res). holds R w \<rho> e)"
  shows "key_inv D \<Gamma> R ls rs (Suc i) (kept, res')"
proof -
  note I = key_invD[OF inv]
  have "(\<forall>k < Suc i. keys_equal D R w \<rho> (ls ! k) (rs ! k)) \<longleftrightarrow>
      (\<forall>k < Suc i. \<not> k_redundant res' ! k \<longrightarrow> keys_equal D R w \<rho> (ls ! k) (rs ! k)) \<and>
      (\<forall>e\<in>set (k_left res') \<union> set (k_right res'). holds R w \<rho> e)" for w \<rho>
  proof -
    have red: "(\<forall>k < Suc i. \<not> k_redundant res' ! k \<longrightarrow> keys_equal D R w \<rho> (ls ! k) (rs ! k)) \<longleftrightarrow>
        (\<forall>k < i. \<not> k_redundant res ! k \<longrightarrow> keys_equal D R w \<rho> (ls ! k) (rs ! k))"
      using I(1) i by (auto simp: res' less_Suc_eq nth_list_update)
    have all_Suc: "(\<forall>k < Suc i. P k) \<longleftrightarrow> (\<forall>k < i. P k) \<and> P i" for P :: "nat \<Rightarrow> bool"
      by (auto simp: less_Suc_eq)
    note E = I(6)[unfolded key_eqv_def, rule_format, of w \<rho>]
    show ?thesis
    proof (cases "keys_equal D R w \<rho> (ls ! j) (rs ! j)")
      case True
      show ?thesis unfolding red new[OF True] unfolding all_Suc E by blast
    next
      case False
      have "\<not> (\<forall>k < i. keys_equal D R w \<rho> (ls ! k) (rs ! k))"
        "\<not> (\<forall>k < i. \<not> k_redundant res ! k \<longrightarrow> keys_equal D R w \<rho> (ls ! k) (rs ! k))"
        using False I(2)[OF j] by blast+
      then show ?thesis unfolding red unfolding all_Suc by (simp only: simp_thms)
    qed
  qed
  moreover have "j < Suc i \<and> \<not> k_redundant res' ! j \<and> deterministic (ls ! j) \<and> deterministic (rs ! j)"
    if "j \<in> set kept" for j
    using I(2)[OF that] by (simp add: res')
  moreover have "\<not> k_redundant res' ! k" if "Suc i \<le> k" "k < length ls" for k
    using I(3)[of k] that by (simp add: res')
  ultimately show ?thesis
    using I(1) by (intro key_invI left right) (simp_all add: res' key_eqv_def)
qed

lemma set_addOnce [simp]: "set (addOnce e es) = insert e (set es)"
  by (auto simp: addOnce_def)

lemma equalities_ok_add:
  assumes "equalities_ok D \<Gamma> keys es" "equality_of D \<Gamma> R x y e" "deterministic x" "deterministic y"
    "x \<in> set keys" "y \<in> set keys"
  shows "equalities_ok D \<Gamma> keys (addOnce e es)"
proof -
  have "pred D \<Gamma> e" "deterministic e" "qe_columns e = qe_columns x \<union> qe_columns y"
    using assms(2-4) unfolding equality_of_def by blast+
  then show ?thesis using assms(1,5,6) unfolding equalities_ok_def set_addOnce by blast
qed

lemma holds_added:
  assumes "holds R w \<rho> e \<longleftrightarrow> P"
  shows "(\<forall>x\<in>insert e S. holds R w \<rho> x) \<longleftrightarrow> P \<and> (\<forall>x\<in>S. holds R w \<rho> x)"
  using assms by blast

lemma gives_key_step:
  assumes ok: "dialect_ok D" "runtime_ok D R" and i: "i < length ls" and len: "length ls = length rs"
    and keys: "\<forall>x\<in>set ls \<union> set rs. key_ok D \<Gamma> x" "\<forall>i < length ls. qe_type (ls ! i) = qe_type (rs ! i)"
    and inv: "key_inv D \<Gamma> R ls rs i st"
  shows "gives (key_step D ls rs i st) (key_inv D \<Gamma> R ls rs (Suc i))"
proof -
  obtain kept res where st: "st = (kept, res)" by fastforce
  note I = key_invD[OF inv[unfolded st]]
  have ni: "\<not> k_redundant res ! i" using I(3)[of i] i by simp
  have next_eqv: "(\<forall>k < Suc i. keys_equal D R w \<rho> (ls ! k) (rs ! k)) \<longleftrightarrow>
        (\<forall>k < Suc i. \<not> k_redundant res ! k \<longrightarrow> keys_equal D R w \<rho> (ls ! k) (rs ! k)) \<and>
        (\<forall>e\<in>set (k_left res) \<union> set (k_right res). holds R w \<rho> e)" for w \<rho>
  proof -
    have all_Suc: "(\<forall>k < Suc i. P k) \<longleftrightarrow> (\<forall>k < i. P k) \<and> P i" for P :: "nat \<Rightarrow> bool"
      by (auto simp: less_Suc_eq)
    show ?thesis unfolding all_Suc I(6)[unfolded key_eqv_def, rule_format, of w \<rho>] using ni by blast
  qed
  then have eqv: "key_eqv D R ls rs (Suc i) res" unfolding key_eqv_def by blast
  have same: "key_inv D \<Gamma> R ls rs (Suc i) (kept, res)"
    using I(2,3) by (intro key_invI I(1,4,5) eqv) (auto dest: Suc_leD intro: less_SucI)
  have keep: "key_inv D \<Gamma> R ls rs (Suc i) (kept @ [i], res)" if "deterministic (ls ! i)" "deterministic (rs ! i)"
    using I(2,3) ni that by (intro key_invI I(1,4,5) eqv) (auto dest: Suc_leD intro: less_SucI)
  show ?thesis
  proof (cases "containsNonDeterministic (ls ! i) \<or> containsNonDeterministic (rs ! i)")
    case True
    show ?thesis unfolding st key_step_def Let_def prod.case if_P[OF True] by (intro gives_ret same)
  next
    case nd: False
    show ?thesis
    proof (cases "List.find (\<lambda>j. ls ! j = ls ! i \<or> rs ! j = rs ! i) kept")
      case None
      show ?thesis
        unfolding st key_step_def Let_def prod.case if_not_P[OF nd] None option.case by (intro gives_ret keep) (use nd in auto)
    next
      case (Some j)
      have j: "j \<in> set kept" "ls ! j = ls ! i \<or> rs ! j = rs ! i" using Some by (auto simp: find_Some_iff)
      have ji: "j < length ls" using I(2)[OF j(1)] i by simp
      have ks: "key_ok D \<Gamma> (ls ! i)" "key_ok D \<Gamma> (rs ! i)" "key_ok D \<Gamma> (ls ! j)" "key_ok D \<Gamma> (rs ! j)"
        using keys(1) i ji len by auto
      have ty: "qe_type (ls ! i) = qe_type (rs ! i)" "qe_type (ls ! j) = qe_type (rs ! j)" using keys(2) i ji by auto
      note red = key_inv_redundant[OF inv[unfolded st] i j(1)]
      have dj: "deterministic (ls ! j) \<and> deterministic (rs ! j)" using I(2)[OF j(1)] by blast
      show ?thesis
      proof (cases "ls ! j = ls ! i")
        case False
        then have r: "rs ! j = rs ! i" using j(2) by simp
        have e: "gives (makeEq D (ls ! j) (ls ! i)) (equality_of D \<Gamma> R (ls ! j) (ls ! i))"
          by (rule gives_equality[OF ok]) (use ks ty r in \<open>auto simp: key_ok_def\<close>)
        show ?thesis
          unfolding st key_step_def Let_def prod.case if_not_P[OF nd] Some option.case if_P[OF False]
        proof (rule gives_andThen[OF e], rule gives_ret, rule red)
          fix e assume e: "equality_of D \<Gamma> R (ls ! j) (ls ! i) e"
          show "(\<forall>x\<in>set (k_left (res\<lparr>k_left := addOnce e (k_left res), k_redundant := (k_redundant res)[i := True]\<rparr>)) \<union>
              set (k_right (res\<lparr>k_left := addOnce e (k_left res), k_redundant := (k_redundant res)[i := True]\<rparr>)). holds R w \<rho> x) \<longleftrightarrow>
            keys_equal D R w \<rho> (ls ! i) (rs ! i) \<and> (\<forall>x\<in>set (k_left res) \<union> set (k_right res). holds R w \<rho> x)"
            if "keys_equal D R w \<rho> (ls ! j) (rs ! j)" for w \<rho>
          proof -
            have q: "holds R w \<rho> e \<longleftrightarrow> keys_equal D R w \<rho> (ls ! i) (rs ! i)"
              using keys_equal_same_right[OF ok(2) _ _ that, of "ls ! i"] ty r equality_of_holds[OF e, of w \<rho>] by simp
            show ?thesis using holds_added[OF q, of "set (k_left res) \<union> set (k_right res)"] by simp
          qed
          show "equalities_ok D \<Gamma> ls (k_left (res\<lparr>k_left := addOnce e (k_left res), k_redundant := (k_redundant res)[i := True]\<rparr>))"
            using equalities_ok_add[OF I(4) e] dj nd i ji by simp
        qed (use I(5) in simp_all)
      next
        case l: True
        show ?thesis
        proof (cases "rs ! j = rs ! i")
          case False
          have e: "gives (makeEq D (rs ! j) (rs ! i)) (equality_of D \<Gamma> R (rs ! j) (rs ! i))"
            by (rule gives_equality[OF ok]) (use ks ty l in \<open>auto simp: key_ok_def\<close>)
          show ?thesis
            unfolding st key_step_def Let_def prod.case if_not_P[OF nd] Some option.case if_not_P[OF not_not[THEN iffD2, OF l]] if_P[OF False]
          proof (rule gives_andThen[OF e], rule gives_ret, rule red)
            fix e assume e: "equality_of D \<Gamma> R (rs ! j) (rs ! i) e"
            show "(\<forall>x\<in>set (k_left (res\<lparr>k_right := addOnce e (k_right res), k_redundant := (k_redundant res)[i := True]\<rparr>)) \<union>
                set (k_right (res\<lparr>k_right := addOnce e (k_right res), k_redundant := (k_redundant res)[i := True]\<rparr>)). holds R w \<rho> x) \<longleftrightarrow>
              keys_equal D R w \<rho> (ls ! i) (rs ! i) \<and> (\<forall>x\<in>set (k_left res) \<union> set (k_right res). holds R w \<rho> x)"
              if "keys_equal D R w \<rho> (ls ! j) (rs ! j)" for w \<rho>
            proof -
              have q: "holds R w \<rho> e \<longleftrightarrow> keys_equal D R w \<rho> (ls ! i) (rs ! i)"
              proof -
                have t: "qe_type (rs ! j) = qe_type (ls ! j)" "qe_type (rs ! i) = qe_type (ls ! j)"
                  using ty unfolding l by (metis, metis)
                show ?thesis
                  using keys_equal_same_left[OF ok(2) t that] equality_of_holds[OF e, of w \<rho>] unfolding l by blast
              qed
              show ?thesis using holds_added[OF q, of "set (k_left res) \<union> set (k_right res)"] by simp
            qed
            show "equalities_ok D \<Gamma> rs (k_right (res\<lparr>k_right := addOnce e (k_right res), k_redundant := (k_redundant res)[i := True]\<rparr>))"
              using equalities_ok_add[OF I(5) e] dj nd i ji len by simp
          qed (use I(4) in simp_all)
        next
          case r: True
          show ?thesis
            unfolding st key_step_def Let_def prod.case if_not_P[OF nd] Some option.case
              if_not_P[OF not_not[THEN iffD2, OF l]] if_not_P[OF not_not[THEN iffD2, OF r]]
            by (rule gives_ret, rule red) (use I(4,5) l r in simp_all)
        qed
      qed
    qed
  qed
qed

lemma gives_key_loop:
  assumes ok: "dialect_ok D" "runtime_ok D R" and len: "length ls = length rs"
    and keys: "\<forall>x\<in>set ls \<union> set rs. key_ok D \<Gamma> x" "\<forall>i < length ls. qe_type (ls ! i) = qe_type (rs ! i)"
    and m: "m \<le> length ls" and inv: "key_inv D \<Gamma> R ls rs m st"
  shows "gives (key_loop D ls rs [m..<length ls] st) (key_inv D \<Gamma> R ls rs (length ls))"
  using m inv
proof (induction "length ls - m" arbitrary: m st)
  case 0
  then show ?case by (auto intro: gives_ret)
next
  case (Suc d)
  then have m: "m < length ls" by simp
  show ?case
    unfolding upt_conv_Cons[OF m] key_loop.simps
    by (rule gives_andThen[OF gives_key_step[OF ok m len keys Suc.prems(2)]], rule Suc.hyps(1))
      (use Suc.hyps(2) m in auto)
qed

lemma gives_join_keys:
  assumes ok: "dialect_ok D" "runtime_ok D R" and len: "length ls = length rs"
    and keys: "\<forall>x\<in>set ls \<union> set rs. key_ok D \<Gamma> x" "\<forall>i < length ls. qe_type (ls ! i) = qe_type (rs ! i)"
  shows "gives (deriveForJoinKeys D ls rs) (\<lambda>res. length (k_redundant res) = length ls \<and>
    equalities_ok D \<Gamma> ls (k_left res) \<and> equalities_ok D \<Gamma> rs (k_right res) \<and> key_eqv D R ls rs (length ls) res)"
proof -
  let ?init = "([], \<lparr>k_left = [], k_right = [], k_redundant = replicate (length ls) False\<rparr>)"
  have inv: "key_inv D \<Gamma> R ls rs 0 ?init"
    by (rule key_invI) (auto simp: equalities_ok_def key_eqv_def)
  note loop = gives_key_loop[OF ok len keys le0 inv]
  show ?thesis
    unfolding deriveForJoinKeys_def
    by (rule gives_require[OF len], rule gives_andThen[OF loop], rule gives_ret)
      (auto simp: key_inv_def split: prod.splits)
qed

end
