(* ===== verification/Sample_Runtime.thy ===== *)
theory Sample_Runtime
  imports Expr_Semantics
begin

text \<open>
  A small runtime that satisfies the contracts of \<open>Expr_Semantics\<close>: the witnesses of the theorems on
  expressions evaluate concrete queries on it. Its functions are equality, negation, comparison,
  \<^verbatim>\<open>is_null\<close>, addition and division of integers, and a random number.
\<close>

section \<open>Functions\<close>

function sample_eq :: "variant \<Rightarrow> variant \<Rightarrow> variant" where
  "sample_eq u v =
     (if u = VNull \<or> v = VNull then VNull
      else case (u, v) of
        (VRow xs, VRow ys) \<Rightarrow>
          if length xs = length ys
          then the (and_result (map (\<lambda>p. Some (sample_eq (fst p) (snd p))) (zip xs ys)))
          else VBool False
      | _ \<Rightarrow> VBool (u = v))"
  by pat_completeness auto
termination
proof (relation "measure (\<lambda>(u, v). size u)", goal_cases)
  case (2 u v p q xs ys z)
  then have "fst z \<in> set xs" by (cases z) (auto dest: set_zip_leftD)
  then have "size (fst z) < Suc (size_list size xs)" by (induction xs) auto
  then show ?case using 2 by (cases z) auto
qed simp

declare sample_eq.simps [simp del]

definition strict :: "(variant list \<Rightarrow> variant option) \<Rightarrow> variant option list \<Rightarrow> variant option" where
  "strict f rs = (if None \<in> set rs then None else f (map the rs))"

fun eq_fn :: "variant list \<Rightarrow> variant option" where
  "eq_fn [u, v] = Some (sample_eq u v)"
| "eq_fn _ = None"

fun not_fn :: "variant list \<Rightarrow> variant option" where
  "not_fn [VBool b] = Some (VBool (\<not> b))"
| "not_fn [v] = Some VNull"
| "not_fn _ = None"

fun is_null_fn :: "variant list \<Rightarrow> variant option" where
  "is_null_fn [v] = Some (VBool (v = VNull))"
| "is_null_fn _ = None"

fun lt_fn :: "variant list \<Rightarrow> variant option" where
  "lt_fn [VInt x, VInt y] = Some (VBool (x < y))"
| "lt_fn [VNull, v] = Some VNull"
| "lt_fn [u, VNull] = Some VNull"
| "lt_fn _ = None"

fun divide_fn :: "variant list \<Rightarrow> variant option" where
  "divide_fn [VInt x, VInt y] = (if y = 0 then None else Some (VInt (x div y)))"
| "divide_fn [VNull, v] = Some VNull"
| "divide_fn [u, VNull] = Some VNull"
| "divide_fn _ = None"

fun plus_fn :: "variant list \<Rightarrow> variant option" where
  "plus_fn [VInt x, VInt y] = Some (VInt (x + y))"
| "plus_fn [VNull, v] = Some VNull"
| "plus_fn [u, VNull] = Some VNull"
| "plus_fn _ = None"

fun deref_fn :: "variant list \<Rightarrow> variant option" where
  "deref_fn [VNull, VInt k] = Some VNull"
| "deref_fn [VRow vs, VInt k] = (if 0 \<le> k \<and> nat k < length vs then Some (vs ! nat k) else None)"
| "deref_fn _ = None"

definition in_fn :: "vtype list \<Rightarrow> variant list \<Rightarrow> variant option" where
  "in_fn ts vs =
     (case (ts, vs) of
        (t # us, v # ws) \<Rightarrow>
          if us = [ArrayT t]
          then (case ws of [VArray xs] \<Rightarrow> in_result (\<lambda>x y. Some (sample_eq x y)) v xs | _ \<Rightarrow> None)
          else in_result (\<lambda>x y. Some (sample_eq x y)) v ws
      | _ \<Rightarrow> None)"

fun try_fn :: "vtype \<Rightarrow> variant option list \<Rightarrow> variant option" where
  "try_fn t [None] = Some VNull"
| "try_fn t [Some v] = (if has_type v t then Some v else None)"
| "try_fn t _ = None"

definition sample_run :: "nat \<Rightarrow> string \<Rightarrow> vtype \<Rightarrow> (vtype \<times> rvalue) list \<Rightarrow> variant option" where
  "sample_run s n t xs =
     (let ts = map fst xs; rs = args_values xs in
      if n = kCoalesce then coalesce_result rs
      else if n = kIf \<or> n = kSwitch then switch_result rs
      else if n = kRowConstructor then row_result rs
      else if n = kDereference then strict deref_fn rs
      else if n = kTry then try_fn t rs
      else if n = ''rand'' then (if t = DoubleT \<and> rs = [] then Some (VScalar s) else None)
      else if n = ''plus'' then (if t = BigintT then strict plus_fn rs else None)
      else if n = ''divide'' then (if t = BigintT then strict divide_fn rs else None)
      else if t \<noteq> BooleanT then None
      else if n = kAnd then and_result rs
      else if n = kOr then or_result rs
      else if n = kIn then strict (in_fn ts) rs
      else if n = ''eq'' then strict eq_fn rs
      else if n = ''not'' then strict not_fn rs
      else if n = ''is_null'' then strict is_null_fn rs
      else if n = ''lt'' then strict lt_fn rs
      else if n = ''gt'' then strict lt_fn (rev rs)
      else None)"

fun sample_select :: "vtype \<Rightarrow> string + nat \<Rightarrow> variant \<Rightarrow> variant option" where
  "sample_select t sel VNull = Some VNull"
| "sample_select t (Inr k) (VRow vs) = (if k < length vs \<and> has_type (vs ! k) t then Some (vs ! k) else None)"
| "sample_select t sel v = None"

definition sample_runtime :: "nat runtime" where
  "sample_runtime = \<lparr>run = sample_run, select_field = sample_select,
     other_value = (\<lambda>s i t \<rho>. None), type_equivalent = (=)\<rparr>"

section \<open>The dialect\<close>

definition sample_function_names :: function_names where
  "sample_function_names =
     \<lparr>fn_equality = Some ''eq'', fn_negation = Some ''not'', fn_elementAt = None, fn_subscript = None,
      fn_cardinality = None, fn_lt = Some ''lt'', fn_lte = None, fn_gt = Some ''gt'', fn_gte = None,
      fn_isNull = Some ''is_null'', fn_distinctFrom = None, fn_between = None, fn_like = None,
      fn_random = Some ''rand'', fn_arbitrary = None, fn_count = None, fn_rowNumber = None,
      fn_rank = None, fn_denseRank = None\<rparr>"

definition sample_bits :: "string \<Rightarrow> bool \<Rightarrow> registry_error + function_set" where
  "sample_bits n special =
     (if special then Inr (FunctionSet kNonDefaultNullBehavior)
      else if n \<in> {''eq'', ''not'', ''lt'', ''gt'', ''plus'', ''divide''} then Inr (FunctionSet 0)
      else if n = ''is_null'' then Inr (FunctionSet kNonDefaultNullBehavior)
      else if n = ''rand'' then Inr (FunctionSet kNonDeterministic)
      else Inl (FunctionNotFound n))"

definition sample_dialect :: dialect where
  "sample_dialect = new_dialect sample_function_names
     \<lparr>in_bigintAdd = None, in_arrayAppend = None, in_arrayPrepend = None\<rparr>
     [(''eq'', ''eq''), (''lt'', ''gt'')] sample_bits"

lemma sample_reversible:
  "d_reversible sample_dialect = [''eq'' \<mapsto> ''eq'', ''lt'' \<mapsto> ''gt'', ''gt'' \<mapsto> ''lt'']"
  by (auto simp: sample_dialect_def new_dialect_def add_reverse_def emplace_def Let_def)

lemma sample_fields [simp]:
  "d_names sample_dialect = sample_function_names" "d_bits sample_dialect = sample_bits"
  "run sample_runtime = sample_run" "select_field sample_runtime = sample_select"
  "other_value sample_runtime = (\<lambda>s i t \<rho>. None)" "type_equivalent sample_runtime = (=)"
  "fn_equality sample_function_names = Some ''eq''" "fn_negation sample_function_names = Some ''not''"
  "fn_isNull sample_function_names = Some ''is_null''"
  by (simp_all add: sample_dialect_def new_dialect_def sample_runtime_def sample_function_names_def)

lemma special_name_shape: "isSpecialForm n \<Longrightarrow> take 2 n = ''__''"
  by (auto simp: isSpecialForm_def tryFromCallName_def form_names split: if_splits)

lemma sample_det: "det_name sample_dialect n \<longleftrightarrow>
    isSpecialForm n \<or> n \<in> {''eq'', ''not'', ''lt'', ''gt'', ''plus'', ''divide'', ''is_null''}"
  by (auto simp: det_name_def sample_bits_def nondet_def fs_contains_def kNonDeterministic_def
      kNonDefaultNullBehavior_def split: if_splits dest: special_name_shape)

lemma sample_dialect_ok: "dialect_ok sample_dialect"
  unfolding dialect_ok_def sample_det
  by (auto simp: plain_names_def List.map_filter_def sample_reversible sample_bits_def
      split: if_splits dest: special_name_shape)

section \<open>The contracts hold\<close>

lemma sample_eq_null: "u = VNull \<or> v = VNull \<Longrightarrow> sample_eq u v = VNull"
  by (subst sample_eq.simps) simp

lemma and_some_truth: "and_result (map (\<lambda>x. Some (f x)) xs) \<in> {Some (VBool True), Some (VBool False), Some VNull}"
  by (auto simp: and_result_def)

lemma sample_eq_rows:
  "length xs = length ys \<Longrightarrow>
   Some (sample_eq (VRow xs) (VRow ys)) = and_result (map (\<lambda>p. Some (sample_eq (fst p) (snd p))) (zip xs ys))"
  using and_some_truth[of "\<lambda>p. sample_eq (fst p) (snd p)" "zip xs ys"]
  by (subst sample_eq.simps) auto

lemma sample_eq_truth: "sample_eq u v \<in> {VNull, VBool True, VBool False}"
proof (cases "\<exists>xs ys. u = VRow xs \<and> v = VRow ys \<and> length xs = length ys")
  case True
  then obtain xs ys where x: "u = VRow xs" "v = VRow ys" "length xs = length ys" by blast
  show ?thesis
    using sample_eq_rows[OF x(3)] and_some_truth[of "\<lambda>p. sample_eq (fst p) (snd p)" "zip xs ys"] x by auto
qed (subst sample_eq.simps, auto split: variant.splits)

lemma sample_eq_sym: "sample_eq u v = sample_eq v u"
proof (induction u v rule: sample_eq.induct)
  case (1 u v)
  show ?case
  proof (cases "\<exists>xs ys. u = VRow xs \<and> v = VRow ys \<and> length xs = length ys")
    case True
    then obtain xs ys where x: "u = VRow xs" "v = VRow ys" "length xs = length ys" by blast
    have IH: "sample_eq (xs ! i) (ys ! i) = sample_eq (ys ! i) (xs ! i)" if "i < length xs" for i
    proof -
      have "(xs ! i, ys ! i) \<in> set (zip xs ys)" using that x(3) by (auto simp: set_zip)
      then show ?thesis using 1[OF _ refl x(1,2,3), of "(xs ! i, ys ! i)"] x by simp
    qed
    have "map (\<lambda>p. Some (sample_eq (fst p) (snd p))) (zip xs ys) =
        map (\<lambda>p. Some (sample_eq (fst p) (snd p))) (zip ys xs)"
      by (rule nth_equalityI) (use x(3) IH in auto)
    then have "Some (sample_eq u v) = Some (sample_eq v u)"
      using sample_eq_rows[OF x(3)] sample_eq_rows[OF x(3)[symmetric]] x by simp
    then show ?thesis by simp
  next
    case False
    then show ?thesis
      by (subst (1 2) sample_eq.simps) (auto split: variant.splits)
  qed
qed

lemma sample_eq_true_cases:
  assumes "sample_eq u v = VBool True"
  obtains xs ys where "u = VRow xs" "v = VRow ys" "length xs = length ys"
      "\<And>i. i < length xs \<Longrightarrow> sample_eq (xs ! i) (ys ! i) = VBool True"
    | "u = v" "u \<noteq> VNull" "\<And>xs. u \<noteq> VRow xs"
proof (cases "\<exists>xs ys. u = VRow xs \<and> v = VRow ys \<and> length xs = length ys")
  case True
  then obtain xs ys where x: "u = VRow xs" "v = VRow ys" "length xs = length ys" by blast
  have "and_result (map (\<lambda>p. Some (sample_eq (fst p) (snd p))) (zip xs ys)) = Some (VBool True)"
    using sample_eq_rows[OF x(3)] assms x by simp
  then have n: "VBool False \<notin> (\<lambda>p. sample_eq (fst p) (snd p)) ` set (zip xs ys)"
    "VNull \<notin> (\<lambda>p. sample_eq (fst p) (snd p)) ` set (zip xs ys)"
    unfolding and_true_iff by auto
  have "sample_eq (xs ! i) (ys ! i) = VBool True" if "i < length xs" for i
  proof -
    have "(xs ! i, ys ! i) \<in> set (zip xs ys)" using that x(3) by (auto simp: set_zip)
    then have m: "sample_eq (xs ! i) (ys ! i) \<in> (\<lambda>p. sample_eq (fst p) (snd p)) ` set (zip xs ys)"
      by (rule rev_image_eqI) simp
    have "sample_eq (xs ! i) (ys ! i) \<noteq> VBool False"
      by (rule notI) (use m n(1) in \<open>simp only: not_True_eq_False\<close>)
    moreover have "sample_eq (xs ! i) (ys ! i) \<noteq> VNull"
      by (rule notI) (use m n(2) in \<open>simp only: not_True_eq_False\<close>)
    ultimately show ?thesis using sample_eq_truth[of "xs ! i" "ys ! i"] by blast
  qed
  then show ?thesis using that(1)[OF x] by blast
next
  case False
  have nn: "u \<noteq> VNull" "v \<noteq> VNull" using assms sample_eq_null[of u v] by auto
  have "sample_eq u v = VBool (u = v \<and> (\<forall>xs. u \<noteq> VRow xs))"
    by (subst sample_eq.simps) (use False nn in \<open>auto split: variant.splits\<close>)
  then have "u = v" "\<And>xs. u \<noteq> VRow xs" using assms by auto
  then show ?thesis using that(2) nn by blast
qed

lemma sample_eq_rowI:
  assumes "length xs = length ys" "\<And>i. i < length xs \<Longrightarrow> sample_eq (xs ! i) (ys ! i) = VBool True"
  shows "sample_eq (VRow xs) (VRow ys) = VBool True"
proof -
  have "map (\<lambda>p. Some (sample_eq (fst p) (snd p))) (zip xs ys) = map (\<lambda>p. Some (VBool True)) (zip xs ys)"
    by (rule nth_equalityI) (use assms in auto)
  then have "Some (sample_eq (VRow xs) (VRow ys)) = Some (VBool True)"
    unfolding sample_eq_rows[OF assms(1)] and_true_iff by auto
  then show ?thesis by simp
qed

lemma sample_eq_plain: "sample_eq u v = VBool True \<Longrightarrow> (\<And>xs. u \<noteq> VRow xs) \<Longrightarrow> v = u"
  by (elim sample_eq_true_cases) auto

lemma sample_eq_trans:
  assumes "sample_eq u v = VBool True" "sample_eq v z = VBool True"
  shows "sample_eq u z = VBool True"
  using assms
proof (induction u arbitrary: v z)
  case (VRow xs)
  obtain ys where v: "v = VRow ys" "length xs = length ys"
    "\<And>i. i < length xs \<Longrightarrow> sample_eq (xs ! i) (ys ! i) = VBool True"
    using VRow.prems(1) by (elim sample_eq_true_cases) auto
  obtain zs where z: "z = VRow zs" "length ys = length zs"
    "\<And>i. i < length ys \<Longrightarrow> sample_eq (ys ! i) (zs ! i) = VBool True"
    using VRow.prems(2) unfolding v(1) by (elim sample_eq_true_cases) auto
  have "sample_eq (xs ! i) (zs ! i) = VBool True" if "i < length xs" for i
    using VRow.IH[of "xs ! i" "ys ! i" "zs ! i"] that v z by simp
  then show ?case unfolding z(1) by (intro sample_eq_rowI) (use v z in auto)
qed (metis sample_eq_plain variant.distinct)+

lemma sample_eq_refl: "isPrimitiveType t \<Longrightarrow> v \<noteq> VNull \<Longrightarrow> has_type v t \<Longrightarrow> sample_eq v v = VBool True"
  by (subst sample_eq.simps) (cases v; cases t; simp add: isPrimitiveType_def)

text \<open>Failures: every function is monotone.\<close>

lemma refines_values:
  "list_all2 refines (map snd xs) (map snd ys) \<Longrightarrow> list_all2 res_le (args_values xs) (args_values ys)"
  by (simp add: args_values_def list_all2_map1 list_all2_map2)
    (erule list_all2_mono, rule refines_sval)

lemma res_le_same: "list_all2 res_le rs us \<Longrightarrow> None \<notin> set rs \<Longrightarrow> us = rs"
  by (induction rule: list_all2_induct) (auto simp: res_le_def)

lemma res_le_member: "list_all2 res_le rs us \<Longrightarrow> Some v \<in> set rs \<Longrightarrow> Some v \<in> set us"
  by (induction rule: list_all2_induct) (auto simp: res_le_def)

lemma strict_mono: "list_all2 res_le rs us \<Longrightarrow> res_le (strict f rs) (strict f us)"
  using res_le_same[of rs us] by (auto simp: strict_def)

lemma and_mono: "list_all2 res_le rs us \<Longrightarrow> res_le (and_result rs) (and_result us)"
  using res_le_same[of rs us] res_le_member[of rs us "VBool False"]
  by (cases "Some (VBool False) \<in> set rs"; cases "None \<in> set rs") (simp_all add: and_result_def)

lemma or_mono: "list_all2 res_le rs us \<Longrightarrow> res_le (or_result rs) (or_result us)"
  using res_le_same[of rs us] res_le_member[of rs us "VBool True"]
  by (cases "Some (VBool True) \<in> set rs"; cases "None \<in> set rs") (simp_all add: or_result_def)

lemma row_mono: "list_all2 res_le rs us \<Longrightarrow> res_le (row_result rs) (row_result us)"
  using res_le_same[of rs us] by (auto simp: row_result_def)

lemma coalesce_mono: "list_all2 res_le rs us \<Longrightarrow> res_le (coalesce_result rs) (coalesce_result us)"
  by (induction rule: list_all2_induct) (auto simp: res_le_def)

lemma switch_mono: "list_all2 res_le rs us \<Longrightarrow> res_le (switch_result rs) (switch_result us)"
proof (induction rs arbitrary: us rule: switch_result.induct)
  case (3 c r rs)
  obtain d q qs where us: "us = d # q # qs" "res_le c d" "res_le r q" "list_all2 res_le rs qs"
    using 3(2) by (auto simp: list_all2_Cons1)
  show ?case
  proof (cases c)
    case (Some v)
    then have "d = Some v" using us(2) by simp
    then show ?thesis using 3(1)[OF Some _ us(4)] us(1,3) Some by auto
  qed (simp add: us)
qed (auto simp: list_all2_Cons1)

lemma rev_mono: "list_all2 res_le rs us \<Longrightarrow> list_all2 res_le (rev rs) (rev us)"
  by simp

lemma sample_run_mono:
  assumes "n \<noteq> kTry" "map fst xs = map fst ys" "list_all2 refines (map snd xs) (map snd ys)"
  shows "res_le (sample_run s n t xs) (sample_run s n t ys)"
proof -
  note v = refines_values[OF assms(3)]
  have "args_values xs = [] \<longleftrightarrow> args_values ys = []" using list_all2_lengthD[OF v] by auto
  then show ?thesis
    unfolding sample_run_def Let_def assms(2)
    using assms(1) strict_mono[OF v] strict_mono[OF rev_mono[OF v]] and_mono[OF v] or_mono[OF v] row_mono[OF v]
      coalesce_mono[OF v] switch_mono[OF v] by simp
qed

text \<open>Results have the types of their calls.\<close>

lemma strict_Some: "strict f rs = Some v \<Longrightarrow> f (map the rs) = Some v \<and> None \<notin> set rs"
  by (auto simp: strict_def split: if_splits)

lemma eq_fn_type: "eq_fn vs = Some v \<Longrightarrow> has_type v BooleanT"
proof (induction vs rule: eq_fn.induct)
  case (1 x y)
  then show ?case using sample_eq_truth[of x y] by auto
qed simp_all

lemma not_fn_type: "not_fn vs = Some v \<Longrightarrow> has_type v BooleanT"
  by (induction vs rule: not_fn.induct) auto

lemma is_null_fn_type: "is_null_fn vs = Some v \<Longrightarrow> has_type v BooleanT"
  by (induction vs rule: is_null_fn.induct) auto

lemma lt_fn_type: "lt_fn vs = Some v \<Longrightarrow> has_type v BooleanT"
  by (induction vs rule: lt_fn.induct) auto

lemma plus_fn_type: "plus_fn vs = Some v \<Longrightarrow> has_type v BigintT"
  by (induction vs rule: plus_fn.induct) auto

lemma divide_fn_type: "divide_fn vs = Some v \<Longrightarrow> has_type v BigintT"
  by (induction vs rule: divide_fn.induct) (auto split: if_splits)

lemmas fn_types = eq_fn_type not_fn_type is_null_fn_type lt_fn_type plus_fn_type divide_fn_type

lemma connective_types:
  "and_result rs = Some v \<Longrightarrow> has_type v BooleanT" "or_result rs = Some v \<Longrightarrow> has_type v BooleanT"
  by (auto simp: and_result_def or_result_def split: if_splits)

lemma in_types: "in_fn ts vs = Some v \<Longrightarrow> has_type v BooleanT"
  by (auto simp: in_fn_def in_result_def dest: connective_types(2) split: list.splits if_splits variant.splits)

lemma try_types: "try_fn t rs = Some v \<Longrightarrow> has_type v t"
  by (induction t rs rule: try_fn.induct) (auto split: if_splits)

lemma sample_run_typed:
  assumes "n \<notin> {kCoalesce, kIf, kSwitch, kDereference, kRowConstructor}" "sample_run s n t xs = Some v"
  shows "has_type v t"
  using assms
  by (auto simp: sample_run_def Let_def dest!: strict_Some dest: fn_types in_types connective_types try_types
      split: if_splits)

text \<open>Functions of default null behaviour return NULL for a NULL.\<close>

lemma strict_null:
  assumes "strict f rs = Some v" "Some VNull \<in> set rs" "\<And>vs u. VNull \<in> set vs \<Longrightarrow> f vs = Some u \<Longrightarrow> u = VNull"
  shows "v = VNull"
proof -
  have "VNull \<in> set (map the rs)" using assms(2) by force
  then show ?thesis using assms(3) strict_Some[OF assms(1)] by blast
qed

lemma null_eq_fn: "VNull \<in> set vs \<Longrightarrow> eq_fn vs = Some u \<Longrightarrow> u = VNull"
  by (induction vs rule: eq_fn.induct) (auto simp: sample_eq_null)

lemma null_not_fn: "VNull \<in> set vs \<Longrightarrow> not_fn vs = Some u \<Longrightarrow> u = VNull"
  by (induction vs rule: not_fn.induct) auto

lemma null_lt_fn: "VNull \<in> set vs \<Longrightarrow> lt_fn vs = Some u \<Longrightarrow> u = VNull"
  by (induction vs rule: lt_fn.induct) auto

lemma null_plus_fn: "VNull \<in> set vs \<Longrightarrow> plus_fn vs = Some u \<Longrightarrow> u = VNull"
  by (induction vs rule: plus_fn.induct) auto

lemma null_divide_fn: "VNull \<in> set vs \<Longrightarrow> divide_fn vs = Some u \<Longrightarrow> u = VNull"
  by (induction vs rule: divide_fn.induct) (auto split: if_splits)

lemma sample_run_null:
  assumes "n \<in> {''eq'', ''not'', ''lt'', ''gt'', ''plus'', ''divide''}" "Some VNull \<in> set (args_values xs)"
    "sample_run s n t xs = Some v"
  shows "v = VNull"
proof -
  note z = strict_null[OF _ assms(2)] strict_null[of _ "rev (args_values xs)"]
  show ?thesis
    using assms z(1)[OF _ null_eq_fn] z(1)[OF _ null_not_fn] z(1)[OF _ null_lt_fn] z(2)[OF _ _ null_lt_fn]
      z(1)[OF _ null_plus_fn] z(1)[OF _ null_divide_fn]
    by (auto simp: sample_run_def Let_def form_names split: if_splits)
qed

lemma plain_bits:
  "\<not> isSpecialForm n \<Longrightarrow> sample_bits n False = Inr bs \<Longrightarrow> \<not> fs_contains bs kNonDefaultNullBehavior \<Longrightarrow>
   n \<in> {''eq'', ''not'', ''lt'', ''gt'', ''plus'', ''divide'', ''rand''}"
  by (auto simp: sample_bits_def fs_contains_def kNonDefaultNullBehavior_def split: if_splits)

lemma sample_run_det: "det_name sample_dialect n \<Longrightarrow> sample_run s n t xs = sample_run s' n t xs"
proof -
  assume "det_name sample_dialect n"
  then have "n \<noteq> ''rand''" unfolding sample_det by (auto dest: special_name_shape)
  then show ?thesis by (simp add: sample_run_def Let_def)
qed

lemma eq_fn_sym: "strict eq_fn [x, y] = strict eq_fn [y, x]"
  by (auto simp: strict_def sample_eq_sym)

lemma sample_run_reverse:
  assumes "d_reversible sample_dialect n = Some n'"
  shows "sample_run s n' t [y, x] = sample_run s n t [x, y]"
proof -
  consider "n = ''eq''" "n' = ''eq''" | "n = ''lt''" "n' = ''gt''" | "n = ''gt''" "n' = ''lt''"
    using assms unfolding sample_reversible by (auto split: if_splits)
  then show ?thesis
    by cases (simp_all add: sample_run_def Let_def form_names args_values_def eq_fn_sym)
qed

lemma sample_functions_ok: "functions_ok sample_dialect sample_runtime"
proof -
  have a: "v = VNull" if "\<not> isSpecialForm n" "sample_bits n False = Inr bs" "\<not> fs_contains bs kNonDefaultNullBehavior"
    "Some VNull \<in> set (args_values xs)" "sample_run s n t xs = Some v" for n bs xs s t v
  proof (cases "n = ''rand''")
    case True
    then show ?thesis using that(4,5) by (auto simp: sample_run_def Let_def form_names split: if_splits)
  next
    case False
    then have "n \<in> {''eq'', ''not'', ''lt'', ''gt'', ''plus'', ''divide''}"
      using plain_bits[OF that(1-3)] by simp
    then show ?thesis by (rule sample_run_null[OF _ that(4,5)])
  qed
  have b: "has_type u t" if "sample_select t sel v = Some u" for t sel v u
    using that by (induction t sel v rule: sample_select.induct) (auto split: if_splits)
  show ?thesis
    unfolding functions_ok_def sample_fields
  proof (intro conjI allI impI)
    fix n s s' t xs assume "det_name sample_dialect n"
    then show "sample_run s n t xs = sample_run s' n t xs" by (rule sample_run_det)
  next
    fix n n' s t x y assume "d_reversible sample_dialect n = Some n'"
    then show "sample_run s n' t [y, x] = sample_run s n t [x, y]" by (rule sample_run_reverse)
  next
    fix n s t and xs ys :: "(vtype \<times> rvalue) list"
    assume "n \<noteq> kTry" "map fst xs = map fst ys" "list_all2 refines (map snd xs) (map snd ys)"
    then show "res_le (sample_run s n t xs) (sample_run s n t ys)" by (rule sample_run_mono)
  next
    fix n s t xs v
    assume "n \<notin> {kCoalesce, kIf, kSwitch, kDereference, kRowConstructor}" "sample_run s n t xs = Some v"
    then show "has_type v t" by (rule sample_run_typed)
  next
    fix n bs s t v and xs :: "(vtype \<times> rvalue) list"
    assume "\<not> isSpecialForm n" "sample_bits n False = Inr bs" "\<not> fs_contains bs kNonDefaultNullBehavior"
      "Some VNull \<in> set (args_values xs)" "sample_run s n t xs = Some v"
    then show "v = VNull" by (rule a)
  next
    fix t sel v u assume "sample_select t sel v = Some u"
    then show "has_type u t" by (rule b)
  qed simp
qed

lemma in_fn_list: "ts \<noteq> [ArrayT t] \<Longrightarrow> in_fn (t # ts) (x # vs) = in_result (\<lambda>u v. Some (sample_eq u v)) x vs"
  and in_fn_array: "in_fn [t, ArrayT t] [x, VArray vs] = in_result (\<lambda>u v. Some (sample_eq u v)) x vs"
  by (simp_all add: in_fn_def)

lemma sample_sql_eq: "sql_eq sample_runtime ''eq'' s t x y = Some (sample_eq x y)"
  by (simp add: sql_eq_def sample_run_def Let_def form_names strict_def)

lemma sample_in_list:
  assumes "\<forall>u\<in>set ts. u = t" "length ts = length vs"
  shows "sample_run s kIn BooleanT ((t, Val (Some x)) # zip ts (map (\<lambda>v. Val (Some v)) vs)) =
    in_result (sql_eq sample_runtime ''eq'' s t) x vs"
proof -
  have n: "ts \<noteq> [ArrayT t]" using assms(1) by auto
  have t: "map fst ((t, Val (Some x)) # zip ts (map (\<lambda>v. Val (Some v)) vs)) = t # ts" using assms(2) by simp
  have v: "args_values ((t, Val (Some x)) # zip ts (map (\<lambda>v. Val (Some v)) vs)) = Some x # map Some vs"
    using assms(2) by (induction ts vs rule: list_induct2) (simp_all add: args_values_def)
  have m: "map the (Some x # map Some vs) = x # vs" by simp
  have "strict (in_fn (t # ts)) (Some x # map Some vs) = in_fn (t # ts) (x # vs)"
    unfolding strict_def m by auto
  then show ?thesis
    unfolding sample_run_def Let_def t v in_fn_list[OF n]
    by (simp add: form_names sample_sql_eq[abs_def])
qed

lemma sample_in_array:
  "sample_run s kIn BooleanT [(t, Val (Some x)), (ArrayT t, Val (Some (VArray vs)))] =
   in_result (sql_eq sample_runtime ''eq'' s t) x vs"
  by (simp add: sample_run_def Let_def form_names strict_def in_fn_array sample_sql_eq[abs_def])

lemma sample_forms_ok: "forms_ok sample_dialect sample_runtime"
  unfolding forms_ok_def sample_fields
proof (intro conjI allI impI)
  fix s t x te vs eqn
  assume "Some ''eq'' = Some (eqn::string)" "te = (t::vtype)"
  then show "sample_run s kIn BooleanT [(t, Val (Some x)), (ArrayT te, Val (Some (VArray vs)))] =
      in_result (sql_eq sample_runtime eqn s t) x vs"
    using sample_in_array[of s t x vs] by simp
next
  fix s t x eqn and vs :: "variant list" and ts :: "vtype list"
  assume "Some ''eq'' = Some (eqn::string)" "\<forall>u\<in>set ts. u = t" "length ts = length vs" "vs \<noteq> []"
  then show "sample_run s kIn BooleanT ((t, Val (Some x)) # zip ts (map (\<lambda>v. Val (Some v)) vs)) =
      in_result (sql_eq sample_runtime eqn s t) x vs"
    using sample_in_list[of ts t vs s x] by simp
qed (simp_all add: sample_run_def Let_def form_names strict_def)

lemma sample_row_eq:
  assumes "length xs = length fs" "length ys = length fs"
  shows "Some (sample_eq (VRow xs) (VRow ys)) =
    and_result (map (\<lambda>(t, x, y). Some (sample_eq x y)) (zip (map snd fs) (zip xs ys)))"
proof -
  have "map (\<lambda>(t, x, y). Some (sample_eq x y)) (zip (map snd fs) (zip xs ys)) =
      map (\<lambda>p. Some (sample_eq (fst p) (snd p))) (zip xs ys)"
    by (rule nth_equalityI) (use assms in auto)
  then show ?thesis using sample_eq_rows[of xs ys] assms by simp
qed

lemma sample_not: "sample_run s ''not'' BooleanT [(BooleanT, Val (Some v))] =
    (case v of VBool x \<Rightarrow> Some (VBool (\<not> x)) | _ \<Rightarrow> Some VNull)"
  by (cases v) (simp_all add: sample_run_def Let_def form_names strict_def)

lemma sample_is_null: "sample_run s ''is_null'' BooleanT [(t, Val (Some v))] = Some (VBool (v = VNull))"
  by (simp add: sample_run_def Let_def form_names strict_def)

lemma sample_eq_None: "sample_run s ''eq'' BooleanT [(t, Val None), (t, Val y)] = None"
  "sample_run s ''eq'' BooleanT [(t, Val x), (t, Val None)] = None"
  by (simp_all add: sample_run_def Let_def form_names strict_def)

lemma sample_roles_ok: "roles_ok sample_dialect sample_runtime"
proof -
  have rows: "\<forall>n s (fs :: (string \<times> vtype) list) xs ys. Some ''eq'' = Some n \<longrightarrow> length xs = length fs \<longrightarrow> length ys = length fs \<longrightarrow>
      sql_eq sample_runtime n s (RowT fs) (VRow xs) (VRow ys) =
        and_result (map (\<lambda>(t, x, y). sql_eq sample_runtime n s t x y) (zip (map snd fs) (zip xs ys)))"
    using sample_row_eq by (auto simp: sample_sql_eq[abs_def])
  have trans: "\<forall>n s t x y z. Some ''eq'' = Some n \<longrightarrow> sql_eq sample_runtime n s t x y = Some (VBool True) \<longrightarrow>
      sql_eq sample_runtime n s t y z = Some (VBool True) \<longrightarrow> sql_eq sample_runtime n s t x z = Some (VBool True)"
    by (auto simp: sample_sql_eq intro: sample_eq_trans)
  have sym: "\<forall>n s t x y. Some ''eq'' = Some n \<longrightarrow> sql_eq sample_runtime n s t x y = Some (VBool True) \<longrightarrow>
      sql_eq sample_runtime n s t y x = Some (VBool True)"
    using sample_eq_sym by (simp add: sample_sql_eq)
  show ?thesis
    unfolding roles_ok_def sample_fields
    by (intro conjI rows trans sym) (simp_all add: sample_sql_eq sample_eq_refl sample_eq_null sample_eq_None sample_not sample_is_null)
qed

lemma sample_runtime_ok: "runtime_ok sample_dialect sample_runtime"
  by (simp add: runtime_ok_def sample_functions_ok sample_forms_ok sample_roles_ok)

section \<open>A query\<close>

definition bigints :: "nat \<Rightarrow> vtype" where
  "bigints i = BigintT"

definition sample_builder :: builder where
  "sample_builder = new_builder\<lparr>b_next := 100\<rparr>"

definition col_eq :: "nat \<Rightarrow> int \<Rightarrow> qexpr" where
  "col_eq c k = Call (50 + 10 * c + nat k) ''eq'' BooleanT (FunctionSet 0)
     [Column c BigintT, Literal (30 + nat k) BigintT (VInt k)]"

definition form_call :: "nat \<Rightarrow> string \<Rightarrow> qexpr list \<Rightarrow> qexpr" where
  "form_call i n args = Call i n BooleanT (FunctionSet kNonDefaultNullBehavior) args"

definition sample_or :: qexpr where
  "sample_or = form_call 92 kOr
     [form_call 90 kAnd [col_eq 0 1, col_eq 1 2], form_call 91 kAnd [col_eq 0 3, col_eq 1 4]]"

lemma sample_builder_ok: "builder_ok sample_builder"
  by (simp add: builder_ok_def sample_builder_def new_builder_def)

lemma sample_det_names:
  "det_name sample_dialect ''eq''" "det_name sample_dialect kAnd" "det_name sample_dialect kOr"
  unfolding sample_det by (simp_all add: isSpecialForm_def tryFromCallName_def form_names)

lemma col_eq_pred: "pred sample_dialect bigints (col_eq c k)"
  using form_ok_equality[OF sample_dialect_ok, of "''eq''" "Column c BigintT" "Literal (30 + nat k) BigintT (VInt k)"] sample_det_names(1)
  by (simp add: pred_def col_eq_def bigints_def nondet_def fs_contains_def)

lemma col_eq_simps: "deterministic (col_eq c k)" "qe_columns (col_eq c k) = {c}" "qe_type (col_eq c k) = BooleanT"
  "flattenInto n (col_eq c k) = (if n = ''eq'' then [Column c BigintT, Literal (30 + nat k) BigintT (VInt k)] else [col_eq c k])"
  "\<not> is_call kAnd (col_eq c k)" "\<not> is_call kOr (col_eq c k)"
  by (simp_all add: col_eq_def nondet_def fs_contains_def form_names)

lemma form_call_pred:
  assumes "n = kAnd \<or> n = kOr" "\<forall>a\<in>set args. pred sample_dialect bigints a \<and> deterministic a"
  shows "pred sample_dialect bigints (form_call i n args)" "deterministic (form_call i n args)"
  using assms form_ok_connective[OF assms(1) sample_dialect_ok, of BooleanT args] sample_det_names
  by (auto simp: pred_def form_call_def nondet_def fs_contains_def kNonDefaultNullBehavior_def kNonDeterministic_def
      deterministic_def)

lemma form_call_args:
  assumes "pred sample_dialect bigints x \<and> deterministic x" "pred sample_dialect bigints y \<and> deterministic y" "n = kAnd \<or> n = kOr"
  shows "pred sample_dialect bigints (form_call i n [x, y]) \<and> deterministic (form_call i n [x, y])"
  using form_call_pred[OF assms(3), of "[x, y]"] assms(1,2) by simp

lemma col_eq_ok: "pred sample_dialect bigints (col_eq c k) \<and> deterministic (col_eq c k)"
  by (simp add: col_eq_pred col_eq_simps)

lemma sample_or_pred: "pred sample_dialect bigints sample_or" "deterministic sample_or" "is_call kOr sample_or"
proof -
  have "pred sample_dialect bigints sample_or \<and> deterministic sample_or"
    unfolding sample_or_def by (intro form_call_args col_eq_ok) simp_all
  then show "pred sample_dialect bigints sample_or" "deterministic sample_or" by blast+
qed (simp add: sample_or_def form_call_def)

text \<open>A row the query accepts.\<close>

definition sample_row :: env where
  "sample_row c = (if c = 0 then VInt 1 else VInt 2)"

lemma sample_row_ok: "env_ok bigints sample_row"
  by (simp add: env_ok_def bigints_def sample_row_def)

lemma col_eq_value:
  "qeval sample_runtime w (col_eq c k) \<rho> = Val (Some (sample_eq (\<rho> c) (VInt k)))"
  by (simp add: col_eq_def sample_run_def Let_def form_names strict_def)

lemma form_call_value:
  "qeval sample_runtime w (form_call i kAnd es) \<rho> = Val (and_result (map (\<lambda>e. sval (qeval sample_runtime w e \<rho>)) es))"
  "qeval sample_runtime w (form_call i kOr es) \<rho> = Val (or_result (map (\<lambda>e. sval (qeval sample_runtime w e \<rho>)) es))"
  using run_and[OF sample_runtime_ok] run_or[OF sample_runtime_ok] by (simp_all add: form_call_def args_values_map)

lemma sample_eq_int: "sample_eq (VInt x) (VInt y) = VBool (x = y)"
  by (subst sample_eq.simps) simp

lemma sample_or_accepts: "holds sample_runtime w sample_row sample_or"
  by (simp add: holds_def sample_or_def form_call_value col_eq_value sample_row_def sample_eq_int and_result_def or_result_def)

end
