(* ===== verification/Implied_Filters_Exact.thy ===== *)
theory Implied_Filters_Exact
  imports Implied_Filters Sample_Runtime
begin

text \<open>
  Which filters \<open>Implied_Filters\<close> derives: the groups a boolean expression restricts are given by
  a recursive specification, and the derivation has a filter for exactly these. The properties of
  the three derivations, and concrete queries.
\<close>

section \<open>The groups an expression restricts\<close>

text \<open>
  An AND restricts a group when one of its operands does, an OR when all of them do, and another
  expression when its columns are in the group.
\<close>

function restricts :: "(nat set \<Rightarrow> 'g option) \<Rightarrow> 'g \<Rightarrow> qexpr \<Rightarrow> bool" where
  "restricts gf g e =
     (if is_call kAnd e then \<exists>x\<in>set (flattenInto kAnd e). restricts gf g x
      else if is_call kOr e
        then flattenInto kOr e \<noteq> [] \<and> (\<forall>x\<in>set (flattenInto kOr e). restricts gf g x)
      else gf (qe_columns e) = Some g)"
  by pat_completeness auto
termination
  by (relation "measure (\<lambda>(gf, g, e). size e)") (auto dest: flattenInto_member_size)

declare restricts.simps [simp del]

definition matched :: "'g \<Rightarrow> 'g accumulator list \<Rightarrow> nat" where
  "matched g accs = (\<Sum>acc\<leftarrow>accs. if a_group acc = g then a_matched acc else 0)"

lemma matched_absent: "g \<notin> set (map a_group accs) \<Longrightarrow> matched g accs = 0"
  by (auto simp: matched_def)

lemma matched_present:
  "distinct (map a_group accs) \<Longrightarrow> acc \<in> set accs \<Longrightarrow> a_matched acc = matched (a_group acc) accs"
proof (induction accs)
  case (Cons x accs)
  then show ?case
  proof (cases "acc = x")
    case True
    then show ?thesis using Cons.prems(1) matched_absent[of "a_group x" accs] by (simp add: matched_def)
  next
    case False
    then have "a_group x \<noteq> a_group acc" using Cons.prems by auto
    then show ?thesis using Cons False by (simp add: matched_def)
  qed
qed simp

text \<open>One projection.\<close>

lemma matched_bump:
  assumes "distinct (map a_group accs)"
  shows "matched g (map (\<lambda>acc. if a_group acc = h then acc\<lparr>a_filters := F acc, a_matched := a_matched acc + 1,
      a_children_match := B acc\<rparr> else acc) accs) =
    matched g accs + (if g = h \<and> h \<in> set (map a_group accs) then 1 else 0)"
  using assms
proof (induction accs)
  case (Cons x accs)
  show ?case
  proof (cases "a_group x = h")
    case True
    then have n: "h \<notin> set (map a_group accs)" using Cons.prems by simp
    have "map (\<lambda>acc. if a_group acc = h then acc\<lparr>a_filters := F acc, a_matched := a_matched acc + 1,
        a_children_match := B acc\<rparr> else acc) accs = accs"
      by (rule map_idI) (use n in auto)
    then show ?thesis using True by (simp add: matched_def)
  next
    case False
    then show ?thesis using Cons by (auto simp: matched_def)
  qed
qed (simp add: matched_def)

lemma accumulate_groups:
  fixes p :: "'g projection"
  assumes d: "distinct (map a_group accs)"
  shows "distinct (map a_group (accumulate isOr k p accs))"
    "set (map a_group (accumulate isOr k p accs)) =
       set (map a_group accs) \<union> (if isOr \<and> k > 0 then {} else {p_group p})"
    "matched g (accumulate isOr k p accs) = matched g accs +
       (if g = p_group p \<and> g \<in> set (map a_group (accumulate isOr k p accs)) then 1 else 0)"
proof -
  define accs' where "accs' = (if p_group p \<in> set (map a_group accs) then accs
      else if isOr \<and> k > 0 then accs
      else accs @ [\<lparr>a_group = p_group p, a_filters = [], a_matched = 0, a_children_match = True\<rparr>])"
  define up where "up = (\<lambda>acc :: 'g accumulator. if a_group acc = p_group p
      then acc\<lparr>a_filters := a_filters acc @ [p_filter p], a_matched := a_matched acc + 1,
               a_children_match := a_children_match acc \<and> p_matches p\<rparr> else acc)"
  have acc: "accumulate isOr k p accs = map up accs'"
    by (simp add: accumulate_def Let_def accs'_def up_def)
  have g: "map a_group (map up xs) = map a_group xs" for xs by (simp add: up_def)
  have d': "distinct (map a_group accs')" using d by (auto simp: accs'_def)
  have m: "matched g accs' = matched g accs" by (simp add: accs'_def matched_def)
  show "distinct (map a_group (accumulate isOr k p accs))" using d' unfolding acc g .
  show s: "set (map a_group (accumulate isOr k p accs)) =
      set (map a_group accs) \<union> (if isOr \<and> k > 0 then {} else {p_group p})"
    unfolding acc g by (auto simp: accs'_def)
  show "matched g (accumulate isOr k p accs) = matched g accs +
      (if g = p_group p \<and> g \<in> set (map a_group (accumulate isOr k p accs)) then 1 else 0)"
    unfolding acc g using matched_bump[OF d', of g "p_group p", where F="\<lambda>acc. a_filters acc @ [p_filter p]" and
        B="\<lambda>acc. a_children_match acc \<and> p_matches p"] m by (auto simp: up_def)
qed

text \<open>All projections of one operand.\<close>

lemma operand_groups:
  fixes ps :: "'g projection list"
  assumes "distinct (map a_group accs)" "distinct (map p_group ps)"
  shows "distinct (map a_group (fold (accumulate isOr k) ps accs))"
    "set (map a_group (fold (accumulate isOr k) ps accs)) =
       set (map a_group accs) \<union> (if isOr \<and> k > 0 then {} else set (map p_group ps))"
    "matched g (fold (accumulate isOr k) ps accs) = matched g accs +
       (if g \<in> set (map p_group ps) \<and> g \<in> set (map a_group (fold (accumulate isOr k) ps accs)) then 1 else 0)"
proof -
  have "distinct (map a_group (fold (accumulate isOr k) ps accs)) \<and>
    set (map a_group (fold (accumulate isOr k) ps accs)) =
       set (map a_group accs) \<union> (if isOr \<and> k > 0 then {} else set (map p_group ps)) \<and>
    matched g (fold (accumulate isOr k) ps accs) = matched g accs +
       (if g \<in> set (map p_group ps) \<and> g \<in> set (map a_group (fold (accumulate isOr k) ps accs)) then 1 else 0)"
    using assms
  proof (induction ps arbitrary: accs)
    case (Cons p ps)
    note A = accumulate_groups[OF Cons.prems(1), where isOr=isOr and k=k and p=p]
    have d: "distinct (map p_group ps)" "p_group p \<notin> set (map p_group ps)" using Cons.prems(2) by auto
    note IH = Cons.IH[OF A(1) d(1)]
    have G: "set (map a_group (fold (accumulate isOr k) (p # ps) accs)) =
        set (map a_group accs) \<union> (if isOr \<and> k > 0 then {} else set (map p_group (p # ps)))"
      using IH A(2) by auto
    have "matched g (fold (accumulate isOr k) (p # ps) accs) = matched g accs +
        (if g = p_group p \<and> g \<in> set (map a_group (accumulate isOr k p accs)) then 1 else 0) +
        (if g \<in> set (map p_group ps) \<and> g \<in> set (map a_group (fold (accumulate isOr k) (p # ps) accs)) then 1 else 0)"
      using IH A(3)[where g=g] by simp
    moreover have "g \<in> set (map a_group (accumulate isOr k p accs)) \<longleftrightarrow>
        g \<in> set (map a_group (fold (accumulate isOr k) (p # ps) accs))" if "g = p_group p"
      using A(2) G that by auto
    ultimately show ?case using IH G d(2) by auto
  qed auto
  then show "distinct (map a_group (fold (accumulate isOr k) ps accs))"
    "set (map a_group (fold (accumulate isOr k) ps accs)) =
       set (map a_group accs) \<union> (if isOr \<and> k > 0 then {} else set (map p_group ps))"
    "matched g (fold (accumulate isOr k) ps accs) = matched g accs +
       (if g \<in> set (map p_group ps) \<and> g \<in> set (map a_group (fold (accumulate isOr k) ps accs)) then 1 else 0)"
    by blast+
qed

text \<open>What the accumulators hold after some operands, whose groups are \<open>gss\<close>.\<close>

definition groups_inv :: "bool \<Rightarrow> 'g set list \<Rightarrow> 'g accumulator list \<Rightarrow> bool" where
  "groups_inv isOr gss accs \<longleftrightarrow>
     distinct (map a_group accs) \<and>
     set (map a_group accs) = (if isOr then (case gss of [] \<Rightarrow> {} | gs # _ \<Rightarrow> gs) else \<Union>(set gss)) \<and>
     (\<forall>g\<in>set (map a_group accs). matched g accs = length (filter (\<lambda>gs. g \<in> gs) gss))"

lemma groups_inv_step:
  fixes ps :: "'g projection list"
  assumes "groups_inv isOr gss accs" "distinct (map p_group ps)"
  shows "groups_inv isOr (gss @ [set (map p_group ps)]) (fold (accumulate isOr (length gss)) ps accs)"
proof -
  have d: "distinct (map a_group accs)" using assms(1) by (simp add: groups_inv_def)
  note S = operand_groups[OF d assms(2), where isOr=isOr and k="length gss"]
  let ?accs = "fold (accumulate isOr (length gss)) ps accs"
  have "matched g ?accs = length (filter (\<lambda>gs. g \<in> gs) (gss @ [set (map p_group ps)]))"
    if g: "g \<in> set (map a_group ?accs)" for g
  proof (cases "g \<in> set (map a_group accs)")
    case True
    then have "matched g accs = length (filter (\<lambda>gs. g \<in> gs) gss)" using assms(1) unfolding groups_inv_def by blast
    then show ?thesis using S(3)[where g=g] g by simp
  next
    case False
    then have p: "g \<in> set (map p_group ps)" "\<not> (isOr \<and> gss \<noteq> [])" using g S(2) by (auto split: if_splits)
    have "g \<notin> \<Union>(set gss)" using assms(1) False p(2) unfolding groups_inv_def by (cases isOr) auto
    then have "filter (\<lambda>gs. g \<in> gs) gss = []" by (auto simp: filter_empty_conv)
    then show ?thesis using S(3)[where g=g] g p(1) matched_absent[OF False] by simp
  qed
  moreover have "set (map a_group ?accs) = (if isOr then (case gss @ [set (map p_group ps)] of [] \<Rightarrow> {} | gs # _ \<Rightarrow> gs)
      else \<Union>(set (gss @ [set (map p_group ps)])))"
    using S(2) assms(1) unfolding groups_inv_def by (cases gss) auto
  ultimately show ?thesis unfolding groups_inv_def using S(1) by blast
qed

text \<open>The projections of the groups that are kept.\<close>

lemma finish_groups_result:
  "finish_groups D isOr n accs b = Inr (ps, b') \<Longrightarrow>
   map p_group ps = map a_group (filter (\<lambda>acc. \<not> (isOr \<and> a_matched acc \<noteq> n)) accs)"
  by (induction D isOr n accs arbitrary: b ps b' rule: finish_groups.induct)
    (auto simp: andThen_def ret_def split: if_splits sum.splits)

lemma kept_groups:
  assumes "groups_inv isOr gss accs" "isOr \<Longrightarrow> gss \<noteq> []"
  shows "set (map a_group (filter (\<lambda>acc. \<not> (isOr \<and> a_matched acc \<noteq> length gss)) accs)) =
    (if isOr then \<Inter>(set gss) else \<Union>(set gss))"
proof (cases isOr)
  case True
  obtain gs rest where gss: "gss = gs # rest" using assms(2) True by (cases gss) auto
  have d: "distinct (map a_group accs)" and s: "set (map a_group accs) = gs"
    and m: "\<And>g. g \<in> gs \<Longrightarrow> matched g accs = length (filter (\<lambda>gs. g \<in> gs) gss)"
    using assms(1) True gss by (auto simp: groups_inv_def)
  have all: "length (filter (\<lambda>gs. g \<in> gs) gss) = length gss \<longleftrightarrow> (\<forall>x\<in>set gss. g \<in> x)" for g
    by (metis filter_True length_filter_less nat_less_le)
  have "g \<in> set (map a_group (filter (\<lambda>acc. a_matched acc = length gss) accs)) \<longleftrightarrow> g \<in> \<Inter>(set gss)" for g
  proof
    assume "g \<in> set (map a_group (filter (\<lambda>acc. a_matched acc = length gss) accs))"
    then obtain acc where a: "acc \<in> set accs" "g = a_group acc" "a_matched acc = length gss" by auto
    then have "g \<in> gs" using s by auto
    then show "g \<in> \<Inter>(set gss)" using matched_present[OF d a(1)] a m all by auto
  next
    assume g: "g \<in> \<Inter>(set gss)"
    then have "g \<in> gs" using gss by simp
    then obtain acc where a: "acc \<in> set accs" "g = a_group acc" using s by auto
    have "a_matched acc = length gss"
      using matched_present[OF d a(1)] a(2) m[OF \<open>g \<in> gs\<close>] all[of g] g by auto
    then show "g \<in> set (map a_group (filter (\<lambda>acc. a_matched acc = length gss) accs))" using a by auto
  qed
  then show ?thesis using True by auto
qed (use assms(1) in \<open>auto simp: groups_inv_def\<close>)

lemma projection_groups:
  fixes e :: qexpr and gf :: "nat set \<Rightarrow> 'g option"
  shows "projectLogicalExpression D gf e b = Inr (ps, b') \<Longrightarrow>
      distinct (map p_group ps) \<and> set (map p_group ps) = {g. restricts gf g e}"
    and "project_operands D gf isOr k es accs b = Inr (accs', b') \<Longrightarrow> k = length gss \<Longrightarrow> groups_inv isOr gss accs \<Longrightarrow>
      groups_inv isOr (gss @ map (\<lambda>x. {g. restricts gf g x}) es) accs'"
proof (induction D gf e and D gf isOr k es accs arbitrary: b ps b' and b accs' b' gss
    rule: projectLogicalExpression_project_operands.induct)
  case (1 D gf e)
  show ?case
  proof (cases "is_call kAnd e \<or> is_call kOr e")
    case True
    define isOr where "isOr = (\<not> is_call kAnd e)"
    define ops where "ops = flattenInto (if isOr then kOr else kAnd) e"
    have r: "projectLogicalExpression D gf e =
        andThen (project_operands D gf isOr 0 ops []) (finish_groups D isOr (length ops))"
      by (subst projectLogicalExpression.simps) (simp only: if_P[OF True] Let_def isOr_def ops_def)
    obtain accs b1 where a: "project_operands D gf isOr 0 ops [] b = Inr (accs, b1)"
      "finish_groups D isOr (length ops) accs b1 = Inr (ps, b')"
      using 1(2) unfolding r by (auto simp: andThen_def split: sum.splits)
    let ?gss = "map (\<lambda>x. {g. restricts gf g x}) ops"
    have "groups_inv isOr ([] @ ?gss) accs"
      by (rule 1(1)[OF True isOr_def ops_def a(1)]) (simp_all add: groups_inv_def)
    then have inv: "groups_inv isOr ?gss accs" by simp
    note ps = finish_groups_result[OF a(2)]
    have d: "distinct (map p_group ps)"
      unfolding ps using inv by (auto simp: groups_inv_def distinct_map_filter)
    show ?thesis
    proof (cases "isOr \<and> ops = []")
      case True
      then have "accs = []" using inv by (auto simp: groups_inv_def)
      then have "set (map p_group ps) = {}" unfolding ps by simp
      moreover have "{g. restricts gf g e} = {}"
        using True \<open>is_call kAnd e \<or> is_call kOr e\<close> by (subst restricts.simps) (auto simp: isOr_def ops_def)
      ultimately show ?thesis using d by simp
    next
      case False
      have "set (map p_group ps) = (if isOr then \<Inter>(set ?gss) else \<Union>(set ?gss))"
        unfolding ps using kept_groups[OF inv] False by simp
      moreover have "(if isOr then \<Inter>(set ?gss) else \<Union>(set ?gss)) = {g. restricts gf g e}"
        using False True by (subst restricts.simps) (auto simp: isOr_def ops_def)
      ultimately show ?thesis using d by simp
    qed
  next
    case False
    have r: "projectLogicalExpression D gf e = (case gf (qe_columns e) of None \<Rightarrow> ret []
        | Some g \<Rightarrow> ret [\<lparr>p_group = g, p_filter = e, p_matches = True\<rparr>])"
      by (subst projectLogicalExpression.simps) (simp only: if_not_P[OF False])
    have c: "{g. restricts gf g e} = set_option (gf (qe_columns e))"
      using False by (subst restricts.simps) auto
    show ?thesis using 1(2) unfolding r c by (auto simp: ret_def split: option.splits)
  qed
next
  case (2 D gf isOr k accs)
  then show ?case by (simp add: ret_def)
next
  case (3 D gf isOr k e es accs)
  obtain ps b1 where p: "projectLogicalExpression D gf e b = Inr (ps, b1)"
    "project_operands D gf isOr (k + 1) es (fold (accumulate isOr k) ps accs) b1 = Inr (accs', b')"
    using 3(3) by (auto simp: andThen_def split: sum.splits)
  have g: "distinct (map p_group ps)" "set (map p_group ps) = {g. restricts gf g e}"
    using 3(1)[OF p(1)] by auto
  have "groups_inv isOr (gss @ [set (map p_group ps)]) (fold (accumulate isOr k) ps accs)"
    unfolding 3(4) by (rule groups_inv_step[OF 3(5) g(1)])
  from 3(2)[OF p(2) _ this] show ?case using 3(4) g(2) by simp
qed

section \<open>Which filters are derived\<close>

text \<open>The expressions the derivation looks into, with a group they restrict.\<close>

definition sources :: "(nat set \<Rightarrow> 'g option) \<Rightarrow> 'g \<Rightarrow> qexpr \<Rightarrow> bool" where
  "sources gf g e \<longleftrightarrow> is_call kOr e \<and> deterministic e \<and> restricts gf g e"

lemma grouped_groups:
  fixes gf :: "nat set \<Rightarrow> 'g option"
  assumes "deriveGroupedFiltersFromOr D gf e b = Inr (gs, b')"
  shows "distinct (map fst gs)" "set (map fst gs) = {g. sources gf g e}"
proof -
  have "distinct (map fst gs) \<and> set (map fst gs) = {g. sources gf g e}"
  proof (cases "\<not> is_call kOr e \<or> containsNonDeterministic e")
    case True
    then have "gs = []" using assms by (auto simp: deriveGroupedFiltersFromOr_def ret_def)
    then show ?thesis using True by (auto simp: sources_def)
  next
    case False
    then obtain ps b1 where p: "projectLogicalExpression D gf e b = Inr (ps, b1)"
      "gs = map (\<lambda>p. (p_group p, if p_matches p then e else p_filter p)) ps"
      using assms by (auto simp: deriveGroupedFiltersFromOr_def andThen_def ret_def split: sum.splits)
    have "map fst gs = map p_group ps" using p(2) by simp
    then show ?thesis using projection_groups(1)[OF p(1)] False by (auto simp: sources_def)
  qed
  then show "distinct (map fst gs)" "set (map fst gs) = {g. sources gf g e}" by blast+
qed

lemma gives_groups:
  assumes ok: "dialect_ok D" "runtime_ok D R" and gf: "unites gf" and e: "pred D \<Gamma> e"
  shows "gives (deriveGroupedFiltersFromOr D gf e)
    (\<lambda>ds. (\<forall>(g, f)\<in>set ds. derived D \<Gamma> R gf g e f) \<and> set (map fst ds) = {g. sources gf g e})"
  by (rule gives_also[OF gives_grouped[OF ok gf e]]) (rule grouped_groups(2))

lemma group_count:
  "distinct (map fst gs) \<Longrightarrow> length (filter (\<lambda>g. fst g = h) gs) = (if h \<in> set (map fst gs) then 1 else 0)"
proof (induction gs)
  case (Cons g gs)
  then show ?case by (cases "fst g = h") (auto simp: filter_empty_conv)
qed simp

lemma join_input_counts:
  "deriveForJoinInputs D L S es b = Inr ((ls, rs), b') \<Longrightarrow>
   length ls = length (filter (sources (side_for L S) LeftInput) es) \<and>
   length rs = length (filter (sources (side_for L S) RightInput) es)"
proof (induction es arbitrary: b ls rs)
  case (Cons e es)
  obtain gs b1 ls1 rs1 where g: "deriveGroupedFiltersFromOr D (side_for L S) e b = Inr (gs, b1)"
    and r: "deriveForJoinInputs D L S es b1 = Inr ((ls1, rs1), b')"
    and l: "ls = map snd (filter (\<lambda>g. fst g = LeftInput) gs) @ ls1"
      "rs = map snd (filter (\<lambda>g. fst g = RightInput) gs) @ rs1"
    using Cons.prems by (auto simp: andThen_def ret_def split: sum.splits)
  note G = grouped_groups[OF g]
  show ?case
    using Cons.IH[OF r] group_count[OF G(1), of LeftInput] group_count[OF G(1), of RightInput]
    unfolding l G(2) by simp
qed (simp add: ret_def)

section \<open>Equality up to nesting\<close>

lemma equivalent_meaning:
  assumes ok: "dialect_ok D" "runtime_ok D R"
  shows "equivalentModuloLogicalAssociativity l r \<Longrightarrow> pred D \<Gamma> l \<Longrightarrow> pred D \<Gamma> r \<Longrightarrow> same_filter \<Gamma> R l r"
proof (induction l r rule: equivalentModuloLogicalAssociativity.induct)
  case (1 l r)
  have flat: "same_filter \<Gamma> R l r"
    if len: "length (flattenInto (kJunction cj) l) = length (flattenInto (kJunction cj) r)"
      and same: "\<And>p. p \<in> set (zip (flattenInto (kJunction cj) l) (flattenInto (kJunction cj) r)) \<Longrightarrow>
        pred D \<Gamma> (fst p) \<Longrightarrow> pred D \<Gamma> (snd p) \<Longrightarrow> same_filter \<Gamma> R (fst p) (snd p)" for cj
  proof -
    let ?ls = "flattenInto (kJunction cj) l" and ?rs = "flattenInto (kJunction cj) r"
    note L = flatten_junction[OF ok 1(4), of cj] and S = flatten_junction[OF ok 1(5), of cj]
    have s: "same_filter \<Gamma> R (?ls ! i) (?rs ! i)" if "i < length ?ls" for i
    proof -
      have "(?ls ! i, ?rs ! i) \<in> set (zip ?ls ?rs)" using that len by (auto simp: set_zip)
      then show ?thesis using same[of "(?ls ! i, ?rs ! i)"] L(2) S(2) that len by simp
    qed
    have c: "map qe_columns ?ls = map qe_columns ?rs"
      by (rule nth_equalityI) (use len s in \<open>auto simp: same_filter_def\<close>)
    then have "qe_columns l = qe_columns r"
      using junctionD(2)[OF L(1)] junctionD(2)[OF S(1)] by (metis list.set_map)
    moreover have "sval (qeval R w r \<rho>) = sval (qeval R w l \<rho>)" if "env_ok \<Gamma> \<rho>" for w \<rho>
    proof -
      have "map (\<lambda>e. sval (qeval R w e \<rho>)) ?ls = map (\<lambda>e. sval (qeval R w e \<rho>)) ?rs"
        by (rule nth_equalityI) (use len s that in \<open>auto simp: same_filter_def\<close>)
      then show ?thesis using junctionD(4)[OF L(1) that, of w] junctionD(4)[OF S(1) that, of w] by simp
    qed
    ultimately show ?thesis by (simp add: same_filter_def)
  qed
  consider "l = r" | "l \<noteq> r" "\<not> (call_name l = None \<or> call_name l \<noteq> call_name r)" "is_call kAnd l"
    | "l \<noteq> r" "\<not> (call_name l = None \<or> call_name l \<noteq> call_name r)" "\<not> is_call kAnd l" "is_call kOr l"
    using 1(3)[unfolded equivalentModuloLogicalAssociativity.simps[of l r]] by (meson not_None_eq)
  then show ?case
  proof cases
    case 1
    then show ?thesis by (simp add: same_filter_def)
  next
    case 2
    have "length (flattenInto kAnd l) = length (flattenInto kAnd r) \<and>
        (\<forall>p\<in>set (zip (flattenInto kAnd l) (flattenInto kAnd r)). equivalentModuloLogicalAssociativity (fst p) (snd p))"
      using 1(3) 2 by (subst (asm) equivalentModuloLogicalAssociativity.simps) (auto split: if_splits)
    then show ?thesis
      using flat[of True] 1(1)[OF 2] by (simp add: kJunction_def)
  next
    case 3
    have "length (flattenInto kOr l) = length (flattenInto kOr r) \<and>
        (\<forall>p\<in>set (zip (flattenInto kOr l) (flattenInto kOr r)). equivalentModuloLogicalAssociativity (fst p) (snd p))"
      using 1(3) 3 by (subst (asm) equivalentModuloLogicalAssociativity.simps) (auto split: if_splits)
    then show ?thesis
      using flat[of False] 1(2)[OF 3] by (simp add: kJunction_def)
  qed
qed

section \<open>Filters of columns\<close>

definition covered :: "qexpr list \<Rightarrow> qexpr list \<Rightarrow> qexpr \<Rightarrow> bool" where
  "covered filters fs f \<longleftrightarrow>
     f \<in> set fs \<or> (\<exists>original\<in>set filters. equivalentModuloLogicalAssociativity original f)"

lemma new_filters_covered:
  "new_filters filters ds seen = (fs, seen') \<Longrightarrow>
   seen' = seen \<union> snd ` set ds \<and> (\<forall>f\<in>snd ` set ds. f \<in> seen \<or> covered filters fs f)"
proof (induction filters ds seen arbitrary: fs seen' rule: new_filters.induct)
  case (2 filters c f ds seen)
  show ?case
  proof (cases "f \<in> seen")
    case True
    then show ?thesis using 2 by auto
  next
    case False
    obtain rest s where r: "new_filters filters ds (insert f seen) = (rest, s)" by fastforce
    have "(\<exists>original\<in>set (originals_for filters c). equivalentModuloLogicalAssociativity original f) \<Longrightarrow>
        covered filters rest f" by (auto simp: covered_def originals_for_def)
    moreover have "covered filters rest g \<Longrightarrow> covered filters (f # rest) g" for g by (auto simp: covered_def)
    moreover have "covered filters (f # rest) f" by (simp add: covered_def)
    ultimately show ?thesis
      using 2(2)[OF False r] 2(3) False by (auto simp: r split: if_splits)
  qed
qed simp

lemma covered_more: "covered filters fs f \<Longrightarrow> covered filters (fs @ gs) f" "covered filters gs f \<Longrightarrow> covered filters (fs @ gs) f"
  by (auto simp: covered_def)

lemma gives_derive_covered:
  assumes ok: "dialect_ok D" "runtime_ok D R" and eqn: "fn_equality (d_names D) = Some eqn"
    and es: "\<forall>e\<in>set es. pred D \<Gamma> e"
  shows "gives (derive_each (type_equivalent R) D filters es seen)
    (\<lambda>fs. \<forall>e\<in>set es. \<forall>c. sources column_for c e \<longrightarrow>
      (\<exists>f. derived D \<Gamma> R column_for c e f \<and> (f \<in> seen \<or> covered filters fs f)))"
  using es
proof (induction es arbitrary: seen)
  case (Cons e es)
  have e: "pred D \<Gamma> e" using Cons.prems by simp
  show ?case
    unfolding derive_each.simps
  proof (rule gives_andThen[OF gives_groups[OF ok unites_column_for e]],
      rule gives_andThen[OF gives_column_row_in[OF ok eqn e]])
    fix ds rs
    assume ds: "(\<forall>(g, f)\<in>set ds. derived D \<Gamma> R column_for g e f) \<and> set (map fst ds) = {g. sources column_for g e}"
    obtain fs seen' where nf: "new_filters filters (ds @ rs) seen = (fs, seen')" by fastforce
    note N = new_filters_covered[OF nf]
    have here: "\<exists>f. derived D \<Gamma> R column_for c e f \<and> (f \<in> seen \<or> covered filters fs f)"
      if "sources column_for c e" for c
    proof -
      have "c \<in> fst ` set ds" using ds that by auto
      then obtain f where f: "(c, f) \<in> set ds" by force
      then have "derived D \<Gamma> R column_for c e f" using ds by blast
      moreover have "f \<in> snd ` set (ds @ rs)" using f by force
      ultimately show ?thesis using N by blast
    qed
    show "gives (let (fs, seen') = new_filters filters (ds @ rs) seen in
          andThen (derive_each (type_equivalent R) D filters es seen') (\<lambda>rest. ret (fs @ rest)))
        (\<lambda>fs. \<forall>x\<in>set (e # es). \<forall>c. sources column_for c x \<longrightarrow>
          (\<exists>f. derived D \<Gamma> R column_for c x f \<and> (f \<in> seen \<or> covered filters fs f)))"
      unfolding nf Let_def prod.case
    proof (rule gives_andThen[OF Cons.IH], goal_cases)
      case 1
      then show ?case using Cons.prems by simp
    next
      case (2 rest)
      have later: "\<exists>f. derived D \<Gamma> R column_for c x f \<and> (f \<in> seen \<or> covered filters (fs @ rest) f)"
        if x: "x \<in> set es" "sources column_for c x" for x c
      proof -
        obtain f where f: "derived D \<Gamma> R column_for c x f" "f \<in> seen' \<or> covered filters rest f"
          using 2 x by blast
        then have "f \<in> seen \<or> covered filters (fs @ rest) f"
          using N covered_more[of filters fs f rest] covered_more(2)[of filters rest f fs] by blast
        then show ?thesis using f(1) by blast
      qed
      have first: "\<exists>f. derived D \<Gamma> R column_for c e f \<and> (f \<in> seen \<or> covered filters (fs @ rest) f)"
        if "sources column_for c e" for c
        using here[OF that] covered_more(1) by blast
      show ?case by (rule gives_ret) (use first later in auto)
    qed
  qed
qed (auto intro: gives_ret)

lemma gives_for_columns:
  assumes ok: "dialect_ok D" "runtime_ok D R" and es: "\<forall>e\<in>set filters. pred D \<Gamma> e"
  shows "gives (deriveForColumns (type_equivalent R) D filters) (\<lambda>fs.
    (\<forall>f\<in>set fs. derived_from D \<Gamma> R filters (\<lambda>C. card C = 1) f) \<and>
    (\<forall>e\<in>set filters. \<forall>c. sources column_for c e \<longrightarrow>
      (\<exists>f\<in>set filters \<union> set fs. qe_columns f = {c} \<and> (\<forall>w \<rho>. env_ok \<Gamma> \<rho> \<longrightarrow> holds R w \<rho> e \<longrightarrow> holds R w \<rho> f))))"
    (is "gives _ (\<lambda>fs. ?P fs \<and> ?Q fs)")
proof -
  obtain eqn where eqn: "fn_equality (d_names D) = Some eqn" using equality_registered[OF ok(1)] by blast
  have "?Q fs" if c: "\<forall>e\<in>set filters. \<forall>c. sources column_for c e \<longrightarrow>
      (\<exists>f. derived D \<Gamma> R column_for c e f \<and> (f \<in> set filters \<or> covered filters fs f))" for fs
  proof (intro ballI allI impI)
    fix e c assume "e \<in> set filters" "sources column_for c e"
    then obtain f where f: "derived D \<Gamma> R column_for c e f" "f \<in> set filters \<or> covered filters fs f"
      using c by blast
    have cols: "qe_columns f = {c}" and p: "pred D \<Gamma> f" and h: "\<And>w \<rho>. env_ok \<Gamma> \<rho> \<Longrightarrow> holds R w \<rho> e \<Longrightarrow> holds R w \<rho> f"
      using f(1) unfolding derived_def column_for_def by (auto simp: card_1_singleton_iff split: if_splits)
    show "\<exists>f\<in>set filters \<union> set fs. qe_columns f = {c} \<and> (\<forall>w \<rho>. env_ok \<Gamma> \<rho> \<longrightarrow> holds R w \<rho> e \<longrightarrow> holds R w \<rho> f)"
    proof (cases "f \<in> set filters \<union> set fs")
      case True
      then show ?thesis using cols h by blast
    next
      case False
      then obtain g where g: "g \<in> set filters" "equivalentModuloLogicalAssociativity g f"
        using f(2) by (auto simp: covered_def)
      have "same_filter \<Gamma> R g f" using equivalent_meaning[OF ok g(2) _ p] es g(1) by blast
      then show ?thesis
        using g(1) cols h by (intro bexI[of _ g]) (auto simp: same_filter_def holds_def)
    qed
  qed
  moreover have "gives (deriveForColumns (type_equivalent R) D filters) (\<lambda>fs. ?P fs \<and>
      (\<forall>e\<in>set filters. \<forall>c. sources column_for c e \<longrightarrow>
        (\<exists>f. derived D \<Gamma> R column_for c e f \<and> (f \<in> set filters \<or> covered filters fs f))))"
    unfolding deriveForColumns_def
    by (rule gives_both[OF gives_derive_each[OF ok eqn es] gives_derive_covered[OF ok eqn es]])
  ultimately show ?thesis by (elim gives_weaken) blast
qed

section \<open>Redundant keys\<close>

text \<open>A pair of keys is redundant when it shares a side with an earlier pair that is not.\<close>

definition key_det :: "qexpr list \<Rightarrow> qexpr list \<Rightarrow> nat \<Rightarrow> bool" where
  "key_det ls rs i \<longleftrightarrow> deterministic (ls ! i) \<and> deterministic (rs ! i)"

definition shares_side :: "qexpr list \<Rightarrow> qexpr list \<Rightarrow> nat \<Rightarrow> nat \<Rightarrow> bool" where
  "shares_side ls rs j i \<longleftrightarrow> ls ! j = ls ! i \<or> rs ! j = rs ! i"

definition red_inv :: "qexpr list \<Rightarrow> qexpr list \<Rightarrow> nat \<Rightarrow> nat list \<Rightarrow> bool list \<Rightarrow> bool" where
  "red_inv ls rs m kept red \<longleftrightarrow>
     length red = length ls \<and>
     set kept = {j. j < m \<and> key_det ls rs j \<and> \<not> red ! j} \<and>
     (\<forall>i. m \<le> i \<longrightarrow> i < length ls \<longrightarrow> \<not> red ! i) \<and>
     (\<forall>i < m. red ! i \<longleftrightarrow>
        key_det ls rs i \<and> (\<exists>j < i. \<not> red ! j \<and> key_det ls rs j \<and> shares_side ls rs j i))"

lemma red_inv_keep:
  assumes inv: "red_inv ls rs m kept red" and m: "m < length ls"
    and new: "set kept' = {j \<in> insert m (set kept). key_det ls rs j}"
    and none: "\<not> (key_det ls rs m \<and> (\<exists>j\<in>set kept. shares_side ls rs j m))"
  shows "red_inv ls rs (Suc m) kept' red"
proof -
  have r: "\<not> red ! m" using inv m by (simp add: red_inv_def)
  show ?thesis
    using inv none r unfolding red_inv_def new by (auto simp: less_Suc_eq)
qed

lemma red_inv_drop:
  assumes inv: "red_inv ls rs m kept red" and m: "m < length ls" and d: "key_det ls rs m"
    and j: "j \<in> set kept" "shares_side ls rs j m"
  shows "red_inv ls rs (Suc m) kept (red[m := True])"
proof -
  have len: "length red = length ls" and kept: "set kept = {j. j < m \<and> key_det ls rs j \<and> \<not> red ! j}"
    and late: "\<And>i. m \<le> i \<Longrightarrow> i < length ls \<Longrightarrow> \<not> red ! i"
    and old: "\<And>i. i < m \<Longrightarrow> red ! i \<longleftrightarrow>
        key_det ls rs i \<and> (\<exists>j < i. \<not> red ! j \<and> key_det ls rs j \<and> shares_side ls rs j i)"
    using inv unfolding red_inv_def by blast+
  have same: "(red[m := True]) ! i = red ! i" if "i < m" for i using that by simp
  have here: "(red[m := True]) ! m" using len m by simp
  have "(red[m := True]) ! i \<longleftrightarrow> key_det ls rs i \<and>
      (\<exists>j < i. \<not> (red[m := True]) ! j \<and> key_det ls rs j \<and> shares_side ls rs j i)" if "i < Suc m" for i
  proof (cases "i = m")
    case True
    have "j < m" "\<not> red ! j" "key_det ls rs j" using j(1) kept by auto
    then show ?thesis unfolding True using here d j(2) same[of j] by blast
  next
    case False
    then have i: "i < m" using that by simp
    then show ?thesis using old[OF i] same by (metis less_trans)
  qed
  moreover have "set kept = {j. j < Suc m \<and> key_det ls rs j \<and> \<not> (red[m := True]) ! j}"
    unfolding kept using here same by (auto simp: less_Suc_eq)
  moreover have "\<not> (red[m := True]) ! i" if "Suc m \<le> i" "i < length ls" for i using late[of i] that by simp
  ultimately show ?thesis unfolding red_inv_def using len by simp
qed

lemma key_step_redundant:
  assumes "key_step D ls rs m (kept, res) b = Inr ((kept', res'), b')" "m < length ls"
    "red_inv ls rs m kept (k_redundant res)"
  shows "red_inv ls rs (Suc m) kept' (k_redundant res')"
proof (cases "containsNonDeterministic (ls ! m) \<or> containsNonDeterministic (rs ! m)")
  case True
  then have "kept' = kept" "res' = res" "\<not> key_det ls rs m"
    using assms(1) by (auto simp: key_step_def ret_def key_det_def)
  then show ?thesis
    using assms(2,3) by (intro red_inv_keep) (auto simp: red_inv_def)
next
  case False
  then have d: "key_det ls rs m" by (simp add: key_det_def)
  have dk: "\<forall>j\<in>set kept. key_det ls rs j" using assms(3) unfolding red_inv_def by blast
  show ?thesis
  proof (cases "List.find (\<lambda>j. ls ! j = ls ! m \<or> rs ! j = rs ! m) kept")
    case None
    then have "kept' = kept @ [m]" "res' = res"
      using assms(1) False by (auto simp: key_step_def ret_def)
    moreover have "\<forall>j\<in>set kept. \<not> shares_side ls rs j m"
      using None by (auto simp: find_None_iff shares_side_def)
    ultimately show ?thesis using assms(2,3) d dk by (intro red_inv_keep) auto
  next
    case (Some j)
    then have j: "j \<in> set kept" "shares_side ls rs j m" by (auto simp: find_Some_iff shares_side_def)
    have "kept' = kept" "k_redundant res' = (k_redundant res)[m := True]"
      using assms(1) False Some
      by (auto simp: key_step_def ret_def andThen_def split: if_splits sum.splits)
    then show ?thesis using red_inv_drop[OF assms(3,2) d j] by simp
  qed
qed

lemma key_loop_redundant:
  assumes "key_loop D ls rs [m..<length ls] (kept, res) b = Inr ((kept', res'), b')" "m \<le> length ls"
    "red_inv ls rs m kept (k_redundant res)"
  shows "red_inv ls rs (length ls) kept' (k_redundant res')"
  using assms
proof (induction "length ls - m" arbitrary: m kept res b)
  case 0
  then show ?case by (simp add: ret_def)
next
  case (Suc d)
  then have m: "m < length ls" by simp
  obtain kept1 res1 b1 where s: "key_step D ls rs m (kept, res) b = Inr ((kept1, res1), b1)"
    "key_loop D ls rs [Suc m..<length ls] (kept1, res1) b1 = Inr ((kept', res'), b')"
    using Suc.prems(1) unfolding upt_conv_Cons[OF m] by (auto simp: andThen_def split: sum.splits)
  show ?case
    by (rule Suc.hyps(1)[OF _ s(2)])
      (use Suc.hyps(2) m key_step_redundant[OF s(1) m Suc.prems(3)] in auto)
qed

lemma gives_redundant:
  assumes ok: "dialect_ok D" "runtime_ok D R" and len: "length ls = length rs"
    and keys: "\<forall>x\<in>set ls \<union> set rs. key_ok D \<Gamma> x" "\<forall>i < length ls. qe_type (ls ! i) = qe_type (rs ! i)"
  shows "gives (deriveForJoinKeys D ls rs) (\<lambda>res. (length (k_redundant res) = length ls \<and>
    equalities_ok D \<Gamma> ls (k_left res) \<and> equalities_ok D \<Gamma> rs (k_right res) \<and> key_eqv D R ls rs (length ls) res) \<and>
    (\<forall>i < length ls. k_redundant res ! i \<longleftrightarrow> key_det ls rs i \<and>
      (\<exists>j < i. \<not> k_redundant res ! j \<and> key_det ls rs j \<and> shares_side ls rs j i)))"
proof (rule gives_also[OF gives_join_keys[OF ok len keys]])
  fix b res b' assume r: "deriveForJoinKeys D ls rs b = Inr (res, b')"
  let ?init = "\<lparr>k_left = [], k_right = [], k_redundant = replicate (length ls) False\<rparr>"
  obtain kept where k: "key_loop D ls rs [0..<length ls] ([], ?init) b = Inr ((kept, res), b')"
    using r len by (auto simp: deriveForJoinKeys_def require_def andThen_def ret_def split: sum.splits)
  have "red_inv ls rs 0 [] (k_redundant ?init)" by (simp add: red_inv_def)
  from key_loop_redundant[OF k _ this] show "\<forall>i < length ls. k_redundant res ! i \<longleftrightarrow> key_det ls rs i \<and>
      (\<exists>j < i. \<not> k_redundant res ! j \<and> key_det ls rs j \<and> shares_side ls rs j i)"
    unfolding red_inv_def by blast
qed

section \<open>The properties\<close>

lemma sample_or_restricts: "restricts gf g sample_or \<longleftrightarrow>
    (gf {0} = Some g \<or> gf {1} = Some g)"
proof -
  have c: "restricts gf g (col_eq c k) \<longleftrightarrow> gf {c} = Some g" for c k
    by (subst restricts.simps) (simp add: col_eq_simps)
  have a: "restricts gf g (form_call i kAnd [col_eq 0 k, col_eq 1 l]) \<longleftrightarrow> gf {0} = Some g \<or> gf {1} = Some g" for i k l
    by (subst restricts.simps) (simp add: form_call_def c col_eq_simps kAnd_def)
  have f: "flattenInto kOr sample_or =
      [form_call 90 kAnd [col_eq 0 1, col_eq 1 2], form_call 91 kAnd [col_eq 0 3, col_eq 1 4]]"
    by (simp add: sample_or_def form_call_def form_names)
  have n: "\<not> is_call kAnd sample_or" by (simp add: sample_or_def form_call_def form_names)
  show ?thesis
    by (subst restricts.simps) (simp add: n sample_or_pred(3) f a del: One_nat_def)
qed

text \<open>
  C7: Deriving filters of columns (\<open>deriveForColumns\<close>) always returns, and each filter it returns
  reads one column, is a deterministic predicate and accepts every row that all the given filters
  accept, whatever random values they draw. For every deterministic OR among the filters and every
  column that all its branches restrict, there is a filter of that column, given or derived, that
  the OR implies.
\<close>

theorem implied_column_filters:
  assumes "dialect_ok D" "runtime_ok D R" "builder_ok b" "\<forall>e\<in>set filters. pred D \<Gamma> e"
  shows "\<exists>fs b'. deriveForColumns (type_equivalent R) D filters b = Inr (fs, b') \<and> builder_ok b' \<and>
    (\<forall>f\<in>set fs. pred D \<Gamma> f \<and> deterministic f \<and> card (qe_columns f) = 1 \<and>
      (\<forall>w w' \<rho>. env_ok \<Gamma> \<rho> \<longrightarrow> (\<forall>e\<in>set filters. holds R w \<rho> e) \<longrightarrow> holds R w' \<rho> f)) \<and>
    (\<forall>e\<in>set filters. \<forall>c. is_call kOr e \<longrightarrow> deterministic e \<longrightarrow> restricts column_for c e \<longrightarrow>
      (\<exists>f\<in>set filters \<union> set fs. qe_columns f = {c} \<and>
        (\<forall>w \<rho>. env_ok \<Gamma> \<rho> \<longrightarrow> holds R w \<rho> e \<longrightarrow> holds R w \<rho> f)))"
proof (rule gives_elim[OF gives_for_columns[OF assms(1,2,4)] assms(3)], elim conjE, intro exI conjI, assumption, assumption)
qed (simp_all add: derived_from_def sources_def)

lemma implied_column_filters_witness:
  "\<exists>fs b'. deriveForColumns (=) sample_dialect [sample_or] sample_builder = Inr (fs, b') \<and>
    (\<exists>f\<in>set (sample_or # fs). qe_columns f = {1} \<and> holds sample_runtime (\<lambda>_. 0) sample_row f)"
  using implied_column_filters[OF sample_dialect_ok sample_runtime_ok sample_builder_ok, of "[sample_or]" bigints]
    sample_or_pred sample_or_restricts[of column_for 1] sample_row_ok sample_or_accepts
  by (fastforce simp: column_for_def)

text \<open>
  C9: Deriving filters of the inputs of a join (\<open>deriveForJoinInputs\<close>) always returns, and each
  filter of an input reads columns of that input only, is a deterministic predicate and accepts every row
  that all conjuncts accept. An input gets one filter for each deterministic OR all of whose branches
  restrict it, and no others.
\<close>

theorem implied_join_input_filters:
  assumes "dialect_ok D" "runtime_ok D R" "builder_ok b" "\<forall>e\<in>set es. pred D \<Gamma> e"
  shows "\<exists>ls rs b'. deriveForJoinInputs D L S es b = Inr ((ls, rs), b') \<and> builder_ok b' \<and>
    (\<forall>f\<in>set ls. qe_columns f \<noteq> {} \<and> qe_columns f \<subseteq> L) \<and>
    (\<forall>f\<in>set rs. qe_columns f \<noteq> {} \<and> qe_columns f \<subseteq> S) \<and>
    (\<forall>f\<in>set ls \<union> set rs. pred D \<Gamma> f \<and> deterministic f \<and>
      (\<forall>w w' \<rho>. env_ok \<Gamma> \<rho> \<longrightarrow> (\<forall>e\<in>set es. holds R w \<rho> e) \<longrightarrow> holds R w' \<rho> f)) \<and>
    length ls = length (filter (\<lambda>e. is_call kOr e \<and> deterministic e \<and> restricts (side_for L S) LeftInput e) es) \<and>
    length rs = length (filter (\<lambda>e. is_call kOr e \<and> deterministic e \<and> restricts (side_for L S) RightInput e) es)"
proof -
  obtain x b' where x: "deriveForJoinInputs D L S es b = Inr (x, b')" "builder_ok b'" "case x of (ls, rs) \<Rightarrow>
      (\<forall>f\<in>set ls. derived_from D \<Gamma> R es (\<lambda>C. C \<noteq> {} \<and> C \<subseteq> L) f) \<and>
      (\<forall>f\<in>set rs. derived_from D \<Gamma> R es (\<lambda>C. C \<noteq> {} \<and> C \<subseteq> S) f)"
    by (rule gives_elim[OF gives_join_inputs[OF assms(1,2,4)] assms(3)])
  obtain ls rs where "x = (ls, rs)" by fastforce
  then show ?thesis
    using x join_input_counts[of D L S es b ls rs b']
    by (intro exI[of _ ls] exI[of _ rs] exI[of _ b']) (auto simp: derived_from_def sources_def[abs_def])
qed

lemma implied_join_input_filters_witness:
  "\<exists>l r b'. deriveForJoinInputs sample_dialect {0} {1, 2} [sample_or] sample_builder = Inr (([l], [r]), b') \<and>
    qe_columns l = {0} \<and> holds sample_runtime (\<lambda>_. 0) sample_row l \<and> holds sample_runtime (\<lambda>_. 0) sample_row r"
proof -
  obtain ls rs b' where r: "deriveForJoinInputs sample_dialect {0} {1, 2} [sample_or] sample_builder = Inr ((ls, rs), b')"
    "\<forall>f\<in>set ls. qe_columns f \<noteq> {} \<and> qe_columns f \<subseteq> {0}" "length ls = 1" "length rs = 1"
    "\<forall>f\<in>set ls \<union> set rs. holds sample_runtime (\<lambda>_. 0) sample_row f"
    using implied_join_input_filters[OF sample_dialect_ok sample_runtime_ok sample_builder_ok, of "[sample_or]" bigints "{0}" "{1, 2}"]
      sample_or_pred sample_or_restricts[of "side_for {0} {1, 2}"] sample_row_ok sample_or_accepts
    by (fastforce simp: side_for_def)
  obtain l r' where "ls = [l]" "rs = [r']"
    using r(3,4) by (auto simp: length_Suc_conv)
  then show ?thesis using r(1,2,5) by auto
qed

text \<open>
  C8: Deriving equalities from the keys of a join (\<open>deriveForJoinKeys\<close>) always returns. All pairs of keys are equal
  on a row exactly when the pairs not marked redundant are and the derived equalities hold, so the
  marked pairs can be dropped. A derived equality is deterministic and reads columns of its
  side only. A pair is marked exactly when both keys are deterministic and it shares a key with an earlier such pair
  that is not marked.
\<close>

theorem join_key_equalities:
  assumes "dialect_ok D" "runtime_ok D R" "builder_ok b" "length ls = length rs"
    "\<forall>x\<in>set ls \<union> set rs. well_formed D \<Gamma> x \<and> \<not> is_lambda x" "\<forall>i < length ls. qe_type (ls ! i) = qe_type (rs ! i)"
  shows "\<exists>res b'. deriveForJoinKeys D ls rs b = Inr (res, b') \<and> builder_ok b' \<and>
    length (k_redundant res) = length ls \<and>
    (\<forall>w \<rho>. (\<forall>i < length ls. keys_equal D R w \<rho> (ls ! i) (rs ! i)) \<longleftrightarrow>
      (\<forall>i < length ls. \<not> k_redundant res ! i \<longrightarrow> keys_equal D R w \<rho> (ls ! i) (rs ! i)) \<and>
      (\<forall>e\<in>set (k_left res) \<union> set (k_right res). holds R w \<rho> e)) \<and>
    (\<forall>e\<in>set (k_left res). deterministic e \<and> qe_columns e \<subseteq> (\<Union>x\<in>set ls. qe_columns x)) \<and>
    (\<forall>e\<in>set (k_right res). deterministic e \<and> qe_columns e \<subseteq> (\<Union>x\<in>set rs. qe_columns x)) \<and>
    (\<forall>i < length ls. k_redundant res ! i \<longleftrightarrow> key_det ls rs i \<and>
      (\<exists>j < i. \<not> k_redundant res ! j \<and> key_det ls rs j \<and> shares_side ls rs j i))"
proof -
  have "\<forall>x\<in>set ls \<union> set rs. key_ok D \<Gamma> x" using assms(5) by (simp add: key_ok_def)
  note G = gives_redundant[OF assms(1,2,4) this assms(6)]
  obtain res b' where r: "deriveForJoinKeys D ls rs b = Inr (res, b')" "builder_ok b'"
    "length (k_redundant res) = length ls" "equalities_ok D \<Gamma> ls (k_left res)" "equalities_ok D \<Gamma> rs (k_right res)"
    "key_eqv D R ls rs (length ls) res"
    "\<forall>i < length ls. k_redundant res ! i \<longleftrightarrow> key_det ls rs i \<and>
      (\<exists>j < i. \<not> k_redundant res ! j \<and> key_det ls rs j \<and> shares_side ls rs j i)"
    by (rule gives_elim[OF G assms(3)], elim conjE) (rule that)
  show ?thesis
  proof (intro exI conjI)
    show "\<forall>e\<in>set (k_left res). deterministic e \<and> qe_columns e \<subseteq> (\<Union>x\<in>set ls. qe_columns x)"
      "\<forall>e\<in>set (k_right res). deterministic e \<and> qe_columns e \<subseteq> (\<Union>x\<in>set rs. qe_columns x)"
      using r(4,5) unfolding equalities_ok_def by blast+
  qed (rule r r(6)[unfolded key_eqv_def])+
qed

text \<open>The keys \<open>c0 = c1\<close> and \<open>c0 = c2\<close>: the second pair is redundant given \<open>c1 = c2\<close>.\<close>

definition left_keys :: "qexpr list" where
  "left_keys = [Column 0 BigintT, Column 0 BigintT]"

definition right_keys :: "qexpr list" where
  "right_keys = [Column 1 BigintT, Column 2 BigintT]"

lemma join_key_equalities_witness:
  "\<exists>res b'. deriveForJoinKeys sample_dialect left_keys right_keys sample_builder = Inr (res, b') \<and>
     \<not> k_redundant res ! 0 \<and> k_redundant res ! 1"
proof -
  have h: "length left_keys = length right_keys"
    "\<forall>x\<in>set left_keys \<union> set right_keys. well_formed sample_dialect bigints x \<and> \<not> is_lambda x"
    "\<forall>i < length left_keys. qe_type (left_keys ! i) = qe_type (right_keys ! i)"
    by (simp_all add: left_keys_def right_keys_def bigints_def less_Suc_eq)
  have n: "length left_keys = 2" by (simp add: left_keys_def)
  have k: "key_det left_keys right_keys 0" "key_det left_keys right_keys 1" "shares_side left_keys right_keys 0 1"
    by (simp_all add: key_det_def shares_side_def left_keys_def right_keys_def)
  obtain res b' where r: "deriveForJoinKeys sample_dialect left_keys right_keys sample_builder = Inr (res, b')"
    "\<forall>i < 2. k_redundant res ! i \<longleftrightarrow> key_det left_keys right_keys i \<and>
      (\<exists>j < i. \<not> k_redundant res ! j \<and> key_det left_keys right_keys j \<and> shares_side left_keys right_keys j i)"
    using join_key_equalities[OF sample_dialect_ok sample_runtime_ok sample_builder_ok h] unfolding n
    by (elim exE conjE) (rule that)
  have z: "\<not> k_redundant res ! 0" using r(2)[rule_format, of 0] by simp
  then have "k_redundant res ! 1" using r(2)[rule_format, of 1] k by (metis less_one one_less_numeral_iff semiring_norm(76))
  then show ?thesis using r(1) z by blast
qed

text \<open>
  C12: Expressions that are equal up to the nesting of their ANDs and ORs
  (\<open>equivalentModuloLogicalAssociativity\<close>) read the same columns and have the same value on every
  row, failures included.
\<close>

theorem equivalent_same_value:
  assumes "dialect_ok D" "runtime_ok D R" "equivalentModuloLogicalAssociativity l r" "pred D \<Gamma> l" "pred D \<Gamma> r"
  shows "qe_columns l = qe_columns r \<and>
    (\<forall>w \<rho>. env_ok \<Gamma> \<rho> \<longrightarrow> sval (qeval R w l \<rho>) = sval (qeval R w r \<rho>))"
  using equivalent_meaning[OF assms] by (simp add: same_filter_def)

definition left_and :: qexpr where
  "left_and = form_call 91 kAnd [form_call 90 kAnd [col_eq 0 1, col_eq 1 2], col_eq 2 3]"

definition right_and :: qexpr where
  "right_and = form_call 93 kAnd [col_eq 0 1, form_call 92 kAnd [col_eq 1 2, col_eq 2 3]]"

lemma equivalent_same_value_witness:
  "left_and \<noteq> right_and \<and> qe_columns left_and = qe_columns right_and \<and>
   sval (qeval sample_runtime (\<lambda>_. 0) left_and sample_row) = sval (qeval sample_runtime (\<lambda>_. 0) right_and sample_row)"
proof -
  have "pred sample_dialect bigints left_and \<and> deterministic left_and"
    unfolding left_and_def by (intro form_call_args col_eq_ok) simp_all
  moreover have "pred sample_dialect bigints right_and \<and> deterministic right_and"
    unfolding right_and_def by (intro form_call_args col_eq_ok) simp_all
  ultimately have p: "pred sample_dialect bigints left_and" "pred sample_dialect bigints right_and" by blast+
  have f: "flattenInto kAnd left_and = [col_eq 0 1, col_eq 1 2, col_eq 2 3]"
    "flattenInto kAnd right_and = [col_eq 0 1, col_eq 1 2, col_eq 2 3]"
    by (simp_all add: left_and_def right_and_def form_call_def col_eq_simps kAnd_def)
  have c: "call_name left_and = Some kAnd" "call_name right_and = Some kAnd" "is_call kAnd left_and"
    by (simp_all add: left_and_def right_and_def form_call_def)
  have "equivalentModuloLogicalAssociativity x x" for x by (subst equivalentModuloLogicalAssociativity.simps) simp
  then have "equivalentModuloLogicalAssociativity left_and right_and"
    by (subst equivalentModuloLogicalAssociativity.simps) (simp add: c f)
  from equivalent_same_value[OF sample_dialect_ok sample_runtime_ok this p]
  have "qe_columns left_and = qe_columns right_and"
    "sval (qeval sample_runtime (\<lambda>_. 0) left_and sample_row) = sval (qeval sample_runtime (\<lambda>_. 0) right_and sample_row)"
    using sample_row_ok by blast+
  moreover have "left_and \<noteq> right_and" by (simp add: left_and_def right_and_def form_call_def)
  ultimately show ?thesis by blast
qed

end
