(* ===== verification/Expr_Replace.thy ===== *)
theory Expr_Replace
  imports Sample_Runtime
begin

text \<open>
  Replacing subexpressions (\<open>replace\<close> and \<open>substitute\<close> of \<^verbatim>\<open>optimizer/v2/ExprFactory.cpp\<close>). The
  rewrite of an expression under a mapping is recorded, so a shared subexpression is rewritten
  once.
\<close>

section \<open>The code\<close>

type_synonym substitution = "qexpr \<rightharpoonup> qexpr"
type_synonym replace_memo = "qexpr \<rightharpoonup> qexpr"

definition shadowsMapping :: "(nat \<times> vtype) list \<Rightarrow> substitution \<Rightarrow> bool" where
  "shadowsMapping bound m = list_ex (\<lambda>(c, t). m (Column c t) \<noteq> None) bound"

definition erase_bound :: "(nat \<times> vtype) list \<Rightarrow> substitution \<Rightarrow> substitution" where
  "erase_bound bound m = fold (\<lambda>(c, t) m. m(Column c t := None)) bound m"

definition look_up :: "substitution \<Rightarrow> replace_memo \<Rightarrow> qexpr \<Rightarrow> (qexpr \<times> replace_memo) build \<Rightarrow>
    (qexpr \<times> replace_memo) build" where
  "look_up m memo e act =
     (case m e of
        Some r \<Rightarrow> ret (r, memo)
      | None \<Rightarrow> (case memo e of Some r \<Rightarrow> ret (r, memo) | None \<Rightarrow> act))"

definition remember :: "qexpr \<Rightarrow> replace_memo \<Rightarrow> qexpr \<Rightarrow> (qexpr \<times> replace_memo) build" where
  "remember e memo r = ret (r, snd (emplace memo e r))"

fun replaceExpr :: "dialect \<Rightarrow> substitution \<Rightarrow> qexpr \<Rightarrow> replace_memo \<Rightarrow> (qexpr \<times> replace_memo) build"
  and replace_each :: "dialect \<Rightarrow> substitution \<Rightarrow> qexpr list \<Rightarrow> replace_memo \<Rightarrow> (qexpr list \<times> replace_memo) build" where
  "replaceExpr D m (Column i t) memo = look_up m memo (Column i t) (ret (Column i t, memo))"
| "replaceExpr D m (Literal i t v) memo = look_up m memo (Literal i t v) (ret (Literal i t v, memo))"
| "replaceExpr D m (Call i n t fs args) memo = look_up m memo (Call i n t fs args)
     (andThen (replace_each D m args memo) (\<lambda>(args', memo').
        andThen (if args' = args then ret (Call i n t fs args) else rebuildCall D (Call i n t fs args) args')
          (remember (Call i n t fs args) memo')))"
| "replaceExpr D m (Field i t base sel) memo = look_up m memo (Field i t base sel)
     (andThen (replaceExpr D m base memo) (\<lambda>(base', memo').
        andThen (if base' = base then ret (Field i t base sel) else rebuildField (Field i t base sel) base')
          (remember (Field i t base sel) memo')))"
| "replaceExpr D m (Lambda i t bound body) memo = look_up m memo (Lambda i t bound body)
     (andThen
        (if \<not> shadowsMapping bound m then replaceExpr D m body memo
         else andThen (replaceExpr D (erase_bound bound m) body Map.empty) (\<lambda>(body', _). ret (body', memo)))
        (\<lambda>(body', memo').
        andThen (if body' = body then ret (Lambda i t bound body) else rebuildLambda (Lambda i t bound body) body')
          (remember (Lambda i t bound body) memo')))"
| "replaceExpr D m (OtherExpr i t cs fs) memo = look_up m memo (OtherExpr i t cs fs) (throw NotSupported)"
| "replace_each D m [] memo = ret ([], memo)"
| "replace_each D m (e # es) memo =
     andThen (replaceExpr D m e memo) (\<lambda>(e', memo').
     andThen (replace_each D m es memo') (\<lambda>(es', memo''). ret (e' # es', memo'')))"

definition replace_in :: "dialect \<Rightarrow> qexpr \<Rightarrow> substitution \<Rightarrow> qexpr build" where
  "replace_in D e m = andThen (replaceExpr D m e Map.empty) (\<lambda>(r, _). ret r)"

definition replace_all :: "dialect \<Rightarrow> qexpr list \<Rightarrow> substitution \<Rightarrow> qexpr list build" where
  "replace_all D es m = andThen (replace_each D m es Map.empty) (\<lambda>(rs, _). ret rs)"

fun add_targets :: "(qexpr \<times> qexpr) list \<Rightarrow> substitution \<Rightarrow> substitution build" where
  "add_targets [] m = ret m"
| "add_targets ((source, target) # ps) m =
     (let (inserted, m') = emplace m source target in
      if inserted \<or> m' source = Some target then add_targets ps m' else throw Conflict)"

definition toSubstitution :: "qexpr list \<Rightarrow> qexpr list \<Rightarrow> substitution build" where
  "toSubstitution sources targets =
     require (length sources = length targets) (add_targets (zip sources targets) Map.empty)"

definition substitute :: "dialect \<Rightarrow> qexpr \<Rightarrow> qexpr list \<Rightarrow> qexpr list \<Rightarrow> qexpr build" where
  "substitute D e sources targets = andThen (toSubstitution sources targets) (replace_in D e)"

definition substitute_all :: "dialect \<Rightarrow> qexpr list \<Rightarrow> qexpr list \<Rightarrow> qexpr list \<Rightarrow> qexpr list build" where
  "substitute_all D es sources targets = andThen (toSubstitution sources targets) (replace_all D es)"

section \<open>Rebuilding keeps the shape of arguments\<close>

definition same_shape :: "qexpr \<Rightarrow> qexpr \<Rightarrow> bool" where
  "same_shape x y \<longleftrightarrow> qe_type y = qe_type x \<and> is_lambda y = is_lambda x \<and> (is_literal x \<longrightarrow> y = x)"

lemma same_shape_refl [simp]: "same_shape x x"
  by (simp add: same_shape_def)

lemma shapes:
  assumes "list_all2 same_shape xs ys"
  shows "map qe_type ys = map qe_type xs" "length ys = length xs" "ys = [] \<longleftrightarrow> xs = []"
    "(\<forall>y\<in>set ys. \<not> is_lambda y) \<longleftrightarrow> (\<forall>x\<in>set xs. \<not> is_lambda x)"
    "(\<forall>y\<in>set ys. qe_type y = t) \<longleftrightarrow> (\<forall>x\<in>set xs. qe_type x = t)"
  using assms by (induction rule: list_all2_induct) (auto simp: same_shape_def)

lemma conditions_shape:
  assumes "list_all2 same_shape xs ys" "conditions_ok t xs"
  shows "conditions_ok t ys"
proof -
  have l: "length ys = length xs" by (rule shapes(2)[OF assms(1)])
  have t: "qe_type (ys ! i) = qe_type (xs ! i)" if "i < length xs" for i
    using list_all2_nthD[OF assms(1) that] by (simp add: same_shape_def)
  show ?thesis using assms(2) t unfolding conditions_ok_def l by presburger
qed

lemma deref_shape:
  assumes "list_all2 same_shape xs ys" "deref_ok t xs"
  shows "deref_ok t ys"
proof -
  obtain base i it k where x: "xs = [base, Literal i it (VInt k)]"
    using assms(2) by (cases "(t, xs)" rule: deref_ok.cases) auto
  then obtain base' where "ys = [base', Literal i it (VInt k)]" "qe_type base' = qe_type base"
    using assms(1) by (auto simp: list_all2_Cons1 same_shape_def)
  then show ?thesis using assms(2) x by simp
qed

lemma form_shape:
  assumes "list_all2 same_shape xs ys" "form_ok D n t xs"
  shows "form_ok D n t ys"
proof -
  note S = shapes[OF assms(1)]
  have two: "(\<exists>x y. ys = [x, y] \<and> qe_type x = qe_type y \<and> \<not> is_lambda x \<and> \<not> is_lambda y) \<longleftrightarrow>
      (\<exists>x y. xs = [x, y] \<and> qe_type x = qe_type y \<and> \<not> is_lambda x \<and> \<not> is_lambda y)"
    using assms(1) by (auto simp: list_all2_Cons1 list_all2_Cons2 same_shape_def)
  have one: "(\<exists>x. ys = [x]) \<longleftrightarrow> (\<exists>x. xs = [x])"
    using assms(1) by (auto simp: list_all2_Cons1 list_all2_Cons2)
  have typed: "(\<exists>x. ys = [x] \<and> qe_type x = BooleanT) \<longleftrightarrow> (\<exists>x. xs = [x] \<and> qe_type x = BooleanT)"
    using assms(1) by (auto simp: list_all2_Cons1 list_all2_Cons2 same_shape_def)
  show ?thesis
    using assms(2) unfolding form_ok_def S two one typed
    by - (elim conjE, intro conjI;
        (assumption | (rule impI, rule conditions_shape[OF assms(1)], erule (1) mp)
          | (rule impI, rule deref_shape[OF assms(1)], erule (1) mp)))
qed

lemma gives_rebuildCall:
  assumes ok: "dialect_ok D" "runtime_ok D R" and wf: "well_formed D \<Gamma> (Call i n t fs args0)" "\<not> nondet fs"
    and args: "form_ok D n t args" "\<forall>a\<in>set args. well_formed D \<Gamma> a \<and> deterministic a"
  shows "gives (rebuildCall D (Call i n t fs args0) args)
    (\<lambda>c. built D \<Gamma> R n t args c \<and> well_formed D \<Gamma> c \<and> deterministic c)"
proof -
  have det: "det_name D n" using well_formed_call_det[OF wf] by blast
  have "built D \<Gamma> R n t args c" if "call_spec D n t args (nondet (unionArgFunctions fs args)) c" for c
    by (rule call_spec_built[OF ok det that]) (use wf(2) in simp)
  moreover have "well_formed D \<Gamma> c \<and> deterministic c" if "built D \<Gamma> R n t args c" for c
    using builtD(3,5)[OF that] args by blast
  ultimately show ?thesis
    unfolding rebuildCall.simps by (intro gives_weaken[OF gives_builder_makeCall]) blast
qed

section \<open>What a replacement means\<close>

text \<open>
  Two rows agree under a mapping when a replacement has, on the first, the value of its source on
  the second, and the other columns have equal values.
\<close>

definition agrees :: "(nat \<Rightarrow> vtype) \<Rightarrow> 'w runtime \<Rightarrow> (nat \<Rightarrow> 'w) \<Rightarrow> substitution \<Rightarrow> env \<Rightarrow> env \<Rightarrow> bool" where
  "agrees \<Gamma> R w m \<rho> \<sigma> \<longleftrightarrow>
     (\<forall>k v. m k = Some v \<longrightarrow> qeval R w v \<rho> = qeval R w k \<sigma>) \<and>
     (\<forall>c. m (Column c (\<Gamma> c)) = None \<longrightarrow> \<rho> c = \<sigma> c)"

text \<open>Replacements are well-formed and deterministic, and have the types of their sources.\<close>

definition mapping_ok :: "dialect \<Rightarrow> (nat \<Rightarrow> vtype) \<Rightarrow> substitution \<Rightarrow> bool" where
  "mapping_ok D \<Gamma> m \<longleftrightarrow>
     (\<forall>k v. m k = Some v \<longrightarrow> well_formed D \<Gamma> v \<and> deterministic v \<and> qe_type v = qe_type k \<and>
        \<not> is_lambda v \<and> \<not> is_lambda k \<and> \<not> is_literal k)"

text \<open>
  Where an expression can be replaced in: no class of expressions the code does not support, and
  no lambda that binds a column of a replacement, or of a source other than the column it binds.
\<close>

definition no_capture :: "(nat \<times> vtype) list \<Rightarrow> substitution \<Rightarrow> bool" where
  "no_capture bound m \<longleftrightarrow>
     (\<forall>k v. erase_bound bound m k = Some v \<longrightarrow>
        (qe_columns k \<union> qe_columns v) \<inter> set (map fst bound) = {})"

fun replaceable :: "substitution \<Rightarrow> qexpr \<Rightarrow> bool" where
  "replaceable m (Call i n t fs args) \<longleftrightarrow>
     m (Call i n t fs args) \<noteq> None \<or> (\<forall>a\<in>set args. replaceable m a)"
| "replaceable m (Field i t base sel) \<longleftrightarrow> m (Field i t base sel) \<noteq> None \<or> replaceable m base"
| "replaceable m (Lambda i t bound body) \<longleftrightarrow>
     no_capture bound m \<and> replaceable (erase_bound bound m) body"
| "replaceable m (OtherExpr i t cs fs) \<longleftrightarrow> m (OtherExpr i t cs fs) \<noteq> None"
| "replaceable m e \<longleftrightarrow> True"

lemma erase_bound_eq:
  "erase_bound bound m k = (if k \<in> (\<lambda>(c, t). Column c t) ` set bound then None else m k)"
proof (induction bound arbitrary: m)
  case (Cons b bound)
  have "erase_bound (b # bound) m = erase_bound bound (m(Column (fst b) (snd b) := None))"
    by (simp add: erase_bound_def case_prod_beta)
  then show ?case using Cons by (cases b) auto
qed (simp add: erase_bound_def)

lemma erase_bound_none: "\<not> shadowsMapping bound m \<Longrightarrow> erase_bound bound m = m"
  by (rule ext) (auto simp: erase_bound_eq shadowsMapping_def list_ex_iff)

lemma mapping_ok_erase: "mapping_ok D \<Gamma> m \<Longrightarrow> mapping_ok D \<Gamma> (erase_bound bound m)"
  by (auto simp: mapping_ok_def erase_bound_eq split: if_splits)

lemma bind_args_other: "c \<notin> set is \<Longrightarrow> bind_args is vs \<rho> c = \<rho> c"
  by (induction "is" vs \<rho> rule: bind_args.induct) auto

lemma agrees_bind:
  assumes "agrees \<Gamma> R w m \<rho> \<sigma>" "no_capture bound m"
  shows "agrees \<Gamma> R w (erase_bound bound m) (bind_args (map fst bound) vs \<rho>) (bind_args (map fst bound) vs \<sigma>)"
  unfolding agrees_def
proof (intro conjI allI impI)
  fix k v assume k: "erase_bound bound m k = Some v"
  then have d: "(qe_columns k \<union> qe_columns v) \<inter> set (map fst bound) = {}" using assms(2) unfolding no_capture_def by blast
  have b: "bind_args (map fst bound) vs \<tau> c = \<tau> c" if "c \<in> qe_columns k \<union> qe_columns v" for c \<tau>
    by (rule bind_args_other) (use d that in blast)
  have "qeval R w v (bind_args (map fst bound) vs \<rho>) = qeval R w v \<rho>"
    by (rule qeval_columns) (simp add: b)
  moreover have "qeval R w k (bind_args (map fst bound) vs \<sigma>) = qeval R w k \<sigma>"
    by (rule qeval_columns) (simp add: b)
  moreover have "qeval R w v \<rho> = qeval R w k \<sigma>"
    using assms(1) k unfolding agrees_def by (auto simp: erase_bound_eq split: if_splits)
  ultimately show "qeval R w v (bind_args (map fst bound) vs \<rho>) = qeval R w k (bind_args (map fst bound) vs \<sigma>)"
    by simp
next
  fix c assume c: "erase_bound bound m (Column c (\<Gamma> c)) = None"
  have "x \<in> {c} - set (map fst bound) \<Longrightarrow> \<rho> x = \<sigma> x" for x
    using assms(1) c unfolding agrees_def by (auto simp: erase_bound_eq image_iff split: if_splits)
  then show "bind_args (map fst bound) vs \<rho> c = bind_args (map fst bound) vs \<sigma> c"
    by (rule bind_args_agree[of "{c}"]) simp_all
qed

definition replaced :: "dialect \<Rightarrow> (nat \<Rightarrow> vtype) \<Rightarrow> 'w runtime \<Rightarrow> substitution \<Rightarrow> qexpr \<Rightarrow> qexpr \<Rightarrow> bool" where
  "replaced D \<Gamma> R m e r \<longleftrightarrow>
     well_formed D \<Gamma> r \<and> deterministic r \<and> same_shape e r \<and>
     qe_columns r \<subseteq> {c \<in> qe_columns e. m (Column c (\<Gamma> c)) = None} \<union> (\<Union>v\<in>ran m. qe_columns v) \<and>
     (\<forall>w \<rho> \<sigma>. agrees \<Gamma> R w m \<rho> \<sigma> \<longrightarrow> qeval R w r \<rho> = qeval R w e \<sigma>)"

lemma replacedI:
  assumes "well_formed D \<Gamma> r" "deterministic r" "same_shape e r"
    "qe_columns r \<subseteq> {c \<in> qe_columns e. m (Column c (\<Gamma> c)) = None} \<union> (\<Union>v\<in>ran m. qe_columns v)"
    "\<And>w \<rho> \<sigma>. agrees \<Gamma> R w m \<rho> \<sigma> \<Longrightarrow> qeval R w r \<rho> = qeval R w e \<sigma>"
  shows "replaced D \<Gamma> R m e r"
  using assms unfolding replaced_def by blast

lemma replacedD:
  assumes "replaced D \<Gamma> R m e r"
  shows "well_formed D \<Gamma> r" "deterministic r" "same_shape e r"
    "qe_columns r \<subseteq> {c \<in> qe_columns e. m (Column c (\<Gamma> c)) = None} \<union> (\<Union>v\<in>ran m. qe_columns v)"
    "agrees \<Gamma> R w m \<rho> \<sigma> \<Longrightarrow> qeval R w r \<rho> = qeval R w e \<sigma>"
  using assms unfolding replaced_def by blast+

definition memo_ok :: "dialect \<Rightarrow> (nat \<Rightarrow> vtype) \<Rightarrow> 'w runtime \<Rightarrow> substitution \<Rightarrow> replace_memo \<Rightarrow> bool" where
  "memo_ok D \<Gamma> R m memo \<longleftrightarrow> (\<forall>e r. memo e = Some r \<longrightarrow> replaced D \<Gamma> R m e r)"

abbreviation replaced_memo where
  "replaced_memo D \<Gamma> R m e \<equiv> \<lambda>(r, memo). replaced D \<Gamma> R m e r \<and> memo_ok D \<Gamma> R m memo"

lemma replace_memo_empty: "memo_ok D \<Gamma> R m Map.empty"
  by (simp add: memo_ok_def)

lemma mapped_replaced:
  assumes "mapping_ok D \<Gamma> m" "m e = Some r"
  shows "replaced D \<Gamma> R m e r"
proof (rule replacedI)
  show "same_shape e r" using assms unfolding mapping_ok_def same_shape_def by blast
  show "qe_columns r \<subseteq> {c \<in> qe_columns e. m (Column c (\<Gamma> c)) = None} \<union> (\<Union>v\<in>ran m. qe_columns v)"
    using assms(2) by (auto simp: ran_def)
qed (use assms in \<open>auto simp: mapping_ok_def agrees_def\<close>)

lemma gives_look_up:
  assumes "mapping_ok D \<Gamma> m" "memo_ok D \<Gamma> R m memo"
    "m e = None \<Longrightarrow> gives act (replaced_memo D \<Gamma> R m e)"
  shows "gives (look_up m memo e act) (replaced_memo D \<Gamma> R m e)"
proof (cases "m e")
  case (Some r)
  then show ?thesis using assms(2) mapped_replaced[OF assms(1) Some] by (auto simp: look_up_def intro: gives_ret)
next
  case None
  then show ?thesis
    using assms(2,3) by (auto simp: look_up_def memo_ok_def intro: gives_ret split: option.splits)
qed

lemma gives_remember:
  assumes "memo_ok D \<Gamma> R m memo" "replaced D \<Gamma> R m e r"
  shows "gives (remember e memo r) (replaced_memo D \<Gamma> R m e)"
  using assms by (auto simp: remember_def emplace_def memo_ok_def intro!: gives_ret split: option.splits if_splits)

lemma replaced_self:
  assumes "well_formed D \<Gamma> e" "deterministic e" "\<And>c. c \<in> qe_columns e \<Longrightarrow> m (Column c (\<Gamma> c)) = None"
  shows "replaced D \<Gamma> R m e e"
proof (rule replacedI)
  show "qeval R w e \<rho> = qeval R w e \<sigma>" if "agrees \<Gamma> R w m \<rho> \<sigma>" for w \<rho> \<sigma>
    by (rule qeval_columns) (use that assms(3) in \<open>auto simp: agrees_def\<close>)
qed (use assms in auto)

lemma replaced_call:
  assumes ok: "runtime_ok D R" and wf: "well_formed D \<Gamma> (Call i n t fs args)" "\<not> nondet fs"
    and args: "list_all2 (replaced D \<Gamma> R m) args args'"
    and c: "built D \<Gamma> R n t args' c" "well_formed D \<Gamma> c" "deterministic c"
  shows "replaced D \<Gamma> R m (Call i n t fs args) c"
proof (rule replacedI)
  have len: "length args' = length args" using args list_all2_lengthD by fastforce
  have r: "replaced D \<Gamma> R m (args ! k) (args' ! k)" if "k < length args" for k
    using list_all2_nthD[OF args that] .
  show "same_shape (Call i n t fs args) c" using builtD(1,6)[OF c(1)] by (auto simp: same_shape_def)
  have "qe_columns a \<subseteq> {c \<in> qe_columns (Call i n t fs args). m (Column c (\<Gamma> c)) = None} \<union> (\<Union>v\<in>ran m. qe_columns v)"
    if "a \<in> set args'" for a
  proof -
    obtain k where k: "k < length args" "a = args' ! k" using \<open>a \<in> set args'\<close> len by (metis in_set_conv_nth)
    have "args ! k \<in> set args" using k(1) by simp
    then show ?thesis using replacedD(4)[OF r[OF k(1)]] unfolding k(2) by fastforce
  qed
  then show "qe_columns c \<subseteq> {c \<in> qe_columns (Call i n t fs args). m (Column c (\<Gamma> c)) = None} \<union> (\<Union>v\<in>ran m. qe_columns v)"
    unfolding builtD(2)[OF c(1)] by blast
  show "qeval R w c \<rho> = qeval R w (Call i n t fs args) \<sigma>" if a: "agrees \<Gamma> R w m \<rho> \<sigma>" for w \<rho> \<sigma>
  proof -
    have "map (\<lambda>a. (qe_type a, qeval R w a \<rho>)) args' = map (\<lambda>a. (qe_type a, qeval R w a \<sigma>)) args"
    proof (rule nth_equalityI)
      fix k assume "k < length (map (\<lambda>a. (qe_type a, qeval R w a \<rho>)) args')"
      then have k: "k < length args" using len by simp
      have "qe_type (args' ! k) = qe_type (args ! k)" using replacedD(3)[OF r[OF k]] by (simp add: same_shape_def)
      moreover have "qeval R w (args' ! k) \<rho> = qeval R w (args ! k) \<sigma>" by (rule replacedD(5)[OF r[OF k] a])
      ultimately show "map (\<lambda>a. (qe_type a, qeval R w a \<rho>)) args' ! k = map (\<lambda>a. (qe_type a, qeval R w a \<sigma>)) args ! k"
        using k len by simp
    qed (simp add: len)
    then show ?thesis
      using meansD[OF builtD(4)[OF c(1)], of w \<rho> "w i"] by (simp del: map_eq_conv)
  qed
qed (use c in auto)

lemma replaced_field:
  assumes b: "replaced D \<Gamma> R m base base'"
  shows "replaced D \<Gamma> R m (Field i t base sel) (Field j t base' sel)"
proof (rule replacedI)
  show "qeval R w (Field j t base' sel) \<rho> = qeval R w (Field i t base sel) \<sigma>" if "agrees \<Gamma> R w m \<rho> \<sigma>" for w \<rho> \<sigma>
    using replacedD(5)[OF b that] by simp
qed (use replacedD(1,2,4)[OF b] in \<open>auto simp: same_shape_def\<close>)

lemma replaced_lambda:
  assumes b: "replaced D \<Gamma> R (erase_bound bound m) body body'" and nc: "no_capture bound m"
    and wf: "\<forall>(c, u)\<in>set bound. \<Gamma> c = u"
  shows "replaced D \<Gamma> R m (Lambda i t bound body) (Lambda j t bound body')"
proof (rule replacedI)
  show "qeval R w (Lambda j t bound body') \<rho> = qeval R w (Lambda i t bound body) \<sigma>" if "agrees \<Gamma> R w m \<rho> \<sigma>" for w \<rho> \<sigma>
    using replacedD(5)[OF b agrees_bind[OF that nc]] by (simp cong: if_cong)
  show "qe_columns (Lambda j t bound body') \<subseteq>
      {c \<in> qe_columns (Lambda i t bound body). m (Column c (\<Gamma> c)) = None} \<union> (\<Union>v\<in>ran m. qe_columns v)"
  proof
    fix c assume "c \<in> qe_columns (Lambda j t bound body')"
    then have c: "c \<in> qe_columns body'" "c \<notin> set (map fst bound)" by auto
    from replacedD(4)[OF b] c(1) have
      "(c \<in> qe_columns body \<and> erase_bound bound m (Column c (\<Gamma> c)) = None) \<or> (\<exists>k v. erase_bound bound m k = Some v \<and> c \<in> qe_columns v)"
      by (auto simp: ran_def)
    then show "c \<in> {c \<in> qe_columns (Lambda i t bound body). m (Column c (\<Gamma> c)) = None} \<union> (\<Union>v\<in>ran m. qe_columns v)"
    proof (elim disjE exE conjE)
      assume d: "c \<in> qe_columns body" "erase_bound bound m (Column c (\<Gamma> c)) = None"
      have "Column c (\<Gamma> c) \<notin> (\<lambda>(c, t). Column c t) ` set bound" using c(2) by force
      then have "m (Column c (\<Gamma> c)) = None" using d(2) by (simp add: erase_bound_eq)
      then show ?thesis using d(1) c(2) by simp
    next
      fix k v assume v: "erase_bound bound m k = Some v" "c \<in> qe_columns v"
      then have "v \<in> ran m" by (auto simp: erase_bound_eq ran_def split: if_splits)
      then show ?thesis using v(2) by blast
    qed
  qed
qed (use replacedD(1,2)[OF b] wf in \<open>auto simp: same_shape_def\<close>)

lemma gives_replace:
  assumes ok: "dialect_ok D" "runtime_ok D R"
  shows "mapping_ok D \<Gamma> m \<Longrightarrow> memo_ok D \<Gamma> R m memo \<Longrightarrow> well_formed D \<Gamma> e \<Longrightarrow> deterministic e \<Longrightarrow> replaceable m e \<Longrightarrow>
      gives (replaceExpr D m e memo) (replaced_memo D \<Gamma> R m e)"
    and "mapping_ok D \<Gamma> m \<Longrightarrow> memo_ok D \<Gamma> R m memo \<Longrightarrow> \<forall>e\<in>set es. well_formed D \<Gamma> e \<and> deterministic e \<and> replaceable m e \<Longrightarrow>
      gives (replace_each D m es memo) (\<lambda>(rs, memo). list_all2 (replaced D \<Gamma> R m) es rs \<and> memo_ok D \<Gamma> R m memo)"
  using ok
proof (induction D m e memo and D m es memo rule: replaceExpr_replace_each.induct)
  case (1 D m i t memo)
  show ?case
    unfolding replaceExpr.simps
    by (rule gives_look_up[OF 1(1,2)], rule gives_ret) (use 1(2,3) in \<open>auto intro!: replaced_self\<close>)
next
  case (2 D m i t v memo)
  show ?case
    unfolding replaceExpr.simps
    by (rule gives_look_up[OF 2(1,2)], rule gives_ret) (use 2(2,3) in \<open>auto intro!: replaced_self\<close>)
next
  case (3 D m i n t fs args memo)
  note ok = 3(7,8)
  show ?case
    unfolding replaceExpr.simps
  proof (rule gives_look_up[OF 3(2,3)])
    assume none: "m (Call i n t fs args) = None"
    have nd: "\<not> nondet fs" using 3(5) by simp
    have as: "\<forall>a\<in>set args. well_formed D \<Gamma> a \<and> deterministic a \<and> replaceable m a"
      using well_formed_call_det[OF 3(4) nd] 3(6) none by auto
    show "gives (andThen (replace_each D m args memo) (\<lambda>(args', memo').
        andThen (if args' = args then ret (Call i n t fs args) else rebuildCall D (Call i n t fs args) args')
          (remember (Call i n t fs args) memo'))) (replaced_memo D \<Gamma> R m (Call i n t fs args))"
    proof (rule gives_andThen[OF 3(1)[OF 3(2,3) as ok]])
      fix x assume x: "case x of (rs, memo) \<Rightarrow> list_all2 (replaced D \<Gamma> R m) args rs \<and> memo_ok D \<Gamma> R m memo"
      obtain args' memo' where p: "x = (args', memo')" by fastforce
      have r: "list_all2 (replaced D \<Gamma> R m) args args'" and mo: "memo_ok D \<Gamma> R m memo'" using x p by auto
      have sh: "list_all2 same_shape args args'"
        by (rule list_all2_mono[OF r]) (rule replacedD(3))
      have wd: "\<forall>a\<in>set args'. well_formed D \<Gamma> a \<and> deterministic a"
        using r replacedD(1,2) by (metis list_all2_conv_all_nth in_set_conv_nth)
      have form: "form_ok D n t args'" by (rule form_shape[OF sh]) (use 3(4) in simp)
      have "gives (if args' = args then ret (Call i n t fs args) else rebuildCall D (Call i n t fs args) args')
          (replaced D \<Gamma> R m (Call i n t fs args))"
      proof (cases "args' = args")
        case True
        have self: "built D \<Gamma> R n t args (Call i n t fs args)"
        proof -
          have "det_name D n" using well_formed_call_det[OF 3(4) nd] by blast
          then have "means R (Call i n t fs args) n t args" by (rule means_cong[OF ok(2)])
          then show ?thesis using 3(4) nd as unfolding built_def by simp
        qed
        show ?thesis unfolding if_P[OF True]
          by (rule gives_ret, rule replaced_call[OF ok(2) 3(4) nd r[unfolded True] self 3(4,5)])
      next
        case False
        show ?thesis unfolding if_not_P[OF False]
          by (rule gives_weaken[OF gives_rebuildCall[OF ok 3(4) nd form wd]])
            (use replaced_call[OF ok(2) 3(4) nd r] in blast)
      qed
      then show "gives (case x of (args', memo') \<Rightarrow>
          andThen (if args' = args then ret (Call i n t fs args) else rebuildCall D (Call i n t fs args) args')
            (remember (Call i n t fs args) memo')) (replaced_memo D \<Gamma> R m (Call i n t fs args))"
        unfolding p prod.case by (rule gives_andThen) (rule gives_remember[OF mo])
    qed
  qed
next
  case (4 D m i t base sel memo)
  note ok = 4(7,8)
  show ?case
    unfolding replaceExpr.simps
  proof (rule gives_look_up[OF 4(2,3)])
    assume none: "m (Field i t base sel) = None"
    have b: "well_formed D \<Gamma> base" "deterministic base" "replaceable m base" using 4(4-6) none by auto
    show "gives (andThen (replaceExpr D m base memo) (\<lambda>(base', memo').
        andThen (if base' = base then ret (Field i t base sel) else rebuildField (Field i t base sel) base')
          (remember (Field i t base sel) memo'))) (replaced_memo D \<Gamma> R m (Field i t base sel))"
    proof (rule gives_andThen[OF 4(1)[OF 4(2,3) b ok]])
      fix x assume x: "replaced_memo D \<Gamma> R m base x"
      obtain base' memo' where p: "x = (base', memo')" by fastforce
      have r: "replaced D \<Gamma> R m base base'" and mo: "memo_ok D \<Gamma> R m memo'" using x p by auto
      have "gives (if base' = base then ret (Field i t base sel) else rebuildField (Field i t base sel) base')
          (replaced D \<Gamma> R m (Field i t base sel))"
        using replaced_field[OF r] by (auto intro!: gives_ret gives_make_object)
      then show "gives (case x of (base', memo') \<Rightarrow>
          andThen (if base' = base then ret (Field i t base sel) else rebuildField (Field i t base sel) base')
            (remember (Field i t base sel) memo')) (replaced_memo D \<Gamma> R m (Field i t base sel))"
        unfolding p prod.case by (rule gives_andThen) (rule gives_remember[OF mo])
    qed
  qed
next
  case (5 D m i t bound body memo)
  note ok = 5(8,9)
  show ?case
    unfolding replaceExpr.simps
  proof (rule gives_look_up[OF 5(3,4)])
    have b: "well_formed D \<Gamma> body" "deterministic body" "replaceable (erase_bound bound m) body" "no_capture bound m"
      "\<forall>(c, u)\<in>set bound. \<Gamma> c = u"
      using 5(5-7) by auto
    let ?act = "if \<not> shadowsMapping bound m then replaceExpr D m body memo
         else andThen (replaceExpr D (erase_bound bound m) body Map.empty) (\<lambda>(body', _). ret (body', memo))"
    have act: "gives ?act (\<lambda>(r, memo). replaced D \<Gamma> R (erase_bound bound m) body r \<and> memo_ok D \<Gamma> R m memo)"
    proof (cases "shadowsMapping bound m")
      case False
      show ?thesis
        using 5(1)[OF False 5(3,4) b(1,2) _ ok] b(3) False by (simp add: erase_bound_none)
    next
      case True
      have "gives (andThen (replaceExpr D (erase_bound bound m) body Map.empty) (\<lambda>(body', _). ret (body', memo)))
          (\<lambda>(r, memo). replaced D \<Gamma> R (erase_bound bound m) body r \<and> memo_ok D \<Gamma> R m memo)"
        by (rule gives_andThen[OF 5(2)[OF _ mapping_ok_erase[OF 5(3)] replace_memo_empty b(1-3) ok]])
          (use True 5(4) in \<open>auto intro!: gives_ret\<close>)
      then show ?thesis using True by simp
    qed
    show "gives (andThen ?act (\<lambda>(body', memo').
        andThen (if body' = body then ret (Lambda i t bound body) else rebuildLambda (Lambda i t bound body) body')
          (remember (Lambda i t bound body) memo'))) (replaced_memo D \<Gamma> R m (Lambda i t bound body))"
    proof (rule gives_andThen[OF act])
      fix x assume x: "case x of (r, memo) \<Rightarrow> replaced D \<Gamma> R (erase_bound bound m) body r \<and> memo_ok D \<Gamma> R m memo"
      obtain body' memo' where p: "x = (body', memo')" by fastforce
      have r: "replaced D \<Gamma> R (erase_bound bound m) body body'" and mo: "memo_ok D \<Gamma> R m memo'" using x p by auto
      have "gives (if body' = body then ret (Lambda i t bound body) else rebuildLambda (Lambda i t bound body) body')
          (replaced D \<Gamma> R m (Lambda i t bound body))"
        using replaced_lambda[OF r b(4,5)] by (auto intro!: gives_ret gives_make_object)
      then show "gives (case x of (body', memo') \<Rightarrow>
          andThen (if body' = body then ret (Lambda i t bound body) else rebuildLambda (Lambda i t bound body) body')
            (remember (Lambda i t bound body) memo')) (replaced_memo D \<Gamma> R m (Lambda i t bound body))"
        unfolding p prod.case by (rule gives_andThen) (rule gives_remember[OF mo])
    qed
  qed
next
  case (6 D m i t cs fs memo)
  then show ?case by (auto intro!: gives_look_up)
next
  case (7 D m memo)
  then show ?case by (auto intro: gives_ret)
next
  case (8 D m e es memo)
  note ok = 8(6,7)
  show ?case
    unfolding replace_each.simps
  proof (rule gives_andThen[OF 8(1)[OF 8(3,4) _ _ _ ok]], goal_cases)
    case (4 x)
    obtain e' memo' where p: "x = (e', memo')" by fastforce
    have r: "replaced D \<Gamma> R m e e'" and mo: "memo_ok D \<Gamma> R m memo'" using 4 p by auto
    have es: "\<forall>e\<in>set es. well_formed D \<Gamma> e \<and> deterministic e \<and> replaceable m e" using 8(5) by simp
    show ?case
      unfolding p prod.case
      by (rule gives_andThen[OF 8(2)[OF 8(3) mo es ok]]) (use r in \<open>auto intro!: gives_ret split: prod.splits\<close>)
  qed (use 8(5) in simp_all)
qed

section \<open>Substitutions\<close>

text \<open>Targets conflict when one source has two.\<close>

definition conflicting :: "(qexpr \<times> qexpr) list \<Rightarrow> bool" where
  "conflicting ps = list_ex (\<lambda>p. list_ex (\<lambda>q. fst p = fst q \<and> snd p \<noteq> snd q) ps) ps"

lemma conflicting_iff: "conflicting ps \<longleftrightarrow> (\<exists>k x y. (k, x) \<in> set ps \<and> (k, y) \<in> set ps \<and> x \<noteq> y)"
  by (simp add: conflicting_def list_ex_iff Bex_def split_paired_Ex)

lemma add_targets_result:
  "add_targets ps m b =
     (if \<exists>k x y. (k, x) \<in> Map.graph m \<union> set ps \<and> (k, y) \<in> Map.graph m \<union> set ps \<and> x \<noteq> y then Inl Conflict
      else Inr (m ++ map_of ps, b))"
proof (induction ps arbitrary: m)
  case Nil
  have "x = y" if "(k, x) \<in> Map.graph m" "(k, y) \<in> Map.graph m" for k x y
    using in_graphD[OF that(1)] in_graphD[OF that(2)] by simp
  then show ?case by (auto simp: ret_def)
next
  case (Cons p ps)
  obtain s t where p: "p = (s, t)" by fastforce
  show ?case
  proof (cases "m s")
    case None
    have g: "Map.graph (m(s \<mapsto> t)) \<union> set ps = Map.graph m \<union> set (p # ps)"
      using fun_upd_idem[of m s None, OF None] by (simp add: p graph_map_upd)
    have step: "add_targets (p # ps) m b = add_targets ps (m(s \<mapsto> t)) b" by (simp add: p emplace_def None)
    have same: "m(s \<mapsto> t) ++ map_of ps = m ++ map_of (p # ps)"
      if "\<not> (\<exists>k x y. (k, x) \<in> Map.graph m \<union> set (p # ps) \<and> (k, y) \<in> Map.graph m \<union> set (p # ps) \<and> x \<noteq> y)"
    proof (rule ext)
      fix k
      show "(m(s \<mapsto> t) ++ map_of ps) k = (m ++ map_of (p # ps)) k"
        using that map_of_SomeD[of ps s] by (cases "map_of ps k") (auto simp: p map_add_def)
    qed
    show ?thesis
      unfolding step Cons.IH[of "m(s \<mapsto> t)", unfolded g]
      by (rule if_cong[OF refl refl], rule arg_cong[of _ _ "\<lambda>x. Inr (x, b)"], rule same)
  next
    case (Some u)
    show ?thesis
    proof (cases "u = t")
      case True
      have g: "Map.graph m \<union> set ps = Map.graph m \<union> set (p # ps)"
        using Some True by (auto simp: p in_graphI)
      have step: "add_targets (p # ps) m b = add_targets ps m b" by (simp add: p emplace_def Some True)
      have same: "m ++ map_of ps = m ++ map_of (p # ps)"
        if "\<not> (\<exists>k x y. (k, x) \<in> Map.graph m \<union> set (p # ps) \<and> (k, y) \<in> Map.graph m \<union> set (p # ps) \<and> x \<noteq> y)"
      proof (rule ext)
        fix k
        show "(m ++ map_of ps) k = (m ++ map_of (p # ps)) k"
          using that map_of_SomeD[of ps s] Some True by (cases "map_of ps k") (auto simp: p map_add_def in_graphI)
      qed
      show ?thesis
        unfolding step Cons.IH[of m, unfolded g]
        by (rule if_cong[OF refl refl], rule arg_cong[of _ _ "\<lambda>x. Inr (x, b)"], rule same)
    next
      case False
      have "(s, u) \<in> Map.graph m" "(s, t) \<in> set (p # ps)" using Some by (auto simp: p in_graphI)
      then show ?thesis using False by (auto simp: p emplace_def Some throw_def)
    qed
  qed
qed

lemma toSubstitution_result:
  "toSubstitution sources targets b =
     (if length sources \<noteq> length targets then Inl CheckFailed
      else if conflicting (zip sources targets) then Inl Conflict
      else Inr (map_of (zip sources targets), b))"
  unfolding toSubstitution_def require_def throw_def add_targets_result conflicting_iff by auto

section \<open>The properties\<close>

lemma gives_replace_in:
  assumes "dialect_ok D" "runtime_ok D R" "mapping_ok D \<Gamma> m" "well_formed D \<Gamma> e" "deterministic e" "replaceable m e"
  shows "gives (replace_in D e m) (replaced D \<Gamma> R m e)"
  unfolding replace_in_def
  by (rule gives_andThen[OF gives_replace(1)[OF assms(1-3) replace_memo_empty assms(4-6)]]) (auto intro: gives_ret)

text \<open>
  C10: Replacing subexpressions of a well-formed deterministic expression returns, for any mapping
  to well-formed deterministic expressions of the same types. The result is well-formed and
  deterministic, has the type of the original, and reads only columns that are no sources and those
  of the replacements. On any row it has the value of the original on a row where the
  sources have the values of their replacements.
\<close>

theorem replace_typed:
  assumes "dialect_ok D" "runtime_ok D R" "builder_ok b" "mapping_ok D \<Gamma> m"
    "well_formed D \<Gamma> e" "deterministic e" "replaceable m e"
  shows "\<exists>r b'. replace_in D e m b = Inr (r, b') \<and> builder_ok b' \<and>
    well_formed D \<Gamma> r \<and> deterministic r \<and> qe_type r = qe_type e \<and>
    qe_columns r \<subseteq> {c \<in> qe_columns e. m (Column c (\<Gamma> c)) = None} \<union> (\<Union>v\<in>ran m. qe_columns v) \<and>
    (\<forall>w \<rho> \<sigma>. agrees \<Gamma> R w m \<rho> \<sigma> \<longrightarrow> qeval R w r \<rho> = qeval R w e \<sigma>)"
  by (rule gives_elim[OF gives_replace_in[OF assms(1,2,4-7)] assms(3)]) (auto simp: replaced_def same_shape_def)

text \<open>The mapping of a substitution of columns, and the rows it relates.\<close>

lemma target_cases:
  assumes "\<forall>s\<in>set sources. \<exists>c. s = Column c (\<Gamma> c)"
    "\<forall>(s, v)\<in>set (zip sources targets). well_formed D \<Gamma> v \<and> deterministic v \<and> \<not> is_lambda v \<and> qe_type v = qe_type s"
    "map_of (zip sources targets) k = Some v"
  obtains c where "k = Column c (\<Gamma> c)" "(k, v) \<in> set (zip sources targets)"
    "well_formed D \<Gamma> v" "deterministic v" "\<not> is_lambda v" "qe_type v = \<Gamma> c"
proof -
  note z = map_of_SomeD[OF assms(3)]
  obtain c where "k = Column c (\<Gamma> c)" using assms(1) set_zip_leftD[OF z] by blast
  then show ?thesis using that[of c] z assms(2) by fastforce
qed

lemma targets_mapping_ok:
  assumes "\<forall>s\<in>set sources. \<exists>c. s = Column c (\<Gamma> c)"
    "\<forall>(s, v)\<in>set (zip sources targets). well_formed D \<Gamma> v \<and> deterministic v \<and> \<not> is_lambda v \<and> qe_type v = qe_type s"
  shows "mapping_ok D \<Gamma> (map_of (zip sources targets))"
  unfolding mapping_ok_def
proof (intro allI impI)
  fix k v assume k: "map_of (zip sources targets) k = Some v"
  show "well_formed D \<Gamma> v \<and> deterministic v \<and> qe_type v = qe_type k \<and>
      \<not> is_lambda v \<and> \<not> is_lambda k \<and> \<not> is_literal k"
    by (rule target_cases[OF assms k]) simp
qed

lemma targets_agree:
  assumes "length sources = length targets"
    "\<forall>s\<in>set sources. \<exists>c. s = Column c (\<Gamma> c)"
    "\<forall>(s, v)\<in>set (zip sources targets). well_formed D \<Gamma> v \<and> deterministic v \<and> \<not> is_lambda v \<and> qe_type v = qe_type s"
    "\<forall>(s, v)\<in>set (zip sources targets). sval (qeval R w v \<rho>) = Some (\<sigma> (qe_id s))"
    "\<forall>c. c \<notin> qe_id ` set sources \<longrightarrow> \<rho> c = \<sigma> c"
  shows "agrees \<Gamma> R w (map_of (zip sources targets)) \<rho> \<sigma>"
  unfolding agrees_def
proof (intro conjI allI impI)
  fix k t assume k: "map_of (zip sources targets) k = Some t"
  obtain c where c: "k = Column c (\<Gamma> c)" "(k, t) \<in> set (zip sources targets)" "\<not> is_lambda t"
    by (rule target_cases[OF assms(2,3) k])
  then have "sval (qeval R w t \<rho>) = Some (\<sigma> c)" using assms(4) by fastforce
  then show "qeval R w t \<rho> = qeval R w k \<sigma>" using qeval_Val[OF c(3), of R w \<rho>] c(1) by simp
next
  fix c assume n: "map_of (zip sources targets) (Column c (\<Gamma> c)) = None"
  have "c \<notin> qe_id ` set sources"
  proof
    assume "c \<in> qe_id ` set sources"
    then obtain s where s: "s \<in> set sources" "c = qe_id s" by blast
    then have "s = Column c (\<Gamma> c)" using assms(2) by fastforce
    then show False using n s(1) assms(1) by (simp add: map_of_zip_is_None)
  qed
  then show "\<rho> c = \<sigma> c" using assms(5) by blast
qed

text \<open>
  C11: Substituting columns fails when the numbers of sources and targets differ, and when a source
  has two different targets. Otherwise it returns an expression whose value on a row is the value
  of the original on the row in which every source column holds the value of its target.
\<close>

theorem substitute_exact:
  assumes "dialect_ok D" "runtime_ok D R" "builder_ok b"
    "well_formed D \<Gamma> e" "deterministic e" "replaceable (map_of (zip sources targets)) e"
    "\<forall>s\<in>set sources. \<exists>c. s = Column c (\<Gamma> c)"
    "\<forall>(s, v)\<in>set (zip sources targets). well_formed D \<Gamma> v \<and> deterministic v \<and> \<not> is_lambda v \<and> qe_type v = qe_type s"
  shows "(length sources \<noteq> length targets \<longrightarrow> substitute D e sources targets b = Inl CheckFailed) \<and>
    (length sources = length targets \<longrightarrow> conflicting (zip sources targets) \<longrightarrow>
       substitute D e sources targets b = Inl Conflict) \<and>
    (length sources = length targets \<longrightarrow> \<not> conflicting (zip sources targets) \<longrightarrow>
       (\<exists>r b'. substitute D e sources targets b = Inr (r, b') \<and> well_formed D \<Gamma> r \<and> qe_type r = qe_type e \<and>
          (\<forall>w \<rho> \<sigma>. (\<forall>(s, v)\<in>set (zip sources targets). sval (qeval R w v \<rho>) = Some (\<sigma> (qe_id s))) \<longrightarrow>
             (\<forall>c. c \<notin> qe_id ` set sources \<longrightarrow> \<rho> c = \<sigma> c) \<longrightarrow> qeval R w r \<rho> = qeval R w e \<sigma>)))"
proof (intro conjI impI)
  show "substitute D e sources targets b = Inl CheckFailed" if "length sources \<noteq> length targets"
    using that by (simp add: substitute_def andThen_def toSubstitution_result)
  show "substitute D e sources targets b = Inl Conflict"
    if "length sources = length targets" "conflicting (zip sources targets)"
    using that by (simp add: substitute_def andThen_def toSubstitution_result)
next
  assume len: "length sources = length targets" and nc: "\<not> conflicting (zip sources targets)"
  obtain r b' where r: "replace_in D e (map_of (zip sources targets)) b = Inr (r, b')"
    "replaced D \<Gamma> R (map_of (zip sources targets)) e r"
    by (rule gives_elim[OF gives_replace_in[OF assms(1,2) targets_mapping_ok[OF assms(7,8)] assms(4-6)] assms(3)])
  have s: "substitute D e sources targets b = Inr (r, b')"
    using r(1) len nc by (simp add: substitute_def andThen_def toSubstitution_result)
  note ag = targets_agree[OF len assms(7,8)]
  show "\<exists>r b'. substitute D e sources targets b = Inr (r, b') \<and> well_formed D \<Gamma> r \<and> qe_type r = qe_type e \<and>
      (\<forall>w \<rho> \<sigma>. (\<forall>(s, v)\<in>set (zip sources targets). sval (qeval R w v \<rho>) = Some (\<sigma> (qe_id s))) \<longrightarrow>
         (\<forall>c. c \<notin> qe_id ` set sources \<longrightarrow> \<rho> c = \<sigma> c) \<longrightarrow> qeval R w r \<rho> = qeval R w e \<sigma>)"
    using s replacedD(1,3)[OF r(2)] replacedD(5)[OF r(2) ag] by (auto simp: same_shape_def)
qed

text \<open>The filter \<open>c0 = 1\<close> with \<open>c0\<close> replaced by \<open>c1\<close>.\<close>

lemma replaceable_col_eq: "replaceable m (col_eq c k)"
  by (simp add: col_eq_def)

lemma replace_typed_witness:
  "\<exists>r b'. replace_in sample_dialect (col_eq 0 1) [Column 0 BigintT \<mapsto> Column 1 BigintT] sample_builder = Inr (r, b') \<and>
     qe_type r = BooleanT \<and> qe_columns r \<subseteq> {1}"
proof -
  have m: "mapping_ok sample_dialect bigints [Column 0 BigintT \<mapsto> Column 1 BigintT]"
    by (auto simp: mapping_ok_def bigints_def split: if_splits)
  show ?thesis
    using replace_typed[OF sample_dialect_ok sample_runtime_ok sample_builder_ok m _ _ replaceable_col_eq, of 0 1]
      col_eq_ok[of 0 1] by (fastforce simp: pred_def col_eq_simps bigints_def split: if_splits)
qed

lemma substitute_exact_witness:
  "\<exists>r b'. substitute sample_dialect (col_eq 0 1) [Column 0 BigintT] [Column 1 BigintT] sample_builder = Inr (r, b') \<and>
     sval (qeval sample_runtime (\<lambda>_. 0) r sample_row) = Some (VBool False)"
proof -
  have nc: "\<not> conflicting (zip [Column 0 BigintT] [Column 1 BigintT])" by (simp add: conflicting_def)
  obtain r b' where r: "substitute sample_dialect (col_eq 0 1) [Column 0 BigintT] [Column 1 BigintT] sample_builder = Inr (r, b')"
    "\<forall>w \<rho> \<sigma>. (\<forall>(s, v)\<in>set (zip [Column 0 BigintT] [Column 1 BigintT]). sval (qeval sample_runtime w v \<rho>) = Some (\<sigma> (qe_id s))) \<longrightarrow>
       (\<forall>c. c \<notin> qe_id ` set [Column 0 BigintT] \<longrightarrow> \<rho> c = \<sigma> c) \<longrightarrow>
       qeval sample_runtime w r \<rho> = qeval sample_runtime w (col_eq 0 1) \<sigma>"
    using substitute_exact[OF sample_dialect_ok sample_runtime_ok sample_builder_ok, where sources="[Column 0 BigintT]"
        and targets="[Column 1 BigintT]" and \<Gamma>=bigints and e="col_eq 0 1"] nc col_eq_ok[of 0 1]
    by (auto simp: pred_def bigints_def replaceable_col_eq)
  have "qeval sample_runtime (\<lambda>_. 0) r sample_row = qeval sample_runtime (\<lambda>_. 0) (col_eq 0 1) (sample_row(0 := VInt 2))"
    by (rule r(2)[rule_format]) (auto simp: sample_row_def)
  then have "sval (qeval sample_runtime (\<lambda>_. 0) r sample_row) = Some (VBool False)"
    by (simp add: col_eq_value sample_eq_int)
  then show ?thesis using r(1) by blast
qed

end
