(* ===== verification/Spec2Isabelle.thy ===== *)
theory Spec2Isabelle
  imports Relation_Set Bit_Set Range_Domain Function_Registry Expr_Domain Name_Mappings Name_Allocator Join_Enforcement Join_Cover Interval_Parser Join_Type DPhyp_Complete Implied_Filters_Exact Expr_Replace
begin

text \<open>
  Verification of the query optimizer of Axiom.

  \<^bold>\<open>The program.\<close> Axiom is a library for building SQL front ends on the Velox execution engine. SQL
  text is parsed (\<^verbatim>\<open>sql/presto\<close>) to a logical plan (\<^verbatim>\<open>logical_plan\<close>), the optimizer
  (\<^verbatim>\<open>optimizer\<close>, its second version in \<^verbatim>\<open>optimizer/v2\<close>) turns the logical plan into a tree of
  nodes over interned expressions, rewrites it, orders its joins, places exchanges and emits a
  plan for a runner. This development models the parts of the optimizer that decide what a plan
  means: sets of objects, value domains, function semantics, names, interned expressions and
  their rewrites, and the ordering of joins.

  \<^bold>\<open>The theories and the code they model\<close> (paths under \<^verbatim>\<open>src/axiom\<close>):
  \<^item> \<open>Prelude\<close>: results of code that throws (\<open>Inl\<close> is the exception, \<open>Inr\<close> the value), the
    check that models the \<^verbatim>\<open>VELOX_CHECK\<close> family, shared collections of rewrite rules.
  \<^item> \<open>Id_Set\<close>, \<open>Relation_Set\<close>, \<open>Bit_Set\<close>: the locale every id set satisfies, and its two
    implementations: \<^verbatim>\<open>optimizer/v2/RelationSet.h\<close>, one 64-bit word, and
    \<^verbatim>\<open>optimizer/BitSet.h\<close>, a growing vector of words.
  \<^item> \<open>Range_Domain\<close>: ranges and domains of \<^verbatim>\<open>optimizer/Domain.h\<close> as sets of values.
  \<^item> \<open>Function_Registry\<close>: \<^verbatim>\<open>optimizer/FunctionRegistry.h\<close>, the roles functions play (equality,
    negation, comparison) and the properties recorded as bits.
  \<^item> \<open>Expr_Domain\<close>: \<^verbatim>\<open>optimizer/Domain.cpp\<close>, the domain a filter implies for a column.
  \<^item> \<open>Name_Mappings\<close>: \<^verbatim>\<open>logical_plan/NameMappings.h\<close>, the scope of column names.
  \<^item> \<open>Decimal\<close>, \<open>Name_Allocator\<close>: \<^verbatim>\<open>logical_plan/NameAllocator.h\<close> and the fresh names of
    \<^verbatim>\<open>optimizer/QueryGraphContext.cpp\<close>.
  \<^item> \<open>Interval_Parser\<close>: \<^verbatim>\<open>sql/presto/IntervalParser.cpp\<close>, with arithmetic on 64 bits.
  \<^item> \<open>Equivalence_Closure\<close>, \<open>Join_Hypergraph\<close>, \<open>Join_Enforcement\<close>, \<open>Join_Cover\<close>:
    \<^verbatim>\<open>optimizer/v2/JoinHypergraph.cpp\<close>, the graph of relations and join edges of a join cluster,
    its closure of equalities, the edges that cross a partition and whether the edges applied
    enforce all, and the columns of a subplan.
  \<^item> \<open>Join_Type\<close>: the static members of \<open>Join\<close> in \<^verbatim>\<open>optimizer/v2/Node.h\<close>, against the rows a
    join of each type returns.
  \<^item> \<open>Physical_Properties\<close>, \<open>Join_Partitioning\<close>: how rows are distributed over workers
    (\<^verbatim>\<open>optimizer/v2/PhysicalProperties.h\<close>, \<^verbatim>\<open>JoinPartitioning.h\<close>).
  \<^item> \<open>Plan_Set\<close>: \<^verbatim>\<open>optimizer/v2/MemoOp.h\<close>, \<^verbatim>\<open>PlanSet.cpp\<close>, the plans kept for a set of relations.
  \<^item> \<open>DPhyp_Candidates\<close>, \<open>DPhyp\<close>: \<^verbatim>\<open>optimizer/v2/DPhyp.cpp\<close>, the enumerator of join orders;
    \<open>DPhyp_Plans\<close>, \<open>DPhyp_Enumeration\<close>, \<open>DPhyp_Complete\<close> hold its proofs.
  \<^item> \<open>Query_Expr\<close>: the interned expressions of \<^verbatim>\<open>optimizer/QueryGraph.h\<close>, the interning of
    literals and calls in \<^verbatim>\<open>optimizer/v2/Builder.cpp\<close>, and \<^verbatim>\<open>optimizer/v2/ExprFactory.cpp\<close>. Every
    operation takes the builder and returns it changed, or an error. An expression carries the
    id of its object, so equality is the code's equality of pointers.
  \<^item> \<open>Expr_Semantics\<close>: what expressions mean on a row, for any functions that satisfy the
    contracts of a runtime, and the total correctness (\<open>gives\<close>) of the factory;
    \<open>Sample_Runtime\<close>: a runtime that satisfies them, for the witnesses.
  \<^item> \<open>Expr_Replace\<close>: the replacement of subexpressions and the substitution of columns, of
    \<^verbatim>\<open>optimizer/v2/ExprFactory.cpp\<close>, with the record of rewrites that shares them.
  \<^item> \<open>Implied_Filters\<close>, \<open>Implied_Filters_Exact\<close>: \<^verbatim>\<open>optimizer/v2/ImpliedFilters.cpp\<close>, the filters that
    other filters and the keys of a join imply, and which of them are derived.
  Classes are records, enums are datatypes, methods that change an object return the changed
  record, loops are recursion with a measure, and code that throws returns a sum.

  \<^bold>\<open>How the parts interact.\<close> The hypergraph and the enumerator keep relations in \<open>Relation_Set\<close>
  words, through the laws of the locale \<open>Id_Set\<close> interpreted on them. The function registry
  supplies the names \<open>Expr_Domain\<close> compares with. The enumerator walks a finished hypergraph:
  it asks \<open>Join_Enforcement\<close> which edges cross a partition, \<open>Join_Cover\<close> which columns a subplan
  has, \<open>Join_Type\<close> and \<open>Join_Partitioning\<close> which exchanges a join needs, and keeps the plans it
  makes in a \<open>Plan_Set\<close> per set of relations.

  \<^bold>\<open>What is shown.\<close>
  \<^item> The id sets refine mathematical sets, with every operation and its failures.
  \<^item> Domain algebra is exact on sets of values, equality of domains is exact on the positions of any
    order, and the domain of a filter holds every value the filter accepts.
  \<^item> The registry answers for the first registration of a slot (the last one of equality and
    negation), keeps registrations and is unchanged by a failed one; the bits of a call are
    exactly those it implies. Name scopes resolve as the SQL rules say, a merge of two scopes also
    fixes the output names; fresh names are fresh.
  \<^item> The interval parser accepts exactly its language, never overflows silently, and reads back
    what is printed.
  \<^item> The closure of equalities decides the equivalence its pairs generate and keeps the best
    representative of each class.
  \<^item> The hypergraph keeps its invariant; its consistency check, its components, the edges that
    cross a partition and the check that edges are enforced are decided exactly.
  \<^item> Join types: a broadcast, an exchange and a swap of the inputs keep the rows of the join, and the
    tables of preserved sides, marks, sides emitted once and empty joins are exact. A partitioning
    that co-locates keys has each group of rows whole in one place; if it replicates nulls, those
    rows are in the other places as well.
  \<^item> The representative of a column of a cover is the preferred column among those that the keys of
    the joins inside the cover make equal.
  \<^item> Every plan of the enumerator reads each relation once and enforces each edge, for any cost
    model; on simple inner graphs the search finds a plan for every connected set.
  \<^item> Filters derived for columns and for the inputs of a join accept every row their sources
    accept, and every OR whose branches all restrict a group has one; the equalities derived from
    the keys of a join hold exactly when the keys they replace are equal.
  \<^item> Replacing subexpressions keeps types and well-formedness, and a substituted expression has
    the value of the original on the row that holds the targets.

  \<^bold>\<open>Parameters and bounds.\<close> Words are 64 bits wide where the code's are (\<open>Relation_Set\<close>,
  \<open>Bit_Set\<close>, the interval parser); ids of objects and sizes of vectors are unbounded. Loops
  that may repeat are recursive functions with a proved measure, so no fuel is used. The Velox
  function registry, Velox types and variants, hash functions, the cost model and connector
  partitionings are parameters, with their documented contracts as hypotheses. The functions that
  evaluate expressions are a record \<open>runtime\<close>: the contract \<open>runtime_ok\<close> states the SQL meaning of the
  special forms, of equality, negation and \<^verbatim>\<open>is_null\<close>, that a function the registry calls
  deterministic is, and that failures of arguments are not hidden, except by \<^verbatim>\<open>TRY\<close>. A failing
  argument of equality fails the call even where the other is NULL, which is of no account to whether a
  filter accepts a row. A debug check (\<^verbatim>\<open>VELOX_DCHECK\<close>) is modelled as a check, with these
  exceptions: the range checks of \<^verbatim>\<open>RelationSet.h\<close> are hypotheses of its laws, and two checks of
  \<^verbatim>\<open>DPhyp.cpp\<close> are left out because the callers make them true, that the cover of an unnest
  candidate is the combined one (\<open>emitUnnest\<close>) and that there is more than one worker (\<open>partitioningsOn\<close>). Memo entries are values, with their children inside,
  so the lifetime of the entries the code owns is not modelled. Hash maps are maps, except where
  their order can be seen.

  \<^bold>\<open>Not modelled.\<close> The SQL grammar and its generated parser, and the builders from its syntax tree;
  the logical plan classes and their builder, visitors and printers; the first optimizer
  (\<^verbatim>\<open>optimizer/*.cpp\<close> other than the files above); the passes of the second optimizer over whole
  plans (translation, decorrelation, pushdown, physical planning, emission) and their estimates;
  connectors, the runner, the command line and the Python binding. They are glue around the
  parts modelled here, call into Velox for most of what they do, or transform node classes whose
  semantics is that of Velox operators.
\<close>

end
